(* ===== verification/Prelude.thy ===== *)
theory Prelude
  imports Main "HOL-Library.Word" "HOL-Library.Signed_Division"
begin

section \<open>Prelude: machine words shared by all components\<close>

text \<open>
  The word types of the C sources, and the generic facts on them that the components use:
  a double-width word joined from two halves (\<^const>\<open>word_cat\<close>) and how sums, differences,
  products and shifts act on the halves, the schoolbook multiplication, the signed reading of
  a word, truncating division by magnitudes, modular addition and division by parts.
\<close>

unbundle bit_operations_syntax

type_synonym u8 = "8 word"
type_synonym u16 = "16 word"
type_synonym u32 = "32 word"
type_synonym u64 = "64 word"
type_synonym u128 = "128 word"

abbreviation double_width :: "'a::len itself \<Rightarrow> 'b::len itself \<Rightarrow> bool" where
  "double_width a b \<equiv> LENGTH('b) = LENGTH('a) + LENGTH('a)"

definition hi_part :: "'a::len word \<Rightarrow> 'b::len word" where
  "hi_part h = push_bit LENGTH('a) (ucast h)"

lemma word_cat_hi_part:
  "(word_cat h l :: 'b::len word) = hi_part (h :: 'a::len word) + ucast (l :: 'a word)"
  by (simp add: word_cat_eq hi_part_def)

lemma hi_part_of_int:
  assumes "double_width TYPE('a::len) TYPE('b::len)"
  shows "hi_part (word_of_int x :: 'a word) = (word_of_int (x * 2 ^ LENGTH('a)) :: 'b word)"
proof -
  have "uint (hi_part (word_of_int x :: 'a word) :: 'b word)
      = push_bit LENGTH('a) (x mod 2 ^ LENGTH('a)) mod 2 ^ LENGTH('b)"
    using assms unfolding hi_part_def unsigned_push_bit_eq
    by (simp add: unsigned_ucast_eq uint_word_of_int take_bit_eq_mod mod_mod_cancel
      mod_pos_pos_trivial [OF _ order.strict_trans2 [OF pos_mod_bound]] le_imp_power_dvd)
  also have "\<dots> = (x * 2 ^ LENGTH('a)) mod 2 ^ LENGTH('b)"
    unfolding assms push_bit_eq_mult by (metis mod_mult_mult2 power_add mod_mod_trivial)
  finally show ?thesis
    unfolding word_uint_eq_iff uint_word_of_int .
qed

lemma hi_part_add:
  assumes "double_width TYPE('a::len) TYPE('b::len)"
  shows "hi_part (x + y :: 'a word) = (hi_part x + hi_part y :: 'b word)"
  by (metis assms hi_part_of_int distrib_right word_of_int_uint wi_hom_syms(1))

lemma hi_part_sub:
  assumes "double_width TYPE('a::len) TYPE('b::len)"
  shows "hi_part (x - y :: 'a word) = (hi_part x - hi_part y :: 'b word)"
  by (metis assms hi_part_add add_diff_cancel diff_add_cancel)

lemma hi_part_mult:
  assumes "double_width TYPE('a::len) TYPE('b::len)"
  shows "hi_part (x * y :: 'a word) = (hi_part x * ucast y :: 'b word)"
proof -
  have "hi_part (word_of_int (uint x * uint y) :: 'a word)
      = (word_of_int (uint x * 2 ^ LENGTH('a)) * word_of_int (uint y) :: 'b word)"
    by (subst hi_part_of_int [OF assms]) (simp only: wi_hom_syms(3) ac_simps)
  also have "word_of_int (uint x * 2 ^ LENGTH('a)) = (hi_part x :: 'b word)"
    by (metis assms hi_part_of_int word_of_int_uint)
  also have "(word_of_int (uint y) :: 'b word) = ucast y"
    by (simp add: unsigned_def)
  finally show ?thesis by simp
qed

lemma hi_part_0 [simp]: "hi_part 0 = 0"
  by (simp add: hi_part_def)

lemma hi_part_1: "hi_part (1 :: 'a::len word) = (2 ^ LENGTH('a) :: 'b::len word)"
  by (simp add: hi_part_def push_bit_eq_mult)

lemma hi_part_uminus:
  assumes "double_width TYPE('a::len) TYPE('b::len)"
  shows "hi_part (- x :: 'a word) = (- hi_part x :: 'b word)"
  using hi_part_sub [OF assms, of 0 x] by simp

lemma ucast_add_carry:
  assumes "double_width TYPE('a::len) TYPE('b::len)"
  shows "(ucast (x + y :: 'a word) :: 'b word)
    = ucast x + ucast y - (if x + y < x then 2 ^ LENGTH('a) else 0)"
proof -
  have u: "uint (x + y) = uint x + uint y - (if x + y < x then 2 ^ LENGTH('a) else 0)"
    using uint_plus_if' [of x y] unsigned_less [of x] unsigned_less [of y]
    by (auto simp: word_less_def)
  have "(word_of_int (uint (x + y)) :: 'b word)
      = word_of_int (uint x) + word_of_int (uint y)
        - word_of_int (if x + y < x then 2 ^ LENGTH('a) else 0)"
    unfolding u by simp
  then show ?thesis by (auto simp: unsigned_def split: if_splits)
qed

lemma ucast_sub_borrow:
  assumes "double_width TYPE('a::len) TYPE('b::len)"
  shows "(ucast (x - y :: 'a word) :: 'b word)
    = ucast x - ucast y + (if x - y > x then 2 ^ LENGTH('a) else 0)"
proof -
  have u: "uint (x - y) = uint x - uint y + (if x - y > x then 2 ^ LENGTH('a) else 0)"
    using uint_sub_if' [of x y] unsigned_less [of x] unsigned_less [of y]
    by (auto simp: word_less_def)
  have "(word_of_int (uint (x - y)) :: 'b word)
      = word_of_int (uint x) - word_of_int (uint y)
        + word_of_int (if x - y > x then 2 ^ LENGTH('a) else 0)"
    unfolding u by simp
  then show ?thesis by (auto simp: unsigned_def split: if_splits)
qed

lemma unat_word_cat:
  assumes "double_width TYPE('a::len) TYPE('b::len)"
  shows "unat (word_cat h l :: 'b word) = unat (h :: 'a word) * 2 ^ LENGTH('a) + unat (l :: 'a word)"
proof -
  have "unat h * 2 ^ LENGTH('a) + unat l < (2 ^ LENGTH('b) :: nat)"
  proof -
    have "unat h * 2 ^ LENGTH('a) + unat l < Suc (unat h) * 2 ^ LENGTH('a)"
      using unsigned_less [of l] by simp
    also have "\<dots> \<le> 2 ^ LENGTH('a) * 2 ^ LENGTH('a)"
      using unsigned_less [of h] by (intro mult_le_mono1) (simp add: Suc_le_eq)
    finally show ?thesis by (simp add: assms power_add)
  qed
  moreover have "(word_cat h l :: 'b word) = of_nat (unat h * 2 ^ LENGTH('a) + unat l)"
    by (simp add: word_cat_eq push_bit_eq_mult)
  ultimately show ?thesis
    by (simp add: unat_of_nat del: of_nat_add of_nat_mult)
qed

lemma word_cat_eq_iff:
  assumes "double_width TYPE('a::len) TYPE('b::len)"
  shows "(word_cat h l :: 'b word) = word_cat h' l' \<longleftrightarrow> (h :: 'a word) = h' \<and> (l :: 'a word) = l'"
proof
  assume "(word_cat h l :: 'b word) = word_cat h' l'"
  then have "unat h * 2 ^ LENGTH('a) + unat l = unat h' * 2 ^ LENGTH('a) + unat l'"
    using unat_word_cat [OF assms] by metis
  then have "(unat h * 2 ^ LENGTH('a) + unat l) div 2 ^ LENGTH('a) = (unat h' * 2 ^ LENGTH('a) + unat l') div 2 ^ LENGTH('a)"
    and "(unat h * 2 ^ LENGTH('a) + unat l) mod 2 ^ LENGTH('a) = (unat h' * 2 ^ LENGTH('a) + unat l') mod 2 ^ LENGTH('a)"
    by simp_all
  then show "h = h' \<and> l = l'" by (simp add: word_unat_eq_iff)
qed simp

lemma word_cat_less_iff:
  assumes "double_width TYPE('a::len) TYPE('b::len)"
  shows "(word_cat h l :: 'b word) < word_cat h' l' \<longleftrightarrow>
    (h :: 'a word) < h' \<or> h = h' \<and> (l :: 'a word) < l'"
proof -
  have *: "x * 2 ^ LENGTH('a) + y < x' * 2 ^ LENGTH('a) + y'"
    if "x < x'" "y < 2 ^ LENGTH('a)" for x x' y y' :: nat
  proof -
    have "x * 2 ^ LENGTH('a) + y < Suc x * 2 ^ LENGTH('a)" using that by simp
    also have "\<dots> \<le> x' * 2 ^ LENGTH('a)" using that by (intro mult_le_mono1) simp
    finally show ?thesis by simp
  qed
  show ?thesis
    using * [of "unat h" "unat h'" "unat l" "unat l'"] * [of "unat h'" "unat h" "unat l'" "unat l"]
    by (cases "unat h" "unat h'" rule: linorder_cases)
      (auto simp: word_less_nat_alt word_unat_eq_iff unat_word_cat [OF assms])
qed

text \<open>Signed reading of a word by its sign bit.\<close>

lemma sint_if:
  "sint (w :: 'a::len word) = (if bit w (LENGTH('a) - 1) then uint w - 2 ^ LENGTH('a) else uint w)"
proof -
  have "Suc (LENGTH('a) - Suc 0) = LENGTH('a)" by simp
  then show ?thesis
    by (simp add: sint_uint signed_take_bit_eq_take_bit_minus bit_unsigned_iff
        take_bit_int_eq_self_iff del: Suc_pred')
qed

lemma sless_0_bit: "(w :: 'a::len word) <s 0 \<longleftrightarrow> bit w (LENGTH('a) - 1)"
  by (simp add: word_sless_alt bit_last_iff)

lemma scast_carry:
  "(scast (x :: 'a::len word) :: 'b::len word) = ucast x - (if x <s 0 then 2 ^ LENGTH('a) else 0)"
proof -
  have "scast x = (word_of_int (sint x) :: 'b word)" by (simp add: signed_def)
  then show ?thesis
    by (simp add: sint_if sless_0_bit unsigned_def)
qed

lemma hi_part_ucast: "hi_part (x :: 'a::len word) = (ucast x * 2 ^ LENGTH('a) :: 'b::len word)"
  by (simp add: hi_part_def push_bit_eq_mult)

lemma hi_part_hi_part:
  assumes "double_width TYPE('a::len) TYPE('b::len)"
  shows "hi_part (x :: 'a word) * hi_part (y :: 'a word) = (0 :: 'b word)"
proof -
  have "(2 ^ LENGTH('a) * 2 ^ LENGTH('a) :: 'b word) = 2 ^ LENGTH('b)"
    by (simp only: assms power_add)
  also have "\<dots> = 0" by (rule word_exp_length_eq_0)
  finally show ?thesis unfolding hi_part_ucast by (metis mult.assoc mult.commute mult_zero_right)
qed

lemma sless_by_sign:
  "(a :: 'a::len word) <s b \<longleftrightarrow>
    (if a <s 0 \<and> \<not> b <s 0 then True else if \<not> a <s 0 \<and> b <s 0 then False else a < b)"
proof -
  have s: "sint x = (if x <s 0 then uint x - 2 ^ LENGTH('a) else uint x)" for x :: "'a word"
    by (simp add: sless_0_bit sint_if)
  have key: "(if p then A - M else A) < (if q then B - M else B) \<longleftrightarrow>
      (if p \<and> \<not> q then True else if \<not> p \<and> q then False else A < B)"
    if "0 \<le> A" "A < M" "0 \<le> B" "B < M" for A B M :: int and p q
    using that by auto
  show ?thesis
    unfolding word_sless_alt [of a b] s word_less_def
    by (rule key) (rule unsigned_greater_eq unsigned_less)+
qed

text \<open>Truncating division by way of magnitudes.\<close>

lemma uint_magnitude: "uint (if w <s 0 then - w else w :: 'a::len word) = \<bar>sint w\<bar>"
proof -
  have nz: "w <s 0 \<Longrightarrow> w \<noteq> 0" by auto
  have "uint (- w) = 2 ^ LENGTH('a) - uint w" if "w \<noteq> 0"
  proof -
    have "\<not> uint w \<le> 0" using that by (metis order_antisym uint_0_iff unsigned_greater_eq)
    then show ?thesis using uint_sub_if' [of 0 w] by simp
  qed
  moreover have "uint w < 2 ^ LENGTH('a)" by (rule unsigned_less)
  ultimately show ?thesis
    using nz by (auto simp: sint_if sless_0_bit abs_if)
qed

lemma magnitudes_div_mod:
  fixes n d :: "'a::len word"
  shows "(if n <s 0 then - n else n) div (if d <s 0 then - d else d)
      = word_of_int (\<bar>sint n\<bar> div \<bar>sint d\<bar>)"
    and "(if n <s 0 then - n else n) mod (if d <s 0 then - d else d)
      = word_of_int (\<bar>sint n\<bar> mod \<bar>sint d\<bar>)"
  by (metis uint_div_distrib uint_magnitude word_of_int_uint)
     (metis uint_mod_distrib uint_magnitude word_of_int_uint)

lemma sdiv_by_magnitudes:
  fixes n d :: "'a::len word"
  assumes "q = (if n <s 0 then - n else n) div (if d <s 0 then - d else d)"
  shows "(if (n <s 0) \<noteq> (d <s 0) then - q else q) = word_of_int (sint n sdiv sint d)"
  unfolding assms magnitudes_div_mod
  by (auto simp: signed_divide_int_def word_sless_alt sgn_if)

lemma smod_by_magnitudes:
  fixes n d :: "'a::len word"
  assumes "r = (if n <s 0 then - n else n) mod (if d <s 0 then - d else d)"
  shows "(if n <s 0 then - r else r) = word_of_int (sint n smod sint d)"
  unfolding assms magnitudes_div_mod
  by (auto simp: signed_modulo_int_def word_sless_alt sgn_if)

text \<open>Shifts of a joined word in terms of its halves.\<close>

lemma push_bit_word_cat_low:
  assumes W: "double_width TYPE('a::len) TYPE('b::len)" and s: "s < LENGTH('a)"
  shows "push_bit s (word_cat h l :: 'b word)
    = word_cat (push_bit s (h :: 'a word) OR drop_bit (LENGTH('a) - s) (l :: 'a word)) (push_bit s l)"
proof (rule bit_word_eqI)
  fix i assume "i < LENGTH('b)"
  with W s show "bit (push_bit s (word_cat h l :: 'b word)) i =
      bit (word_cat (push_bit s h OR drop_bit (LENGTH('a) - s) l) (push_bit s l) :: 'b word) i"
    by (cases "i < LENGTH('a)"; cases "s \<le> i - LENGTH('a)")
       (auto simp: bit_simps add.commute dest: bit_imp_le_length)
qed

lemma push_bit_word_cat_high:
  assumes W: "double_width TYPE('a::len) TYPE('b::len)" and s: "LENGTH('a) \<le> s"
  shows "push_bit s (word_cat h l :: 'b word)
    = word_cat (push_bit (s - LENGTH('a)) (l :: 'a word)) (0 :: 'a word)"
proof (rule bit_word_eqI)
  fix i assume "i < LENGTH('b)"
  with W s show "bit (push_bit s (word_cat h l :: 'b word)) i =
      bit (word_cat (push_bit (s - LENGTH('a)) l) (0 :: 'a word) :: 'b word) i"
    by (cases "i < LENGTH('a)"; cases "s \<le> i")
       (auto simp: bit_simps add.commute dest: bit_imp_le_length)
qed

lemma drop_bit_word_cat_low:
  assumes W: "double_width TYPE('a::len) TYPE('b::len)" and s: "s < LENGTH('a)"
  shows "drop_bit s (word_cat h l :: 'b word)
    = word_cat (drop_bit s (h :: 'a word)) (drop_bit s l OR push_bit (LENGTH('a) - s) h)"
proof (rule bit_word_eqI)
  fix i assume "i < LENGTH('b)"
  with W s show "bit (drop_bit s (word_cat h l :: 'b word)) i =
      bit (word_cat (drop_bit s h) (drop_bit s l OR push_bit (LENGTH('a) - s) h) :: 'b word) i"
    by (cases "i < LENGTH('a)"; cases "s + i < LENGTH('a)")
       (auto simp: bit_simps add.commute dest: bit_imp_le_length)
qed

lemma drop_bit_word_cat_high:
  assumes W: "double_width TYPE('a::len) TYPE('b::len)" and s: "LENGTH('a) \<le> s"
  shows "drop_bit s (word_cat h (l :: 'a word) :: 'b word)
    = word_cat (0 :: 'a word) (drop_bit (s - LENGTH('a)) (h :: 'a word))"
proof (rule bit_word_eqI)
  fix i assume "i < LENGTH('b)"
  with W s show "bit (drop_bit s (word_cat h l :: 'b word)) i =
      bit (word_cat (0 :: 'a word) (drop_bit (s - LENGTH('a)) h) :: 'b word) i"
    by (cases "i < LENGTH('a)")
       (auto simp: bit_simps add.commute dest: bit_imp_le_length)
qed

lemma signed_drop_bit_word_cat_low:
  assumes W: "double_width TYPE('a::len) TYPE('b::len)" and s: "s < LENGTH('a)"
  shows "signed_drop_bit s (word_cat h l :: 'b word)
    = word_cat (signed_drop_bit s (h :: 'a word)) (drop_bit s l OR push_bit (LENGTH('a) - s) h)"
proof (rule bit_word_eqI)
  fix i assume "i < LENGTH('b)"
  with W s show "bit (signed_drop_bit s (word_cat h l :: 'b word)) i =
      bit (word_cat (signed_drop_bit s h) (drop_bit s l OR push_bit (LENGTH('a) - s) h) :: 'b word) i"
    by (cases "i < LENGTH('a)"; cases "s + i < LENGTH('a)")
       (auto simp: bit_signed_drop_bit_iff bit_simps add.commute dest: bit_imp_le_length)
qed

lemma signed_drop_bit_word_cat_high:
  assumes W: "double_width TYPE('a::len) TYPE('b::len)" and s: "LENGTH('a) \<le> s"
  shows "signed_drop_bit s (word_cat h (l :: 'a word) :: 'b word)
    = word_cat (signed_drop_bit (LENGTH('a) - 1) h) (signed_drop_bit (s - LENGTH('a)) (h :: 'a word))"
proof (rule bit_word_eqI)
  fix i assume "i < LENGTH('b)"
  with W s show "bit (signed_drop_bit s (word_cat h l :: 'b word)) i =
      bit (word_cat (signed_drop_bit (LENGTH('a) - 1) h) (signed_drop_bit (s - LENGTH('a)) h) :: 'b word) i"
    by (cases "i = LENGTH('a)"; cases "i < LENGTH('a)"; cases "s + i < LENGTH('b)")
       (auto simp: bit_signed_drop_bit_iff bit_simps add.commute dest: bit_imp_le_length)
qed
lemma signed_drop_bit_signed_drop_bit:
  "signed_drop_bit m (signed_drop_bit n w) = signed_drop_bit (m + n) (w :: 'a::len word)"
  by (rule bit_word_eqI) (auto simp: bit_signed_drop_bit_iff ac_simps)

lemma signed_drop_bit_sign: "signed_drop_bit m (signed_drop_bit (LENGTH('a) - 1) w)
    = signed_drop_bit (LENGTH('a) - 1) (w :: 'a::len word)"
  by (rule bit_word_eqI) (auto simp: bit_signed_drop_bit_iff Suc_le_eq)

lemma drop_bit_or_sign:
  fixes w :: "'a::len word"
  assumes "0 < m" and "m < LENGTH('a)"
  shows "drop_bit m w OR push_bit (LENGTH('a) - m) (signed_drop_bit (LENGTH('a) - 1) w)
    = signed_drop_bit m w"
proof (rule bit_word_eqI)
  fix i assume "i < LENGTH('a)"
  with assms show "bit (drop_bit m w OR push_bit (LENGTH('a) - m) (signed_drop_bit (LENGTH('a) - 1) w)) i
      = bit (signed_drop_bit m w) i"
    by (cases "LENGTH('a) - m \<le> i"; cases "LENGTH('a) - m = i")
       (auto simp: bit_signed_drop_bit_iff bit_simps dest: bit_imp_le_length)
qed

text \<open>Disjoint halves may be added instead of or-ed.\<close>

lemma push_bit_add_drop_bit:
  fixes h l :: "'a::len word"
  assumes "0 < m" and "m < LENGTH('a)"
  shows "push_bit m h + drop_bit (LENGTH('a) - m) l = push_bit m h OR drop_bit (LENGTH('a) - m) l"
  using assms
  by (intro disjunctive_add_eq_or bit_word_eqI) (auto simp: bit_simps dest: bit_imp_le_length)

lemma drop_bit_add_push_bit:
  fixes h l :: "'a::len word"
  assumes "0 < m" and "m < LENGTH('a)"
  shows "drop_bit m l + push_bit (LENGTH('a) - m) h = drop_bit m l OR push_bit (LENGTH('a) - m) h"
  using assms
  by (intro disjunctive_add_eq_or bit_word_eqI) (auto simp: bit_simps dest: bit_imp_le_length)

text \<open>Schoolbook multiplication of two words from the products of their halves.\<close>

lemma schoolbook_mult:
  fixes a b :: "'a::len word"
  assumes W: "double_width TYPE('a) TYPE('b::len)" and q: "LENGTH('a) = q + q"
    and r0: "r0 = take_bit q a * take_bit q b"
    and r1: "r1 = take_bit q a * drop_bit q b + drop_bit q r0 + r2"
    and r2: "r2 = drop_bit q a * take_bit q b"
    and r3: "r3 = drop_bit q a * drop_bit q b"
  shows "word_cat (r3 + (if r1 < r2 then 2 ^ q else 0) + drop_bit q r1)
      (push_bit q (take_bit q r1) + take_bit q r0) = (ucast a * ucast b :: 'b word)"
proof -
  define N :: nat where "N = 2 ^ q"
  have N: "2 ^ LENGTH('a) = N * N" by (simp add: N_def q power_add)
  have tb: "unat (take_bit q x) = unat x mod N" for x :: "'a word"
    unfolding N_def unsigned_take_bit_eq by (simp add: take_bit_eq_mod)
  have db: "unat (drop_bit q x) = unat x div N" for x :: "'a word"
    unfolding N_def unat_drop_bit_eq by (simp add: drop_bit_eq_div)
  have lt: "unat x div N < N" "unat x mod N < N" for x :: "'a word"
  proof -
    have "unat x < N * N" by (metis N unsigned_less)
    then show "unat x div N < N" by (rule less_mult_imp_div_less)
  qed (simp add: N_def)
  let ?al = "unat a mod N" and ?ah = "unat a div N" and ?bl = "unat b mod N" and ?bh = "unat b div N"
  have prod: "x * y \<le> (N - 1) * (N - 1)" if "x < N" "y < N" for x y
    using that by (intro mult_le_mono) simp_all
  have small: "(N - 1) * (N - 1) + (N - 1) < N * N"
    using lt(2) [of a] by (cases N) simp_all
  have pr: "x * y < N * N" if "x < N" "y < N" for x y
    using prod [OF that] small by linarith
  have u0: "unat r0 = ?al * ?bl" and u2: "unat r2 = ?ah * ?bl" and u3: "unat r3 = ?ah * ?bh"
    unfolding r0 r2 r3 unat_word_ariths N tb db using lt pr by (simp_all add: mod_less)
  define s where "s = take_bit q a * drop_bit q b + drop_bit q r0"
  have us: "unat s = ?al * ?bh + unat r0 div N"
  proof -
    have "?al * ?bh + unat r0 div N < N * N"
      using prod [OF lt(2) [of a] lt(1) [of b]] lt(1) [of r0] small by linarith
    then show ?thesis
      unfolding s_def unat_word_ariths N tb db by simp
  qed
  define P :: "'b word" where "P = of_nat N"
  have PP: "2 ^ LENGTH('a) = P * P" by (simp add: P_def N_def q power_add)
  have U: "(ucast x :: 'b word) = of_nat (unat x)" for x :: "'a word" by simp
  have car: "(ucast r1 :: 'b word) = ucast s + ucast r2 - (if r1 < r2 then P * P else 0)"
    using ucast_add_carry [OF W, of r2 s] unfolding r1 s_def [symmetric]
    by (simp add: add.commute PP)
  have split: "(ucast x :: 'b word) = ucast (drop_bit q x) * P + ucast (take_bit q x)" for x :: "'a word"
    unfolding U tb db P_def of_nat_mult [symmetric] of_nat_add [symmetric] by simp
  have low: "(ucast (push_bit q (take_bit q r1) + take_bit q r0) :: 'b word)
      = ucast (take_bit q r1) * P + ucast (take_bit q r0)"
  proof -
    have *: "unat r1 mod N * N + unat r0 mod N < N * N"
    proof -
      have "unat r1 mod N * N + unat r0 mod N < Suc (unat r1 mod N) * N" using lt(2) [of r0] by simp
      also have "\<dots> \<le> N * N" using lt(2) [of r1] by (intro mult_le_mono1) (simp add: Suc_le_eq)
      finally show ?thesis .
    qed
    have "push_bit q (take_bit q r1) + take_bit q r0 = (of_nat (unat r1 mod N * N + unat r0 mod N) :: 'a word)"
      by (simp add: push_bit_eq_mult N_def flip: tb [unfolded N_def])
    then have "unat (push_bit q (take_bit q r1) + take_bit q r0) = unat r1 mod N * N + unat r0 mod N"
      using * by (simp add: unat_of_nat N del: of_nat_add of_nat_mult)
    then show ?thesis unfolding U tb P_def by simp
  qed
  have "unat (2 ^ q :: 'a word) = N"
  proof -
    have "0 < q" using q len_gt_0 [where 'a = 'a] by (cases q) simp_all
    then have "1 < N" unfolding N_def by (rule one_less_power [rotated]) simp
    then have "N < N * N" by simp
    moreover have "(2 ^ q :: 'a word) = of_nat N" by (simp add: N_def)
    ultimately show ?thesis by (simp add: unat_of_nat N)
  qed
  then have "(ucast (2 ^ q :: 'a word) :: 'b word) = P" unfolding P_def by (metis U)
  then have hc: "hi_part (if r1 < r2 then 2 ^ q else 0 :: 'a word)
      = (if r1 < r2 then P * P * P else 0 :: 'b word)"
    unfolding hi_part_ucast PP by (simp add: ac_simps)
  have "word_cat (r3 + (if r1 < r2 then 2 ^ q else 0) + drop_bit q r1)
      (push_bit q (take_bit q r1) + take_bit q r0)
    = ucast r3 * (P * P) + (if r1 < r2 then P * P * P else 0) + ucast r1 * P + ucast (take_bit q r0)"
    unfolding word_cat_hi_part hi_part_add [OF W] low hc
    unfolding hi_part_ucast PP
    by (subst split [of r1]) (simp add: algebra_simps)
  also have "\<dots> = ucast r3 * (P * P) + (ucast s + ucast r2) * P + ucast (take_bit q r0)"
    by (simp add: car algebra_simps)
  also have "\<dots> = of_nat (?ah * ?bh * (N * N) + (?al * ?bh + ?al * ?bl div N + ?ah * ?bl) * N
      + ?al * ?bl mod N)"
    unfolding U us u0 u2 u3 tb P_def by simp
  also have "?ah * ?bh * (N * N) + (?al * ?bh + ?al * ?bl div N + ?ah * ?bl) * N + ?al * ?bl mod N
    = (?ah * N + ?al) * (?bh * N + ?bl)"
  proof -
    have "?al * ?bl div N * N + ?al * ?bl mod N = ?al * ?bl" by simp
    then show ?thesis by (simp only: algebra_simps)
  qed
  also have "(?ah * N + ?al) * (?bh * N + ?bl) = unat a * unat b" by simp
  finally show ?thesis by simp
qed

text \<open>Modular addition, division by parts and widths of casts.\<close>

lemma unat_mod_add:
  fixes a b den :: "'a::len word"
  assumes "a < den" "b < den"
  shows "(\<not> a + b < den \<or> a + b < b) \<longleftrightarrow> unat den \<le> unat a + unat b"
    and "unat (if \<not> a + b < den \<or> a + b < b then a + b - den else a + b) = (unat a + unat b) mod unat den"
proof -
  define M :: nat where "M = 2 ^ LENGTH('a)"
  have lt: "unat a < unat den" "unat b < unat den" using assms by (simp_all add: word_less_nat_alt)
  have dM: "unat den < M" unfolding M_def by (rule unsigned_less)
  have sum: "unat (a + b) = (if unat a + unat b < M then unat a + unat b else unat a + unat b - M)"
    unfolding M_def by (rule unat_plus_if')
  show iff: "(\<not> a + b < den \<or> a + b < b) \<longleftrightarrow> unat den \<le> unat a + unat b"
    unfolding word_less_nat_alt sum using lt dM by auto
  have "unat (a + b - den) = unat a + unat b - unat den" if "unat den \<le> unat a + unat b"
  proof -
    have "a + b - den = of_nat (unat a + unat b - unat den)" using that by simp
    moreover have "unat a + unat b - unat den < M" using lt dM by linarith
    ultimately show ?thesis by (simp add: unat_of_nat M_def del: of_nat_add of_nat_diff)
  qed
  moreover have "(unat a + unat b) mod unat den = (if unat den \<le> unat a + unat b then unat a + unat b - unat den else unat a + unat b)"
    using lt by (simp add: le_mod_geq)
  moreover have "unat (a + b) = unat a + unat b" if "\<not> unat den \<le> unat a + unat b"
    using that dM by (simp add: sum)
  ultimately show "unat (if \<not> a + b < den \<or> a + b < b then a + b - den else a + b) = (unat a + unat b) mod unat den"
    unfolding iff by simp
qed

lemma div_below_double: "(x :: nat) < 2 * d \<Longrightarrow> x div d = of_bool (d \<le> x)"
  by (cases "d \<le> x") (simp_all add: le_div_geq)

lemma mod_below_double: "d \<le> (x :: nat) \<Longrightarrow> x < 2 * d \<Longrightarrow> x mod d = x - d"
  by (simp add: le_mod_geq)

lemma quotient_by_parts:
  fixes n d q m s :: nat
  assumes n: "n = q * d + m + s" and s: "s < 2 * d"
  shows "n div d = q + m div d + of_bool (d \<le> s) + of_bool (d \<le> s mod d + m mod d)"
    and "n mod d = (s mod d + m mod d) mod d"
proof -
  have d: "0 < d" using s by simp
  have "s div d = of_bool (d \<le> s)"
    using s by (rule div_below_double)
  moreover have "(s mod d + m mod d) div d = of_bool (d \<le> s mod d + m mod d)"
  proof -
    have "s mod d + m mod d < 2 * d" using mod_less_divisor [OF d, of s] mod_less_divisor [OF d, of m] by linarith
    then show ?thesis by (rule div_below_double)
  qed
  moreover have "n div d = q + (m + s) div d" using d n by (simp add: add.assoc)
  moreover have "(m + s) div d = m div d + s div d + (s mod d + m mod d) div d"
    by (simp only: div_add1_eq [of m s d] add.commute)
  ultimately show "n div d = q + m div d + of_bool (d \<le> s) + of_bool (d \<le> s mod d + m mod d)" by simp
  show "n mod d = (s mod d + m mod d) mod d"
  proof -
    have "n mod d = (m + s) mod d" unfolding n add.assoc by (rule mod_mult_self3)
    also have "\<dots> = (s mod d + m mod d) mod d" by (simp only: add.commute [of m s] mod_add_eq)
    finally show ?thesis .
  qed
qed

lemma unat_ucast_mod: "unat (ucast (w :: 'a::len word) :: 'b::len word) = unat w mod 2 ^ LENGTH('b)"
  by (simp add: unsigned_ucast_eq take_bit_eq_mod)

lemma unat_drop_bit: "unat (drop_bit n w) = unat w div 2 ^ n"
  unfolding unat_drop_bit_eq by (rule drop_bit_eq_div)

lemma word_of_natI: "unat (w :: 'a::len word) = n \<Longrightarrow> w = of_nat n"
  by auto

lemma mult_div_split:
  assumes "0 < (b :: nat)"
  shows "a * m div b = a div b * m + a mod b * m div b"
proof -
  have "(q * b + r) * m = r * m + q * m * b" for q r by (simp add: algebra_simps)
  from this [of "a div b" "a mod b"] have "a * m = a mod b * m + a div b * m * b" by simp
  then show ?thesis using assms by simp
qed

end
