(* ===== verification/Wideint_Div.thy ===== *)
theory Wideint_Div
  imports Prelude
begin

section \<open>The bit-at-a-time division as an interface\<close>

text \<open>
  The contract under which the bit-at-a-time division of \<^verbatim>\<open>cairo-wideint.c\<close> is correct.  The file
  contains that algorithm twice, over the 64-bit and over the 128-bit struct; both are
  instances of the locale below.
\<close>

locale shift_subtract =
  fixes abs :: "'w \<Rightarrow> 'n::len word"
    and lt :: "'w \<Rightarrow> 'w \<Rightarrow> bool"
    and sub add :: "'w \<Rightarrow> 'w \<Rightarrow> 'w"
    and lsl1 rsl1 :: "'w \<Rightarrow> 'w"
    and msb_set nonzero :: "'w \<Rightarrow> bool"
    and normalize :: "'w \<Rightarrow> 'w \<Rightarrow> 'w \<Rightarrow> ('w \<times> 'w) option"
    and generate :: "'w \<Rightarrow> 'w \<Rightarrow> 'w \<Rightarrow> 'w \<Rightarrow> ('w \<times> 'w) option"
  assumes lt_abs: "lt a b \<longleftrightarrow> abs a < abs b"
    and sub_abs: "abs (sub a b) = abs a - abs b"
    and add_abs: "abs (add a b) = abs a + abs b"
    and lsl1_abs: "abs (lsl1 a) = push_bit 1 (abs a)"
    and rsl1_abs: "abs (rsl1 a) = drop_bit 1 (abs a)"
    and msb_abs: "msb_set a \<longleftrightarrow> bit (abs a) (LENGTH('n) - 1)"
    and nonzero_abs: "nonzero a \<longleftrightarrow> abs a \<noteq> 0"
    and normalize_eq: "normalize num bt den =
      (if lt den num \<and> \<not> msb_set den then normalize num (lsl1 bt) (lsl1 den) else Some (bt, den))"
    and generate_eq: "generate num quo bt den =
      (if nonzero bt
       then let (num, quo) = (if \<not> lt num den then (sub num den, add quo bt) else (num, quo))
            in generate num quo (rsl1 bt) (rsl1 den)
       else Some (quo, num))"
begin

lemma msb_iff: "msb_set a \<longleftrightarrow> 2 ^ (LENGTH('n) - 1) \<le> unat (abs a)"
proof -
  have "bit (abs a) (LENGTH('n) - 1) \<longleftrightarrow> bit (unat (abs a)) (LENGTH('n) - 1)"
    by (simp add: bit_unsigned_iff)
  moreover have "unat (abs a) div 2 ^ (LENGTH('n) - 1) < 2"
  proof -
    have "unat (abs a) < 2 ^ LENGTH('n)" by (rule unsigned_less)
    also have "\<dots> = 2 * 2 ^ (LENGTH('n) - 1)"
      by (metis len_gt_0 power_eq_if neq0_conv)
    finally show ?thesis by (simp add: less_mult_imp_div_less)
  qed
  ultimately have "msb_set a \<longleftrightarrow> unat (abs a) div 2 ^ (LENGTH('n) - 1) \<noteq> 0"
    unfolding msb_abs by (auto simp: bit_iff_odd [of "unat (abs a)"] less_2_cases_iff)
  also have "\<dots> \<longleftrightarrow> 2 ^ (LENGTH('n) - 1) \<le> unat (abs a)"
    by (simp add: div_eq_0_iff not_less)
  finally show ?thesis .
qed

lemma unat_lsl1:
  assumes "\<not> msb_set a"
  shows "unat (abs (lsl1 a)) = 2 * unat (abs a)"
proof -
  have "2 * unat (abs a) < 2 * 2 ^ (LENGTH('n) - 1)"
    using assms by (simp add: msb_iff)
  also have "2 * 2 ^ (LENGTH('n) - 1) = (2 :: nat) ^ LENGTH('n)"
    by (metis len_gt_0 power_eq_if neq0_conv)
  finally show ?thesis
    unfolding lsl1_abs unsigned_push_bit_eq
    by (simp add: push_bit_eq_mult take_bit_eq_mod mult.commute)
qed

lemma unat_rsl1: "unat (abs (rsl1 a)) = unat (abs a) div 2"
  unfolding rsl1_abs unat_drop_bit_eq by (simp add: drop_bit_eq_div)

text \<open>The first loop scales divisor and quotient bit by the same power of two.\<close>

lemma normalize_scales:
  assumes "abs den \<noteq> 0" and "unat (abs bt) \<le> unat (abs den)"
  shows "\<exists>bt' den' k. normalize num bt den = Some (bt', den')
    \<and> unat (abs bt') = unat (abs bt) * 2 ^ k \<and> unat (abs den') = unat (abs den) * 2 ^ k
    \<and> unat (abs num) < 2 * unat (abs den')"
  using assms
proof (induction "2 ^ LENGTH('n) - unat (abs den)" arbitrary: bt den rule: less_induct)
  case less
  have pos: "0 < unat (abs den)" using less.prems(1) by (simp add: unat_gt_0)
  show ?case
  proof (cases "lt den num \<and> \<not> msb_set den")
    case True
    then have den: "unat (abs (lsl1 den)) = 2 * unat (abs den)" by (simp add: unat_lsl1)
    have "\<not> msb_set bt"
      using True less.prems(2) by (simp add: msb_iff)
    then have bt: "unat (abs (lsl1 bt)) = 2 * unat (abs bt)" by (rule unat_lsl1)
    have "2 ^ LENGTH('n) - unat (abs (lsl1 den)) < 2 ^ LENGTH('n) - unat (abs den)"
      unfolding den using pos unsigned_less [of "abs den"] by (intro diff_less_mono2) simp_all
    moreover have "abs (lsl1 den) \<noteq> 0" using den pos by (auto simp flip: unat_gt_0)
    moreover have "unat (abs (lsl1 bt)) \<le> unat (abs (lsl1 den))"
      using less.prems(2) den bt by simp
    ultimately obtain bt' den' k where
      "normalize num (lsl1 bt) (lsl1 den) = Some (bt', den')"
      "unat (abs bt') = unat (abs (lsl1 bt)) * 2 ^ k"
      "unat (abs den') = unat (abs (lsl1 den)) * 2 ^ k"
      "unat (abs num) < 2 * unat (abs den')"
      using less.hyps by blast
    with True den bt show ?thesis
      by (subst normalize_eq) (auto intro!: exI [of _ "Suc k"])
  next
    case False
    then have "normalize num bt den = Some (bt, den)" by (subst normalize_eq) auto
    moreover have "unat (abs num) < 2 * unat (abs den)"
    proof (cases "msb_set den")
      case True
      have "unat (abs num) < 2 ^ LENGTH('n)" by (rule unsigned_less)
      also have "\<dots> = 2 * 2 ^ (LENGTH('n) - 1)" by (metis len_gt_0 power_eq_if neq0_conv)
      also have "\<dots> \<le> 2 * unat (abs den)" using True by (simp add: msb_iff)
      finally show ?thesis .
    next
      case False
      with \<open>\<not> (lt den num \<and> \<not> msb_set den)\<close> have "unat (abs num) \<le> unat (abs den)"
        by (simp add: lt_abs word_less_nat_alt not_less)
      with pos show ?thesis by simp
    qed
    ultimately show ?thesis by (intro exI [of _ bt] exI [of _ den] exI [of _ 0]) simp
  qed
qed

text \<open>The second loop produces the quotient bits below the current one.\<close>

lemma generate_step:
  assumes "unat (abs bt) = 2 ^ k" and "unat (abs den) = d * 2 ^ k"
    and "unat (abs num) < 2 * (d * 2 ^ k)" and "0 < d"
    and "unat (abs quo) + unat (abs num) div d < 2 ^ LENGTH('n)"
  shows "\<exists>num' quo'. generate num quo bt den = generate num' quo' (rsl1 bt) (rsl1 den)
    \<and> unat (abs num') < d * 2 ^ k
    \<and> unat (abs quo') + unat (abs num') div d = unat (abs quo) + unat (abs num) div d
    \<and> unat (abs num') mod d = unat (abs num) mod d"
proof -
  have nz: "nonzero bt" using assms(1) by (auto simp: nonzero_abs)
  show ?thesis
  proof (cases "lt num den")
    case True
    then have "unat (abs num) < d * 2 ^ k" by (simp add: lt_abs word_less_nat_alt assms(2))
    with True nz show ?thesis by (subst generate_eq) auto
  next
    case False
    then have le: "unat (abs den) \<le> unat (abs num)"
      by (simp add: lt_abs word_less_nat_alt)
    have num': "unat (abs (sub num den)) = unat (abs num) - d * 2 ^ k"
      using le by (simp add: sub_abs unat_sub word_le_nat_alt assms(2))
    obtain r where r: "unat (abs num) = r + d * 2 ^ k"
      using le assms(2) by (metis add.commute le_Suc_ex)
    have q: "unat (abs num) div d = r div d + 2 ^ k"
      using assms(4) by (simp add: r)
    have "unat (abs quo) + 2 ^ k < 2 ^ LENGTH('n)"
      using assms(5) by (simp add: q)
    then have quo': "unat (abs (add quo bt)) = unat (abs quo) + 2 ^ k"
      by (simp add: add_abs unat_word_ariths assms(1))
    have "generate num quo bt den = generate (sub num den) (add quo bt) (rsl1 bt) (rsl1 den)"
      using False nz by (subst generate_eq) simp
    moreover have "unat (abs (sub num den)) < d * 2 ^ k" using num' assms(3) le assms(2) by simp
    ultimately show ?thesis using num' quo' r q by (intro exI conjI) auto
  qed
qed

lemma generate_quotient:
  assumes "unat (abs bt) = 2 ^ k" and "unat (abs den) = d * 2 ^ k"
    and "unat (abs num) < 2 * (d * 2 ^ k)" and "0 < d"
    and "unat (abs quo) + unat (abs num) div d < 2 ^ LENGTH('n)"
  shows "\<exists>quo' num'. generate num quo bt den = Some (quo', num')
    \<and> unat (abs quo') = unat (abs quo) + unat (abs num) div d
    \<and> unat (abs num') = unat (abs num) mod d"
  using assms
proof (induction k arbitrary: num quo bt den)
  case 0
  from generate_step [OF 0] obtain num' quo' where
    step: "generate num quo bt den = generate num' quo' (rsl1 bt) (rsl1 den)"
    and lt: "unat (abs num') < d"
    and eqs: "unat (abs quo') + unat (abs num') div d = unat (abs quo) + unat (abs num) div d"
      "unat (abs num') mod d = unat (abs num) mod d"
    by auto
  have "\<not> nonzero (rsl1 bt)"
    using unat_rsl1 [of bt] 0(1) by (simp add: nonzero_abs unat_eq_0)
  then have "generate num quo bt den = Some (quo', num')"
    unfolding step by (subst generate_eq) simp
  with lt eqs show ?case by simp
next
  case (Suc k)
  from generate_step [OF Suc.prems] obtain num' quo' where
    step: "generate num quo bt den = generate num' quo' (rsl1 bt) (rsl1 den)"
    and lt: "unat (abs num') < d * 2 ^ Suc k"
    and eqs: "unat (abs quo') + unat (abs num') div d = unat (abs quo) + unat (abs num) div d"
      "unat (abs num') mod d = unat (abs num) mod d"
    by blast
  have "\<exists>quo'' num''. generate num' quo' (rsl1 bt) (rsl1 den) = Some (quo'', num'')
    \<and> unat (abs quo'') = unat (abs quo') + unat (abs num') div d
    \<and> unat (abs num'') = unat (abs num') mod d"
  proof (rule Suc.IH)
    show "unat (abs (rsl1 bt)) = 2 ^ k" using Suc.prems(1) by (simp add: unat_rsl1)
    show "unat (abs (rsl1 den)) = d * 2 ^ k" using Suc.prems(2) by (simp add: unat_rsl1)
    show "unat (abs num') < 2 * (d * 2 ^ k)" using lt by simp
  qed (use Suc.prems eqs in simp_all)
  with step eqs show ?case by simp
qed

text \<open>Both loops together compute quotient and remainder.\<close>

lemma divides:
  assumes "abs den \<noteq> 0" and "unat (abs one) = 1" and "abs zero = 0"
  shows "\<exists>bt' den' quo rem. normalize num one den = Some (bt', den')
    \<and> generate num zero bt' den' = Some (quo, rem)
    \<and> abs quo = abs num div abs den \<and> abs rem = abs num mod abs den"
proof -
  have pos: "0 < unat (abs den)" using assms(1) by (simp add: unat_gt_0)
  obtain bt' den' k where norm: "normalize num one den = Some (bt', den')"
    "unat (abs bt') = 2 ^ k" "unat (abs den') = unat (abs den) * 2 ^ k"
    "unat (abs num) < 2 * unat (abs den')"
    using normalize_scales [of den one num] assms pos by auto
  have "unat (abs num) div unat (abs den) < 2 ^ LENGTH('n)"
    by (rule le_less_trans [OF div_le_dividend unsigned_less])
  then obtain quo rem where gen: "generate num zero bt' den' = Some (quo, rem)"
    "unat (abs quo) = unat (abs num) div unat (abs den)"
    "unat (abs rem) = unat (abs num) mod unat (abs den)"
    using generate_quotient [of bt' k den' "unat (abs den)" num zero] norm pos assms(3) by auto
  have "abs quo = abs num div abs den" "abs rem = abs num mod abs den"
    using gen(2,3) by (simp_all add: word_unat_eq_iff unat_div_distrib unat_mod_distrib)
  with norm(1) gen(1) show ?thesis by blast
qed

end

end
