(* ===== verification/Wideint64.thy ===== *)
theory Wideint64
  imports Wideint_Div
begin

section \<open>cairo-wideint.c: 64-bit integers as pairs of 32-bit words\<close>

text \<open>
  The branch of \<^verbatim>\<open>src/core/model/cairo-wideint.c\<close> for machines without a 64-bit type: a
  \<^verbatim>\<open>cairo_uint64_t\<close> is a struct of two 32-bit words, and \<^verbatim>\<open>cairo_int64_t\<close> is the same struct
  read in two's complement.  \<open>abs64\<close> reads the struct as a 64-bit word; every operation is
  shown to implement the word operation.  Shift counts are \<open>nat\<close>; the C code is undefined
  for counts of 64 and more, which the theorems exclude.
\<close>

record cairo_uint64 =
  u64lo :: u32
  u64hi :: u32

definition cairo_uint32_to_uint64 :: "u32 \<Rightarrow> cairo_uint64" where
  "cairo_uint32_to_uint64 i = \<lparr>u64lo = i, u64hi = 0\<rparr>"

definition cairo_int32_to_int64 :: "u32 \<Rightarrow> cairo_uint64" where
  "cairo_int32_to_int64 i = \<lparr>u64lo = i, u64hi = (if i <s 0 then - 1 else 0)\<rparr>"

definition cairo_uint32s_to_uint64 :: "u32 \<Rightarrow> u32 \<Rightarrow> cairo_uint64" where
  "cairo_uint32s_to_uint64 h l = \<lparr>u64lo = l, u64hi = h\<rparr>"

definition cairo_uint64_add :: "cairo_uint64 \<Rightarrow> cairo_uint64 \<Rightarrow> cairo_uint64" where
  "cairo_uint64_add a b =
    (let s = \<lparr>u64lo = u64lo a + u64lo b, u64hi = u64hi a + u64hi b\<rparr>
     in if u64lo s < u64lo a then s\<lparr>u64hi := u64hi s + 1\<rparr> else s)"

definition cairo_uint64_sub :: "cairo_uint64 \<Rightarrow> cairo_uint64 \<Rightarrow> cairo_uint64" where
  "cairo_uint64_sub a b =
    (let s = \<lparr>u64lo = u64lo a - u64lo b, u64hi = u64hi a - u64hi b\<rparr>
     in if u64lo s > u64lo a then s\<lparr>u64hi := u64hi s - 1\<rparr> else s)"

definition uint32_lo :: "u32 \<Rightarrow> u32" where
  "uint32_lo i = i AND 0xffff"

definition uint32_hi :: "u32 \<Rightarrow> u32" where
  "uint32_hi i = drop_bit 16 i"

definition uint32_carry16 :: u32 where
  "uint32_carry16 = push_bit 16 1"

definition cairo_uint32x32_64_mul :: "u32 \<Rightarrow> u32 \<Rightarrow> cairo_uint64" where
  "cairo_uint32x32_64_mul a b =
    (let al = ucast (uint32_lo a) :: u16; ah = ucast (uint32_hi a) :: u16;
         bl = ucast (uint32_lo b) :: u16; bh = ucast (uint32_hi b) :: u16;
         r0 = ucast al * ucast bl :: u32;
         r1 = ucast al * ucast bh :: u32;
         r2 = ucast ah * ucast bl :: u32;
         r3 = ucast ah * ucast bh :: u32;
         r1 = r1 + uint32_hi r0;
         r1 = r1 + r2;
         r3 = (if r1 < r2 then r3 + uint32_carry16 else r3)
     in \<lparr>u64lo = push_bit 16 (uint32_lo r1) + uint32_lo r0, u64hi = r3 + uint32_hi r1\<rparr>)"

definition cairo_int32x32_64_mul :: "u32 \<Rightarrow> u32 \<Rightarrow> cairo_uint64" where
  "cairo_int32x32_64_mul a b =
    (let s = cairo_uint32x32_64_mul a b;
         s = (if a <s 0 then s\<lparr>u64hi := u64hi s - b\<rparr> else s);
         s = (if b <s 0 then s\<lparr>u64hi := u64hi s - a\<rparr> else s)
     in s)"

definition cairo_uint64_mul :: "cairo_uint64 \<Rightarrow> cairo_uint64 \<Rightarrow> cairo_uint64" where
  "cairo_uint64_mul a b =
    (let s = cairo_uint32x32_64_mul (u64lo a) (u64lo b)
     in s\<lparr>u64hi := u64hi s + (u64lo a * u64hi b + u64hi a * u64lo b)\<rparr>)"

definition cairo_uint64_lsl :: "cairo_uint64 \<Rightarrow> nat \<Rightarrow> cairo_uint64" where
  "cairo_uint64_lsl a shift =
    (let (a, shift) = (if shift \<ge> 32 then (\<lparr>u64lo = 0, u64hi = u64lo a\<rparr>, shift - 32) else (a, shift))
     in if shift \<noteq> 0
        then \<lparr>u64lo = push_bit shift (u64lo a),
              u64hi = push_bit shift (u64hi a) OR drop_bit (32 - shift) (u64lo a)\<rparr>
        else a)"

definition cairo_uint64_rsl :: "cairo_uint64 \<Rightarrow> nat \<Rightarrow> cairo_uint64" where
  "cairo_uint64_rsl a shift =
    (let (a, shift) = (if shift \<ge> 32 then (\<lparr>u64lo = u64hi a, u64hi = 0\<rparr>, shift - 32) else (a, shift))
     in if shift \<noteq> 0
        then \<lparr>u64lo = drop_bit shift (u64lo a) OR push_bit (32 - shift) (u64hi a),
              u64hi = drop_bit shift (u64hi a)\<rparr>
        else a)"

definition cairo_uint32_rsa :: "u32 \<Rightarrow> nat \<Rightarrow> u32" where
  "cairo_uint32_rsa a n = signed_drop_bit n a"

definition cairo_uint64_rsa :: "cairo_uint64 \<Rightarrow> nat \<Rightarrow> cairo_uint64" where
  "cairo_uint64_rsa a shift =
    (let (a, shift) = (if shift \<ge> 32
           then (\<lparr>u64lo = u64hi a, u64hi = cairo_uint32_rsa (u64hi a) 31\<rparr>, shift - 32)
           else (a, shift))
     in if shift \<noteq> 0
        then \<lparr>u64lo = drop_bit shift (u64lo a) OR push_bit (32 - shift) (u64hi a),
              u64hi = cairo_uint32_rsa (u64hi a) shift\<rparr>
        else a)"

definition cairo_uint64_lt :: "cairo_uint64 \<Rightarrow> cairo_uint64 \<Rightarrow> bool" where
  "cairo_uint64_lt a b \<longleftrightarrow> u64hi a < u64hi b \<or> (u64hi a = u64hi b \<and> u64lo a < u64lo b)"

definition cairo_uint64_eq :: "cairo_uint64 \<Rightarrow> cairo_uint64 \<Rightarrow> bool" where
  "cairo_uint64_eq a b \<longleftrightarrow> u64hi a = u64hi b \<and> u64lo a = u64lo b"

definition cairo_int64_negative :: "cairo_uint64 \<Rightarrow> bool" where
  "cairo_int64_negative a \<longleftrightarrow> u64hi a <s 0"

definition cairo_int64_lt :: "cairo_uint64 \<Rightarrow> cairo_uint64 \<Rightarrow> bool" where
  "cairo_int64_lt a b =
    (if cairo_int64_negative a \<and> \<not> cairo_int64_negative b then True
     else if \<not> cairo_int64_negative a \<and> cairo_int64_negative b then False
     else cairo_uint64_lt a b)"

definition cairo_uint64_not :: "cairo_uint64 \<Rightarrow> cairo_uint64" where
  "cairo_uint64_not a = \<lparr>u64lo = NOT (u64lo a), u64hi = NOT (u64hi a)\<rparr>"

definition cairo_uint64_negate :: "cairo_uint64 \<Rightarrow> cairo_uint64" where
  "cairo_uint64_negate a =
    (let a = \<lparr>u64lo = NOT (u64lo a), u64hi = NOT (u64hi a)\<rparr>;
         a = a\<lparr>u64lo := u64lo a + 1\<rparr>
     in if u64lo a = 0 then a\<lparr>u64hi := u64hi a + 1\<rparr> else a)"

text \<open>
  The division.  The first loop does not end for a zero divisor, so both loops
  return an option: \<open>None\<close> is the C loop that never ends.
\<close>

partial_function (option) uint64_divrem_normalize ::
    "cairo_uint64 \<Rightarrow> cairo_uint64 \<Rightarrow> cairo_uint64 \<Rightarrow> (cairo_uint64 \<times> cairo_uint64) option" where
  [code]: "uint64_divrem_normalize num bt den =
    (if cairo_uint64_lt den num \<and> u64hi den AND 0x80000000 = 0
     then uint64_divrem_normalize num (cairo_uint64_lsl bt 1) (cairo_uint64_lsl den 1)
     else Some (bt, den))"

partial_function (option) uint64_divrem_generate ::
    "cairo_uint64 \<Rightarrow> cairo_uint64 \<Rightarrow> cairo_uint64 \<Rightarrow> cairo_uint64 \<Rightarrow>
     (cairo_uint64 \<times> cairo_uint64) option" where
  [code]: "uint64_divrem_generate num quo bt den =
    (if u64hi bt OR u64lo bt \<noteq> 0
     then let (num, quo) =
            (if \<not> cairo_uint64_lt num den
             then (cairo_uint64_sub num den, cairo_uint64_add quo bt) else (num, quo))
          in uint64_divrem_generate num quo (cairo_uint64_rsl bt 1) (cairo_uint64_rsl den 1)
     else Some (quo, num))"

record cairo_uquorem64 =
  quo64 :: cairo_uint64
  rem64 :: cairo_uint64

definition cairo_uint64_divrem :: "cairo_uint64 \<Rightarrow> cairo_uint64 \<Rightarrow> cairo_uquorem64 option" where
  "cairo_uint64_divrem num den =
    (case uint64_divrem_normalize num (cairo_uint32_to_uint64 1) den of
       None \<Rightarrow> None
     | Some (bt, den) \<Rightarrow>
         (case uint64_divrem_generate num (cairo_uint32_to_uint64 0) bt den of
            None \<Rightarrow> None
          | Some (quo, num) \<Rightarrow> Some \<lparr>quo64 = quo, rem64 = num\<rparr>))"

definition cairo_int64_divrem :: "cairo_uint64 \<Rightarrow> cairo_uint64 \<Rightarrow> cairo_uquorem64 option" where
  "cairo_int64_divrem num den =
    (let num_neg = cairo_int64_negative num;
         den_neg = cairo_int64_negative den;
         num = (if num_neg then cairo_uint64_negate num else num);
         den = (if den_neg then cairo_uint64_negate den else den)
     in case cairo_uint64_divrem num den of
          None \<Rightarrow> None
        | Some uqr \<Rightarrow> Some
            \<lparr>quo64 = (if num_neg \<noteq> den_neg then cairo_uint64_negate (quo64 uqr) else quo64 uqr),
             rem64 = (if num_neg then cairo_uint64_negate (rem64 uqr) else rem64 uqr)\<rparr>)"

text \<open>Abstraction to the native 64-bit word.\<close>

definition abs64 :: "cairo_uint64 \<Rightarrow> u64" where
  "abs64 a = word_cat (u64hi a) (u64lo a)"

lemma width64: "double_width TYPE(32) TYPE(64)" by simp

lemma abs64_make [simp]: "abs64 \<lparr>u64lo = l, u64hi = h\<rparr> = word_cat h l"
  by (simp add: abs64_def)

lemma abs64_of_uint32: "abs64 (cairo_uint32_to_uint64 i) = ucast i"
  by (simp add: cairo_uint32_to_uint64_def)

lemma abs64_of_int32: "abs64 (cairo_int32_to_int64 i) = scast i"
  by (simp add: cairo_int32_to_int64_def word_cat_hi_part scast_carry hi_part_uminus [OF width64]
      hi_part_1)

lemma abs64_add: "abs64 (cairo_uint64_add a b) = abs64 a + abs64 b"
  by (simp add: cairo_uint64_add_def abs64_def word_cat_hi_part Let_def hi_part_add [OF width64]
      ucast_add_carry [OF width64] hi_part_1)

lemma abs64_sub: "abs64 (cairo_uint64_sub a b) = abs64 a - abs64 b"
  by (simp add: cairo_uint64_sub_def abs64_def word_cat_hi_part Let_def hi_part_sub [OF width64]
      ucast_sub_borrow [OF width64] hi_part_1)

lemma abs64_eq: "cairo_uint64_eq a b \<longleftrightarrow> abs64 a = abs64 b"
  by (simp add: cairo_uint64_eq_def abs64_def word_cat_eq_iff [OF width64])

lemma abs64_lt: "cairo_uint64_lt a b \<longleftrightarrow> abs64 a < abs64 b"
  by (simp add: cairo_uint64_lt_def abs64_def word_cat_less_iff [OF width64])

lemma abs64_not: "abs64 (cairo_uint64_not a) = NOT (abs64 a)"
  by (rule bit_word_eqI) (auto simp: cairo_uint64_not_def abs64_def bit_simps)

lemma abs64_lsl:
  assumes "shift < 64"
  shows "abs64 (cairo_uint64_lsl a shift) = push_bit shift (abs64 a)"
proof (cases "shift < 32")
  case True
  then show ?thesis
    by (simp add: cairo_uint64_lsl_def abs64_def push_bit_word_cat_low [OF width64])
next
  case False
  with assms show ?thesis
    by (simp add: cairo_uint64_lsl_def abs64_def push_bit_word_cat_high [OF width64] Let_def)
qed

lemma abs64_rsl:
  assumes "shift < 64"
  shows "abs64 (cairo_uint64_rsl a shift) = drop_bit shift (abs64 a)"
proof (cases "shift < 32")
  case True
  then show ?thesis
    by (simp add: cairo_uint64_rsl_def abs64_def drop_bit_word_cat_low [OF width64])
next
  case False
  with assms show ?thesis
    by (simp add: cairo_uint64_rsl_def abs64_def drop_bit_word_cat_high [OF width64] Let_def)
qed

lemma abs64_rsa:
  assumes "shift < 64"
  shows "abs64 (cairo_uint64_rsa a shift) = signed_drop_bit shift (abs64 a)"
proof (cases "shift < 32")
  case True
  then show ?thesis
    by (simp add: cairo_uint64_rsa_def cairo_uint32_rsa_def abs64_def
        signed_drop_bit_word_cat_low [OF width64])
next
  case False
  with assms show ?thesis
    using drop_bit_or_sign [of "shift - 32" "u64hi a"]
      signed_drop_bit_sign [of "shift - 32" "u64hi a"]
    by (simp add: cairo_uint64_rsa_def cairo_uint32_rsa_def abs64_def Let_def
        signed_drop_bit_word_cat_high [OF width64])
qed

lemma abs64_negate: "abs64 (cairo_uint64_negate a) = - abs64 a"
proof -
  have lo: "(ucast (- l) :: u64) = - ucast l + (if l = 0 then 0 else 2 ^ 32)" for l :: u32
    using ucast_sub_borrow [OF width64, of 0 l] by (simp add: word_greater_zero_iff)
  have hi: "(hi_part (NOT h) :: u64) = - hi_part h - 2 ^ 32" for h :: u32
    unfolding not_eq_complement hi_part_sub [OF width64] hi_part_uminus [OF width64] hi_part_1
    by simp
  have neg: "NOT l + 1 = - l" for l :: u32 by (simp add: not_eq_complement)
  show ?thesis
    unfolding cairo_uint64_negate_def Let_def
    by (cases "u64lo a = 0")
       (simp_all add: abs64_def word_cat_hi_part neg lo hi hi_part_uminus [OF width64])
qed

lemma abs64_negative: "cairo_int64_negative a \<longleftrightarrow> abs64 a <s 0"
  by (simp add: cairo_int64_negative_def sless_0_bit abs64_def bit_simps)

lemma abs64_int_lt: "cairo_int64_lt a b \<longleftrightarrow> abs64 a <s abs64 b"
  unfolding cairo_int64_lt_def abs64_negative abs64_lt by (rule sless_by_sign [symmetric])

lemma uint32_lo_take: "uint32_lo x = take_bit 16 x"
  by (simp add: uint32_lo_def take_bit_eq_mask mask_eq_exp_minus_1)

lemma ucast16_lo: "ucast (ucast (take_bit 16 x) :: u16) = take_bit 16 (x :: u32)"
  by (rule bit_word_eqI) (auto simp: bit_simps)

lemma ucast16_hi: "ucast (ucast (drop_bit 16 x) :: u16) = drop_bit 16 (x :: u32)"
  by (rule bit_word_eqI) (auto simp: bit_simps dest: bit_imp_le_length)

lemma abs64_mul32: "abs64 (cairo_uint32x32_64_mul a b) = ucast a * ucast b"
proof -
  have carry: "(if c then r + uint32_carry16 else r) = r + (if c then 2 ^ 16 else 0)" for c r
    by (simp add: uint32_carry16_def)
  show ?thesis
    unfolding cairo_uint32x32_64_mul_def Let_def abs64_make carry uint32_lo_take uint32_hi_def
      ucast16_lo ucast16_hi
    by (rule schoolbook_mult [OF width64]) simp_all
qed

lemma abs64_mul32_signed: "abs64 (cairo_int32x32_64_mul a b) = scast a * scast b"
proof -
  have hi: "abs64 (s\<lparr>u64hi := u64hi s - x\<rparr>) = abs64 s - ucast x * 2 ^ 32" for s x
    by (simp add: abs64_def word_cat_hi_part hi_part_sub [OF width64]) (simp add: hi_part_ucast)
  have "(2 :: u64) ^ 32 * 2 ^ 32 = 0" by simp
  then show ?thesis
    by (auto simp: cairo_int32x32_64_mul_def Let_def hi abs64_mul32 scast_carry algebra_simps)
qed

lemma abs64_mul: "abs64 (cairo_uint64_mul a b) = abs64 a * abs64 b"
proof -
  have hi: "abs64 (s\<lparr>u64hi := u64hi s + x\<rparr>) = abs64 s + hi_part x" for s x
    by (simp add: abs64_def word_cat_hi_part hi_part_add [OF width64])
  have z: "hi_part x * hi_part y = (0 :: u64)" for x y :: u32
    by (rule hi_part_hi_part [OF width64])
  show ?thesis
    unfolding cairo_uint64_mul_def Let_def hi abs64_mul32 hi_part_add [OF width64]
      hi_part_mult [OF width64] mult.commute [of "u64lo a" "u64hi b"]
    by (simp add: abs64_def word_cat_hi_part algebra_simps z)
qed

text \<open>The division, as an instance of the shift-and-subtract contract.\<close>

lemma uint64_msb: "\<not> (u64hi den AND 0x80000000 = 0) \<longleftrightarrow> bit (abs64 den) (LENGTH(64) - 1)"
  using and_exp_eq_0_iff_not_bit [of "u64hi den" 31] by (simp add: abs64_def bit_simps)

interpretation u64div: shift_subtract abs64 cairo_uint64_lt cairo_uint64_sub cairo_uint64_add
  "\<lambda>a. cairo_uint64_lsl a 1" "\<lambda>a. cairo_uint64_rsl a 1"
  "\<lambda>a. \<not> (u64hi a AND 0x80000000 = 0)" "\<lambda>a. u64hi a OR u64lo a \<noteq> 0"
  uint64_divrem_normalize uint64_divrem_generate
proof
  fix a
  have "abs64 a = 0 \<longleftrightarrow> u64hi a = 0 \<and> u64lo a = 0"
    using word_cat_eq_iff [OF width64, of "u64hi a" "u64lo a" 0 0] by (simp add: abs64_def)
  then show "(u64hi a OR u64lo a \<noteq> 0) \<longleftrightarrow> abs64 a \<noteq> 0" by (simp add: or_eq_0_iff)
next
  fix num bt den show "uint64_divrem_normalize num bt den =
      (if cairo_uint64_lt den num \<and> \<not> \<not> (u64hi den AND 0x80000000 = 0)
       then uint64_divrem_normalize num (cairo_uint64_lsl bt 1) (cairo_uint64_lsl den 1)
       else Some (bt, den))"
    by (subst uint64_divrem_normalize.simps) simp
next
  fix num quo bt den show "uint64_divrem_generate num quo bt den =
      (if u64hi bt OR u64lo bt \<noteq> 0
       then let (num, quo) = if \<not> cairo_uint64_lt num den
              then (cairo_uint64_sub num den, cairo_uint64_add quo bt) else (num, quo)
            in uint64_divrem_generate num quo (cairo_uint64_rsl bt 1) (cairo_uint64_rsl den 1)
       else Some (quo, num))"
    by (rule uint64_divrem_generate.simps)
qed (simp_all only: abs64_lt abs64_sub abs64_add abs64_lsl abs64_rsl uint64_msb one_less_numeral_iff semiring_norm)

lemma uint64_divrem_ok:
  assumes "abs64 den \<noteq> 0"
  shows "\<exists>qr. cairo_uint64_divrem num den = Some qr
    \<and> abs64 (quo64 qr) = abs64 num div abs64 den \<and> abs64 (rem64 qr) = abs64 num mod abs64 den"
  using u64div.divides [OF assms, of "cairo_uint32_to_uint64 1" "cairo_uint32_to_uint64 0" num]
  by (auto simp: cairo_uint64_divrem_def cairo_uint32_to_uint64_def)

lemma uint64_normalize_zero_diverges:
  assumes "abs64 den = 0" and "abs64 num \<noteq> 0"
  shows "uint64_divrem_normalize num bt den = None"
proof (rule ccontr)
  assume "uint64_divrem_normalize num bt den \<noteq> None"
  then obtain r where "uint64_divrem_normalize num bt den = Some r" by blast
  moreover have "abs64 den = 0 \<longrightarrow> abs64 num \<noteq> 0 \<longrightarrow> False"
  proof (rule uint64_divrem_normalize.raw_induct
      [where P = "\<lambda>num bt den r. abs64 den = 0 \<longrightarrow> abs64 num \<noteq> 0 \<longrightarrow> False", OF _ calculation])
    fix f num bt den r
    assume IH: "\<And>num bt den r. f num bt den = Some r \<Longrightarrow> abs64 den = 0 \<longrightarrow> abs64 num \<noteq> 0 \<longrightarrow> False"
      and eq: "(if cairo_uint64_lt den num \<and> u64hi den AND 0x80000000 = 0
        then f num (cairo_uint64_lsl bt 1) (cairo_uint64_lsl den 1) else Some (bt, den)) = Some r"
    show "abs64 den = 0 \<longrightarrow> abs64 num \<noteq> 0 \<longrightarrow> False"
    proof (intro impI)
      assume z: "abs64 den = 0" "abs64 num \<noteq> 0"
      then have "cairo_uint64_lt den num" "u64hi den AND 0x80000000 = 0"
        using uint64_msb [of den] by (simp_all add: abs64_lt word_greater_zero_iff)
      with eq have "f num (cairo_uint64_lsl bt 1) (cairo_uint64_lsl den 1) = Some r" by simp
      from IH [OF this] z show False by (simp add: abs64_lsl)
    qed
  qed
  ultimately show False using assms by simp
qed

lemma int64_divrem_ok:
  assumes "abs64 den \<noteq> 0"
  shows "\<exists>qr. cairo_int64_divrem num den = Some qr
    \<and> abs64 (quo64 qr) = word_of_int (sint (abs64 num) sdiv sint (abs64 den))
    \<and> abs64 (rem64 qr) = word_of_int (sint (abs64 num) smod sint (abs64 den))"
proof -
  let ?n = "if cairo_int64_negative num then cairo_uint64_negate num else num"
  let ?d = "if cairo_int64_negative den then cairo_uint64_negate den else den"
  have n: "abs64 ?n = (if abs64 num <s 0 then - abs64 num else abs64 num)"
    and d: "abs64 ?d = (if abs64 den <s 0 then - abs64 den else abs64 den)"
    by (simp_all add: abs64_negative abs64_negate)
  have "abs64 ?d \<noteq> 0" using assms d by simp
  from uint64_divrem_ok [OF this, of ?n] obtain qr where qr: "cairo_uint64_divrem ?n ?d = Some qr"
    "abs64 (quo64 qr) = abs64 ?n div abs64 ?d" "abs64 (rem64 qr) = abs64 ?n mod abs64 ?d"
    by blast
  have "abs64 (if cairo_int64_negative num \<noteq> cairo_int64_negative den
        then cairo_uint64_negate (quo64 qr) else quo64 qr)
      = word_of_int (sint (abs64 num) sdiv sint (abs64 den))"
    using sdiv_by_magnitudes [OF qr(2) [unfolded n d]]
    by (simp add: abs64_negative abs64_negate split: if_splits)
  moreover have "abs64 (if cairo_int64_negative num
        then cairo_uint64_negate (rem64 qr) else rem64 qr)
      = word_of_int (sint (abs64 num) smod sint (abs64 den))"
    using smod_by_magnitudes [OF qr(3) [unfolded n d]]
    by (simp add: abs64_negative abs64_negate split: if_splits)
  ultimately show ?thesis
    by (simp add: cairo_int64_divrem_def Let_def qr(1))
qed

subsection \<open>Properties\<close>

text \<open>
  The arithmetic, comparison and complement operations on the two-word
  64-bit struct implement the operations of a 64-bit word: sums, differences, negation and
  products wrap around modulo \<open>2^64\<close>, the 32 by 32 bit products are exact (unsigned and
  signed), and the signed and unsigned comparisons agree with those of the word.
\<close>

theorem uint64_refines_word:
  "abs64 (cairo_uint64_add a b) = abs64 a + abs64 b
   \<and> abs64 (cairo_uint64_sub a b) = abs64 a - abs64 b
   \<and> abs64 (cairo_uint64_mul a b) = abs64 a * abs64 b
   \<and> abs64 (cairo_uint64_negate a) = - abs64 a
   \<and> abs64 (cairo_uint64_not a) = NOT (abs64 a)
   \<and> cairo_uint64_lt a b = (abs64 a < abs64 b)
   \<and> cairo_uint64_eq a b = (abs64 a = abs64 b)
   \<and> cairo_int64_lt a b = (abs64 a <s abs64 b)
   \<and> abs64 (cairo_uint32x32_64_mul x y) = ucast x * ucast y
   \<and> abs64 (cairo_int32x32_64_mul x y) = scast x * scast y
   \<and> abs64 (cairo_uint32_to_uint64 x) = ucast x
   \<and> abs64 (cairo_int32_to_int64 x) = scast x"
  by (intro conjI abs64_of_uint32 abs64_of_int32 abs64_add abs64_sub abs64_mul abs64_negate abs64_not abs64_lt abs64_eq
      abs64_int_lt abs64_mul32 abs64_mul32_signed)

text \<open>
  The three shifts of the two-word 64-bit struct are the left, the
  logical right and the arithmetic right shift of the 64-bit word, for every shift count
  below 64 (at and beyond the half-word boundary 32 too).
\<close>

theorem uint64_shifts:
  assumes "shift < 64"
  shows "abs64 (cairo_uint64_lsl a shift) = push_bit shift (abs64 a)
    \<and> abs64 (cairo_uint64_rsl a shift) = drop_bit shift (abs64 a)
    \<and> abs64 (cairo_uint64_rsa a shift) = signed_drop_bit shift (abs64 a)"
  using assms by (intro conjI abs64_lsl abs64_rsl abs64_rsa)

theorem uint64_shifts_witness:
  "(40 :: nat) < 64 \<and> abs64 (cairo_uint64_lsl \<lparr>u64lo = 3, u64hi = 1\<rparr> 40)
    = push_bit 40 (abs64 \<lparr>u64lo = 3, u64hi = 1\<rparr>)"
  using uint64_shifts [of 40 "\<lparr>u64lo = 3, u64hi = 1\<rparr>"] by simp

text \<open>
  For a non-zero divisor the signed 64-bit division ends and returns
  quotient and remainder of C's division truncating towards zero (for the one quotient that
  does not fit, the wrapped one).
\<close>

theorem int64_divrem_truncates:
  assumes "abs64 den \<noteq> 0"
  shows "\<exists>qr. cairo_int64_divrem num den = Some qr
    \<and> abs64 (quo64 qr) = word_of_int (sint (abs64 num) sdiv sint (abs64 den))
    \<and> abs64 (rem64 qr) = word_of_int (sint (abs64 num) smod sint (abs64 den))"
  by (rule int64_divrem_ok [OF assms])

theorem int64_divrem_truncates_witness:
  "\<exists>qr. cairo_int64_divrem (cairo_int32_to_int64 (- 7)) (cairo_int32_to_int64 2) = Some qr
    \<and> sint (abs64 (quo64 qr)) = - 3 \<and> sint (abs64 (rem64 qr)) = - 1"
proof -
  have n: "abs64 (cairo_int32_to_int64 (- 7)) = - 7" and d: "abs64 (cairo_int32_to_int64 2) = 2"
    by (simp_all add: abs64_of_int32)
  have "abs64 (cairo_int32_to_int64 2) \<noteq> 0" unfolding d by simp
  from int64_divrem_truncates [OF this, of "cairo_int32_to_int64 (- 7)"] show ?thesis
    unfolding n d by (auto simp: signed_divide_int_def signed_modulo_int_def)
qed

end
