(* ===== verification/Wideint128.thy ===== *)
theory Wideint128
  imports Wideint_Div
begin

section \<open>cairo-wideint.c: 128-bit integers as pairs of 64-bit words\<close>

text \<open>
  The 128-bit part of \<^verbatim>\<open>src/core/model/cairo-wideint.c\<close> in the configuration ns-3 builds
  (\<^verbatim>\<open>HAVE_UINT64_T\<close> is set by \<^verbatim>\<open>cairo-wideint-private.h\<close>, \<^verbatim>\<open>HAVE_UINT128_T\<close> is not): the macros of
  the 64-bit layer are the native operations on \<^typ>\<open>u64\<close>, and a \<^verbatim>\<open>cairo_uint128_t\<close> is a struct of
  two of them.  \<open>abs128\<close> reads the struct as a 128-bit word.
\<close>

record cairo_uint128 =
  u128lo :: u64
  u128hi :: u64

record cairo_uquorem64n =
  quo64n :: u64
  rem64n :: u64

record cairo_uquorem128 =
  quo128 :: cairo_uint128
  rem128 :: cairo_uint128

text \<open>The native 64-bit division; a zero divisor is undefined in C, here \<open>None\<close>.\<close>

definition native_uint64_divrem :: "u64 \<Rightarrow> u64 \<Rightarrow> cairo_uquorem64n option" where
  "native_uint64_divrem num den =
    (if den = 0 then None else Some \<lparr>quo64n = num div den, rem64n = num mod den\<rparr>)"

definition native_int64_divrem :: "u64 \<Rightarrow> u64 \<Rightarrow> cairo_uquorem64n option" where
  "native_int64_divrem num den =
    (let num_neg = num <s 0;
         den_neg = den <s 0;
         num = (if num_neg then - num else num);
         den = (if den_neg then - den else den)
     in case native_uint64_divrem num den of
          None \<Rightarrow> None
        | Some uqr \<Rightarrow> Some
            \<lparr>quo64n = (if num_neg \<noteq> den_neg then - quo64n uqr else quo64n uqr),
             rem64n = (if num_neg then - rem64n uqr else rem64n uqr)\<rparr>)"

definition cairo_uint32_to_uint128 :: "u32 \<Rightarrow> cairo_uint128" where
  "cairo_uint32_to_uint128 i = \<lparr>u128lo = ucast i, u128hi = 0\<rparr>"

definition cairo_int32_to_int128 :: "u32 \<Rightarrow> cairo_uint128" where
  "cairo_int32_to_int128 i = \<lparr>u128lo = scast i, u128hi = (if i <s 0 then - 1 else 0)\<rparr>"

definition cairo_uint64_to_uint128 :: "u64 \<Rightarrow> cairo_uint128" where
  "cairo_uint64_to_uint128 i = \<lparr>u128lo = i, u128hi = 0\<rparr>"

definition cairo_int64_to_int128 :: "u64 \<Rightarrow> cairo_uint128" where
  "cairo_int64_to_int128 i = \<lparr>u128lo = i, u128hi = (if i <s 0 then - 1 else 0)\<rparr>"

definition cairo_uint128_add :: "cairo_uint128 \<Rightarrow> cairo_uint128 \<Rightarrow> cairo_uint128" where
  "cairo_uint128_add a b =
    (let s = \<lparr>u128lo = u128lo a + u128lo b, u128hi = u128hi a + u128hi b\<rparr>
     in if u128lo s < u128lo a then s\<lparr>u128hi := u128hi s + 1\<rparr> else s)"

definition cairo_uint128_sub :: "cairo_uint128 \<Rightarrow> cairo_uint128 \<Rightarrow> cairo_uint128" where
  "cairo_uint128_sub a b =
    (let s = \<lparr>u128lo = u128lo a - u128lo b, u128hi = u128hi a - u128hi b\<rparr>
     in if u128lo s > u128lo a then s\<lparr>u128hi := u128hi s - 1\<rparr> else s)"

definition uint64_lo :: "u64 \<Rightarrow> u64" where
  "uint64_lo i = i AND 0xffffffff"

definition uint64_hi :: "u64 \<Rightarrow> u64" where
  "uint64_hi i = drop_bit 32 i"

definition uint64_shift32 :: "u64 \<Rightarrow> u64" where
  "uint64_shift32 i = push_bit 32 i"

definition uint64_carry32 :: u64 where
  "uint64_carry32 = push_bit 32 1"

definition cairo_uint64x64_128_mul :: "u64 \<Rightarrow> u64 \<Rightarrow> cairo_uint128" where
  "cairo_uint64x64_128_mul a b =
    (let al = ucast (uint64_lo a) :: u32; ah = ucast (uint64_hi a) :: u32;
         bl = ucast (uint64_lo b) :: u32; bh = ucast (uint64_hi b) :: u32;
         r0 = ucast al * ucast bl :: u64;
         r1 = ucast al * ucast bh :: u64;
         r2 = ucast ah * ucast bl :: u64;
         r3 = ucast ah * ucast bh :: u64;
         r1 = r1 + uint64_hi r0;
         r1 = r1 + r2;
         r3 = (if r1 < r2 then r3 + uint64_carry32 else r3)
     in \<lparr>u128lo = uint64_shift32 r1 + uint64_lo r0, u128hi = r3 + uint64_hi r1\<rparr>)"

definition cairo_int64x64_128_mul :: "u64 \<Rightarrow> u64 \<Rightarrow> cairo_uint128" where
  "cairo_int64x64_128_mul a b =
    (let s = cairo_uint64x64_128_mul a b;
         s = (if a <s 0 then s\<lparr>u128hi := u128hi s - b\<rparr> else s);
         s = (if b <s 0 then s\<lparr>u128hi := u128hi s - a\<rparr> else s)
     in s)"

definition cairo_uint128_mul :: "cairo_uint128 \<Rightarrow> cairo_uint128 \<Rightarrow> cairo_uint128" where
  "cairo_uint128_mul a b =
    (let s = cairo_uint64x64_128_mul (u128lo a) (u128lo b);
         s = s\<lparr>u128hi := u128hi s + u128lo a * u128hi b\<rparr>;
         s = s\<lparr>u128hi := u128hi s + u128hi a * u128lo b\<rparr>
     in s)"

definition cairo_uint128_lsl :: "cairo_uint128 \<Rightarrow> nat \<Rightarrow> cairo_uint128" where
  "cairo_uint128_lsl a shift =
    (let (a, shift) = (if shift \<ge> 64 then (\<lparr>u128lo = 0, u128hi = u128lo a\<rparr>, shift - 64) else (a, shift))
     in if shift \<noteq> 0
        then \<lparr>u128lo = push_bit shift (u128lo a),
              u128hi = push_bit shift (u128hi a) + drop_bit (64 - shift) (u128lo a)\<rparr>
        else a)"

definition cairo_uint128_rsl :: "cairo_uint128 \<Rightarrow> nat \<Rightarrow> cairo_uint128" where
  "cairo_uint128_rsl a shift =
    (let (a, shift) = (if shift \<ge> 64 then (\<lparr>u128lo = u128hi a, u128hi = 0\<rparr>, shift - 64) else (a, shift))
     in if shift \<noteq> 0
        then \<lparr>u128lo = drop_bit shift (u128lo a) + push_bit (64 - shift) (u128hi a),
              u128hi = drop_bit shift (u128hi a)\<rparr>
        else a)"

definition cairo_uint128_rsa :: "cairo_uint128 \<Rightarrow> nat \<Rightarrow> cairo_uint128" where
  "cairo_uint128_rsa a shift =
    (let (a, shift) = (if shift \<ge> 64
           then (\<lparr>u128lo = u128hi a, u128hi = signed_drop_bit (64 - 1) (u128hi a)\<rparr>, shift - 64)
           else (a, shift))
     in if shift \<noteq> 0
        then \<lparr>u128lo = drop_bit shift (u128lo a) + push_bit (64 - shift) (u128hi a),
              u128hi = signed_drop_bit shift (u128hi a)\<rparr>
        else a)"

definition cairo_uint128_lt :: "cairo_uint128 \<Rightarrow> cairo_uint128 \<Rightarrow> bool" where
  "cairo_uint128_lt a b \<longleftrightarrow> u128hi a < u128hi b \<or> (u128hi a = u128hi b \<and> u128lo a < u128lo b)"

definition cairo_int128_negative :: "cairo_uint128 \<Rightarrow> bool" where
  "cairo_int128_negative a \<longleftrightarrow> u128hi a <s 0"

definition cairo_int128_lt :: "cairo_uint128 \<Rightarrow> cairo_uint128 \<Rightarrow> bool" where
  "cairo_int128_lt a b =
    (if cairo_int128_negative a \<and> \<not> cairo_int128_negative b then True
     else if \<not> cairo_int128_negative a \<and> cairo_int128_negative b then False
     else cairo_uint128_lt a b)"

definition cairo_uint128_eq :: "cairo_uint128 \<Rightarrow> cairo_uint128 \<Rightarrow> bool" where
  "cairo_uint128_eq a b \<longleftrightarrow> u128hi a = u128hi b \<and> u128lo a = u128lo b"

definition cairo_msbset64 :: "u64 \<Rightarrow> bool" where
  "cairo_msbset64 q \<longleftrightarrow> q AND push_bit 63 1 \<noteq> 0"

partial_function (option) uint128_divrem_normalize ::
    "cairo_uint128 \<Rightarrow> cairo_uint128 \<Rightarrow> cairo_uint128 \<Rightarrow> (cairo_uint128 \<times> cairo_uint128) option" where
  [code]: "uint128_divrem_normalize num bt den =
    (if cairo_uint128_lt den num \<and> \<not> cairo_msbset64 (u128hi den)
     then uint128_divrem_normalize num (cairo_uint128_lsl bt 1) (cairo_uint128_lsl den 1)
     else Some (bt, den))"

partial_function (option) uint128_divrem_generate ::
    "cairo_uint128 \<Rightarrow> cairo_uint128 \<Rightarrow> cairo_uint128 \<Rightarrow> cairo_uint128 \<Rightarrow>
     (cairo_uint128 \<times> cairo_uint128) option" where
  [code]: "uint128_divrem_generate num quo bt den =
    (if \<not> cairo_uint128_eq bt (cairo_uint32_to_uint128 0)
     then let (num, quo) =
            (if \<not> cairo_uint128_lt num den
             then (cairo_uint128_sub num den, cairo_uint128_add quo bt) else (num, quo))
          in uint128_divrem_generate num quo (cairo_uint128_rsl bt 1) (cairo_uint128_rsl den 1)
     else Some (quo, num))"

definition cairo_uint128_divrem :: "cairo_uint128 \<Rightarrow> cairo_uint128 \<Rightarrow> cairo_uquorem128 option" where
  "cairo_uint128_divrem num den =
    (case uint128_divrem_normalize num (cairo_uint32_to_uint128 1) den of
       None \<Rightarrow> None
     | Some (bt, den) \<Rightarrow>
         (case uint128_divrem_generate num (cairo_uint32_to_uint128 0) bt den of
            None \<Rightarrow> None
          | Some (quo, num) \<Rightarrow> Some \<lparr>quo128 = quo, rem128 = num\<rparr>))"

definition cairo_int128_negate :: "cairo_uint128 \<Rightarrow> cairo_uint128" where
  "cairo_int128_negate a =
    cairo_uint128_add \<lparr>u128lo = NOT (u128lo a), u128hi = NOT (u128hi a)\<rparr> (cairo_uint32_to_uint128 1)"

definition cairo_int128_not :: "cairo_uint128 \<Rightarrow> cairo_uint128" where
  "cairo_int128_not a = \<lparr>u128lo = NOT (u128lo a), u128hi = NOT (u128hi a)\<rparr>"

definition cairo_int128_divrem :: "cairo_uint128 \<Rightarrow> cairo_uint128 \<Rightarrow> cairo_uquorem128 option" where
  "cairo_int128_divrem num den =
    (let num_neg = cairo_int128_negative num;
         den_neg = cairo_int128_negative den;
         num = (if num_neg then cairo_int128_negate num else num);
         den = (if den_neg then cairo_int128_negate den else den)
     in case cairo_uint128_divrem num den of
          None \<Rightarrow> None
        | Some uqr \<Rightarrow> Some
            \<lparr>quo128 = (if num_neg \<noteq> den_neg then cairo_int128_negate (quo128 uqr) else quo128 uqr),
             rem128 = (if num_neg then cairo_int128_negate (rem128 uqr) else rem128 uqr)\<rparr>)"

definition uint32s_to_uint64 :: "u32 \<Rightarrow> u32 \<Rightarrow> u64" where
  "uint32s_to_uint64 h l = push_bit 32 (ucast h) OR ucast l"

definition cairo_uint_96by64_32x64_divrem :: "cairo_uint128 \<Rightarrow> u64 \<Rightarrow> cairo_uquorem64n option" where
  "cairo_uint_96by64_32x64_divrem num den =
    (let B = uint32s_to_uint64 1 0;
         x = u128lo (cairo_uint128_rsl num 32)
     in if \<not> x < den then Some \<lparr>quo64n = uint32s_to_uint64 (- 1) (- 1), rem64n = den\<rparr>
        else if x < B then native_uint64_divrem (u128lo num) den
        else
          let y = ucast (u128lo num) :: u32;
              u = ucast (uint64_hi den) :: u32;
              v = ucast den :: u32
          in Option.bind
               (if u + 1 \<noteq> 0
                then map_option (\<lambda>quorem. (ucast (quo64n quorem), ucast (rem64n quorem)))
                       (native_uint64_divrem x (ucast (u + 1)))
                else Some (ucast (uint64_hi x), ucast x))
               (\<lambda>(q :: u32, r :: u32).
             Option.bind
               (if v \<noteq> 0 then native_uint64_divrem (ucast q * ucast (- v)) den
                else native_uint64_divrem (uint32s_to_uint64 q 0) den)
               (\<lambda>quorem.
              let quotient = q + ucast (quo64n quorem);
                  remainder = uint32s_to_uint64 r y;
                  (remainder, quotient) =
                    (if \<not> remainder < den then (remainder - den, quotient + 1)
                     else (remainder, quotient));
                  remainder = remainder + rem64n quorem;
                  (remainder, quotient) =
                    (if \<not> remainder < den \<or> remainder < rem64n quorem
                     then (remainder - den, quotient + 1) else (remainder, quotient))
              in Some \<lparr>quo64n = ucast quotient, rem64n = remainder\<rparr>)))"

definition cairo_int_96by64_32x64_divrem :: "cairo_uint128 \<Rightarrow> u64 \<Rightarrow> cairo_uquorem64n option" where
  "cairo_int_96by64_32x64_divrem num den =
    (let num_neg = cairo_int128_negative num;
         den_neg = den <s 0;
         num = (if num_neg then cairo_int128_negate num else num);
         nonneg_den = (if den_neg then - den else den)
     in case cairo_uint_96by64_32x64_divrem num nonneg_den of
          None \<Rightarrow> None
        | Some uqr \<Rightarrow>
            if rem64n uqr = nonneg_den
            then Some \<lparr>quo64n = uint32s_to_uint64 0x7FFFFFFF (- 1), rem64n = den\<rparr>
            else Some
              \<lparr>quo64n = (if num_neg \<noteq> den_neg then - quo64n uqr else quo64n uqr),
               rem64n = (if num_neg then - rem64n uqr else rem64n uqr)\<rparr>)"

text \<open>Abstraction to a 128-bit word.\<close>

definition abs128 :: "cairo_uint128 \<Rightarrow> u128" where
  "abs128 a = word_cat (u128hi a) (u128lo a)"

lemma width128: "double_width TYPE(64) TYPE(128)" by simp

lemma abs128_make [simp]: "abs128 \<lparr>u128lo = l, u128hi = h\<rparr> = word_cat h l"
  by (simp add: abs128_def)

lemma abs128_of_uint32: "abs128 (cairo_uint32_to_uint128 i) = ucast i"
  unfolding cairo_uint32_to_uint128_def abs128_make word_cat_0_left
  by (rule bit_word_eqI) (auto simp: bit_simps dest: bit_imp_le_length)

lemma abs128_of_uint64: "abs128 (cairo_uint64_to_uint128 i) = ucast i"
  by (simp add: cairo_uint64_to_uint128_def)

lemma abs128_of_int64: "abs128 (cairo_int64_to_int128 i) = scast i"
  by (simp add: cairo_int64_to_int128_def word_cat_hi_part scast_carry hi_part_uminus [OF width128]
      hi_part_1)

lemma abs128_of_int32: "abs128 (cairo_int32_to_int128 i) = scast i"
proof -
  have "cairo_int32_to_int128 i = cairo_int64_to_int128 (scast i)"
    by (simp add: cairo_int32_to_int128_def cairo_int64_to_int128_def sless_0_bit bit_simps)
  moreover have "(scast (scast i :: u64) :: u128) = scast i"
    by (rule bit_word_eqI) (auto simp: bit_simps min_def)
  ultimately show ?thesis by (simp add: abs128_of_int64)
qed

lemma abs128_add: "abs128 (cairo_uint128_add a b) = abs128 a + abs128 b"
  by (simp add: cairo_uint128_add_def abs128_def word_cat_hi_part Let_def hi_part_add [OF width128]
      ucast_add_carry [OF width128] hi_part_1)

lemma abs128_sub: "abs128 (cairo_uint128_sub a b) = abs128 a - abs128 b"
  by (simp add: cairo_uint128_sub_def abs128_def word_cat_hi_part Let_def hi_part_sub [OF width128]
      ucast_sub_borrow [OF width128] hi_part_1)

lemma abs128_eq: "cairo_uint128_eq a b \<longleftrightarrow> abs128 a = abs128 b"
  by (simp add: cairo_uint128_eq_def abs128_def word_cat_eq_iff [OF width128])

lemma abs128_lt: "cairo_uint128_lt a b \<longleftrightarrow> abs128 a < abs128 b"
  by (simp add: cairo_uint128_lt_def abs128_def word_cat_less_iff [OF width128])

lemma abs128_not: "abs128 (cairo_int128_not a) = NOT (abs128 a)"
  by (rule bit_word_eqI) (auto simp: cairo_int128_not_def abs128_def bit_simps)

lemma abs128_negate: "abs128 (cairo_int128_negate a) = - abs128 a"
proof -
  have "abs128 (cairo_int128_negate a) = NOT (abs128 a) + 1"
    unfolding cairo_int128_negate_def abs128_add
    using abs128_not [of a] by (simp add: cairo_int128_not_def cairo_uint32_to_uint128_def)
  then show ?thesis by (simp add: not_eq_complement)
qed

lemma abs128_negative: "cairo_int128_negative a \<longleftrightarrow> abs128 a <s 0"
  by (simp add: cairo_int128_negative_def sless_0_bit abs128_def bit_simps)

lemma abs128_int_lt: "cairo_int128_lt a b \<longleftrightarrow> abs128 a <s abs128 b"
  unfolding cairo_int128_lt_def abs128_negative abs128_lt by (rule sless_by_sign [symmetric])

lemma abs128_lsl:
  assumes "shift < 128"
  shows "abs128 (cairo_uint128_lsl a shift) = push_bit shift (abs128 a)"
proof (cases "shift < 64")
  case True
  then show ?thesis
    using push_bit_add_drop_bit [of shift "u128hi a" "u128lo a"]
    by (simp add: cairo_uint128_lsl_def abs128_def push_bit_word_cat_low [OF width128])
next
  case False
  with assms show ?thesis
    by (simp add: cairo_uint128_lsl_def abs128_def push_bit_word_cat_high [OF width128] Let_def)
qed

lemma abs128_rsl:
  assumes "shift < 128"
  shows "abs128 (cairo_uint128_rsl a shift) = drop_bit shift (abs128 a)"
proof (cases "shift < 64")
  case True
  then show ?thesis
    using drop_bit_add_push_bit [of shift "u128lo a" "u128hi a"]
    by (simp add: cairo_uint128_rsl_def abs128_def drop_bit_word_cat_low [OF width128])
next
  case False
  with assms show ?thesis
    by (simp add: cairo_uint128_rsl_def abs128_def drop_bit_word_cat_high [OF width128] Let_def)
qed

lemma abs128_rsa:
  assumes "shift < 128"
  shows "abs128 (cairo_uint128_rsa a shift) = signed_drop_bit shift (abs128 a)"
proof (cases "shift < 64")
  case True
  then show ?thesis
    using drop_bit_add_push_bit [of shift "u128lo a" "u128hi a"]
    by (simp add: cairo_uint128_rsa_def abs128_def signed_drop_bit_word_cat_low [OF width128])
next
  case False
  with assms show ?thesis
    using drop_bit_or_sign [of "shift - 64" "u128hi a"]
      signed_drop_bit_sign [of "shift - 64" "u128hi a"]
      drop_bit_add_push_bit [of "shift - 64" "u128hi a"]
    by (simp add: cairo_uint128_rsa_def abs128_def Let_def
        signed_drop_bit_word_cat_high [OF width128])
qed

lemma uint64_lo_take: "uint64_lo x = take_bit 32 x"
  by (simp add: uint64_lo_def take_bit_eq_mask mask_eq_exp_minus_1)

lemma ucast32_lo: "ucast (ucast (take_bit 32 x) :: u32) = take_bit 32 (x :: u64)"
  by (rule bit_word_eqI) (auto simp: bit_simps)

lemma ucast32_hi: "ucast (ucast (drop_bit 32 x) :: u32) = drop_bit 32 (x :: u64)"
  by (rule bit_word_eqI) (auto simp: bit_simps dest: bit_imp_le_length)

lemma shift32_take: "push_bit 32 (x :: u64) = push_bit 32 (take_bit 32 x)"
  by (rule bit_word_eqI) (auto simp: bit_simps)

lemma abs128_mul64: "abs128 (cairo_uint64x64_128_mul a b) = ucast a * ucast b"
proof -
  have carry: "(if c then r + uint64_carry32 else r) = r + (if c then 2 ^ 32 else 0)" for c r
    by (simp add: uint64_carry32_def)
  show ?thesis
    unfolding cairo_uint64x64_128_mul_def Let_def abs128_make carry uint64_lo_take uint64_hi_def
      ucast32_lo ucast32_hi uint64_shift32_def
    by (subst shift32_take) (rule schoolbook_mult [OF width128]; simp)
qed

lemma abs128_hi_sub: "abs128 (s\<lparr>u128hi := u128hi s - x\<rparr>) = abs128 s - hi_part x"
  by (simp add: abs128_def word_cat_hi_part hi_part_sub [OF width128])

lemma abs128_hi_add: "abs128 (s\<lparr>u128hi := u128hi s + x\<rparr>) = abs128 s + hi_part x"
  by (simp add: abs128_def word_cat_hi_part hi_part_add [OF width128])

lemma abs128_mul64_signed: "abs128 (cairo_int64x64_128_mul a b) = scast a * scast b"
proof -
  have "(2 :: u128) ^ 64 * 2 ^ 64 = 0" by simp
  then show ?thesis
    by (auto simp: cairo_int64x64_128_mul_def Let_def abs128_hi_sub hi_part_ucast abs128_mul64
        scast_carry algebra_simps)
qed

lemma abs128_mul: "abs128 (cairo_uint128_mul a b) = abs128 a * abs128 b"
  unfolding cairo_uint128_mul_def Let_def abs128_hi_add abs128_mul64 hi_part_add [OF width128]
    hi_part_mult [OF width128] mult.commute [of "u128lo a" "u128hi b"]
  by (simp add: abs128_def word_cat_hi_part algebra_simps hi_part_hi_part [OF width128])

lemma msbset64_bit: "cairo_msbset64 (u128hi a) \<longleftrightarrow> bit (abs128 a) (LENGTH(128) - 1)"
  using and_exp_eq_0_iff_not_bit [of "u128hi a" 63]
  by (simp add: cairo_msbset64_def abs128_def bit_simps)

interpretation u128div: shift_subtract abs128 cairo_uint128_lt cairo_uint128_sub cairo_uint128_add
  "\<lambda>a. cairo_uint128_lsl a 1" "\<lambda>a. cairo_uint128_rsl a 1"
  "\<lambda>a. cairo_msbset64 (u128hi a)" "\<lambda>a. \<not> cairo_uint128_eq a (cairo_uint32_to_uint128 0)"
  uint128_divrem_normalize uint128_divrem_generate
proof
  fix a show "(\<not> cairo_uint128_eq a (cairo_uint32_to_uint128 0)) \<longleftrightarrow> abs128 a \<noteq> 0"
    by (simp add: abs128_eq cairo_uint32_to_uint128_def)
next
  fix num bt den show "uint128_divrem_normalize num bt den =
      (if cairo_uint128_lt den num \<and> \<not> cairo_msbset64 (u128hi den)
       then uint128_divrem_normalize num (cairo_uint128_lsl bt 1) (cairo_uint128_lsl den 1)
       else Some (bt, den))"
    by (rule uint128_divrem_normalize.simps)
next
  fix num quo bt den show "uint128_divrem_generate num quo bt den =
      (if \<not> cairo_uint128_eq bt (cairo_uint32_to_uint128 0)
       then let (num, quo) = if \<not> cairo_uint128_lt num den
              then (cairo_uint128_sub num den, cairo_uint128_add quo bt) else (num, quo)
            in uint128_divrem_generate num quo (cairo_uint128_rsl bt 1) (cairo_uint128_rsl den 1)
       else Some (quo, num))"
    by (rule uint128_divrem_generate.simps)
qed (simp_all only: abs128_lt abs128_sub abs128_add abs128_lsl abs128_rsl msbset64_bit
       one_less_numeral_iff semiring_norm)

lemma uint128_divrem_ok:
  assumes "abs128 den \<noteq> 0"
  shows "\<exists>qr. cairo_uint128_divrem num den = Some qr
    \<and> abs128 (quo128 qr) = abs128 num div abs128 den
    \<and> abs128 (rem128 qr) = abs128 num mod abs128 den"
  using u128div.divides [OF assms, of "cairo_uint32_to_uint128 1" "cairo_uint32_to_uint128 0" num]
  by (auto simp: cairo_uint128_divrem_def cairo_uint32_to_uint128_def)

lemma int128_divrem_ok:
  assumes "abs128 den \<noteq> 0"
  shows "\<exists>qr. cairo_int128_divrem num den = Some qr
    \<and> abs128 (quo128 qr) = word_of_int (sint (abs128 num) sdiv sint (abs128 den))
    \<and> abs128 (rem128 qr) = word_of_int (sint (abs128 num) smod sint (abs128 den))"
proof -
  let ?n = "if cairo_int128_negative num then cairo_int128_negate num else num"
  let ?d = "if cairo_int128_negative den then cairo_int128_negate den else den"
  have n: "abs128 ?n = (if abs128 num <s 0 then - abs128 num else abs128 num)"
    and d: "abs128 ?d = (if abs128 den <s 0 then - abs128 den else abs128 den)"
    by (simp_all add: abs128_negative abs128_negate)
  have "abs128 ?d \<noteq> 0" using assms d by simp
  from uint128_divrem_ok [OF this, of ?n] obtain qr where qr: "cairo_uint128_divrem ?n ?d = Some qr"
    "abs128 (quo128 qr) = abs128 ?n div abs128 ?d" "abs128 (rem128 qr) = abs128 ?n mod abs128 ?d"
    by blast
  have "abs128 (if cairo_int128_negative num \<noteq> cairo_int128_negative den
        then cairo_int128_negate (quo128 qr) else quo128 qr)
      = word_of_int (sint (abs128 num) sdiv sint (abs128 den))"
    using sdiv_by_magnitudes [OF qr(2) [unfolded n d]]
    by (simp add: abs128_negative abs128_negate split: if_splits)
  moreover have "abs128 (if cairo_int128_negative num
        then cairo_int128_negate (rem128 qr) else rem128 qr)
      = word_of_int (sint (abs128 num) smod sint (abs128 den))"
    using smod_by_magnitudes [OF qr(3) [unfolded n d]]
    by (simp add: abs128_negative abs128_negate split: if_splits)
  ultimately show ?thesis
    by (simp add: cairo_int128_divrem_def Let_def qr(1))
qed

text \<open>A zero divisor never leaves the first loop, whatever non-zero number is divided.\<close>

lemma uint128_normalize_zero_diverges:
  assumes "abs128 den = 0" and "abs128 num \<noteq> 0"
  shows "uint128_divrem_normalize num bt den = None"
proof (rule ccontr)
  assume "uint128_divrem_normalize num bt den \<noteq> None"
  then obtain r where "uint128_divrem_normalize num bt den = Some r" by blast
  moreover have "\<not> (abs128 den = 0 \<and> abs128 num \<noteq> 0)"
  proof (rule uint128_divrem_normalize.raw_induct
      [where P = "\<lambda>num bt den r. \<not> (abs128 den = 0 \<and> abs128 num \<noteq> 0)", OF _ calculation])
    fix f num bt den r
    assume IH: "\<And>num bt den r. f num bt den = Some r \<Longrightarrow> \<not> (abs128 den = 0 \<and> abs128 num \<noteq> 0)"
      and eq: "(if cairo_uint128_lt den num \<and> \<not> cairo_msbset64 (u128hi den)
        then f num (cairo_uint128_lsl bt 1) (cairo_uint128_lsl den 1) else Some (bt, den)) = Some r"
    show "\<not> (abs128 den = 0 \<and> abs128 num \<noteq> 0)"
    proof
      assume z: "abs128 den = 0 \<and> abs128 num \<noteq> 0"
      then have "cairo_uint128_lt den num" "\<not> cairo_msbset64 (u128hi den)"
        by (simp_all add: abs128_lt word_greater_zero_iff msbset64_bit)
      with eq have "f num (cairo_uint128_lsl bt 1) (cairo_uint128_lsl den 1) = Some r" by simp
      from IH [OF this] z show False by (simp add: abs128_lsl)
    qed
  qed
  ultimately show False using assms by simp
qed

lemma unat_uint32s: "unat (uint32s_to_uint64 h l) = unat h * 2 ^ 32 + unat l"
proof -
  have "uint32s_to_uint64 h l = word_cat h l"
    unfolding uint32s_to_uint64_def by (simp add: word_cat_eq_push_bit_or)
  then show ?thesis by (simp add: unat_word_cat)
qed

lemma abs128_parts:
  "unat (u128lo a) = unat (abs128 a) mod 2 ^ 64" "unat (u128hi a) = unat (abs128 a) div 2 ^ 64"
  using unsigned_less [of "u128lo a", where 'a = nat]
  by (simp_all add: abs128_def unat_word_cat [OF width128])

text \<open>The two-step division of the third case, on numbers.\<close>

lemma two_step_division:
  fixes n d :: nat
  defines "B \<equiv> 2 ^ 32" and "x \<equiv> n div 2 ^ 32" and "y \<equiv> n mod 2 ^ 32"
    and "u \<equiv> d div 2 ^ 32" and "v \<equiv> d mod 2 ^ 32"
  assumes "B \<le> x" and "x < d"
  shows "n = x div (u + 1) * d + x div (u + 1) * (B - v) + (x mod (u + 1) * B + y)"
    and "x mod (u + 1) * B + y < 2 * d"
    and "x div (u + 1) < B" and "x div (u + 1) * (B - v) < B * B" and "x mod (u + 1) \<le> u"
    and "n div d < B"
proof -
  let ?q = "x div (u + 1)" and ?r = "x mod (u + 1)"
  have B: "0 < B" by (simp add: B_def)
  have d: "d = u * B + v" by (simp add: u_def v_def B_def)
  have v: "v < B" by (simp add: v_def B_def)
  have y: "y < B" by (simp add: y_def B_def)
  have n: "n = x * B + y" by (simp add: x_def y_def B_def)
  have x: "x = ?q * (u + 1) + ?r" by (rule div_mult_mod_eq [symmetric])
  have "?q * d + ?q * (B - v) = ?q * (u * B + B)"
    using v by (simp only: d add_mult_distrib2 [symmetric]) simp
  then have "?q * d + ?q * (B - v) + (?r * B + y) = (?q * (u + 1) + ?r) * B + y"
    by (simp add: algebra_simps)
  with n x show "n = ?q * d + ?q * (B - v) + (?r * B + y)" by simp
  show r: "?r \<le> u" using mod_less_divisor [of "u + 1" x] by linarith
  have "?r * B \<le> u * B" using r by simp
  then have "?r * B + y < u * B + B" using y by linarith
  moreover have "B \<le> d" using assms by simp
  moreover have "u * B \<le> d" using d by simp
  ultimately show "?r * B + y < 2 * d" by simp
  have "x < B * (u + 1)" using assms(7) d v by (simp add: algebra_simps)
  then show q: "?q < B" by (rule less_mult_imp_div_less)
  have "?q * (B - v) \<le> ?q * B" by simp
  also have "\<dots> < B * B" using q B by simp
  finally show "?q * (B - v) < B * B" .
  have "n < d * B"
  proof -
    have "n < Suc x * B" using n y by simp
    also have "\<dots> \<le> d * B" using assms(7) by (intro mult_le_mono1) simp
    finally show ?thesis .
  qed
  then show "n div d < B" by (simp add: less_mult_imp_div_less mult.commute)
qed

lemma divrem_96by64_shift:
  assumes "unat (abs128 num) < 2 ^ 96"
  shows "unat (u128lo (cairo_uint128_rsl num 32)) = unat (abs128 num) div 2 ^ 32"
proof -
  have "unat (abs128 (cairo_uint128_rsl num 32)) = unat (abs128 num) div 2 ^ 32"
    using unat_drop_bit [of 32 "abs128 num"] by (simp only: abs128_rsl)
  moreover have "unat (abs128 num) div 2 ^ 32 < 2 ^ 64"
    using assms by (simp add: less_mult_imp_div_less)
  ultimately show ?thesis by (simp add: abs128_parts)
qed

lemma divrem_96by64_quotients:
  fixes x den :: u64
  defines "u \<equiv> (ucast (uint64_hi den) :: u32)"
  assumes "unat x div (unat den div 2 ^ 32 + 1) < 2 ^ 32"
  shows "(if u + 1 \<noteq> 0
        then map_option (\<lambda>quorem. (ucast (quo64n quorem), ucast (rem64n quorem)))
               (native_uint64_divrem x (ucast (u + 1)))
        else Some (ucast (uint64_hi x), ucast x))
    = Some (of_nat (unat x div (unat den div 2 ^ 32 + 1)) :: u32,
            of_nat (unat x mod (unat den div 2 ^ 32 + 1)) :: u32)"
proof -
  have hi: "unat (uint64_hi w) = unat w div 2 ^ 32" for w
    unfolding uint64_hi_def by (rule unat_drop_bit)
  have small: "unat w div 2 ^ 32 < 2 ^ 32" for w :: u64
    using unsigned_less [of w, where 'a = nat] by (simp add: less_mult_imp_div_less)
  have u: "unat u = unat den div 2 ^ 32"
    using small [of den] by (simp add: u_def unat_ucast_mod hi)
  show ?thesis
  proof (cases "u + 1 = 0")
    case True
    then have "unat u = 2 ^ 32 - 1"
      by (simp add: eq_neg_iff_add_eq_0 [symmetric] unsigned_minus_1_eq_mask mask_eq_exp_minus_1)
    then have "unat den div 2 ^ 32 + 1 = 2 ^ 32" using u by simp
    then show ?thesis
      using True small [of x]
      by (simp add: word_unat_eq_iff unat_ucast_mod hi unat_of_nat)
  next
    case False
    then have u1: "unat (u + 1) = unat den div 2 ^ 32 + 1"
      using u unatSuc [of u] by (simp add: add.commute)
    then have "unat (ucast (u + 1) :: u64) = unat den div 2 ^ 32 + 1"
      using unsigned_less [of "u + 1", where 'a = nat] by (simp add: unat_ucast_mod)
    then show ?thesis
      using False
      by (auto simp: native_uint64_divrem_def word_unat_eq_iff unat_ucast_mod unat_of_nat
          unat_div_distrib unat_mod_distrib simp flip: unat_eq_0)
  qed
qed

lemma divrem_96by64_main_term:
  fixes v q :: u32
  assumes "den \<noteq> 0"
  shows "(if v \<noteq> 0 then native_uint64_divrem (ucast q * ucast (- v)) den
          else native_uint64_divrem (uint32s_to_uint64 q 0) den)
    = Some \<lparr>quo64n = of_nat (unat q * (2 ^ 32 - unat v)) div den,
            rem64n = of_nat (unat q * (2 ^ 32 - unat v)) mod den\<rparr>"
proof -
  have "uint32s_to_uint64 q 0 = of_nat (unat q * 2 ^ 32)"
    by (simp add: uint32s_to_uint64_def push_bit_eq_mult)
  moreover have "(ucast q * ucast (- v) :: u64) = of_nat (unat q * (2 ^ 32 - unat v))" if "v \<noteq> 0"
  proof -
    have "unat (- v) = 2 ^ 32 - unat v" using that unat_sub_if' [of 0 v] by (simp add: unat_gt_0)
    then have "(ucast (- v) :: u64) = of_nat (2 ^ 32 - unat v)" by (metis of_nat_unat)
    then show ?thesis by simp
  qed
  ultimately show ?thesis using assms by (simp add: native_uint64_divrem_def)
qed

lemma uint_96by64_divrem_ok:
  fixes num :: cairo_uint128 and den :: u64
  defines "n \<equiv> unat (abs128 num)" and "d \<equiv> unat den"
  assumes fits: "n < 2 ^ 96"
  shows "\<exists>qr. cairo_uint_96by64_32x64_divrem num den = Some qr \<and>
    (if n div 2 ^ 32 < d then unat (quo64n qr) = n div d \<and> unat (rem64n qr) = n mod d
     else quo64n qr = - 1 \<and> rem64n qr = den)"
proof -
  let ?x = "u128lo (cairo_uint128_rsl num 32)"
  have x: "unat ?x = n div 2 ^ 32" unfolding n_def by (rule divrem_96by64_shift [OF fits [unfolded n_def]])
  have B: "unat (uint32s_to_uint64 1 0) = 2 ^ 32" by (simp add: unat_uint32s)
  consider (over) "d \<le> n div 2 ^ 32" | (small) "n div 2 ^ 32 < d" "n div 2 ^ 32 < 2 ^ 32"
    | (main) "2 ^ 32 \<le> n div 2 ^ 32" "n div 2 ^ 32 < d" by linarith
  then show ?thesis
  proof cases
    case over
    moreover have "uint32s_to_uint64 (- 1) (- 1) = - 1"
      by (rule bit_word_eqI) (auto simp: uint32s_to_uint64_def bit_simps)
    ultimately show ?thesis
      using x by (simp add: cairo_uint_96by64_32x64_divrem_def Let_def word_less_nat_alt d_def)
  next
    case small
    then have "n < 2 ^ 64" by simp
    then have "unat (u128lo num) = n" by (simp add: abs128_parts n_def)
    with small x B show ?thesis
      by (auto simp: cairo_uint_96by64_32x64_divrem_def Let_def word_less_nat_alt d_def
          native_uint64_divrem_def unat_div_distrib unat_mod_distrib simp flip: unat_eq_0)
  next
    case main
    let ?q = "n div 2 ^ 32 div (d div 2 ^ 32 + 1)" and ?r = "n div 2 ^ 32 mod (d div 2 ^ 32 + 1)"
    let ?m = "?q * (2 ^ 32 - d mod 2 ^ 32)" and ?s = "?r * 2 ^ 32 + n mod 2 ^ 32"
    note num = two_step_division [OF main]
    have dlt: "d < 2 ^ 64" using unsigned_less [of den, where 'a = nat] by (simp add: d_def)
    have den: "den \<noteq> 0" using main(2) by (auto simp: d_def)
    have q: "unat (of_nat ?q :: u32) = ?q" using num(3) by (simp add: unat_of_nat)
    have "d div 2 ^ 32 < 2 ^ 32" using dlt by (simp add: less_mult_imp_div_less)
    with num(5) have "?r < 2 ^ 32" by (rule le_less_trans)
    then have r: "unat (of_nat ?r :: u32) = ?r" by (simp add: unat_of_nat)
    have y: "unat (ucast (u128lo num) :: u32) = n mod 2 ^ 32"
      by (simp add: unat_ucast_mod abs128_parts n_def mod_mod_cancel)
    have v: "unat (ucast den :: u32) = d mod 2 ^ 32" by (simp add: unat_ucast_mod d_def)
    have m: "unat (of_nat ?m :: u64) = ?m" unfolding unat_of_nat using num(4) by simp
    define R0 where "R0 = uint32s_to_uint64 (of_nat ?r) (ucast (u128lo num))"
    define R1 where "R1 = (if \<not> R0 < den then R0 - den else R0)"
    define M :: u64 where "M = of_nat ?m mod den"
    define Q0 :: u32 where "Q0 = of_nat ?q + ucast (of_nat ?m div den :: u64)"
    define Q1 where "Q1 = (if \<not> R0 < den then Q0 + 1 else Q0)"
    define c where "c \<longleftrightarrow> \<not> R1 + M < den \<or> R1 + M < M"
    have res: "cairo_uint_96by64_32x64_divrem num den = Some
      \<lparr>quo64n = ucast (if c then Q1 + 1 else Q1), rem64n = (if c then R1 + M - den else R1 + M)\<rparr>"
    proof -
      have qs: "unat ?x div (unat den div 2 ^ 32 + 1) = ?q" "unat ?x mod (unat den div 2 ^ 32 + 1) = ?r"
        by (simp_all only: x d_def)
      have lt: "unat ?x div (unat den div 2 ^ 32 + 1) < 2 ^ 32" unfolding qs by (rule num(3))
      have nx: "\<not> \<not> ?x < den" "\<not> ?x < uint32s_to_uint64 1 0"
        using main x B by (simp_all add: word_less_nat_alt d_def)
      show ?thesis
        unfolding cairo_uint_96by64_32x64_divrem_def Let_def divrem_96by64_quotients [OF lt]
          if_not_P [OF nx(1)] if_not_P [OF nx(2)] bind.bind_lunit prod.case
          divrem_96by64_main_term [OF den] qs q v
        by (simp add: R0_def R1_def M_def Q0_def Q1_def c_def)
    qed
    have d0: "0 < d" using main by simp
    have R0: "unat R0 = ?s" unfolding R0_def unat_uint32s r y ..
    have R1: "unat R1 = ?s mod d"
    proof (cases "R0 < den")
      case True
      then show ?thesis using R0 by (simp add: R1_def word_less_nat_alt d_def)
    next
      case False
      then have "d \<le> ?s" using R0 by (simp add: word_less_nat_alt d_def)
      moreover from this num(2) have "?s mod d = ?s - d" by (rule mod_below_double)
      ultimately show ?thesis
        using False R0 by (simp add: R1_def unat_sub not_less d_def)
    qed
    have M: "unat M = ?m mod d" unfolding M_def unat_mod_distrib m by (simp only: d_def)
    have lts: "R1 < den" "M < den"
      using R1 M d0 by (simp_all add: word_less_nat_alt d_def)
    note parts = quotient_by_parts [OF num(1,2)]
    have cc: "c \<longleftrightarrow> d \<le> ?s mod d + ?m mod d"
      unfolding c_def unat_mod_add(1) [OF lts] R1 M by (simp only: d_def)
    have "unat (if c then R1 + M - den else R1 + M) = n mod d"
      unfolding c_def unat_mod_add(2) [OF lts] parts(2) R1 M by (simp only: d_def)
    moreover have "(if c then Q1 + 1 else Q1) = of_nat (n div d)"
    proof -
      have "Q0 = of_nat (?q + ?m div d)"
        proof -
        have "(ucast (of_nat ?m div den :: u64) :: u32) = of_nat (unat (of_nat ?m div den :: u64))"
          by simp
        also have "\<dots> = of_nat (?m div d)" unfolding unat_div_distrib m by (simp only: d_def)
        finally show ?thesis unfolding Q0_def by (simp only: of_nat_add)
      qed
      moreover have "\<not> R0 < den \<longleftrightarrow> d \<le> ?s"
        unfolding word_less_nat_alt R0 by (simp only: d_def not_less)
      ultimately show ?thesis unfolding parts(1) cc Q1_def by simp
    qed
    moreover have "unat (ucast (of_nat (n div d) :: u32) :: u64) = n div d"
      using num(6) by (simp add: unat_ucast_mod unat_of_nat)
    ultimately show ?thesis using res main(2) by simp
  qed
qed

lemma signed_quorem_words:
  fixes n d :: int and q r :: "'a::len word"
  assumes "uint q = \<bar>n\<bar> div \<bar>d\<bar>" and "uint r = \<bar>n\<bar> mod \<bar>d\<bar>"
  shows "(if (n < 0) \<noteq> (d < 0) then - q else q) = word_of_int (n sdiv d)"
    and "(if n < 0 then - r else r) = word_of_int (n smod d)"
proof -
  have q: "q = word_of_int (\<bar>n\<bar> div \<bar>d\<bar>)" and r: "r = word_of_int (\<bar>n\<bar> mod \<bar>d\<bar>)"
    using assms by (metis word_of_int_uint)+
  show "(if (n < 0) \<noteq> (d < 0) then - q else q) = word_of_int (n sdiv d)"
    by (cases n "0 :: int" rule: linorder_cases; cases d "0 :: int" rule: linorder_cases)
       (simp_all add: q signed_divide_int_def sgn_if)
  show "(if n < 0 then - r else r) = word_of_int (n smod d)"
    by (cases n "0 :: int" rule: linorder_cases) (simp_all add: r signed_modulo_int_def sgn_if)
qed

lemma int_96by64_divrem_ok:
  fixes num :: cairo_uint128 and den :: u64
  defines "n \<equiv> sint (abs128 num)" and "d \<equiv> sint den"
  assumes fits: "\<bar>n\<bar> < 2 ^ 96"
  shows "\<exists>qr. cairo_int_96by64_32x64_divrem num den = Some qr \<and>
    (if \<bar>n\<bar> div 2 ^ 32 < \<bar>d\<bar>
     then quo64n qr = word_of_int (n sdiv d) \<and> rem64n qr = word_of_int (n smod d)
     else quo64n qr = 0x7FFFFFFFFFFFFFFF \<and> rem64n qr = den)"
proof -
  define N where "N = (if cairo_int128_negative num then cairo_int128_negate num else num)"
  define D where "D = (if den <s 0 then - den else den)"
  have "abs128 N = (if abs128 num <s 0 then - abs128 num else abs128 num)"
    by (simp add: N_def abs128_negative abs128_negate)
  then have un: "int (unat (abs128 N)) = \<bar>n\<bar>" using uint_magnitude [of "abs128 num"] by (simp only: uint_nat n_def)
  have ud: "int (unat D) = \<bar>d\<bar>" using uint_magnitude [of den] by (simp only: uint_nat d_def D_def)
  have "int (unat (abs128 N)) < int (2 ^ 96)" unfolding un using fits by simp
  then have lt: "unat (abs128 N) < 2 ^ 96" by (simp only: of_nat_less_iff)
  obtain qr where qr: "cairo_uint_96by64_32x64_divrem N D = Some qr"
    and res: "if unat (abs128 N) div 2 ^ 32 < unat D
      then unat (quo64n qr) = unat (abs128 N) div unat D \<and> unat (rem64n qr) = unat (abs128 N) mod unat D
      else quo64n qr = - 1 \<and> rem64n qr = D"
    using uint_96by64_divrem_ok [OF lt] by blast
  have "int (unat (abs128 N) div 2 ^ 32) = \<bar>n\<bar> div 2 ^ 32"
    unfolding zdiv_int un by simp
  then have cond: "unat (abs128 N) div 2 ^ 32 < unat D \<longleftrightarrow> \<bar>n\<bar> div 2 ^ 32 < \<bar>d\<bar>"
    by (metis of_nat_less_iff ud)
  have neg: "cairo_int128_negative num \<longleftrightarrow> n < 0" "den <s 0 \<longleftrightarrow> d < 0"
    by (simp_all add: abs128_negative n_def d_def word_sless_alt)
  have ev: "cairo_int_96by64_32x64_divrem num den = (if rem64n qr = D
      then Some \<lparr>quo64n = uint32s_to_uint64 0x7FFFFFFF (- 1), rem64n = den\<rparr>
      else Some \<lparr>quo64n = (if (n < 0) \<noteq> (d < 0) then - quo64n qr else quo64n qr),
                 rem64n = (if n < 0 then - rem64n qr else rem64n qr)\<rparr>)"
    unfolding cairo_int_96by64_32x64_divrem_def Let_def N_def [symmetric] D_def [symmetric] qr
      option.case
    unfolding neg ..
  show ?thesis
  proof (cases "\<bar>n\<bar> div 2 ^ 32 < \<bar>d\<bar>")
    case False
    with res cond have "rem64n qr = D" by simp
    moreover have "uint32s_to_uint64 0x7FFFFFFF (- 1) = 0x7FFFFFFFFFFFFFFF"
      by (simp add: word_unat_eq_iff unat_uint32s unsigned_minus_1_eq_mask mask_eq_exp_minus_1)
    ultimately show ?thesis unfolding ev using False by simp
  next
    case True
    with res cond have q: "unat (quo64n qr) = unat (abs128 N) div unat D"
      and r: "unat (rem64n qr) = unat (abs128 N) mod unat D" by simp_all
    have "uint (quo64n qr) = \<bar>n\<bar> div \<bar>d\<bar>" "uint (rem64n qr) = \<bar>n\<bar> mod \<bar>d\<bar>"
      using arg_cong [OF q, of int] arg_cong [OF r, of int]
      by (simp_all only: zdiv_int zmod_int un ud uint_nat)
    note quorem = signed_quorem_words [OF this]
    have "0 < unat D" using True cond by linarith
    then have "unat (rem64n qr) < unat D" unfolding r by (rule mod_less_divisor)
    then have "rem64n qr \<noteq> D" by auto
    then show ?thesis unfolding ev using True quorem by simp
  qed
qed

subsection \<open>Properties\<close>

text \<open>
  The arithmetic, comparison and complement operations on the two-word
  128-bit struct implement those of a 128-bit word; the product of two 64-bit words is the
  exact 128-bit product, unsigned and signed.
\<close>

theorem uint128_refines_word:
  "abs128 (cairo_uint128_add a b) = abs128 a + abs128 b
   \<and> abs128 (cairo_uint128_sub a b) = abs128 a - abs128 b
   \<and> abs128 (cairo_uint128_mul a b) = abs128 a * abs128 b
   \<and> abs128 (cairo_int128_negate a) = - abs128 a
   \<and> abs128 (cairo_int128_not a) = NOT (abs128 a)
   \<and> cairo_uint128_lt a b = (abs128 a < abs128 b)
   \<and> cairo_uint128_eq a b = (abs128 a = abs128 b)
   \<and> cairo_int128_lt a b = (abs128 a <s abs128 b)
   \<and> abs128 (cairo_uint64x64_128_mul x y) = ucast x * ucast y
   \<and> abs128 (cairo_int64x64_128_mul x y) = scast x * scast y
   \<and> abs128 (cairo_uint32_to_uint128 i) = ucast i
   \<and> abs128 (cairo_int32_to_int128 i) = scast i
   \<and> abs128 (cairo_uint64_to_uint128 x) = ucast x
   \<and> abs128 (cairo_int64_to_int128 x) = scast x"
  by (intro conjI abs128_of_uint32 abs128_of_int32 abs128_of_uint64 abs128_of_int64 abs128_add abs128_sub abs128_mul abs128_negate abs128_not abs128_lt abs128_eq
      abs128_int_lt abs128_mul64 abs128_mul64_signed)

text \<open>
  The three 128-bit shifts are those of the 128-bit word for every
  shift count below 128.
\<close>

theorem uint128_shifts:
  assumes "shift < 128"
  shows "abs128 (cairo_uint128_lsl a shift) = push_bit shift (abs128 a)
    \<and> abs128 (cairo_uint128_rsl a shift) = drop_bit shift (abs128 a)
    \<and> abs128 (cairo_uint128_rsa a shift) = signed_drop_bit shift (abs128 a)"
  using assms by (intro conjI abs128_lsl abs128_rsl abs128_rsa)

theorem uint128_shifts_witness:
  "(70 :: nat) < 128 \<and> abs128 (cairo_uint128_rsl \<lparr>u128lo = 3, u128hi = 512\<rparr> 70)
    = drop_bit 70 (abs128 \<lparr>u128lo = 3, u128hi = 512\<rparr>)"
  using uint128_shifts [of 70 "\<lparr>u128lo = 3, u128hi = 512\<rparr>"] by simp

text \<open>
  Claim C30: for a non-zero divisor both loops of the bit-at-a-time 128-bit
  division end, and the function returns the quotient and the remainder.
\<close>

theorem uint128_divrem_correct:
  assumes "abs128 den \<noteq> 0"
  shows "\<exists>qr. cairo_uint128_divrem num den = Some qr
    \<and> abs128 (quo128 qr) = abs128 num div abs128 den
    \<and> abs128 (rem128 qr) = abs128 num mod abs128 den"
  by (rule uint128_divrem_ok [OF assms])

theorem uint128_divrem_correct_witness:
  "\<exists>qr. cairo_uint128_divrem \<lparr>u128lo = 7, u128hi = 0\<rparr> \<lparr>u128lo = 2, u128hi = 0\<rparr> = Some qr
    \<and> abs128 (quo128 qr) = 3 \<and> abs128 (rem128 qr) = 1"
proof -
  have d: "abs128 \<lparr>u128lo = 2, u128hi = 0\<rparr> \<noteq> 0" by simp
  show ?thesis using uint128_divrem_correct [OF d, of "\<lparr>u128lo = 7, u128hi = 0\<rparr>"] by simp
qed

text \<open>
  Dividing a non-zero number by zero never returns: the normalising
  loop shifts the zero divisor for ever.
\<close>

theorem uint128_divrem_zero_diverges:
  assumes "abs128 den = 0" and "abs128 num \<noteq> 0"
  shows "cairo_uint128_divrem num den = None"
  by (simp add: cairo_uint128_divrem_def uint128_normalize_zero_diverges [OF assms])

theorem uint128_divrem_zero_diverges_witness:
  "cairo_uint128_divrem \<lparr>u128lo = 5, u128hi = 0\<rparr> \<lparr>u128lo = 0, u128hi = 0\<rparr> = None"
  by (rule uint128_divrem_zero_diverges) simp_all

text \<open>
  The signed 128-bit division by a non-zero divisor returns the
  quotient and the remainder truncated towards zero.
\<close>

theorem int128_divrem_truncates:
  assumes "abs128 den \<noteq> 0"
  shows "\<exists>qr. cairo_int128_divrem num den = Some qr
    \<and> abs128 (quo128 qr) = word_of_int (sint (abs128 num) sdiv sint (abs128 den))
    \<and> abs128 (rem128 qr) = word_of_int (sint (abs128 num) smod sint (abs128 den))"
  by (rule int128_divrem_ok [OF assms])

theorem int128_divrem_truncates_witness:
  "\<exists>qr. cairo_int128_divrem (cairo_int32_to_int128 (- 7)) (cairo_int32_to_int128 2) = Some qr
    \<and> sint (abs128 (quo128 qr)) = - 3 \<and> sint (abs128 (rem128 qr)) = - 1"
proof -
  have n: "abs128 (cairo_int32_to_int128 (- 7)) = - 7" and d: "abs128 (cairo_int32_to_int128 2) = 2"
    by (simp_all add: abs128_of_int32)
  have "abs128 (cairo_int32_to_int128 2) \<noteq> 0" unfolding d by simp
  from int128_divrem_truncates [OF this, of "cairo_int32_to_int128 (- 7)"] show ?thesis
    unfolding n d by (auto simp: signed_divide_int_def signed_modulo_int_def)
qed

text \<open>
  Claim C28: the division of a 96-bit number by a 64-bit one.  It always
  returns; when the quotient fits into 32 bits it is exact, together with the remainder,
  although it is computed by two 64-bit divisions, and otherwise the documented overflow
  marker (largest quotient, remainder equal to the divisor) is returned, for a zero divisor too.
\<close>

theorem uint_96by64_divrem_correct:
  assumes "unat (abs128 num) < 2 ^ 96"
  shows "\<exists>qr. cairo_uint_96by64_32x64_divrem num den = Some qr \<and>
    (if unat (abs128 num) div 2 ^ 32 < unat den
     then unat (quo64n qr) = unat (abs128 num) div unat den
        \<and> unat (rem64n qr) = unat (abs128 num) mod unat den
     else quo64n qr = - 1 \<and> rem64n qr = den)"
  by (rule uint_96by64_divrem_ok [OF assms])

theorem uint_96by64_divrem_correct_witness:
  "\<exists>qr. cairo_uint_96by64_32x64_divrem \<lparr>u128lo = 5, u128hi = 1\<rparr> 0x100000001 = Some qr
    \<and> unat (quo64n qr) = 4294967295 \<and> unat (rem64n qr) = 6"
proof -
  have n: "unat (abs128 \<lparr>u128lo = 5, u128hi = 1\<rparr>) = 2 ^ 64 + 5"
    by (simp add: abs128_def unat_word_cat [OF width128])
  have "unat (abs128 \<lparr>u128lo = 5, u128hi = 1\<rparr>) < 2 ^ 96" unfolding n by simp
  from uint_96by64_divrem_correct [OF this, of "0x100000001"] show ?thesis
    unfolding n by simp
qed

text \<open>
  The signed 96 by 64 bit division truncates towards zero when
  the magnitude of the quotient fits into 32 bits, and reports overflow otherwise.
\<close>

theorem int_96by64_divrem_correct:
  assumes "\<bar>sint (abs128 num)\<bar> < 2 ^ 96"
  shows "\<exists>qr. cairo_int_96by64_32x64_divrem num den = Some qr \<and>
    (if \<bar>sint (abs128 num)\<bar> div 2 ^ 32 < \<bar>sint den\<bar>
     then quo64n qr = word_of_int (sint (abs128 num) sdiv sint den)
        \<and> rem64n qr = word_of_int (sint (abs128 num) smod sint den)
     else quo64n qr = 0x7FFFFFFFFFFFFFFF \<and> rem64n qr = den)"
  by (rule int_96by64_divrem_ok [OF assms])

theorem int_96by64_divrem_correct_witness:
  "\<exists>qr. cairo_int_96by64_32x64_divrem (cairo_int32_to_int128 (- 7)) 2 = Some qr
    \<and> sint (quo64n qr) = - 3 \<and> sint (rem64n qr) = - 1"
proof -
  have n: "sint (abs128 (cairo_int32_to_int128 (- 7))) = - 7"
    by (simp add: abs128_of_int32)
  have "\<bar>sint (abs128 (cairo_int32_to_int128 (- 7)))\<bar> < 2 ^ 96" unfolding n by simp
  from int_96by64_divrem_correct [OF this, of 2] show ?thesis
    unfolding n by (auto simp: signed_divide_int_def signed_modulo_int_def)
qed

end
