(* ===== verification/Int64x64.thy ===== *)
theory Int64x64
  imports Wideint128
begin

section \<open>int64x64-cairo.cc: the Q64.64 fixed-point numbers of ns-3 time\<close>

text \<open>
  The client of the 128-bit integers: \<^verbatim>\<open>int64x64_t\<close> keeps a fixed-point number as a
  \<^verbatim>\<open>cairo_int128_t\<close> with 64 integer and 64 fraction bits.  Aborts and failed assertions of the
  source are \<open>None\<close>.
\<close>

definition Umul :: "cairo_uint128 \<Rightarrow> cairo_uint128 \<Rightarrow> cairo_uint128 option" where
  "Umul a b =
    (let loPart = cairo_uint64x64_128_mul (u128lo a) (u128lo b);
         midPart = cairo_uint128_add (cairo_uint64x64_128_mul (u128lo a) (u128hi b))
                     (cairo_uint64x64_128_mul (u128hi a) (u128lo b));
         hiPart = cairo_uint64x64_128_mul (u128hi a) (u128hi b)
     in if u128hi hiPart \<noteq> 0 then None
        else Some \<lparr>u128lo = u128hi loPart + u128lo midPart, u128hi = u128lo hiPart + u128hi midPart\<rparr>)"

definition output_sign :: "cairo_uint128 \<Rightarrow> cairo_uint128 \<Rightarrow> bool \<times> cairo_uint128 \<times> cairo_uint128" where
  "output_sign sa sb =
    (let negA = cairo_int128_negative sa;
         negB = cairo_int128_negative sb;
         ua = (if negA then cairo_int128_negate sa else sa);
         ub = (if negB then cairo_int128_negate sb else sb)
     in (negA \<and> \<not> negB \<or> \<not> negA \<and> negB, ua, ub))"

definition int64x64_Mul :: "cairo_uint128 \<Rightarrow> cairo_uint128 \<Rightarrow> cairo_uint128 option" where
  "int64x64_Mul v ov =
    (let (sign, a, b) = output_sign v ov
     in map_option (\<lambda>result. if sign then cairo_int128_negate result else result) (Umul a b))"

definition Udiv :: "cairo_uint128 \<Rightarrow> cairo_uint128 \<Rightarrow> cairo_uint128 option" where
  "Udiv a b =
    Option.bind (cairo_uint128_divrem a b) (\<lambda>qr.
      let result = cairo_uint128_lsl (quo128 qr) 64;
          tmp = cairo_uint128_rsl (rem128 qr) 64;
          zero = cairo_uint64_to_uint128 0;
          (rem, dv) = (if cairo_uint128_eq tmp zero then (cairo_uint128_lsl (rem128 qr) 64, b)
                       else (rem128 qr, cairo_uint128_rsl b 64))
      in Option.bind (cairo_uint128_divrem rem dv) (\<lambda>qr.
           Some (cairo_uint128_add result (quo128 qr))))"

definition int64x64_Div :: "cairo_uint128 \<Rightarrow> cairo_uint128 \<Rightarrow> cairo_uint128 option" where
  "int64x64_Div v ov =
    (let (sign, a, b) = output_sign v ov
     in map_option (\<lambda>result. if sign then cairo_int128_negate result else result) (Udiv a b))"

definition UmulByInvert :: "cairo_uint128 \<Rightarrow> cairo_uint128 \<Rightarrow> cairo_uint128" where
  "UmulByInvert a b =
    (let hi = cairo_uint64x64_128_mul (u128hi a) (u128hi b);
         mid = cairo_uint128_add (cairo_uint64x64_128_mul (u128hi a) (u128lo b))
                 (cairo_uint64x64_128_mul (u128lo a) (u128hi b))
     in cairo_uint128_add hi \<lparr>u128lo = u128hi mid, u128hi = 0\<rparr>)"

definition MulByInvert :: "cairo_uint128 \<Rightarrow> cairo_uint128 \<Rightarrow> cairo_uint128" where
  "MulByInvert v ov =
    (let negResult = cairo_int128_negative v;
         a = (if negResult then cairo_int128_negate v else v);
         result = UmulByInvert a ov
     in if negResult then cairo_int128_negate result else result)"

text \<open>The assertion \<open>v > 1\<close> of the source is the guard; its failure is \<open>None\<close>.\<close>

definition int64x64_Invert :: "u64 \<Rightarrow> cairo_uint128 option" where
  "int64x64_Invert v =
    (if \<not> v > 1 then None
     else Option.bind (Udiv \<lparr>u128lo = 0, u128hi = 1\<rparr> \<lparr>u128lo = v, u128hi = 0\<rparr>) (\<lambda>result.
       let tmp = MulByInvert \<lparr>u128lo = 0, u128hi = v\<rparr> result
       in Some (if u128hi tmp \<noteq> 1 then cairo_uint128_add result \<lparr>u128lo = 1, u128hi = 0\<rparr> else result)))"

lemma abs128_of_nat: "abs128 a = of_nat (unat (abs128 a))" by simp

lemma product_middle:
  fixes ah al bh bl :: nat
  shows "(ah * 2 ^ 64 + al) * (bh * 2 ^ 64 + bl) div 2 ^ 64
    = ah * bh * 2 ^ 64 + (al * bh + ah * bl) + al * bl div 2 ^ 64"
proof -
  have "(ah * 2 ^ 64 + al) * (bh * 2 ^ 64 + bl)
    = al * bl + (ah * bh * 2 ^ 64 + (al * bh + ah * bl)) * 2 ^ 64"
    by (simp add: algebra_simps)
  then show ?thesis by (simp only: div_mult_self1) simp
qed

text \<open>What the multiplication returns, the lost carry included.\<close>

lemma Umul_value:
  fixes a b
  defines "lo \<equiv> cairo_uint64x64_128_mul (u128lo a) (u128lo b)"
    and "mid \<equiv> cairo_uint128_add (cairo_uint64x64_128_mul (u128lo a) (u128hi b))
      (cairo_uint64x64_128_mul (u128hi a) (u128lo b))"
  assumes "Umul a b = Some r"
  shows "abs128 r = of_nat (unat (abs128 a) * unat (abs128 b) div 2 ^ 64)
    - (if 2 ^ 64 \<le> unat (u128hi lo) + unat (u128lo mid) then 2 ^ 64 else 0)"
proof -
  define h where "h = cairo_uint64x64_128_mul (u128hi a) (u128hi b)"
  have r: "r = \<lparr>u128lo = u128hi lo + u128lo mid, u128hi = u128lo h + u128hi mid\<rparr>"
    using assms(3) by (auto simp: Umul_def Let_def lo_def mid_def h_def split: if_splits)
  have mul: "abs128 (cairo_uint64x64_128_mul x y) = of_nat (unat x * unat y)" for x y
    by (simp add: abs128_mul64)
  have c: "u128hi lo + u128lo mid < u128hi lo \<longleftrightarrow> 2 ^ 64 \<le> unat (u128hi lo) + unat (u128lo mid)"
    unfolding word_less_nat_alt unat_plus_if'
    using unsigned_less [of "u128lo mid", where 'a = nat] by auto
  have lo: "unat (u128hi lo) = unat (u128lo a) * unat (u128lo b) div 2 ^ 64"
  proof -
    have "unat (u128lo a) * unat (u128lo b) < 2 ^ 64 * 2 ^ 64"
      by (intro mult_strict_mono) (use unsigned_less [where 'a = nat and 'b = 64] in simp_all)
    then have "unat (abs128 lo) = unat (u128lo a) * unat (u128lo b)"
      unfolding lo_def mul unat_of_nat by simp
    then show ?thesis by (simp add: abs128_parts)
  qed
  have "hi_part (u128lo h) = (of_nat (unat (u128hi a) * unat (u128hi b)) * 2 ^ 64 :: u128)"
  proof -
    have two: "(2 ^ 64 :: u128) = hi_part (1 :: u64)" by (simp add: hi_part_ucast)
    have "abs128 h * 2 ^ 64 = hi_part (1 :: u64) * ucast (u128lo h)"
      unfolding two abs128_def word_cat_hi_part distrib_right hi_part_hi_part [OF width128]
      by (simp add: mult.commute)
    then have "hi_part (u128lo h) = abs128 h * 2 ^ 64"
      unfolding hi_part_mult [OF width128, symmetric] by simp
    then show ?thesis unfolding h_def mul .
  qed
  moreover have "hi_part (u128hi mid) + ucast (u128lo mid)
      = (of_nat (unat (u128lo a) * unat (u128hi b) + unat (u128hi a) * unat (u128lo b)) :: u128)"
    using abs128_add [of "cairo_uint64x64_128_mul (u128lo a) (u128hi b)"
        "cairo_uint64x64_128_mul (u128hi a) (u128lo b)"]
    unfolding mid_def [symmetric] mul of_nat_add [symmetric] by (simp only: abs128_def word_cat_hi_part)
  moreover have "(ucast (u128hi lo) :: u128) = of_nat (unat (u128lo a) * unat (u128lo b) div 2 ^ 64)"
    unfolding lo [symmetric] by simp
  ultimately have "abs128 r + (if 2 ^ 64 \<le> unat (u128hi lo) + unat (u128lo mid) then 2 ^ 64 else 0)
     = of_nat (unat (u128hi a) * unat (u128hi b) * 2 ^ 64
        + (unat (u128lo a) * unat (u128hi b) + unat (u128hi a) * unat (u128lo b))
        + unat (u128lo a) * unat (u128lo b) div 2 ^ 64)"
    unfolding r abs128_make word_cat_hi_part hi_part_add [OF width128] ucast_add_carry [OF width128] c
    by (simp add: algebra_simps)
  also have "\<dots> = of_nat (unat (abs128 a) * unat (abs128 b) div 2 ^ 64)"
    unfolding product_middle [symmetric] by (simp add: abs128_def unat_word_cat [OF width128])
  finally show ?thesis by (simp add: algebra_simps)
qed

text \<open>The division is the rounded-down fixed-point quotient while the remainder fits the fraction.\<close>

lemma Udiv_value:
  assumes b: "abs128 b \<noteq> 0" and small: "unat (abs128 a) mod unat (abs128 b) < 2 ^ 64"
  shows "\<exists>r. Udiv a b = Some r
    \<and> abs128 r = of_nat (unat (abs128 a) * 2 ^ 64 div unat (abs128 b))"
proof -
  let ?A = "unat (abs128 a)" and ?B = "unat (abs128 b)"
  have B: "0 < ?B" using b by (simp add: unat_gt_0)
  obtain qr where qr: "cairo_uint128_divrem a b = Some qr"
    "abs128 (quo128 qr) = abs128 a div abs128 b" "abs128 (rem128 qr) = abs128 a mod abs128 b"
    using uint128_divrem_ok [OF b] by blast
  have rem: "unat (abs128 (rem128 qr)) = ?A mod ?B" by (simp add: qr(3) unat_mod_distrib)
  have "unat (abs128 (cairo_uint128_rsl (rem128 qr) 64)) = 0"
    using small rem unat_drop_bit [of 64 "abs128 (rem128 qr)"] by (simp only: abs128_rsl) simp
  then have z: "cairo_uint128_eq (cairo_uint128_rsl (rem128 qr) 64) (cairo_uint64_to_uint128 0)"
    by (simp add: abs128_eq cairo_uint64_to_uint128_def unat_eq_0)
  obtain qr2 where qr2: "cairo_uint128_divrem (cairo_uint128_lsl (rem128 qr) 64) b = Some qr2"
    "abs128 (quo128 qr2) = abs128 (cairo_uint128_lsl (rem128 qr) 64) div abs128 b"
    using uint128_divrem_ok [OF b] by blast
  have "unat (abs128 (cairo_uint128_lsl (rem128 qr) 64)) = ?A mod ?B * 2 ^ 64"
  proof -
    have "abs128 (rem128 qr) = of_nat (?A mod ?B)" using rem by (rule word_of_natI)
    then have "abs128 (cairo_uint128_lsl (rem128 qr) 64) = of_nat (?A mod ?B * 2 ^ 64)"
      by (simp add: abs128_lsl push_bit_eq_mult)
    moreover have "?A mod ?B * 2 ^ 64 < 2 ^ 128" using small by simp
    ultimately show ?thesis by (simp only: unat_of_nat) simp
  qed
  then have "abs128 (quo128 qr2) = of_nat (?A mod ?B * 2 ^ 64 div ?B)"
    unfolding qr2(2) by (intro word_of_natI) (simp only: unat_div_distrib)
  moreover have "abs128 (cairo_uint128_lsl (quo128 qr) 64) = of_nat (?A div ?B * 2 ^ 64)"
  proof -
    have "abs128 (quo128 qr) = of_nat (?A div ?B)"
      unfolding qr(2) by (intro word_of_natI) (simp only: unat_div_distrib)
    then show ?thesis by (simp add: abs128_lsl push_bit_eq_mult)
  qed
  moreover have "?A * 2 ^ 64 div ?B = ?A div ?B * 2 ^ 64 + ?A mod ?B * 2 ^ 64 div ?B"
    using B by (rule mult_div_split)
  ultimately show ?thesis
    using qr(1) qr2(1) z by (simp add: Udiv_def Let_def abs128_add)
qed

subsection \<open>Properties\<close>

text \<open>
  Claim C39: the unsigned fixed-point multiplication drops a carry.  When it
  does not abort, its result is the product shifted right by the 64 fraction bits, modulo
  \<open>2^128\<close>, except that it is too small by \<open>2^64\<close> (by 1.0 as a fixed-point number) whenever the
  high word of the low product and the low word of the middle product add up to at least
  \<open>2^64\<close>: the sum is stored in the low word and its carry is not added to the high word.
\<close>

theorem Umul_loses_carry:
  assumes "Umul a b = Some r"
  shows "abs128 r = of_nat (unat (abs128 a) * unat (abs128 b) div 2 ^ 64)
    - (if 2 ^ 64 \<le> unat (u128hi (cairo_uint64x64_128_mul (u128lo a) (u128lo b)))
         + unat (u128lo (cairo_uint128_add (cairo_uint64x64_128_mul (u128lo a) (u128hi b))
             (cairo_uint64x64_128_mul (u128hi a) (u128lo b))))
       then 2 ^ 64 else 0)"
  by (rule Umul_value [OF assms])

text \<open>The witness squares \<open>2 - 2^-64\<close>: the product is just below 4, the result just below 3.\<close>

theorem Umul_loses_carry_witness:
  "abs128 \<lparr>u128lo = 0xFFFFFFFFFFFFFFFC, u128hi = 2\<rparr>
     = of_nat ((2 ^ 65 - 1) * (2 ^ 65 - 1) div 2 ^ 64) - 2 ^ 64"
proof -
  let ?a = "\<lparr>u128lo = 0xFFFFFFFFFFFFFFFF, u128hi = 1\<rparr> :: cairo_uint128"
  have "Umul ?a ?a = Some \<lparr>u128lo = 0xFFFFFFFFFFFFFFFC, u128hi = 2\<rparr>" by code_simp
  note U = Umul_loses_carry [OF this]
  have a: "unat (abs128 ?a) = 2 ^ 65 - 1" by (simp add: abs128_def unat_word_cat [OF width128])
  have h: "u128hi (cairo_uint64x64_128_mul (u128lo ?a) (u128lo ?a)) = 0xFFFFFFFFFFFFFFFE" by code_simp
  have l: "u128lo (cairo_uint128_add (cairo_uint64x64_128_mul (u128lo ?a) (u128hi ?a))
      (cairo_uint64x64_128_mul (u128hi ?a) (u128lo ?a))) = 0xFFFFFFFFFFFFFFFE" by code_simp
  have c: "(2 :: nat) ^ 64 \<le> unat (0xFFFFFFFFFFFFFFFE :: u64) + unat (0xFFFFFFFFFFFFFFFE :: u64)" by simp
  show ?thesis using U unfolding a h l if_P [OF c] .
qed

text \<open>
  The unsigned fixed-point division is the quotient of the dividend
  scaled by \<open>2^64\<close>, rounded down, for every non-zero divisor and every dividend whose integer
  remainder is below \<open>2^64\<close> (in particular for every divisor of at most 64 bits).
\<close>

theorem Udiv_rounds_down:
  assumes "abs128 b \<noteq> 0" and "unat (abs128 a) mod unat (abs128 b) < 2 ^ 64"
  shows "\<exists>r. Udiv a b = Some r
    \<and> abs128 r = of_nat (unat (abs128 a) * 2 ^ 64 div unat (abs128 b))"
  by (rule Udiv_value [OF assms])

theorem Udiv_rounds_down_witness:
  "\<exists>r. Udiv \<lparr>u128lo = 0, u128hi = 1\<rparr> \<lparr>u128lo = 3, u128hi = 0\<rparr> = Some r
    \<and> abs128 r = of_nat (2 ^ 64 * 2 ^ 64 div 3)"
proof -
  have a: "unat (abs128 \<lparr>u128lo = 0, u128hi = 1\<rparr>) = 2 ^ 64"
    and b: "unat (abs128 \<lparr>u128lo = 3, u128hi = 0\<rparr>) = 3"
    by (simp_all add: abs128_def unat_word_cat [OF width128] del: word_cat_0_left)
  have "abs128 \<lparr>u128lo = 3, u128hi = 0\<rparr> \<noteq> 0" using b by auto
  moreover have "unat (abs128 \<lparr>u128lo = 0, u128hi = 1\<rparr>) mod unat (abs128 \<lparr>u128lo = 3, u128hi = 0\<rparr>) < 2 ^ 64"
    unfolding a b by simp
  ultimately show ?thesis using Udiv_rounds_down unfolding a b by (metis a b)
qed

end
