(* ===== verification/Inet_Order.thy ===== *)
theory Inet_Order
  imports Prelude
begin

section \<open>Byte order and the memory of the lwIP stack\<close>

text \<open>
  The byte-swapping functions of \<^verbatim>\<open>src/core/ipv4/inet.c\<close> and the byte memory the checksum and
  packet-buffer code reads.  Addresses are integers; \<^verbatim>\<open>u16_t\<close> and \<^verbatim>\<open>u32_t\<close> loads are little
  endian, the \<^verbatim>\<open>BYTE_ORDER\<close> the cradle builds lwIP with.
\<close>

type_synonym addr = int
type_synonym memory = "addr \<Rightarrow> u8"

definition htons :: "u16 \<Rightarrow> u16" where
  "htons n = (push_bit 8 (n AND 0xff)) OR (drop_bit 8 (n AND 0xff00))"

definition ntohs :: "u16 \<Rightarrow> u16" where
  "ntohs n = htons n"

definition htonl :: "u32 \<Rightarrow> u32" where
  "htonl n = push_bit 24 (n AND 0xff) OR push_bit 8 (n AND 0xff00)
     OR drop_bit 8 (n AND 0xff0000) OR drop_bit 24 (n AND 0xff000000)"

definition ntohl :: "u32 \<Rightarrow> u32" where
  "ntohl n = htonl n"

definition load16 :: "memory \<Rightarrow> addr \<Rightarrow> u16" where
  "load16 m p = ucast (m p) OR push_bit 8 (ucast (m (p + 1)))"

definition load32 :: "memory \<Rightarrow> addr \<Rightarrow> u32" where
  "load32 m p = ucast (load16 m p) OR push_bit 16 (ucast (load16 m (p + 2)))"

primrec bytes :: "memory \<Rightarrow> addr \<Rightarrow> nat \<Rightarrow> u8 list" where
  "bytes m p 0 = []"
| "bytes m p (Suc n) = m p # bytes m (p + 1) n"

lemma bytes_length [simp]: "length (bytes m p n) = n"
  by (induction n arbitrary: p) simp_all

lemma bytes_add: "bytes m p (a + b) = bytes m p a @ bytes m (p + int a) b"
  by (induction a arbitrary: p) (simp_all add: algebra_simps)

lemma take_bytes [simp]: "k \<le> n \<Longrightarrow> take k (bytes m p n) = bytes m p k"
  using bytes_add [of m p k "n - k"] by simp

lemma drop_bytes [simp]: "k \<le> n \<Longrightarrow> drop k (bytes m p n) = bytes m (p + int k) (n - k)"
  using bytes_add [of m p k "n - k"] by simp

lemma bytes_cong: "(\<And>i. p \<le> i \<Longrightarrow> i < p + int n \<Longrightarrow> m i = m' i) \<Longrightarrow> bytes m p n = bytes m' p n"
  by (induction n arbitrary: p) simp_all

lemma bytes_nth: "k < n \<Longrightarrow> bytes m p n ! k = m (p + int k)"
  by (induction n arbitrary: p k) (auto simp: nth_Cons split: nat.splits simp: algebra_simps)

lemma unat_of_nat_small: "n < 2 ^ LENGTH('a::len) \<Longrightarrow> unat (word_of_nat n :: 'a word) = n"
  unfolding unsigned_of_nat by (simp add: take_bit_nat_eq_self)

lemma unat_take_bit: "unat (take_bit n w) = unat w mod 2 ^ n"
  unfolding unsigned_take_bit_eq by (simp add: take_bit_eq_mod)

lemma unat_byte: "unat (b :: u8) \<le> 255"
  using unsigned_less [of b, where 'a = nat] by simp

lemma unat_half: "unat (h :: u16) \<le> 65535"
  using unsigned_less [of h, where 'a = nat] by simp

lemma unat_add_small:
  "unat (a :: 'a::len word) + unat b < 2 ^ LENGTH('a) \<Longrightarrow> unat (a + b) = unat a + unat b"
  by (simp add: unat_word_ariths)

lemma unat_ucast_half: "unat (ucast (h :: u16) :: u32) = unat h"
  using unat_half [of h] by (simp add: unat_ucast_mod)

text \<open>The value of an OR of two words that share no bit.\<close>

lemma unat_or_push:
  fixes lo :: "'a::len word" and hi :: "'b::len word"
  assumes "LENGTH('a) = n" and "LENGTH('a) + LENGTH('b) \<le> LENGTH('c::len)"
  shows "unat (ucast lo OR push_bit n (ucast hi) :: 'c word) = unat lo + 2 ^ n * unat hi"
proof -
  have "ucast lo OR push_bit n (ucast hi) = (ucast lo + push_bit n (ucast hi) :: 'c word)"
    using assms by (intro disjunctive_add [symmetric]) (auto simp: bit_simps dest: bit_imp_le_length)
  also have "unat \<dots> = unat lo + 2 ^ n * unat hi"
  proof -
    have b: "unat lo < 2 ^ n" "unat hi < 2 ^ LENGTH('b)"
      using assms by (metis unsigned_less)+
    have le: "2 ^ n * 2 ^ LENGTH('b) \<le> (2::nat) ^ LENGTH('c)"
      using assms by (metis power_add power_increasing one_le_numeral)
    have "2 ^ n * unat hi + 2 ^ n \<le> 2 ^ n * 2 ^ LENGTH('b)"
      using b(2) by (metis Suc_leI mult_Suc_right mult_le_mono2 add.commute)
    with b le have s: "unat lo + 2 ^ n * unat hi < 2 ^ LENGTH('c)" by linarith
    have w: "ucast lo + push_bit n (ucast hi) = (word_of_nat (unat lo + 2 ^ n * unat hi) :: 'c word)"
      by (simp add: push_bit_eq_mult mult.commute)
    show ?thesis
      unfolding w by (rule unat_of_nat_small [OF s])
  qed
  finally show ?thesis .
qed

lemma unat_load16: "unat (load16 m p) = unat (m p) + 256 * unat (m (p + 1))"
  unfolding load16_def by (subst unat_or_push) simp_all

lemma unat_load32: "unat (load32 m p) = unat (load16 m p) + 65536 * unat (load16 m (p + 2))"
  unfolding load32_def by (subst unat_or_push) simp_all

text \<open>A masked byte moved to its new place.\<close>

lemma byte_mask_low: "(n :: 'a::len word) AND 0xff = take_bit 8 n"
  by (simp add: take_bit_eq_mask mask_eq_exp_minus_1)

lemma drop_bit_byte_mask:
  "drop_bit k (n AND push_bit k (mask 8)) = take_bit 8 (drop_bit k (n :: 'a::len word))"
  by (rule bit_eqI) (auto simp: bit_simps dest: bit_imp_le_length)

lemma htons_bytes: "htons n = push_bit 8 (take_bit 8 n) OR take_bit 8 (drop_bit 8 n)"
proof -
  have m: "(0xff00 :: u16) = push_bit 8 (mask 8)" by (simp add: mask_eq_exp_minus_1 push_bit_eq_mult)
  show ?thesis unfolding htons_def byte_mask_low m drop_bit_byte_mask ..
qed

lemma htonl_bytes:
  "htonl n = push_bit 24 (take_bit 8 n) OR push_bit 16 (take_bit 8 (drop_bit 8 n))
     OR push_bit 8 (take_bit 8 (drop_bit 16 n)) OR take_bit 8 (drop_bit 24 n)"
proof -
  have m: "(0xff00 :: u32) = push_bit 8 (mask 8)" "(0xff0000 :: u32) = push_bit 16 (mask 8)"
    "(0xff000000 :: u32) = push_bit 24 (mask 8)" by (simp_all add: mask_eq_exp_minus_1 push_bit_eq_mult)
  have a: "push_bit 8 (n AND push_bit 8 (mask 8)) = push_bit 16 (take_bit 8 (drop_bit 8 n))"
    by (rule bit_eqI) (auto simp: bit_simps)
  have b: "drop_bit 8 (n AND push_bit 16 (mask 8)) = push_bit 8 (take_bit 8 (drop_bit 16 n))"
    by (rule bit_eqI) (auto simp: bit_simps)
  show ?thesis unfolding htonl_def byte_mask_low m drop_bit_byte_mask a b ..
qed

lemma bit_htonl: "bit (htonl n) i \<longleftrightarrow> i < 32 \<and> bit n (8 * (3 - i div 8) + i mod 8)"
proof (cases "i < 32")
  case True
  then consider "i < 8" | "8 \<le> i" "i < 16" | "16 \<le> i" "i < 24" | "24 \<le> i" by linarith
  then show ?thesis
  proof cases
    case 1
    then show ?thesis unfolding htonl_bytes by (simp add: bit_simps add.commute)
  next
    case 2
    then have "i div 8 = 1" by simp
    then have "8 * (3 - i div 8) + i mod 8 = i + 8" using 2 by (simp add: modulo_nat_def)
    then show ?thesis unfolding htonl_bytes using 2 by (auto simp: bit_simps add.commute)
  next
    case 3
    then have "i div 8 = 2" by simp
    then have "8 * (3 - i div 8) + i mod 8 = i - 8" using 3 by (simp add: modulo_nat_def)
    then show ?thesis unfolding htonl_bytes using 3 by (auto simp: bit_simps)
  next
    case 4
    then have "i div 8 = 3" using True by simp
    then have "8 * (3 - i div 8) + i mod 8 = i - 24" using 4 by (simp add: modulo_nat_def)
    then show ?thesis unfolding htonl_bytes using 4 True by (auto simp: bit_simps)
  qed
next
  case False
  then show ?thesis by (auto dest: bit_imp_le_length)
qed

lemma unat_htons: "unat (htons n) = 256 * (unat n mod 256) + unat n div 256"
proof -
  let ?lo = "ucast n :: u8" and ?hi = "ucast (drop_bit 8 n) :: u8"
  have "htons n = ucast ?hi OR push_bit 8 (ucast ?lo)"
    unfolding htons_bytes by (rule bit_eqI) (auto simp: bit_simps)
  also have "unat \<dots> = unat ?hi + 2 ^ 8 * unat ?lo"
    by (subst unat_or_push) simp_all
  also have "\<dots> = 256 * (unat n mod 256) + unat n div 256"
  proof -
    have "unat n < 65536" using unsigned_less [of n] by simp
    then have "unat n div 256 < 256" by (simp add: less_mult_imp_div_less)
    then show ?thesis by (simp add: unat_ucast_mod unat_drop_bit)
  qed
  finally show ?thesis .
qed

lemma htons_htons [simp]: "htons (htons n) = n"
  unfolding htons_bytes by (rule bit_eqI) (auto simp: bit_simps)

lemma ntohs_htons [simp]: "ntohs (htons n) = n" and htons_ntohs [simp]: "htons (ntohs n) = n"
  by (simp_all add: ntohs_def)

lemma htonl_htonl [simp]: "htonl (htonl n) = n"
proof (rule bit_word_eqI)
  fix i :: nat
  assume "i < LENGTH(32)"
  then have "i < 32" by simp
  moreover have "8 * (3 - i div 8) + i mod 8 < 32" and "i div 8 < 4"
    using \<open>i < 32\<close> by presburger+
  ultimately show "bit (htonl (htonl n)) i \<longleftrightarrow> bit n i"
    using \<open>i < 32\<close> by (simp add: bit_htonl)
qed

lemma ntohl_htonl [simp]: "ntohl (htonl n) = n" and htonl_ntohl [simp]: "htonl (ntohl n) = n"
  by (simp_all add: ntohl_def)

end
