(* ===== verification/Inet_Addr.thy ===== *)
theory Inet_Addr
  imports Inet_Order
begin

section \<open>Internet addresses as text\<close>

text \<open>
  \<^verbatim>\<open>inet_aton\<close>, \<^verbatim>\<open>inet_addr\<close> and \<^verbatim>\<open>inet_ntoa\<close> of \<^verbatim>\<open>src/core/ipv4/inet.c\<close>, and
  \<^verbatim>\<open>ip_addr_isbroadcast\<close> of \<^verbatim>\<open>ip_addr.c\<close>.  A C string is the list of its characters before the
  terminating NUL; reading at its end gives NUL.  The file defines its own \<^verbatim>\<open>isdigit\<close> and friends.
\<close>

definition in_range :: "char \<Rightarrow> char \<Rightarrow> char \<Rightarrow> bool" where
  "in_range c lo up \<longleftrightarrow> of_char lo \<le> (of_char c :: nat) \<and> of_char c \<le> (of_char up :: nat)"

definition isprint :: "char \<Rightarrow> bool" where "isprint c = in_range c (CHR 0x20) (CHR 0x7F)"
definition isdigit :: "char \<Rightarrow> bool" where "isdigit c = in_range c (CHR ''0'') (CHR ''9'')"
definition isxdigit :: "char \<Rightarrow> bool" where
  "isxdigit c \<longleftrightarrow> isdigit c \<or> in_range c (CHR ''a'') (CHR ''f'') \<or> in_range c (CHR ''A'') (CHR ''F'')"
definition islower :: "char \<Rightarrow> bool" where "islower c = in_range c (CHR ''a'') (CHR ''z'')"
definition isspace :: "char \<Rightarrow> bool" where
  "isspace c \<longleftrightarrow> c = CHR 0x20 \<or> c = CHR 0x0C \<or> c = CHR 0x0A \<or> c = CHR 0x0D \<or> c = CHR 0x09 \<or> c = CHR 0x0B"

definition at_cp :: "string \<Rightarrow> char" where
  "at_cp cp = (case cp of [] \<Rightarrow> CHR 0x00 | c # _ \<Rightarrow> c)"

fun aton_digits :: "u32 \<Rightarrow> string \<Rightarrow> u32 \<Rightarrow> u32 \<times> string" where
  "aton_digits base [] val = (val, [])"
| "aton_digits base (c # cp) val =
     (if isdigit c then aton_digits base cp (val * base + word_of_nat (of_char c - of_char (CHR ''0'')))
      else if base = 16 \<and> isxdigit c
      then aton_digits base cp (push_bit 4 val OR
        word_of_nat (of_char c + 10 - of_char (if islower c then CHR ''a'' else CHR ''A'')))
      else (val, c # cp))"

definition aton_base :: "string \<Rightarrow> u32 \<times> string" where
  "aton_base cp =
     (if at_cp cp = CHR ''0''
      then let cp = tl cp
           in if at_cp cp = CHR ''x'' \<or> at_cp cp = CHR ''X'' then (16, tl cp) else (8, cp)
      else (10, cp))"

function aton_parts :: "string \<Rightarrow> u32 list \<Rightarrow> (u32 list \<times> u32 \<times> string) option" where
  "aton_parts cp parts =
     (if \<not> isdigit (at_cp cp) then None
      else let (base, cp) = aton_base cp;
               (val, cp) = aton_digits base cp 0
           in if at_cp cp = CHR ''.''
              then if length parts \<ge> 3 then None else aton_parts (tl cp) (parts @ [val])
              else Some (parts, val, cp))"
  by auto
termination
  by (relation "measure (\<lambda>(cp, parts). 4 - length parts)") simp_all

declare aton_parts.simps [simp del]

definition inet_aton :: "string \<Rightarrow> u32 option" where
  "inet_aton cp =
     (case aton_parts cp [] of None \<Rightarrow> None
      | Some (parts, val, cp) \<Rightarrow>
          let c = at_cp cp; n = length parts + 1
          in if c \<noteq> CHR 0x00 \<and> (\<not> isprint c \<or> \<not> isspace c) then None
             else if n = 1 then Some (htonl val)
             else if n = 2 then
               (if val > 0xffffff then None else Some (htonl (val OR push_bit 24 (parts ! 0))))
             else if n = 3 then
               (if val > 0xffff then None
                else Some (htonl (val OR (push_bit 24 (parts ! 0) OR push_bit 16 (parts ! 1)))))
             else
               (if val > 0xff then None
                else Some (htonl (val OR (push_bit 24 (parts ! 0) OR push_bit 16 (parts ! 1)
                  OR push_bit 8 (parts ! 2))))))"

definition INADDR_NONE :: u32 where "INADDR_NONE = 0xffffffff"

definition inet_addr :: "string \<Rightarrow> u32" where
  "inet_addr cp = (case inet_aton cp of Some a \<Rightarrow> a | None \<Rightarrow> INADDR_NONE)"

function ntoa_inv :: "nat \<Rightarrow> string" where
  "ntoa_inv ap = (let rem = ap mod 10; ap = ap div 10
     in char_of (48 + rem) # (if ap \<noteq> 0 then ntoa_inv ap else []))"
  by auto
termination
  by (relation "measure id") auto

declare ntoa_inv.simps [simp del]

definition inet_ntoa :: "u32 \<Rightarrow> string" where
  "inet_ntoa s_addr =
     butlast (concat (map (\<lambda>n. rev (ntoa_inv (unat (ucast (drop_bit (8 * n) s_addr) :: u8))) @ ''.'') [0..<4]))"

lemma isdigit_code: "isdigit (char_of (48 + d)) \<longleftrightarrow> d < 10" if "d < 200" for d :: nat
  using that by (simp add: isdigit_def in_range_def of_char_of) linarith

lemma digits_decimal:
  assumes "n < 1000"
  shows "aton_digits 10 (rev (ntoa_inv n) @ cp) 0 = aton_digits 10 cp (word_of_nat n)"
  using assms
proof (induction n arbitrary: cp rule: ntoa_inv.induct)
  case (1 n)
  have d: "isdigit (char_of (48 + n mod 10))"
    by (simp add: isdigit_code)
  have v: "(of_char (char_of (48 + n mod 10) :: char) :: nat) = 48 + n mod 10"
    using mod_less_divisor [of 10 n] by (simp add: of_char_of)
  show ?case
  proof (cases "n div 10 = 0")
    case True
    then show ?thesis using d v by (subst ntoa_inv.simps) (simp add: Let_def)
  next
    case False
    have ih: "aton_digits 10 (rev (ntoa_inv (n div 10)) @ cp') 0 = aton_digits 10 cp' (word_of_nat (n div 10))" for cp'
      using 1 False by simp
    have "(word_of_nat n :: u32) = word_of_nat (n div 10) * 10 + word_of_nat (n mod 10)"
      by (metis div_mult_mod_eq of_nat_add of_nat_mult of_nat_numeral)
    then show ?thesis using False d v ih by (subst ntoa_inv.simps) (simp add: Let_def)
  qed
qed


lemma ntoa_inv_zero: "ntoa_inv 0 = ''0''"
  by code_simp

lemma ntoa_inv_nonempty [simp]: "ntoa_inv n \<noteq> []"
  by (subst ntoa_inv.simps) (simp add: Let_def)

lemma ntoa_inv_last: "0 < n \<Longrightarrow> \<exists>d :: nat. last (ntoa_inv n) = char_of (48 + d) \<and> 0 < d \<and> d < 10"
proof (induction n rule: ntoa_inv.induct)
  case (1 n)
  show ?case
  proof (cases "n div 10 = 0")
    case True
    then show ?thesis using 1(2) by (subst ntoa_inv.simps) (auto simp: Let_def div_eq_0_iff intro!: exI [of _ n])
  next
    case False
    then show ?thesis using 1(1) by (subst ntoa_inv.simps) (simp add: Let_def)
  qed
qed

lemma ntoa_inv_length: "n < 256 \<Longrightarrow> length (ntoa_inv n) \<le> 3"
  by (subst ntoa_inv.simps, simp add: Let_def, subst ntoa_inv.simps, simp add: Let_def,
      subst ntoa_inv.simps) (auto simp: Let_def)

text \<open>One printed part is read back, whatever delimiter follows.\<close>

lemma aton_part:
  assumes "n < 256" and "cp = [] \<or> at_cp cp = CHR ''.''"
  shows "isdigit (at_cp (rev (ntoa_inv n) @ cp))"
    and "(case aton_base (rev (ntoa_inv n) @ cp) of (base, cp') \<Rightarrow> aton_digits base cp' 0) = (word_of_nat n, cp)"
proof -
  have dig: "isdigit (CHR ''0'')" "\<not> isdigit (CHR ''.'')" by code_simp+
  have stop: "aton_digits base cp v = (v, cp)" if "base \<noteq> 16" for base v
    using assms(2) that dig by (cases cp) (auto simp: at_cp_def)
  have "isdigit (at_cp (rev (ntoa_inv n) @ cp)) \<and>
    (case aton_base (rev (ntoa_inv n) @ cp) of (base, cp') \<Rightarrow> aton_digits base cp' 0) = (word_of_nat n, cp)"
  proof (cases "n = 0")
    case True
    then show ?thesis
      using assms(2) stop [of 8 0] dig
      by (cases cp) (simp_all add: ntoa_inv_zero aton_base_def at_cp_def)
  next
    case False
    then obtain d :: nat where d: "last (ntoa_inv n) = char_of (48 + d)" "0 < d" "d < 10"
      using ntoa_inv_last [of n] by auto
    have "at_cp (rev (ntoa_inv n) @ cp) = last (ntoa_inv n)"
      by (cases "ntoa_inv n" rule: rev_cases) (simp_all add: at_cp_def)
    moreover have "(char_of (48 + d) :: char) \<noteq> CHR ''0''"
    proof
      assume "(char_of (48 + d) :: char) = CHR ''0''"
      then have "(of_char (char_of (48 + d) :: char) :: nat) = 48" by simp
      then show False using d by (simp add: of_char_of)
    qed
    ultimately show ?thesis
      using d assms(1) stop [of 10] by (simp add: aton_base_def isdigit_code digits_decimal)
  qed
  then show "isdigit (at_cp (rev (ntoa_inv n) @ cp))"
    and "(case aton_base (rev (ntoa_inv n) @ cp) of (base, cp') \<Rightarrow> aton_digits base cp' 0) = (word_of_nat n, cp)"
    by auto
qed

lemma aton_parts_dot:
  assumes "n < 256" and "length parts < 3"
  shows "aton_parts (rev (ntoa_inv n) @ CHR ''.'' # cp) parts = aton_parts cp (parts @ [word_of_nat n])"
  using assms aton_part [of n "CHR ''.'' # cp"]
  by (subst aton_parts.simps) (auto simp: at_cp_def Let_def split: prod.splits)

lemma aton_parts_end:
  assumes "n < 256"
  shows "aton_parts (rev (ntoa_inv n)) parts = Some (parts, word_of_nat n, [])"
  using assms aton_part [of n "[]"]
  by (subst aton_parts.simps) (auto simp: at_cp_def Let_def split: prod.splits)

lemma aton_parts_four:
  assumes "n0 < 256" "n1 < 256" "n2 < 256" "n3 < 256"
  shows "aton_parts (rev (ntoa_inv n0) @ CHR ''.'' # rev (ntoa_inv n1) @ CHR ''.''
      # rev (ntoa_inv n2) @ CHR ''.'' # rev (ntoa_inv n3)) []
    = Some ([word_of_nat n0, word_of_nat n1, word_of_nat n2], word_of_nat n3, [])"
  using assms by (simp add: aton_parts_dot aton_parts_end)

text \<open>
  The first three parts are not checked against 255: a part that is too large spills into
  the part before it.
\<close>

lemma inet_aton_parts_overlap: "inet_aton ''1.256.0.9'' = inet_aton ''1.0.0.9''"
  by code_simp

text \<open>
  Claim C35: printing an address and parsing the text gives the address back, and the printed
  text fits the 16-byte buffer of \<^verbatim>\<open>inet_ntoa\<close> with its terminating NUL.
\<close>

theorem inet_aton_ntoa: "inet_aton (inet_ntoa a) = Some a \<and> length (inet_ntoa a) < 16"
proof -
  let ?b = "\<lambda>n. unat (ucast (drop_bit (8 * n) a) :: u8)"
  have b: "?b n < 256" for n using unsigned_less [of "ucast (drop_bit (8 * n) a) :: u8", where 'a = nat] by simp
  have p: "inet_ntoa a = rev (ntoa_inv (?b 0)) @ CHR ''.'' # rev (ntoa_inv (?b 1)) @ CHR ''.''
      # rev (ntoa_inv (?b 2)) @ CHR ''.'' # rev (ntoa_inv (?b 3))"
    by (simp add: inet_ntoa_def upt_rec butlast_append)
  have v: "word_of_nat (?b n) = take_bit 8 (drop_bit (8 * n) a)" for n
    by (rule bit_word_eqI) (auto simp: bit_simps)
  have "length (inet_ntoa a) < 16"
    unfolding p using ntoa_inv_length [OF b [of 0]] ntoa_inv_length [OF b [of 1]]
      ntoa_inv_length [OF b [of 2]] ntoa_inv_length [OF b [of 3]] by simp
  moreover have "aton_parts (inet_ntoa a) [] = Some ([word_of_nat (?b 0), word_of_nat (?b 1), word_of_nat (?b 2)], word_of_nat (?b 3), [])"
    unfolding p by (rule aton_parts_four [OF b b b b])
  moreover have "htonl (word_of_nat (?b 3) OR (push_bit 24 (word_of_nat (?b 0)) OR push_bit 16 (word_of_nat (?b 1))
      OR push_bit 8 (word_of_nat (?b 2)))) = a"
  proof -
    have "word_of_nat (?b 3) OR (push_bit 24 (word_of_nat (?b 0)) OR push_bit 16 (word_of_nat (?b 1))
      OR push_bit 8 (word_of_nat (?b 2))) = htonl a"
      unfolding v htonl_bytes by (simp add: or.commute or.left_commute or.assoc)
    then show ?thesis by simp
  qed
  moreover have "\<not> (word_of_nat (?b 3) :: u32) > 0xff"
    using b [of 3] unat_of_nat_small [of "?b 3", where 'a = 32] unfolding word_less_nat_alt by simp
  ultimately show ?thesis
    by (simp add: inet_aton_def at_cp_def)
qed

end
