(* ===== verification/Pbuf.thy ===== *)
theory Pbuf
  imports Inet_Order "HOL-Library.Monad_Syntax"
begin

section \<open>Packet buffers\<close>

text \<open>
  \<^verbatim>\<open>src/core/pbuf.c\<close>: reference-counted packet buffers chained into packets.  The state is the
  store of live \<^verbatim>\<open>struct pbuf\<close>s by address, the byte memory their payload pointers refer to, and the
  results the allocator will give to the next requests (0 is \<^verbatim>\<open>NULL\<close>; an exhausted list means no
  memory).  An operation returns \<^const>\<open>None\<close> when it dereferences an address that holds no live buffer
  or does not end.  \<^verbatim>\<open>LWIP_ASSERT\<close> has no effect in this build: \<^verbatim>\<open>cc.h\<close> expands it to an
  \<^verbatim>\<open>assert\<close> of the message string.
\<close>

subsection \<open>Data\<close>

datatype pbuf_layer = PBUF_TRANSPORT | PBUF_IP | PBUF_LINK | PBUF_RAW
datatype pbuf_type = PBUF_RAM | PBUF_ROM | PBUF_REF | PBUF_POOL

record pbuf =
  pb_next :: addr
  pb_payload :: addr
  pb_tot_len :: u16
  pb_len :: u16
  pb_type :: pbuf_type
  pb_flags :: u8
  pb_ref :: u16

record pheap =
  pbufs :: "addr \<rightharpoonup> pbuf"
  pmem :: memory
  allocs :: "addr list"

abbreviation NULL :: addr where "NULL \<equiv> 0"

definition PBUF_TRANSPORT_HLEN :: u16 where "PBUF_TRANSPORT_HLEN = 20"
definition PBUF_IP_HLEN :: u16 where "PBUF_IP_HLEN = 20"
definition PBUF_LINK_HLEN :: u16 where "PBUF_LINK_HLEN = 14"
definition PBUF_POOL_BUFSIZE :: nat where "PBUF_POOL_BUFSIZE = 1514"
definition SIZEOF_STRUCT_PBUF :: int where "SIZEOF_STRUCT_PBUF = 24"

definition set_pbuf :: "addr \<Rightarrow> pbuf \<Rightarrow> pheap \<Rightarrow> pheap" where
  "set_pbuf p b h = h\<lparr>pbufs := (pbufs h)(p \<mapsto> b)\<rparr>"

definition mem_malloc :: "pheap \<Rightarrow> addr \<times> pheap" where
  "mem_malloc h = (case allocs h of [] \<Rightarrow> (NULL, h) | a # as \<Rightarrow> (a, h\<lparr>allocs := as\<rparr>))"

definition mem_free :: "addr \<Rightarrow> pheap \<Rightarrow> pheap" where
  "mem_free p h = h\<lparr>pbufs := (pbufs h)(p := None)\<rparr>"

subsection \<open>Operations\<close>

definition header_room :: "pbuf_layer \<Rightarrow> u16" where
  "header_room layer = (case layer of
     PBUF_TRANSPORT \<Rightarrow> PBUF_TRANSPORT_HLEN + PBUF_IP_HLEN + PBUF_LINK_HLEN
   | PBUF_IP \<Rightarrow> PBUF_IP_HLEN + PBUF_LINK_HLEN
   | PBUF_LINK \<Rightarrow> PBUF_LINK_HLEN
   | PBUF_RAW \<Rightarrow> 0)"

partial_function (option) free_loop :: "addr \<Rightarrow> u8 \<Rightarrow> pheap \<Rightarrow> (u8 \<times> pheap) option" where [code]:
  "free_loop p count h =
     (if p = NULL then Some (count, h)
      else do {
        b \<leftarrow> pbufs h p;
        let r = pb_ref b - 1;
        if r = 0 then free_loop (pb_next b) (count + 1) (mem_free p h)
        else Some (count, set_pbuf p (b\<lparr>pb_ref := r\<rparr>) h)
      })"

definition pbuf_free :: "addr \<Rightarrow> pheap \<Rightarrow> (u8 \<times> pheap) option" where
  "pbuf_free p h = free_loop p 0 h"

partial_function (option) alloc_tail :: "addr \<Rightarrow> addr \<Rightarrow> int \<Rightarrow> pheap \<Rightarrow> (addr \<times> pheap) option" where [code]:
  "alloc_tail p r rem_len h =
     (if rem_len > 0
      then let (q, h) = mem_malloc h
           in if q = NULL then do { (_, h) \<leftarrow> pbuf_free p h; Some (NULL, h) }
              else do {
                let l = min (unat (word_of_int rem_len :: u16)) PBUF_POOL_BUFSIZE;
                let h = set_pbuf q \<lparr>pb_next = NULL, pb_payload = q + SIZEOF_STRUCT_PBUF,
                  pb_tot_len = word_of_int rem_len, pb_len = word_of_nat l, pb_type = PBUF_POOL,
                  pb_flags = 0, pb_ref = 1\<rparr> h;
                b \<leftarrow> pbufs h r;
                alloc_tail p q (rem_len - int l) (set_pbuf r (b\<lparr>pb_next := q\<rparr>) h)
              }
      else Some (p, h))"

definition pbuf_alloc :: "pbuf_layer \<Rightarrow> u16 \<Rightarrow> pbuf_type \<Rightarrow> pheap \<Rightarrow> (addr \<times> pheap) option" where
  "pbuf_alloc layer len type h =
     (let offset = header_room layer; (p, h) = mem_malloc h
      in if p = NULL then Some (NULL, h)
         else case type of
           PBUF_POOL \<Rightarrow>
             let l = word_of_nat (min (unat len) (PBUF_POOL_BUFSIZE - unat offset)) :: u16;
                 h = set_pbuf p \<lparr>pb_next = NULL, pb_payload = p + (SIZEOF_STRUCT_PBUF + int (unat offset)),
                   pb_tot_len = len, pb_len = l, pb_type = type, pb_flags = 0, pb_ref = 1\<rparr> h
             in alloc_tail p p (int (unat len) - int (unat l)) h
         | PBUF_RAM \<Rightarrow>
             Some (p, set_pbuf p \<lparr>pb_next = NULL, pb_payload = p + SIZEOF_STRUCT_PBUF + int (unat offset),
               pb_tot_len = len, pb_len = len, pb_type = type, pb_flags = 0, pb_ref = 1\<rparr> h)
         | _ \<Rightarrow>
             Some (p, set_pbuf p \<lparr>pb_next = NULL, pb_payload = NULL, pb_tot_len = len, pb_len = len,
               pb_type = type, pb_flags = 0, pb_ref = 1\<rparr> h))"

partial_function (option) realloc_loop :: "u16 \<Rightarrow> u16 \<Rightarrow> addr \<Rightarrow> pheap \<Rightarrow> (u16 \<times> addr \<times> pheap) option" where [code]:
  "realloc_loop grow rem_len q h = do {
     b \<leftarrow> pbufs h q;
     if rem_len > pb_len b
     then realloc_loop grow (rem_len - pb_len b) (pb_next b)
       (set_pbuf q (b\<lparr>pb_tot_len := pb_tot_len b + grow\<rparr>) h)
     else Some (rem_len, q, h)
   }"

definition pbuf_realloc :: "addr \<Rightarrow> u16 \<Rightarrow> pheap \<Rightarrow> pheap option" where
  "pbuf_realloc p new_len h = do {
     b \<leftarrow> pbufs h p;
     if new_len \<ge> pb_tot_len b then Some h
     else do {
       let grow = new_len - pb_tot_len b;
       (rem_len, q, h) \<leftarrow> realloc_loop grow new_len p h;
       b \<leftarrow> pbufs h q;
       let h = set_pbuf q (b\<lparr>pb_len := rem_len, pb_tot_len := rem_len\<rparr>) h;
       h \<leftarrow> (if pb_next b \<noteq> NULL then map_option snd (pbuf_free (pb_next b) h) else Some h);
       b \<leftarrow> pbufs h q;
       Some (set_pbuf q (b\<lparr>pb_next := NULL\<rparr>) h)
     }
   }"

definition pbuf_header :: "addr \<Rightarrow> int \<Rightarrow> pheap \<Rightarrow> (u8 \<times> pheap) option" where
  "pbuf_header p inc h =
     (if inc = 0 \<or> p = NULL then Some (0, h)
      else do {
        b \<leftarrow> pbufs h p;
        let magnitude = (if inc < 0 then word_of_int (- inc) else word_of_int inc :: u16);
        if inc < 0 \<and> \<not> magnitude \<le> pb_len b then Some (1, h)
        else do {
          let grown = b\<lparr>pb_payload := pb_payload b - inc, pb_len := pb_len b + word_of_int inc,
            pb_tot_len := pb_tot_len b + word_of_int inc\<rparr>;
          case pb_type b of
            PBUF_RAM \<Rightarrow> if pb_payload b - inc < p + SIZEOF_STRUCT_PBUF then Some (1, h) else Some (0, set_pbuf p grown h)
          | PBUF_POOL \<Rightarrow> if pb_payload b - inc < p + SIZEOF_STRUCT_PBUF then Some (1, h) else Some (0, set_pbuf p grown h)
          | _ \<Rightarrow> if inc < 0 \<and> magnitude \<le> pb_len b then Some (0, set_pbuf p grown h) else Some (1, h)
        }
      })"

partial_function (option) clen_loop :: "addr \<Rightarrow> u8 \<Rightarrow> pheap \<Rightarrow> u8 option" where [code]:
  "clen_loop p len h =
     (if p = NULL then Some len else do { b \<leftarrow> pbufs h p; clen_loop (pb_next b) (len + 1) h })"

definition pbuf_clen :: "addr \<Rightarrow> pheap \<Rightarrow> u8 option" where
  "pbuf_clen p h = clen_loop p 0 h"

definition pbuf_ref :: "addr \<Rightarrow> pheap \<Rightarrow> pheap option" where
  "pbuf_ref p h =
     (if p \<noteq> NULL then do { b \<leftarrow> pbufs h p; Some (set_pbuf p (b\<lparr>pb_ref := pb_ref b + 1\<rparr>) h) } else Some h)"

partial_function (option) cat_loop :: "addr \<Rightarrow> addr \<Rightarrow> pheap \<Rightarrow> (addr \<times> pheap) option" where [code]:
  "cat_loop p t h = do {
     b \<leftarrow> pbufs h p;
     if pb_next b \<noteq> NULL
     then do {
       tb \<leftarrow> pbufs h t;
       cat_loop (pb_next b) t (set_pbuf p (b\<lparr>pb_tot_len := pb_tot_len b + pb_tot_len tb\<rparr>) h)
     }
     else Some (p, h)
   }"

definition pbuf_cat :: "addr \<Rightarrow> addr \<Rightarrow> pheap \<Rightarrow> pheap option" where
  "pbuf_cat hp t h =
     (if hp = NULL \<or> t = NULL then Some h
      else do {
        (p, h) \<leftarrow> cat_loop hp t h;
        b \<leftarrow> pbufs h p;
        tb \<leftarrow> pbufs h t;
        Some (set_pbuf p (b\<lparr>pb_tot_len := pb_tot_len b + pb_tot_len tb, pb_next := t\<rparr>) h)
      })"

definition pbuf_chain :: "addr \<Rightarrow> addr \<Rightarrow> pheap \<Rightarrow> pheap option" where
  "pbuf_chain hp t h = do { h \<leftarrow> pbuf_cat hp t h; pbuf_ref t h }"

definition pbuf_dechain :: "addr \<Rightarrow> pheap \<Rightarrow> (addr \<times> pheap) option" where
  "pbuf_dechain p h = do {
     b \<leftarrow> pbufs h p;
     let q = pb_next b;
     if q \<noteq> NULL
     then do {
       qb \<leftarrow> pbufs h q;
       let h = set_pbuf q (qb\<lparr>pb_tot_len := pb_tot_len b - pb_len b\<rparr>) h;
       b \<leftarrow> pbufs h p;
       let h = set_pbuf p (b\<lparr>pb_next := NULL, pb_tot_len := pb_len b\<rparr>) h;
       (tail_gone, h) \<leftarrow> pbuf_free q h;
       Some (if tail_gone > 0 then NULL else q, h)
     }
     else Some (NULL, h)
   }"

primrec memcpy :: "addr \<Rightarrow> addr \<Rightarrow> nat \<Rightarrow> memory \<Rightarrow> memory" where
  "memcpy d s 0 m = m"
| "memcpy d s (Suc n) m = memcpy (d + 1) (s + 1) n (m(d := m s))"

datatype err = ERR_OK | ERR_MEM | ERR_BUF | ERR_RTE | ERR_ABRT | ERR_RST | ERR_CLSD | ERR_CONN
  | ERR_VAL | ERR_ARG | ERR_USE | ERR_IF | ERR_ISCONN

definition is_queue :: "addr \<Rightarrow> pheap \<Rightarrow> bool option" where
  "is_queue p h = (if p = NULL then Some False
     else do { b \<leftarrow> pbufs h p; Some (pb_len b = pb_tot_len b \<and> pb_next b \<noteq> NULL) })"

partial_function (option) copy_loop ::
    "addr \<Rightarrow> addr \<Rightarrow> u16 \<Rightarrow> u16 \<Rightarrow> pheap \<Rightarrow> (err \<times> pheap) option" where [code]:
  "copy_loop p_to p_from offset_to offset_from h = do {
     tb \<leftarrow> pbufs h p_to;
     fb \<leftarrow> pbufs h p_from;
     let len = (if int (unat (pb_len tb)) - int (unat offset_to) \<ge> int (unat (pb_len fb)) - int (unat offset_from)
                then pb_len fb - offset_from else pb_len tb - offset_to);
     let h = h\<lparr>pmem := memcpy (pb_payload tb + int (unat offset_to))
       (pb_payload fb + int (unat offset_from)) (unat len) (pmem h)\<rparr>;
     let offset_to = offset_to + len;
     let offset_from = offset_from + len;
     let (offset_to, p_to) = (if offset_to = pb_len tb then (0, pb_next tb) else (offset_to, p_to));
     let (offset_from, p_from) = (if offset_from \<ge> pb_len fb then (0, pb_next fb) else (offset_from, p_from));
     fq \<leftarrow> is_queue p_from h;
     if fq then Some (ERR_VAL, h)
     else do {
       tq \<leftarrow> is_queue p_to h;
       if tq then Some (ERR_VAL, h)
       else if p_from \<noteq> NULL then copy_loop p_to p_from offset_to offset_from h
       else Some (ERR_OK, h)
     }
   }"

definition pbuf_copy :: "addr \<Rightarrow> addr \<Rightarrow> pheap \<Rightarrow> (err \<times> pheap) option" where
  "pbuf_copy p_to p_from h =
     (if p_to = NULL \<or> p_from = NULL then Some (ERR_ARG, h)
      else do {
        tb \<leftarrow> pbufs h p_to;
        fb \<leftarrow> pbufs h p_from;
        if pb_tot_len tb \<ge> pb_tot_len fb then copy_loop p_to p_from 0 0 h else Some (ERR_ARG, h)
      })"

partial_function (option) partial_loop ::
    "addr \<Rightarrow> addr \<Rightarrow> u16 \<Rightarrow> u16 \<Rightarrow> u16 \<Rightarrow> u16 \<Rightarrow> pheap \<Rightarrow> (u16 \<times> pheap) option" where [code]:
  "partial_loop p dataptr len offset left copied_total h =
     (if len \<noteq> 0 \<and> p \<noteq> NULL
      then do {
        b \<leftarrow> pbufs h p;
        if offset \<noteq> 0 \<and> offset \<ge> pb_len b
        then partial_loop (pb_next b) dataptr len (offset - pb_len b) left copied_total h
        else do {
          let n = pb_len b - offset;
          let n = (if n > len then len else n);
          let h = h\<lparr>pmem := memcpy (dataptr + int (unat left)) (pb_payload b + int (unat offset)) (unat n) (pmem h)\<rparr>;
          partial_loop (pb_next b) dataptr (len - n) 0 (left + n) (copied_total + n) h
        }
      }
      else Some (copied_total, h))"

definition pbuf_copy_partial :: "addr \<Rightarrow> addr \<Rightarrow> u16 \<Rightarrow> u16 \<Rightarrow> pheap \<Rightarrow> (u16 \<times> pheap) option" where
  "pbuf_copy_partial buf dataptr len offset h =
     (if buf = NULL \<or> dataptr = NULL then Some (0, h) else partial_loop buf dataptr len offset 0 0 h)"

end
