(* ===== verification/Pbuf_Refs.thy ===== *)
theory Pbuf_Refs
  imports Pbuf "HOL-Library.Multiset"
begin

section \<open>Reference counting of packet buffers\<close>

text \<open>
  The rule stated in \<^verbatim>\<open>pbuf.h\<close>: the reference count of a live buffer equals the number of pointers
  to it, those held outside (\<^term>\<open>ext\<close>, a multiset) and the \<^verbatim>\<open>next\<close> pointers of other buffers.
  Together with the absence of dangling pointers it is an invariant of every operation.
\<close>

definition incoming :: "(addr \<rightharpoonup> pbuf) \<Rightarrow> addr \<Rightarrow> nat" where
  "incoming H p = card {q. \<exists>c. H q = Some c \<and> pb_next c = p}"

definition refs_ok :: "pheap \<Rightarrow> addr multiset \<Rightarrow> bool" where
  "refs_ok h ext \<longleftrightarrow> finite (dom (pbufs h)) \<and> pbufs h NULL = None
     \<and> (\<forall>p b. pbufs h p = Some b \<longrightarrow> unat (pb_ref b) = count ext p + incoming (pbufs h) p \<and> pb_ref b \<noteq> 0
          \<and> (pb_next b = NULL \<or> pb_next b \<in> dom (pbufs h)))
     \<and> set_mset ext \<subseteq> dom (pbufs h)"

lemma refs_okD:
  assumes "refs_ok h ext"
  shows "finite (dom (pbufs h))" "pbufs h NULL = None"
    and "pbufs h p = Some b \<Longrightarrow> unat (pb_ref b) = count ext p + incoming (pbufs h) p"
    and "pbufs h p = Some b \<Longrightarrow> pb_ref b \<noteq> 0"
    and "pbufs h p = Some b \<Longrightarrow> pb_next b = NULL \<or> (\<exists>c. pbufs h (pb_next b) = Some c)"
    and "p \<in># ext \<Longrightarrow> \<exists>b. pbufs h p = Some b"
  using assms unfolding refs_ok_def by blast+

lemma refs_okI:
  assumes "finite (dom (pbufs h))" "pbufs h NULL = None"
    and "\<And>p b. pbufs h p = Some b \<Longrightarrow> unat (pb_ref b) = count ext p + incoming (pbufs h) p"
    and "\<And>p b. pbufs h p = Some b \<Longrightarrow> pb_ref b \<noteq> 0"
    and "\<And>p b. pbufs h p = Some b \<Longrightarrow> pb_next b = NULL \<or> (\<exists>c. pbufs h (pb_next b) = Some c)"
    and "\<And>p. p \<in># ext \<Longrightarrow> \<exists>b. pbufs h p = Some b"
  shows "refs_ok h ext"
  using assms unfolding refs_ok_def by blast

lemma pbufs_update [simp]:
  "pbufs (set_pbuf p b h) = (pbufs h)(p \<mapsto> b)" "pbufs (mem_free p h) = (pbufs h)(p := None)"
  "pmem (set_pbuf p b h) = pmem h" "pmem (mem_free p h) = pmem h"
  "allocs (set_pbuf p b h) = allocs h" "allocs (mem_free p h) = allocs h"
  by (simp_all add: set_pbuf_def mem_free_def)

lemma finite_incoming: "finite (dom H) \<Longrightarrow> finite {q. \<exists>c. H q = Some c \<and> pb_next c = p}"
  by (rule finite_subset [of _ "dom H"]) auto

lemma incoming_update:
  assumes "finite (dom H)"
  shows "incoming (H(q \<mapsto> b)) p = incoming (H(q := None)) p + (if pb_next b = p then 1 else 0)"
proof -
  let ?S = "{r. \<exists>c. (H(q := None)) r = Some c \<and> pb_next c = p}"
  have "{r. \<exists>c. (H(q \<mapsto> b)) r = Some c \<and> pb_next c = p} = (if pb_next b = p then insert q ?S else ?S)"
    by auto
  moreover have "q \<notin> ?S" by simp
  moreover have "finite ?S"
  proof (rule finite_incoming)
    show "finite (dom (H(q := None)))" using assms by simp
  qed
  ultimately show ?thesis by (simp add: incoming_def)
qed

lemma incoming_remove:
  assumes "finite (dom H)" and "H q = Some b"
  shows "incoming (H(q := None)) p = incoming H p - (if pb_next b = p then 1 else 0)"
  using incoming_update [OF assms(1), of q b p] assms(2) by (simp add: fun_upd_idem)

lemma incoming_same_next:
  assumes "finite (dom H)" and "H q = Some b" and "pb_next b' = pb_next b"
  shows "incoming (H(q \<mapsto> b')) p = incoming H p"
  using incoming_update [OF assms(1), of q b' p] incoming_update [OF assms(1), of q b p] assms(2,3)
  by (simp add: fun_upd_idem)

lemma incoming_pos: "finite (dom H) \<Longrightarrow> H q = Some b \<Longrightarrow> 0 < incoming H (pb_next b)"
  unfolding incoming_def by (subst card_gt_0_iff) (auto intro: finite_incoming)

text \<open>Fields other than \<^verbatim>\<open>next\<close> and \<^verbatim>\<open>ref\<close> do not matter.\<close>

definition links :: "(addr \<rightharpoonup> pbuf) \<Rightarrow> addr \<rightharpoonup> addr \<times> u16" where
  "links H a = map_option (\<lambda>b. (pb_next b, pb_ref b)) (H a)"

lemma links_upd: "links (H(p \<mapsto> b)) = (links H)(p \<mapsto> (pb_next b, pb_ref b))"
  by (auto simp: links_def)

lemma links_Some:
  assumes "links H = links H'" and "H p = Some b"
  obtains b' where "H' p = Some b'" "pb_next b' = pb_next b" "pb_ref b' = pb_ref b"
  using fun_cong [OF assms(1), of p] assms(2) by (cases "H' p") (auto simp: links_def)

lemma incoming_cong:
  assumes "links H = links H'"
  shows "incoming H p = incoming H' p"
proof -
  have "(\<exists>c. H q = Some c \<and> pb_next c = p) \<longleftrightarrow> (\<exists>c. H' q = Some c \<and> pb_next c = p)" for q
    using links_Some [OF assms] links_Some [OF assms [symmetric]] by metis
  then show ?thesis by (simp add: incoming_def)
qed

lemma dom_links: "dom (links H) = dom H"
  by (auto simp: links_def dom_def)

lemma refs_ok_cong:
  assumes "links (pbufs h) = links (pbufs h')" and "refs_ok h ext"
  shows "refs_ok h' ext"
proof -
  note * = refs_okD [OF assms(2)] and L = links_Some [OF assms(1)] links_Some [OF assms(1) [symmetric]]
  have dom: "dom (pbufs h) = dom (pbufs h')" using assms(1) by (metis dom_links)
  show ?thesis
  proof (rule refs_okI)
    show "pbufs h' NULL = None" using *(2) dom by (metis domIff)
    fix p b
    assume "pbufs h' p = Some b"
    then obtain c where c: "pbufs h p = Some c" "pb_next c = pb_next b" "pb_ref c = pb_ref b" by (rule L(2))
    show "unat (pb_ref b) = count ext p + incoming (pbufs h') p"
      using *(3) [OF c(1)] c(3) incoming_cong [OF assms(1)] by simp
    show "pb_ref b \<noteq> 0" using *(4) [OF c(1)] c(3) by simp
    show "pb_next b = NULL \<or> (\<exists>c. pbufs h' (pb_next b) = Some c)" using *(5) [OF c(1)] c(2) dom by fastforce
  next
    fix p
    assume "p \<in># ext"
    then show "\<exists>b. pbufs h' p = Some b" using *(6) [of p] dom by blast
  qed (use *(1) dom in simp)
qed

text \<open>Moving a reference between the outside and a \<^verbatim>\<open>next\<close> field.\<close>

lemma refs_ok_relink:
  assumes ok: "refs_ok h ext" and b: "pbufs h p = Some b"
    and n: "n = NULL \<or> n \<in> dom (pbufs h)" and sub: "set_mset ext' \<subseteq> dom (pbufs h)"
    and c: "\<And>q. q \<in> dom (pbufs h) \<Longrightarrow> count ext' q + (if n = q then 1 else 0) = count ext q + (if pb_next b = q then 1 else 0)"
  shows "refs_ok (set_pbuf p (b\<lparr>pb_next := n\<rparr>) h) ext'"
proof -
  note * = refs_okD [OF ok]
  let ?H = "(pbufs h)(p \<mapsto> b\<lparr>pb_next := n\<rparr>)"
  have i: "incoming ?H q + (if pb_next b = q then 1 else 0) = incoming (pbufs h) q + (if n = q then 1 else 0)" for q
    using incoming_update [OF *(1), of p "b\<lparr>pb_next := n\<rparr>" q] incoming_update [OF *(1), of p b q] b
    by (simp add: fun_upd_idem)
  show ?thesis
  proof (rule refs_okI)
    fix q d
    assume "pbufs (set_pbuf p (b\<lparr>pb_next := n\<rparr>) h) q = Some d"
    then obtain e where e: "pbufs h q = Some e" "pb_ref d = pb_ref e" "pb_next d = pb_next e \<or> pb_next d = n"
      using b by (auto split: if_splits)
    have "q \<in> dom (pbufs h)" using e(1) by blast
    from c [OF this] i [of q] have "count ext q + incoming (pbufs h) q = count ext' q + incoming ?H q" by linarith
    then show "unat (pb_ref d) = count ext' q + incoming (pbufs (set_pbuf p (b\<lparr>pb_next := n\<rparr>) h)) q"
      using *(3) [OF e(1)] e(2) by simp
    show "pb_ref d \<noteq> 0" using *(4) [OF e(1)] e(2) by simp
    show "pb_next d = NULL \<or> (\<exists>c. pbufs (set_pbuf p (b\<lparr>pb_next := n\<rparr>) h) (pb_next d) = Some c)"
      using *(5) [OF e(1)] e(3) n by auto
  qed (use * b sub in auto)
qed

lemma refs_ok_link:
  assumes "refs_ok h (add_mset t ext)" and "pbufs h p = Some b" and "pb_next b = NULL"
  shows "refs_ok (set_pbuf p (b\<lparr>pb_next := t\<rparr>) h) ext"
  using assms refs_okD(2) [OF assms(1)] refs_okD(6) [OF assms(1)] by (intro refs_ok_relink [OF assms(1,2)]) auto

lemma refs_ok_unlink:
  assumes "refs_ok h ext" and "pbufs h p = Some b" and "pb_next b \<noteq> NULL"
  shows "refs_ok (set_pbuf p (b\<lparr>pb_next := NULL\<rparr>) h) (add_mset (pb_next b) ext)"
  using assms refs_okD(2) [OF assms(1)] refs_okD(5) [OF assms(1,2)] refs_okD(6) [OF assms(1)]
  by (intro refs_ok_relink [OF assms(1,2)]) auto

lemma refs_ok_ref:
  assumes "refs_ok h ext" and "pbufs h p = Some b" and "unat (pb_ref b) < 65535"
  shows "refs_ok (set_pbuf p (b\<lparr>pb_ref := pb_ref b + 1\<rparr>) h) (add_mset p ext)"
proof -
  note * = refs_okD [OF assms(1)]
  have "incoming ((pbufs h)(p \<mapsto> b\<lparr>pb_ref := pb_ref b + 1\<rparr>)) q = incoming (pbufs h) q" for q
    using *(1) assms by (intro incoming_same_next) auto
  moreover have r: "unat (pb_ref b + 1) = unat (pb_ref b) + 1"
    using assms(3) by (simp add: unat_word_ariths)
  moreover have "pb_ref b + 1 \<noteq> 0" using r by (metis unat_eq_zero add_is_0 zero_neq_one)
  ultimately show ?thesis
    using *(1-4,6) assms by (intro refs_okI) (auto split: if_splits dest: *(5))
qed

text \<open>Dropping one external reference of a buffer that keeps others.\<close>

lemma refs_ok_unref:
  assumes "refs_ok h (add_mset p ext)" and "pbufs h p = Some b" and "pb_ref b - 1 \<noteq> 0"
  shows "refs_ok (set_pbuf p (b\<lparr>pb_ref := pb_ref b - 1\<rparr>) h) ext"
proof -
  note * = refs_okD [OF assms(1)]
  have "incoming ((pbufs h)(p \<mapsto> b\<lparr>pb_ref := pb_ref b - 1\<rparr>)) q = incoming (pbufs h) q" for q
    using *(1) assms by (intro incoming_same_next) auto
  moreover have "unat (pb_ref b - 1) = unat (pb_ref b) - 1"
    using *(4) [OF assms(2)] by (metis unat_minus_one)
  ultimately show ?thesis
    using *(1-4,6) assms by (intro refs_okI) (auto split: if_splits dest: *(5))
qed

text \<open>Releasing a buffer hands its \<^verbatim>\<open>next\<close> pointer to the releasing loop.\<close>

lemma refs_ok_release:
  assumes "refs_ok h (add_mset p ext)" and "pbufs h p = Some b" and "pb_ref b - 1 = 0"
  shows "refs_ok (mem_free p h) (if pb_next b = NULL then ext else add_mset (pb_next b) ext)"
proof -
  note * = refs_okD [OF assms(1)]
  have "pb_ref b = 1" using assms(3) by simp
  then have i: "count ext p = 0 \<and> incoming (pbufs h) p = 0"
    using *(3) [OF assms(2)] by simp
  have n: "pb_next b \<noteq> p" using incoming_pos [OF *(1) assms(2)] i by auto
  have np: "pb_next c \<noteq> p" if "pbufs h q = Some c" for q c
    using incoming_pos [OF *(1) that] i by auto
  have inc: "incoming ((pbufs h)(p := None)) q = incoming (pbufs h) q - (if pb_next b = q then 1 else 0)" for q
    by (rule incoming_remove [OF *(1) assms(2)])
  have pos: "0 < incoming (pbufs h) (pb_next b)" by (rule incoming_pos [OF *(1) assms(2)])
  have p: "p \<notin># ext" using i by (simp add: not_in_iff)
  show ?thesis
  proof (rule refs_okI)
    fix q c
    assume q: "pbufs (mem_free p h) q = Some c"
    then have "pbufs h q = Some c" "q \<noteq> p" "q \<noteq> NULL" using *(2) by (auto split: if_splits)
    then show "unat (pb_ref c) = count (if pb_next b = NULL then ext else add_mset (pb_next b) ext) q
        + incoming (pbufs (mem_free p h)) q"
      using *(3) [of q c] inc pos by auto
    show "pb_next c = NULL \<or> (\<exists>d. pbufs (mem_free p h) (pb_next c) = Some d)"
      using *(5) \<open>pbufs h q = Some c\<close> np by auto
    show "pb_ref c \<noteq> 0" using *(4) \<open>pbufs h q = Some c\<close> by blast
  next
    fix q
    assume "q \<in># (if pb_next b = NULL then ext else add_mset (pb_next b) ext)"
    then have "q \<in># ext \<or> q = pb_next b \<and> pb_next b \<noteq> NULL" by (auto split: if_splits)
    then show "\<exists>c. pbufs (mem_free p h) q = Some c"
      using *(5) [OF assms(2)] *(6) [of q] n p by auto
  qed (use * in auto)
qed

lemma free_loop_refs:
  assumes "refs_ok h (if p = NULL then ext else add_mset p ext)"
  shows "\<exists>n' h'. free_loop p n h = Some (n', h') \<and> refs_ok h' ext
    \<and> pmem h' = pmem h \<and> allocs h' = allocs h"
  using assms
proof (induction "card (dom (pbufs h))" arbitrary: h p n rule: less_induct)
  case less
  show ?case
  proof (cases "p = NULL")
    case True
    then show ?thesis using less.prems by (subst free_loop.simps) simp
  next
    case False
    then have ok: "refs_ok h (add_mset p ext)" using less.prems by simp
    then obtain b where b: "pbufs h p = Some b" using refs_okD(6) by fastforce
    show ?thesis
    proof (cases "pb_ref b - 1 = 0")
      case True
      have "card (dom (pbufs (mem_free p h))) < card (dom (pbufs h))"
        using b refs_okD(1) [OF ok] by (auto intro!: psubset_card_mono)
      then show ?thesis
        using less.hyps refs_ok_release [OF ok b True] True False b
        by (subst free_loop.simps) (fastforce simp: Let_def)
    next
      case nz: False
      then show ?thesis
        using refs_ok_unref [OF ok b nz] False b by (subst free_loop.simps) (simp add: Let_def)
    qed
  qed
qed


lemma pbuf_free_refs:
  assumes "refs_ok h (add_mset p ext)"
  shows "\<exists>n h'. pbuf_free p h = Some (n, h') \<and> refs_ok h' ext \<and> pmem h' = pmem h \<and> allocs h' = allocs h"
proof -
  have "p \<noteq> NULL" using refs_okD(2,6) [OF assms] by fastforce
  then show ?thesis using free_loop_refs [of h p ext 0] assms by (simp add: pbuf_free_def)
qed

lemma pbuf_ref_refs:
  assumes "refs_ok h ext" and "pbufs h p = Some b" and "unat (pb_ref b) < 65535"
  shows "\<exists>h'. pbuf_ref p h = Some h' \<and> refs_ok h' (add_mset p ext)"
proof -
  have "p \<noteq> NULL" using refs_okD(2) [OF assms(1)] assms(2) by auto
  then show ?thesis using refs_ok_ref [OF assms] assms(2) by (simp add: pbuf_ref_def)
qed

end
