(* ===== verification/Pbuf_Chain.thy ===== *)
theory Pbuf_Chain
  imports Pbuf_Refs
begin

section \<open>Packets as chains of buffers\<close>

text \<open>
  A packet is a NULL-terminated chain of buffers.  \<^term>\<open>chain H p qs\<close> says that the chain that starts
  at \<^term>\<open>p\<close> visits exactly the addresses \<^term>\<open>qs\<close>; \<^term>\<open>lens_ok\<close> is the invariant of
  \<^verbatim>\<open>pbuf.h\<close> that every \<^verbatim>\<open>tot_len\<close> is the number of payload bytes from there on;
  \<^term>\<open>content\<close> is the payload of the packet.
\<close>

fun lseg :: "(addr \<rightharpoonup> pbuf) \<Rightarrow> addr \<Rightarrow> addr list \<Rightarrow> addr \<Rightarrow> bool" where
  "lseg H p [] r \<longleftrightarrow> p = r"
| "lseg H p (q # qs) r \<longleftrightarrow> p = q \<and> q \<noteq> NULL \<and> (case H q of None \<Rightarrow> False | Some b \<Rightarrow> lseg H (pb_next b) qs r)"

abbreviation chain :: "(addr \<rightharpoonup> pbuf) \<Rightarrow> addr \<Rightarrow> addr list \<Rightarrow> bool" where
  "chain H p qs \<equiv> lseg H p qs NULL"

abbreviation cell :: "(addr \<rightharpoonup> pbuf) \<Rightarrow> addr \<Rightarrow> pbuf" where
  "cell H p \<equiv> the (H p)"

definition lens :: "(addr \<rightharpoonup> pbuf) \<Rightarrow> addr list \<Rightarrow> nat" where
  "lens H qs = (\<Sum>q\<leftarrow>qs. unat (pb_len (cell H q)))"

fun lens_ok :: "(addr \<rightharpoonup> pbuf) \<Rightarrow> addr list \<Rightarrow> bool" where
  "lens_ok H [] \<longleftrightarrow> True"
| "lens_ok H (q # qs) \<longleftrightarrow> unat (pb_tot_len (cell H q)) = lens H (q # qs) \<and> lens_ok H qs"

definition payload_bytes :: "memory \<Rightarrow> pbuf \<Rightarrow> u8 list" where
  "payload_bytes m b = bytes m (pb_payload b) (unat (pb_len b))"

definition content :: "pheap \<Rightarrow> addr list \<Rightarrow> u8 list" where
  "content h qs = concat (map (\<lambda>q. payload_bytes (pmem h) (cell (pbufs h) q)) qs)"

definition packet :: "pheap \<Rightarrow> addr \<Rightarrow> addr list \<Rightarrow> u8 list \<Rightarrow> bool" where
  "packet h p qs d \<longleftrightarrow> chain (pbufs h) p qs \<and> lens_ok (pbufs h) qs \<and> content h qs = d"

lemma lens_simps [simp]: "lens H [] = 0" "lens H (q # qs) = unat (pb_len (cell H q)) + lens H qs"
  "lens H (xs @ ys) = lens H xs + lens H ys"
  by (simp_all add: lens_def)

lemma content_simps [simp]: "content h [] = []"
  "content h (q # qs) = payload_bytes (pmem h) (cell (pbufs h) q) @ content h qs"
  "content h (xs @ ys) = content h xs @ content h ys"
  by (simp_all add: content_def)

lemma length_payload_bytes [simp]: "length (payload_bytes m b) = unat (pb_len b)"
  by (simp add: payload_bytes_def)

lemma length_content: "length (content h qs) = lens (pbufs h) qs"
  by (induction qs) simp_all

lemma lseg_append: "lseg H p (xs @ ys) r \<longleftrightarrow> (\<exists>q. lseg H p xs q \<and> lseg H q ys r)"
  by (induction xs arbitrary: p) (auto split: option.splits)

lemma lseg_cong: "(\<And>q. q \<in> set qs \<Longrightarrow> links H q = links H' q) \<Longrightarrow> lseg H p qs r = lseg H' p qs r"
proof (induction qs arbitrary: p)
  case (Cons q qs)
  have IH: "lseg H p qs r = lseg H' p qs r" for p using Cons.IH Cons.prems by simp
  have "map_option (\<lambda>b. (pb_next b, pb_ref b)) (H q) = map_option (\<lambda>b. (pb_next b, pb_ref b)) (H' q)"
    using Cons.prems [of q] by (simp add: links_def)
  then show ?case by (cases "H q"; cases "H' q") (simp_all add: IH)
qed simp

lemma lseg_upd [simp]: "a \<notin> set qs \<Longrightarrow> lseg (H(a := x)) p qs r = lseg H p qs r"
  by (rule lseg_cong) (auto simp: links_def)

lemma chain_Some: "lseg H p qs r \<Longrightarrow> q \<in> set qs \<Longrightarrow> \<exists>b. H q = Some b \<and> q \<noteq> NULL"
  by (induction qs arbitrary: p) (auto split: option.splits)

lemma chain_determ: "chain H p xs \<Longrightarrow> chain H p ys \<Longrightarrow> xs = ys"
proof (induction xs arbitrary: p ys)
  case Nil
  then show ?case by (cases ys) auto
next
  case (Cons x xs)
  then show ?case by (cases ys) (auto split: option.splits)
qed

lemma chain_distinct: "chain H p qs \<Longrightarrow> distinct qs"
proof (induction qs arbitrary: p)
  case (Cons q qs)
  have "q \<notin> set qs"
  proof
    assume "q \<in> set qs"
    then obtain us vs where qs: "qs = us @ q # vs" by (meson split_list)
    obtain b where "H q = Some b" "chain H (pb_next b) (us @ q # vs)"
      using Cons.prems qs by (auto split: option.splits)
    then have "chain H q (q # vs)" and "chain H q (q # us @ q # vs)"
      using Cons.prems by (auto simp: lseg_append split: option.splits)
    then show False using chain_determ by fastforce
  qed
  then show ?case using Cons by (auto split: option.splits)
qed simp

lemma lens_cong: "(\<And>q. q \<in> set qs \<Longrightarrow> pb_len (cell H q) = pb_len (cell H' q)) \<Longrightarrow> lens H qs = lens H' qs"
  by (induction qs) simp_all

lemma lens_ok_append:
  "lens_ok H (xs @ ys) \<Longrightarrow> lens_ok H ys"
  by (induction xs) simp_all

lemma lens_upd [simp]: "a \<notin> set qs \<Longrightarrow> lens (H(a := x)) qs = lens H qs"
  by (rule lens_cong) auto

lemma lens_ok_upd [simp]: "a \<notin> set qs \<Longrightarrow> lens_ok (H(a := x)) qs = lens_ok H qs"
  by (induction qs) auto

lemma lens_le: "lens_ok H qs \<Longrightarrow> lens H qs < 65536"
proof (cases qs)
  case (Cons q rs)
  assume "lens_ok H qs"
  then have "lens H qs = unat (pb_tot_len (cell H q))" using Cons by simp
  then show ?thesis using unsigned_less [of "pb_tot_len (cell H q)", where 'a = nat] by simp
qed simp

subsection \<open>Freeing\<close>

text \<open>
  The buffers at the head of the chain that nobody else refers to are released; the first one that
  is still referenced loses one reference and ends the walk.
\<close>

definition released :: "(addr \<rightharpoonup> pbuf) \<Rightarrow> addr list \<Rightarrow> addr list" where
  "released H qs = takeWhile (\<lambda>q. pb_ref (cell H q) = 1) qs"

definition release :: "(addr \<rightharpoonup> pbuf) \<Rightarrow> addr list \<Rightarrow> addr \<rightharpoonup> pbuf" where
  "release H qs = (\<lambda>a. if a \<in> set (released H qs) then None
     else case drop (length (released H qs)) qs of
       [] \<Rightarrow> H a
     | r # _ \<Rightarrow> if a = r then Some ((cell H r)\<lparr>pb_ref := pb_ref (cell H r) - 1\<rparr>) else H a)"

lemma released_upd: "a \<notin> set qs \<Longrightarrow> released (H(a := x)) qs = released H qs"
  unfolding released_def by (rule takeWhile_cong) auto

lemma released_Cons: "released H (q # qs) = (if pb_ref (cell H q) = 1 then q # released H qs else [])"
  by (simp add: released_def)

lemma release_Cons_one:
  assumes "pb_ref (cell H q) = 1" and "q \<notin> set qs"
  shows "release (H(q := None)) qs = release H (q # qs)"
proof
  fix a
  have r: "released (H(q := None)) qs = released H qs" by (rule released_upd [OF assms(2)])
  have "drop k qs = r # rs \<Longrightarrow> r \<noteq> q" for k r rs
    using assms(2) by (metis in_set_dropD list.set_intros(1))
  then show "release (H(q := None)) qs a = release H (q # qs) a"
    using assms unfolding release_def r released_Cons by (auto split: list.splits)
qed

lemma free_loop_chain:
  assumes "chain (pbufs h) p qs"
  shows "free_loop p n h = Some (n + of_nat (length (released (pbufs h) qs)), h\<lparr>pbufs := release (pbufs h) qs\<rparr>)"
  using assms
proof (induction qs arbitrary: p n h)
  case Nil
  then show ?case by (subst free_loop.simps) (simp add: released_def release_def)
next
  case (Cons q qs)
  then obtain b where b: "pbufs h q = Some b" and p: "p = q" "q \<noteq> NULL" "chain (pbufs h) (pb_next b) qs"
    by (auto split: option.splits)
  have q: "q \<notin> set qs" using chain_distinct [OF Cons.prems] by simp
  show ?case
  proof (cases "pb_ref b = 1")
    case True
    have "free_loop (pb_next b) (n + 1) (mem_free q h) =
        Some (n + 1 + of_nat (length (released ((pbufs h)(q := None)) qs)),
          (mem_free q h)\<lparr>pbufs := release ((pbufs h)(q := None)) qs\<rparr>)"
    proof -
      have "chain (pbufs (mem_free q h)) (pb_next b) qs" using p(3) q by simp
      from Cons.IH [OF this, of "n + 1"] show ?thesis unfolding pbufs_update .
    qed
    moreover have "release ((pbufs h)(q := None)) qs = release (pbufs h) (q # qs)"
      using True b q by (intro release_Cons_one) simp_all
    ultimately show ?thesis
      using True b p q by (subst free_loop.simps)
        (simp add: Let_def released_upd mem_free_def released_Cons)
  next
    case False
    then have "pb_ref b - 1 \<noteq> 0" by simp
    moreover have "released (pbufs h) (q # qs) = []" using False b by (simp add: released_def)
    moreover from this have "release (pbufs h) (q # qs) = (pbufs h)(q \<mapsto> b\<lparr>pb_ref := pb_ref b - 1\<rparr>)"
      using b by (auto simp: release_def)
    ultimately show ?thesis
      using b p by (subst free_loop.simps) (simp add: Let_def set_pbuf_def)
  qed
qed

lemma release_other: "a \<notin> set qs \<Longrightarrow> release H qs a = H a"
  unfolding release_def released_def
  by (auto dest: set_takeWhileD split: list.splits) (metis in_set_dropD list.set_intros(1))

lemma release_upd: "a \<notin> set qs \<Longrightarrow> release (H(a := x)) qs = (release H qs)(a := x)"
proof
  fix c
  assume a: "a \<notin> set qs"
  have r: "released (H(a := x)) qs = released H qs" by (rule released_upd [OF a])
  have "drop k qs = r # rs \<Longrightarrow> r \<noteq> a" for k r rs
    using a by (metis in_set_dropD list.set_intros(1))
  moreover have "a \<notin> set (released H qs)" using a by (auto simp: released_def dest: set_takeWhileD)
  ultimately show "release (H(a := x)) qs c = ((release H qs)(a := x)) c"
    unfolding release_def r by (auto split: list.splits)
qed

subsection \<open>Concatenation\<close>

definition add_tot :: "u16 \<Rightarrow> pbuf \<Rightarrow> pbuf" where
  "add_tot n b = b\<lparr>pb_tot_len := pb_tot_len b + n\<rparr>"

lemma add_tot_sel [simp]: "pb_next (add_tot n b) = pb_next b" "pb_len (add_tot n b) = pb_len b"
  "pb_ref (add_tot n b) = pb_ref b" "pb_payload (add_tot n b) = pb_payload b"
  "pb_tot_len (add_tot n b) = pb_tot_len b + n" "pb_type (add_tot n b) = pb_type b"
  by (simp_all add: add_tot_def)

definition map_cells :: "addr set \<Rightarrow> (pbuf \<Rightarrow> pbuf) \<Rightarrow> (addr \<rightharpoonup> pbuf) \<Rightarrow> addr \<rightharpoonup> pbuf" where
  "map_cells A f H = (\<lambda>a. if a \<in> A then map_option f (H a) else H a)"

lemma map_cells_apply [simp]: "map_cells A f H a = (if a \<in> A then map_option f (H a) else H a)"
  by (simp add: map_cells_def)

lemma cat_loop_chain:
  assumes "chain (pbufs h) p qs" and "qs \<noteq> []" and "t \<notin> set qs" and "pbufs h t = Some tb"
  shows "cat_loop p t h = Some (last qs,
    h\<lparr>pbufs := map_cells (set (butlast qs)) (add_tot (pb_tot_len tb)) (pbufs h)\<rparr>)"
  using assms
proof (induction qs arbitrary: p h)
  case (Cons q qs)
  then obtain b where b: "pbufs h q = Some b" and p: "p = q" "q \<noteq> NULL" "chain (pbufs h) (pb_next b) qs"
    by (auto split: option.splits)
  have q: "q \<notin> set qs" using chain_distinct [OF Cons.prems(1)] by simp
  show ?case
  proof (cases qs)
    case Nil
    then have "pb_next b = NULL" using p by simp
    then show ?thesis using b p Nil by (subst cat_loop.simps) (simp add: map_cells_def)
  next
    case (Cons r rs)
    let ?h = "set_pbuf q (add_tot (pb_tot_len tb) b) h"
    have "pb_next b \<noteq> NULL" using p Cons by auto
    moreover have "cat_loop (pb_next b) t ?h = Some (last qs,
        ?h\<lparr>pbufs := map_cells (set (butlast qs)) (add_tot (pb_tot_len tb)) (pbufs ?h)\<rparr>)"
    proof (rule Cons.IH)
      show "chain (pbufs ?h) (pb_next b) qs" using p(3) q by simp
      show "pbufs ?h t = Some tb" using Cons.prems by auto
    qed (use Cons Cons.prems in auto)
    moreover have "map_cells (set (butlast qs)) (add_tot (pb_tot_len tb)) (pbufs ?h)
        = map_cells (set (butlast (q # qs))) (add_tot (pb_tot_len tb)) (pbufs h)"
    proof
      fix a
      have "q \<notin> set (butlast qs)" using q by (auto dest: in_set_butlastD)
      then show "map_cells (set (butlast qs)) (add_tot (pb_tot_len tb)) (pbufs ?h) a
        = map_cells (set (butlast (q # qs))) (add_tot (pb_tot_len tb)) (pbufs h) a"
        using b Cons by auto
    qed
    ultimately show ?thesis
      using b p Cons.prems Cons
      by (subst cat_loop.simps) (simp add: add_tot_def [symmetric] set_pbuf_def)
  qed
qed simp

end
