(* ===== verification/Pbuf_Ops.thy ===== *)
theory Pbuf_Ops
  imports Pbuf_Chain
begin

section \<open>What the packet buffer operations do to packets\<close>

text \<open>
  Concatenation, shrinking, header adjustment and pool allocation of \<^verbatim>\<open>pbuf.c\<close> on packets: the
  payload bytes afterwards, the \<^verbatim>\<open>tot_len\<close> invariant, and the reference counts.
\<close>

subsection \<open>Concatenation\<close>

lemma lens_ok_retail:
  assumes "lens_ok H (xs @ ys)" and "lens_ok H' zs" and "lens H xs + lens H' zs < 65536"
    and "g + word_of_nat (lens H ys) = word_of_nat (lens H' zs)"
    and "\<And>q. q \<in> set xs \<Longrightarrow> pb_len (cell H' q) = pb_len (cell H q) \<and> pb_tot_len (cell H' q) = pb_tot_len (cell H q) + g"
  shows "lens_ok H' (xs @ zs)"
  using assms
proof (induction xs)
  case (Cons q xs)
  have l: "lens H' (q # xs) = lens H (q # xs)" using Cons.prems(5) by (intro lens_cong) auto
  have "pb_tot_len (cell H q) = word_of_nat (lens H (q # xs) + lens H ys)"
    using Cons.prems(1) by (intro word_of_natI) simp
  then have "pb_tot_len (cell H' q) = word_of_nat (lens H (q # xs)) + (g + word_of_nat (lens H ys))"
    using Cons.prems(5) [of q] by (simp add: algebra_simps)
  also have "\<dots> = word_of_nat (lens H (q # xs) + lens H' zs)"
    unfolding Cons.prems(4) by simp
  finally have "unat (pb_tot_len (cell H' q)) = lens H (q # xs) + lens H' zs"
    using unat_of_nat_small [of "lens H (q # xs) + lens H' zs", where 'a = 16] Cons.prems(3) by simp
  then have "unat (pb_tot_len (cell H' q)) = lens H' (q # xs @ zs)"
    using l by simp
  moreover have "lens_ok H' (xs @ zs)"
    using Cons.prems by (intro Cons.IH) auto
  ultimately show ?case by simp
qed simp

lemma lens_ok_cong:
  "(\<And>q. q \<in> set qs \<Longrightarrow> pb_len (cell H q) = pb_len (cell H' q) \<and> pb_tot_len (cell H q) = pb_tot_len (cell H' q))
    \<Longrightarrow> lens_ok H qs = lens_ok H' qs"
proof (induction qs)
  case (Cons q qs)
  then have "lens H (q # qs) = lens H' (q # qs)" by (intro lens_cong) auto
  then show ?case using Cons by simp
qed simp

lemma packet_head:
  assumes "packet h p qs d" and "qs \<noteq> []"
  obtains b where "pbufs h p = Some b" "unat (pb_tot_len b) = length d" "p \<noteq> NULL"
proof -
  have "lens (pbufs h) qs = length d" using assms(1) by (auto simp: packet_def length_content)
  then show thesis using assms that by (cases qs) (auto simp: packet_def split: option.splits)
qed

lemma links_map_cells [simp]: "links (map_cells A (add_tot n) H) = links H"
  by (rule ext) (simp add: links_def map_option.compositionality comp_def)

lemma lseg_map_cells [simp]: "lseg (map_cells A (add_tot n) H) p qs r = lseg H p qs r"
  by (rule lseg_cong) simp

lemma last_not_butlast: "distinct xs \<Longrightarrow> xs \<noteq> [] \<Longrightarrow> last xs \<notin> set (butlast xs)"
  by (cases xs rule: rev_cases) auto

lemma lseg_relink:
  assumes "lseg H p xs r" and "xs \<noteq> []" and "distinct xs"
    and "\<And>q. q \<in> set (butlast xs) \<Longrightarrow> links H' q = links H q"
    and "H' (last xs) = Some c" and "pb_next c = t"
  shows "lseg H' p xs t"
proof -
  obtain ys q where xs: "xs = ys @ [q]" using assms(2) by (cases xs rule: rev_cases) auto
  then have "lseg H p ys q" and "q \<noteq> NULL" using assms(1) by (auto simp: lseg_append split: option.splits)
  then have "lseg H' p ys q" using lseg_cong [of ys H' H p q] assms(4) xs by simp
  then show ?thesis using assms(5,6) xs \<open>q \<noteq> NULL\<close> by (auto simp: lseg_append)
qed

lemma content_cong:
  assumes "pmem h' = pmem h"
    and "\<And>q. q \<in> set qs \<Longrightarrow> pb_len (cell (pbufs h') q) = pb_len (cell (pbufs h) q)
      \<and> pb_payload (cell (pbufs h') q) = pb_payload (cell (pbufs h) q)"
  shows "content h' qs = content h qs"
  using assms(2) by (induction qs) (simp_all add: payload_bytes_def assms(1))

definition cat_heap :: "pheap \<Rightarrow> addr list \<Rightarrow> addr \<Rightarrow> pheap" where
  "cat_heap h xs t = (let T = pb_tot_len (cell (pbufs h) t); H = map_cells (set xs) (add_tot T) (pbufs h)
     in h\<lparr>pbufs := H(last xs \<mapsto> (cell H (last xs))\<lparr>pb_next := t\<rparr>)\<rparr>)"

lemma pbuf_cat_chain:
  assumes "chain (pbufs h) p xs" and "xs \<noteq> []" and "t \<notin> set xs" and "pbufs h t = Some tb" and "t \<noteq> NULL"
  shows "pbuf_cat p t h = Some (cat_heap h xs t)"
proof -
  obtain ys q where xs: "xs = ys @ [q]" using assms(2) by (cases xs rule: rev_cases) auto
  obtain b where b: "pbufs h q = Some b" using chain_Some [OF assms(1), of q] xs by auto
  have q: "q \<notin> set ys" using chain_distinct [OF assms(1)] xs by simp
  have p: "p \<noteq> NULL" using assms(1,2) by (cases xs) (auto split: option.splits)
  let ?T = "pb_tot_len tb"
  have "(map_cells (set ys) (add_tot ?T) (pbufs h))(q \<mapsto> b\<lparr>pb_tot_len := pb_tot_len b + ?T, pb_next := t\<rparr>)
      = (map_cells (set xs) (add_tot ?T) (pbufs h))(q \<mapsto> (add_tot ?T b)\<lparr>pb_next := t\<rparr>)"
    using xs by (auto simp: add_tot_def)
  then show ?thesis
    using cat_loop_chain [OF assms(1-4)] xs b q p assms(3-5)
    by (auto simp: pbuf_cat_def cat_heap_def set_pbuf_def Let_def)
qed

text \<open>
  \<^verbatim>\<open>pbuf_cat\<close> of two packets that share no buffer makes the head packet the
  concatenation of both, with every \<^verbatim>\<open>tot_len\<close> again the number of bytes from there on, and takes
  over the caller's reference to the tail: the reference counts stay exact.
\<close>

theorem pbuf_cat_concatenates:
  assumes "packet h p xs d" and "packet h t ys e" and "xs \<noteq> []" and "ys \<noteq> []"
    and "set xs \<inter> set ys = {}" and "length d + length e < 65536"
  shows "\<exists>h'. pbuf_cat p t h = Some h' \<and> packet h' p (xs @ ys) (d @ e)
    \<and> (\<forall>ext. refs_ok h (add_mset t ext) \<longrightarrow> refs_ok h' ext)"
proof -
  have c: "chain (pbufs h) p xs" "lens_ok (pbufs h) xs" "content h xs = d"
    "chain (pbufs h) t ys" "lens_ok (pbufs h) ys" "content h ys = e"
    using assms(1,2) by (auto simp: packet_def)
  obtain tb ts where t: "ys = t # ts" "pbufs h t = Some tb" "t \<noteq> NULL"
    using c(4) assms(4) by (cases ys) (auto split: option.splits)
  have tx: "t \<notin> set xs" using t(1) assms(5) by auto
  obtain b where b: "pbufs h (last xs) = Some b" using chain_Some [OF c(1), of "last xs"] assms(3) by auto
  let ?T = "pb_tot_len tb" and ?h = "cat_heap h xs t"
  have H: "pbufs ?h = (map_cells (set xs) (add_tot ?T) (pbufs h))(last xs \<mapsto> (add_tot ?T b)\<lparr>pb_next := t\<rparr>)"
    using t b assms(3) by (simp add: cat_heap_def Let_def)
  have cells: "pb_len (cell (pbufs ?h) q) = pb_len (cell (pbufs h) q) \<and>
      pb_payload (cell (pbufs ?h) q) = pb_payload (cell (pbufs h) q) \<and>
      pb_tot_len (cell (pbufs ?h) q) = pb_tot_len (cell (pbufs h) q) + ?T" if "q \<in> set xs" for q
    using that b chain_Some [OF c(1) that] unfolding H by auto
  have same: "pbufs ?h q = pbufs h q" if "q \<in> set ys" for q
    using that assms(3,5) unfolding H by auto
  have ly: "lens (pbufs ?h) ys = lens (pbufs h) ys" using same by (intro lens_cong) simp
  have T: "?T = word_of_nat (lens (pbufs h) ys)"
  proof (rule word_of_natI)
    show "unat ?T = lens (pbufs h) ys" using c(5) t by simp
  qed
  have "lseg (pbufs ?h) p xs t"
    by (rule lseg_relink [OF c(1) assms(3) chain_distinct [OF c(1)], of _ "(add_tot ?T b)\<lparr>pb_next := t\<rparr>"])
      (use last_not_butlast [OF chain_distinct [OF c(1)] assms(3)] in \<open>auto simp: H links_upd\<close>)
  moreover have "chain (pbufs ?h) t ys"
    using c(4) lseg_cong [of ys "pbufs ?h" "pbufs h"] same by (simp add: links_def)
  moreover have "lens_ok (pbufs ?h) (xs @ ys)"
  proof (rule lens_ok_retail [of "pbufs h" xs "[]", unfolded append_Nil2, OF c(2)])
    show "lens_ok (pbufs ?h) ys" using c(5) lens_ok_cong [of ys "pbufs ?h" "pbufs h"] same by simp
    show "lens (pbufs h) xs + lens (pbufs ?h) ys < 65536"
      using assms(6) c(3,6) ly by (auto simp: length_content)
    show "?T + word_of_nat (lens (pbufs h) []) = word_of_nat (lens (pbufs ?h) ys)" using T ly by simp
    show "pb_len (cell (pbufs ?h) q) = pb_len (cell (pbufs h) q)
      \<and> pb_tot_len (cell (pbufs ?h) q) = pb_tot_len (cell (pbufs h) q) + ?T"
      if "q \<in> set xs" for q using cells [OF that] by simp
  qed
  moreover have "content ?h xs = d" "content ?h ys = e"
    using c(3,6) content_cong [of ?h h] cells same by (auto simp: cat_heap_def Let_def)
  ultimately have "packet ?h p (xs @ ys) (d @ e)"
    by (auto simp: packet_def lseg_append)
  moreover have "refs_ok ?h ext" if "refs_ok h (add_mset t ext)" for ext
  proof (rule refs_ok_cong [OF _ refs_ok_link [OF that b]])
    show "pb_next b = NULL" using c(1) assms(3) b
      by (cases xs rule: rev_cases) (auto simp: lseg_append split: option.splits)
    show "links (pbufs (set_pbuf (last xs) (b\<lparr>pb_next := t\<rparr>) h)) = links (pbufs ?h)"
      by (simp add: H links_upd)
  qed
  ultimately show ?thesis using pbuf_cat_chain [OF c(1) assms(3) tx t(2,3)] by blast
qed


subsection \<open>Shrinking\<close>

lemma realloc_loop_chain:
  assumes "chain (pbufs h) p qs" and "unat rm \<le> lens (pbufs h) qs" and "qs \<noteq> []"
  shows "\<exists>pre q post rm'. qs = pre @ q # post \<and> lens (pbufs h) pre + unat rm' = unat rm
    \<and> unat rm' \<le> unat (pb_len (cell (pbufs h) q))
    \<and> realloc_loop grow rm p h = Some (rm', q, h\<lparr>pbufs := map_cells (set pre) (add_tot grow) (pbufs h)\<rparr>)"
  using assms
proof (induction qs arbitrary: p h rm)
  case (Cons q qs)
  then obtain b where b: "pbufs h q = Some b" and p: "p = q" "q \<noteq> NULL" "chain (pbufs h) (pb_next b) qs"
    by (auto split: option.splits)
  have q: "q \<notin> set qs" using chain_distinct [OF Cons.prems(1)] by simp
  show ?case
  proof (cases "rm > pb_len b")
    case False
    then have "realloc_loop grow rm p h = Some (rm, q, h)"
      using b p by (subst realloc_loop.simps) simp
    then show ?thesis
      using False b by (intro exI [of _ "[]"] exI [of _ q] exI [of _ qs] exI [of _ rm])
        (simp add: map_cells_def word_less_nat_alt)
  next
    case True
    let ?h = "set_pbuf q (add_tot grow b) h"
    have len: "unat (rm - pb_len b) = unat rm - unat (pb_len b)"
      using True by (intro unat_sub) (simp add: order_less_imp_le)
    have pos: "unat (pb_len b) < unat rm" using True by (simp add: word_less_nat_alt)
    have lq: "lens (pbufs ?h) zs = lens (pbufs h) zs" if "set zs \<subseteq> set qs" for zs
      using that q by (intro lens_cong) auto
    have "qs \<noteq> []" using Cons.prems(2) pos b by auto
    moreover have "chain (pbufs ?h) (pb_next b) qs" using p(3) q by simp
    moreover have "unat (rm - pb_len b) \<le> lens (pbufs ?h) qs"
      using Cons.prems(2) b len lq [of qs] by simp
    ultimately obtain pre r post rm' where ih: "qs = pre @ r # post"
      "lens (pbufs ?h) pre + unat rm' = unat (rm - pb_len b)" "unat rm' \<le> unat (pb_len (cell (pbufs ?h) r))"
      "realloc_loop grow (rm - pb_len b) (pb_next b) ?h
        = Some (rm', r, ?h\<lparr>pbufs := map_cells (set pre) (add_tot grow) (pbufs ?h)\<rparr>)"
      using Cons.IH by blast
    have "map_cells (set pre) (add_tot grow) (pbufs ?h) = map_cells (set (q # pre)) (add_tot grow) (pbufs h)"
      using b q ih(1) by (auto simp: map_cells_def)
    then have "realloc_loop grow rm p h = Some (rm', r, h\<lparr>pbufs := map_cells (set (q # pre)) (add_tot grow) (pbufs h)\<rparr>)"
      using ih(4) b p True by (subst realloc_loop.simps) (simp add: add_tot_def [symmetric] set_pbuf_def)
    moreover have "lens (pbufs h) (q # pre) + unat rm' = unat rm"
    proof -
      have "lens (pbufs ?h) pre = lens (pbufs h) pre" using ih(1) by (intro lq) auto
      then show ?thesis using ih(2) len pos b by simp
    qed
    moreover have "unat rm' \<le> unat (pb_len (cell (pbufs h) r))"
      using ih(1,3) q by (auto split: if_splits)
    ultimately show ?thesis using ih(1) by (metis append_Cons)
  qed
qed simp

definition shrunk_heap :: "pheap \<Rightarrow> u16 \<Rightarrow> addr list \<Rightarrow> addr \<Rightarrow> u16 \<Rightarrow> addr list \<Rightarrow> pheap" where
  "shrunk_heap h grow pre q rm post = (let H = map_cells (set pre) (add_tot grow) (pbufs h)
     in h\<lparr>pbufs := (release H post)(q \<mapsto> (cell H q)\<lparr>pb_len := rm, pb_tot_len := rm, pb_next := NULL\<rparr>)\<rparr>)"

lemma pbuf_realloc_chain:
  assumes "packet h p qs d" and "qs \<noteq> []" and "unat new_len < length d"
  shows "\<exists>pre q post rm. qs = pre @ q # post \<and> lens (pbufs h) pre + unat rm = unat new_len
    \<and> unat rm \<le> unat (pb_len (cell (pbufs h) q))
    \<and> pbuf_realloc p new_len h = Some (shrunk_heap h (new_len - pb_tot_len (cell (pbufs h) p)) pre q rm post)"
proof -
  have c: "chain (pbufs h) p qs" "lens_ok (pbufs h) qs" "content h qs = d" using assms(1) by (auto simp: packet_def)
  then have len: "lens (pbufs h) qs = length d" by (auto simp: length_content)
  define g where "g = new_len - pb_tot_len (cell (pbufs h) p)"
  obtain b where b: "pbufs h p = Some b" "unat (pb_tot_len b) = length d" by (rule packet_head [OF assms(1,2)])
  have g: "new_len - pb_tot_len b = g" using b(1) by (simp add: g_def)
  obtain pre q post rm where s: "qs = pre @ q # post" "lens (pbufs h) pre + unat rm = unat new_len"
    "unat rm \<le> unat (pb_len (cell (pbufs h) q))"
    "realloc_loop g new_len p h = Some (rm, q, h\<lparr>pbufs := map_cells (set pre) (add_tot g) (pbufs h)\<rparr>)"
    using realloc_loop_chain [OF c(1), of new_len g] len assms(2,3) by auto
  define H where "H = map_cells (set pre) (add_tot g) (pbufs h)"
  have dist: "distinct (pre @ q # post)" using chain_distinct [OF c(1)] s(1) by simp
  obtain bq where bq: "H q = Some bq" "pbufs h q = Some bq" "chain (pbufs h) (pb_next bq) post"
    using c(1) s(1) dist by (auto simp: lseg_append H_def split: option.splits)
  let ?b = "bq\<lparr>pb_len := rm, pb_tot_len := rm\<rparr>"
  have ch: "chain (H(q \<mapsto> ?b)) (pb_next bq) post"
    using bq(3) dist by (simp add: H_def)
  have fr: "(if pb_next bq \<noteq> NULL then map_option snd (pbuf_free (pb_next bq) (h\<lparr>pbufs := H(q \<mapsto> ?b)\<rparr>))
      else Some (h\<lparr>pbufs := H(q \<mapsto> ?b)\<rparr>)) = Some (h\<lparr>pbufs := (release H post)(q \<mapsto> ?b)\<rparr>)"
  proof (cases post)
    case Nil
    then have "pb_next bq = NULL" using bq(3) by simp
    then show ?thesis using Nil by (simp add: release_def released_def)
  next
    case (Cons r rs)
    have "pb_next bq \<noteq> NULL" using bq(3) Cons by auto
    then show ?thesis
      using free_loop_chain [of "h\<lparr>pbufs := H(q \<mapsto> ?b)\<rparr>" "pb_next bq" post 0] ch dist
      by (simp add: pbuf_free_def release_upd)
  qed
  have "pbuf_realloc p new_len h = Some (shrunk_heap h g pre q rm post)"
    unfolding pbuf_realloc_def using b bq s(4) [folded H_def] assms(3) fr
    by (cases "pb_next bq = NULL")
      (auto simp: word_le_nat_alt g set_pbuf_def shrunk_heap_def Let_def H_def [symmetric] simp del: map_cells_apply)
  then show ?thesis using s(1-3) unfolding g_def by blast
qed


lemma release_map_cells:
  assumes "A \<inter> set qs = {}"
  shows "release (map_cells A f H) qs = map_cells A f (release H qs)"
proof
  fix a
  have r: "released (map_cells A f H) qs = released H qs"
    unfolding released_def using assms by (intro takeWhile_cong) auto
  have "r \<notin> A" if "drop k qs = r # rs" for k r rs
    using assms in_set_dropD [of r k qs] that by auto
  moreover have "set (released H qs) \<inter> A = {}"
    using assms by (auto simp: released_def dest: set_takeWhileD)
  ultimately show "release (map_cells A f H) qs a = map_cells A f (release H qs) a"
    unfolding release_def r by (auto split: list.splits)
qed

lemma shrunk_cells:
  assumes "chain (pbufs h) p (pre @ q # post)"
  shows "a \<in> set pre \<Longrightarrow> pbufs (shrunk_heap h g pre q rm post) a = map_option (add_tot g) (pbufs h a)"
    and "pbufs (shrunk_heap h g pre q rm post) q
      = Some ((cell (pbufs h) q)\<lparr>pb_len := rm, pb_tot_len := rm, pb_next := NULL\<rparr>)"
proof -
  have "set pre \<inter> set post = {}" "q \<notin> set pre" "q \<notin> set post" using chain_distinct [OF assms] by auto
  then show "a \<in> set pre \<Longrightarrow> pbufs (shrunk_heap h g pre q rm post) a = map_option (add_tot g) (pbufs h a)"
    and "pbufs (shrunk_heap h g pre q rm post) q
      = Some ((cell (pbufs h) q)\<lparr>pb_len := rm, pb_tot_len := rm, pb_next := NULL\<rparr>)"
    using release_other [of a post "pbufs h"] by (auto simp: shrunk_heap_def Let_def release_map_cells disjoint_iff)
qed

lemma shrunk_packet:
  assumes "packet h p (pre @ q # post) d"
    and "unat rm \<le> unat (pb_len (cell (pbufs h) q))" and "lens (pbufs h) pre + unat rm = unat new_len"
    and "unat new_len < length d"
  shows "packet (shrunk_heap h (new_len - pb_tot_len (cell (pbufs h) p)) pre q rm post) p (pre @ [q]) (take (unat new_len) d)"
proof -
  let ?H = "pbufs h" and ?g = "new_len - pb_tot_len (cell (pbufs h) p)"
  let ?h = "shrunk_heap h ?g pre q rm post"
  have c: "chain ?H p (pre @ q # post)" "lens_ok ?H (pre @ q # post)" "content h (pre @ q # post) = d"
    using assms(1) by (auto simp: packet_def)
  note cells = shrunk_cells [OF c(1)]
  have pre: "pbufs ?h a = map_option (add_tot ?g) (?H a) \<and> (\<exists>b. ?H a = Some b)" if "a \<in> set pre" for a
    using cells(1) [OF that] chain_Some [OF c(1), of a] that by auto
  have "lseg ?H p pre q" "q \<noteq> NULL" using c(1) by (auto simp: lseg_append split: option.splits)
  then have "lseg (pbufs ?h) p pre q"
    using lseg_cong [of pre "pbufs ?h" ?H p q] pre by (simp add: links_def map_option.compositionality comp_def)
  then have "chain (pbufs ?h) p (pre @ [q])" using cells(2) \<open>q \<noteq> NULL\<close> by (auto simp: lseg_append)
  moreover have "lens_ok (pbufs ?h) (pre @ [q])"
  proof (rule lens_ok_retail [OF c(2)])
    obtain b where b: "?H p = Some b" "unat (pb_tot_len b) = length d"
      by (rule packet_head [OF assms(1)]) auto
    have tot: "pb_tot_len (cell ?H p) = word_of_nat (lens ?H pre + lens ?H (q # post))"
      using b c(3) by (intro word_of_natI) (auto simp: length_content)
    have "new_len = word_of_nat (lens ?H pre + unat rm)"
      using assms(3) by (intro word_of_natI) simp
    with tot show "?g + word_of_nat (lens ?H (q # post)) = word_of_nat (lens (pbufs ?h) [q])"
      using cells(2) by (simp add: algebra_simps)
    show "lens ?H pre + lens (pbufs ?h) [q] < 65536"
      using cells(2) assms(3) unat_half [of new_len] by simp
  qed (use cells(2) pre in fastforce)+
  moreover have "content ?h (pre @ [q]) = take (unat new_len) d"
  proof -
    have "content ?h pre = content h pre"
      using pre by (intro content_cong) (fastforce simp: shrunk_heap_def Let_def)+
    moreover have "content ?h [q] = take (unat rm) (content h (q # post))"
    proof -
      have "pmem ?h = pmem h" by (simp add: shrunk_heap_def Let_def)
      then show ?thesis
        using cells(2) assms(2) by (simp add: payload_bytes_def)
    qed
    moreover have "take (unat new_len) (content h pre @ e) = content h pre @ take (unat rm) e" for e
      unfolding assms(3) [symmetric] by (simp add: length_content)
    ultimately show ?thesis unfolding c(3) [symmetric] content_simps(3) by (simp only:)
  qed
  ultimately show ?thesis by (simp add: packet_def)
qed

lemma shrunk_refs:
  assumes "chain (pbufs h) p (pre @ q # post)" and "refs_ok h ext"
  shows "refs_ok (shrunk_heap h g pre q rm post) ext"
proof -
  have dist: "q \<notin> set pre" "q \<notin> set post" using chain_distinct [OF assms(1)] by auto
  obtain b where b: "pbufs h q = Some b" "chain (pbufs h) (pb_next b) post"
    using assms(1) by (auto simp: lseg_append split: option.splits)
  let ?h = "set_pbuf q (b\<lparr>pb_next := NULL\<rparr>) h"
  have ok: "refs_ok ?h (if pb_next b = NULL then ext else add_mset (pb_next b) ext)"
  proof (cases "pb_next b = NULL")
    case True
    have "set_mset ext \<subseteq> dom (pbufs h)" using refs_okD(6) [OF assms(2)] by blast
    then show ?thesis using True refs_ok_relink [OF assms(2) b(1), of NULL ext] by simp
  qed (use refs_ok_unlink [OF assms(2) b(1)] in simp)
  have "free_loop (pb_next b) 0 ?h = Some (of_nat (length (released (pbufs ?h) post)), ?h\<lparr>pbufs := release (pbufs ?h) post\<rparr>)"
    using free_loop_chain [of ?h "pb_next b" post 0] b(2) dist by simp
  moreover obtain n' h' where "free_loop (pb_next b) 0 ?h = Some (n', h')" "refs_ok h' ext"
    using free_loop_refs [OF ok] by blast
  ultimately have "refs_ok (?h\<lparr>pbufs := release (pbufs ?h) post\<rparr>) ext" by (simp only: option.inject prod.inject)
  moreover have "links (pbufs (?h\<lparr>pbufs := release (pbufs ?h) post\<rparr>)) = links (pbufs (shrunk_heap h g pre q rm post))"
  proof -
    have "set pre \<inter> set post = {}" using chain_distinct [OF assms(1)] by auto
    then show ?thesis
      using dist b(1) by (simp add: shrunk_heap_def Let_def release_upd release_map_cells links_upd)
  qed
  ultimately show ?thesis by (rule refs_ok_cong [rotated])
qed

text \<open>
  \<^verbatim>\<open>pbuf_realloc\<close> to a smaller length keeps exactly the first \<^verbatim>\<open>new_len\<close> payload
  bytes of the packet, keeps the \<^verbatim>\<open>tot_len\<close> invariant and exact reference counts, and leaves a
  packet that is already short enough unchanged.
\<close>

theorem pbuf_realloc_truncates:
  assumes "packet h p qs d" and "qs \<noteq> []"
  shows "\<exists>h' rs. pbuf_realloc p new_len h = Some h' \<and> packet h' p rs (take (unat new_len) d)
    \<and> rs \<noteq> [] \<and> (\<forall>ext. refs_ok h ext \<longrightarrow> refs_ok h' ext)"
proof (cases "unat new_len < length d")
  case False
  obtain b where "pbufs h p = Some b" "unat (pb_tot_len b) = length d" by (rule packet_head [OF assms])
  then have "pbuf_realloc p new_len h = Some h"
    using False by (simp add: pbuf_realloc_def word_le_nat_alt)
  then show ?thesis using False assms by auto
next
  case True
  have c: "chain (pbufs h) p qs" "lens_ok (pbufs h) qs" "content h qs = d" using assms(1) by (auto simp: packet_def)
  define g where "g = new_len - pb_tot_len (cell (pbufs h) p)"
  obtain pre q post rm where s: "qs = pre @ q # post" "lens (pbufs h) pre + unat rm = unat new_len"
    "unat rm \<le> unat (pb_len (cell (pbufs h) q))"
    and r: "pbuf_realloc p new_len h = Some (shrunk_heap h g pre q rm post)"
    using pbuf_realloc_chain [OF assms True] g_def by blast
  have "packet (shrunk_heap h g pre q rm post) p (pre @ [q]) (take (unat new_len) d)"
    unfolding g_def using assms(1) s True by (intro shrunk_packet) auto
  moreover have "refs_ok (shrunk_heap h g pre q rm post) ext" if "refs_ok h ext" for ext
    using c(1) s(1) that by (intro shrunk_refs) auto
  ultimately show ?thesis using r by blast
qed


text \<open>
  A store with two one-buffer packets, to evaluate the operations on; byte \<^term>\<open>a\<close> of the memory
  holds \<^term>\<open>a\<close> modulo 256.
\<close>

definition sample_heap :: pheap where
  "sample_heap = \<lparr>pbufs = [100 \<mapsto> \<lparr>pb_next = NULL, pb_payload = 130, pb_tot_len = 2, pb_len = 2, pb_type = PBUF_RAM, pb_flags = 0, pb_ref = 1\<rparr>,
       200 \<mapsto> \<lparr>pb_next = NULL, pb_payload = 240, pb_tot_len = 3, pb_len = 3, pb_type = PBUF_POOL, pb_flags = 0, pb_ref = 1\<rparr>],
     pmem = word_of_int, allocs = [300, 400]\<rparr>"

lemma sample_packets:
  "packet sample_heap 100 [100] [130, 131]" "packet sample_heap 200 [200] [240, 241, 242]"
  by code_simp+

theorem pbuf_cat_concatenates_witness:
  "\<exists>h'. pbuf_cat 100 200 sample_heap = Some h' \<and> packet h' 100 [100, 200] [130, 131, 240, 241, 242]"
  using pbuf_cat_concatenates [OF sample_packets] by auto

theorem pbuf_realloc_truncates_witness:
  "\<exists>h' rs. pbuf_realloc 200 2 sample_heap = Some h' \<and> packet h' 200 rs [240, 241]"
  using pbuf_realloc_truncates [OF sample_packets(2), of 2] by auto

subsection \<open>Headers\<close>

definition in_buffer :: "addr \<Rightarrow> pbuf \<Rightarrow> bool" where
  "in_buffer p b \<longleftrightarrow> (pb_type b = PBUF_RAM \<or> pb_type b = PBUF_POOL \<longrightarrow> p + SIZEOF_STRUCT_PBUF \<le> pb_payload b)"

definition hide :: "nat \<Rightarrow> pbuf \<Rightarrow> pbuf" where
  "hide k b = b\<lparr>pb_payload := pb_payload b + int k, pb_len := pb_len b - word_of_nat k,
     pb_tot_len := pb_tot_len b - word_of_nat k\<rparr>"

lemma pbuf_header_hide:
  assumes "pbufs h p = Some b" and "p \<noteq> NULL" and "in_buffer p b" and "0 < k" and "k \<le> 32768"
  shows "pbuf_header p (- int k) h = Some (if k \<le> unat (pb_len b) then (0, set_pbuf p (hide k b) h) else (1, h))"
proof -
  have m: "(word_of_int (int k) :: u16) \<le> pb_len b \<longleftrightarrow> k \<le> unat (pb_len b)"
    using unat_of_nat_small [of k, where 'a = 16] assms(5) by (simp add: word_le_nat_alt)
  show ?thesis
    using assms m
    by (cases "pb_type b") (auto simp: pbuf_header_def hide_def in_buffer_def)
qed

lemma pbuf_header_reveal:
  assumes "pbufs h p = Some b" and "p \<noteq> NULL" and "0 < k"
    and "pb_type b = PBUF_RAM \<or> pb_type b = PBUF_POOL"
  shows "pbuf_header p (int k) h = Some (if p + SIZEOF_STRUCT_PBUF \<le> pb_payload b - int k
    then (0, set_pbuf p (b\<lparr>pb_payload := pb_payload b - int k, pb_len := pb_len b + word_of_nat k,
     pb_tot_len := pb_tot_len b + word_of_nat k\<rparr>) h) else (1, h))"
  using assms by (auto simp: pbuf_header_def Let_def)

text \<open>
  Hiding a header of \<^term>\<open>k\<close> bytes drops them from the front of the packet, and revealing
  it again (possible for buffers that own their payload) gives back the very same state; a header
  longer than the first buffer is refused with the state unchanged.
\<close>

theorem pbuf_header_hides_and_reveals:
  assumes "packet h p (p # qs) d" and "pbufs h p = Some b" and "in_buffer p b" and "0 < k" and "k \<le> 32768"
  shows "if k \<le> unat (pb_len b)
    then \<exists>h'. pbuf_header p (- int k) h = Some (0, h') \<and> packet h' p (p # qs) (drop k d)
      \<and> (pb_type b = PBUF_RAM \<or> pb_type b = PBUF_POOL \<longrightarrow> pbuf_header p (int k) h' = Some (0, h))
    else pbuf_header p (- int k) h = Some (1, h)"
proof (cases "k \<le> unat (pb_len b)")
  case True
  have c: "chain (pbufs h) p (p # qs)" "lens_ok (pbufs h) (p # qs)" "content h (p # qs) = d"
    using assms(1) by (auto simp: packet_def)
  have p: "p \<noteq> NULL" "p \<notin> set qs" using c(1) chain_distinct [OF c(1)] by auto
  have k: "unat (word_of_nat k :: u16) = k" using assms(5) by (intro unat_of_nat_small) simp
  then have len: "unat (pb_len b - word_of_nat k) = unat (pb_len b) - k"
    using True by (subst unat_sub) (simp_all add: word_le_nat_alt)
  have tot: "unat (pb_tot_len b - word_of_nat k) = unat (pb_tot_len b) - k"
    using True k c(2) assms(2) by (subst unat_sub) (simp_all add: word_le_nat_alt)
  let ?h = "set_pbuf p (hide k b) h"
  have same: "cell (pbufs ?h) q = cell (pbufs h) q" if "q \<in> set qs" for q using that p(2) by auto
  have "chain (pbufs ?h) p (p # qs)" using c(1) assms(2) p by (simp add: hide_def)
  moreover have "lens_ok (pbufs ?h) (p # qs)"
    using c(2) assms(2) p len tot True by (simp add: hide_def)
  moreover have "content ?h (p # qs) = drop k d"
  proof -
    have "content ?h qs = content h qs" using same by (intro content_cong) auto
    then show ?thesis
      unfolding c(3) [symmetric] using assms(2) True len by (simp add: hide_def payload_bytes_def)
  qed
  ultimately have "packet ?h p (p # qs) (drop k d)" by (simp add: packet_def)
  moreover have "pbuf_header p (int k) ?h = Some (0, h)" if "pb_type b = PBUF_RAM \<or> pb_type b = PBUF_POOL"
    using pbuf_header_reveal [of ?h p "hide k b" k] that assms p
    by (auto simp: hide_def in_buffer_def set_pbuf_def fun_upd_idem)
  ultimately show ?thesis
    using True pbuf_header_hide [OF assms(2) p(1) assms(3-5)] by auto
next
  case False
  have "p \<noteq> NULL" using assms(1) by (auto simp: packet_def)
  then show ?thesis using False pbuf_header_hide [OF assms(2) _ assms(3-5)] by simp
qed

theorem pbuf_header_hides_and_reveals_witness:
  "\<exists>h'. pbuf_header 200 (- 1) sample_heap = Some (0, h') \<and> packet h' 200 [200] [241, 242]
    \<and> pbuf_header 200 1 h' = Some (0, sample_heap)"
proof -
  have "pbufs sample_heap 200 = Some \<lparr>pb_next = NULL, pb_payload = 240, pb_tot_len = 3, pb_len = 3,
      pb_type = PBUF_POOL, pb_flags = 0, pb_ref = 1\<rparr>" by code_simp
  from pbuf_header_hides_and_reveals [OF sample_packets(2) this, of 1] show ?thesis
    by (simp add: in_buffer_def SIZEOF_STRUCT_PBUF_def)
qed


subsection \<open>Allocation from the pool\<close>

text \<open>
  The allocation loop builds a chain whose \<^verbatim>\<open>tot_len\<close> fields already count the bytes still to be
  allocated.
\<close>

fun lens_ahead :: "nat \<Rightarrow> (addr \<rightharpoonup> pbuf) \<Rightarrow> addr list \<Rightarrow> bool" where
  "lens_ahead k H [] \<longleftrightarrow> True"
| "lens_ahead k H (q # qs) \<longleftrightarrow> unat (pb_tot_len (cell H q)) = lens H (q # qs) + k \<and> lens_ahead k H qs"

lemma lens_ahead_0: "lens_ahead 0 H qs = lens_ok H qs"
  by (induction qs) simp_all

lemma lens_ahead_cong:
  "(\<And>q. q \<in> set qs \<Longrightarrow> pb_len (cell H q) = pb_len (cell H' q) \<and> pb_tot_len (cell H q) = pb_tot_len (cell H' q))
    \<Longrightarrow> lens_ahead k H qs = lens_ahead k H' qs"
proof (induction qs)
  case (Cons q qs)
  then have "lens H (q # qs) = lens H' (q # qs)" by (intro lens_cong) auto
  then show ?case using Cons by simp
qed simp

lemma lens_ahead_snoc:
  "lens_ahead k H (qs @ [r]) \<longleftrightarrow> lens_ahead (k + unat (pb_len (cell H r))) H qs
    \<and> unat (pb_tot_len (cell H r)) = unat (pb_len (cell H r)) + k"
  by (induction qs) auto

text \<open>A chain under construction on top of the store \<^term>\<open>H\<close> there was before.\<close>

definition building :: "u16 \<Rightarrow> (addr \<rightharpoonup> pbuf) \<Rightarrow> pheap \<Rightarrow> addr \<Rightarrow> addr list \<Rightarrow> nat \<Rightarrow> bool" where
  "building n H h p qs k \<longleftrightarrow> chain (pbufs h) p qs \<and> qs \<noteq> [] \<and> lens_ahead k (pbufs h) qs
     \<and> pb_tot_len (cell (pbufs h) p) = n
     \<and> (\<forall>q \<in> set qs. pb_ref (cell (pbufs h) q) = 1) \<and> (\<forall>a. a \<notin> set qs \<longrightarrow> pbufs h a = H a)
     \<and> (\<forall>q \<in> set qs. H q = None)"

definition allocs_fresh :: "pheap \<Rightarrow> bool" where
  "allocs_fresh h \<longleftrightarrow> distinct (filter (\<lambda>a. a \<noteq> NULL) (allocs h))
     \<and> (\<forall>a \<in> set (allocs h). pbufs h a = None)"

lemma building_step:
  assumes b: "building len H h p qs (unat rem)" and q: "q \<noteq> NULL" "pbufs h q = None"
    and l: "l \<le> unat rem" and c: "pbufs h (last qs) = Some c"
  shows "building len H (set_pbuf (last qs) (c\<lparr>pb_next := q\<rparr>) (set_pbuf q \<lparr>pb_next = NULL, pb_payload = q + SIZEOF_STRUCT_PBUF,
      pb_tot_len = rem, pb_len = word_of_nat l, pb_type = PBUF_POOL, pb_flags = 0, pb_ref = 1\<rparr> h)) p (qs @ [q]) (unat rem - l)"
    (is "building len H ?h p _ _")
proof -
  have b': "chain (pbufs h) p qs" "qs \<noteq> []" "lens_ahead (unat rem) (pbufs h) qs"
    "\<And>a. a \<in> set qs \<Longrightarrow> pb_ref (cell (pbufs h) a) = 1" "\<And>a. a \<notin> set qs \<Longrightarrow> pbufs h a = H a"
    "\<And>a. a \<in> set qs \<Longrightarrow> H a = None"
    using b unfolding building_def by auto
  have p: "p \<in> set qs" "pb_tot_len (cell (pbufs h) p) = len"
    using b unfolding building_def by (cases qs; auto)+
  have nq: "q \<notin> set qs" using chain_Some [OF b'(1)] q(2) by fastforce
  have lq: "last qs \<noteq> q" "last qs \<in> set qs" using nq b'(2) by auto
  have cells: "pb_len (cell (pbufs ?h) a) = pb_len (cell (pbufs h) a) \<and> pb_tot_len (cell (pbufs ?h) a) = pb_tot_len (cell (pbufs h) a)
      \<and> pb_ref (cell (pbufs ?h) a) = pb_ref (cell (pbufs h) a)" if "a \<in> set qs" for a
    using that nq c by auto
  have "lseg (pbufs ?h) p qs q"
    by (rule lseg_relink [OF b'(1,2) chain_distinct [OF b'(1)], of _ "c\<lparr>pb_next := q\<rparr>"])
      (use last_not_butlast [OF chain_distinct [OF b'(1)] b'(2)] nq in \<open>auto simp: links_upd dest: in_set_butlastD\<close>)
  then have "chain (pbufs ?h) p (qs @ [q])" using q lq by (auto simp: lseg_append)
  moreover have "lens_ahead (unat rem - l) (pbufs ?h) (qs @ [q])"
  proof -
    have "unat (word_of_nat l :: u16) = l" using l unat_half [of rem] by (intro unat_of_nat_small) simp
    then show ?thesis
      using b'(3) lens_ahead_cong [of qs "pbufs ?h" "pbufs h"] cells lq l by (simp add: lens_ahead_snoc)
  qed
  ultimately show ?thesis
    using b' cells nq lq q p unfolding building_def by auto
qed

lemma pbuf_free_building:
  assumes "building len H h p qs k"
  shows "pbuf_free p h = Some (of_nat (length qs), h\<lparr>pbufs := H\<rparr>)"
proof -
  have b: "chain (pbufs h) p qs" "\<And>a. a \<in> set qs \<Longrightarrow> pb_ref (cell (pbufs h) a) = 1"
    "\<And>a. a \<notin> set qs \<Longrightarrow> pbufs h a = H a" "\<And>a. a \<in> set qs \<Longrightarrow> H a = None"
    using assms unfolding building_def by auto
  then have "released (pbufs h) qs = qs" by (simp add: released_def takeWhile_eq_all_conv)
  moreover from this have "release (pbufs h) qs = H" using b by (auto simp: release_def)
  ultimately show ?thesis using free_loop_chain [OF b(1), of 0] by (simp add: pbuf_free_def)
qed

lemma alloc_tail_builds:
  fixes rem :: u16
  assumes "building len H h p qs (unat rem)" and "allocs_fresh h"
  shows "(\<exists>h' n. alloc_tail p (last qs) (int (unat rem)) h = Some (NULL, h') \<and> pbufs h' = H \<and> pmem h' = pmem h)
    \<or> (\<exists>h' qs'. alloc_tail p (last qs) (int (unat rem)) h = Some (p, h') \<and> building len H h' p qs' 0 \<and> pmem h' = pmem h)"
  using assms
proof (induction "unat rem" arbitrary: rem h qs rule: less_induct)
  case less
  define h1 where "h1 = h\<lparr>allocs := tl (allocs h)\<rparr>"
  have h1: "pbufs h1 = pbufs h" "pmem h1 = pmem h" "building len H h1 p qs (unat rem)"
    using less.prems(1) by (simp_all add: h1_def building_def)
  show ?case
  proof (cases "unat rem = 0")
    case True
    then have "alloc_tail p (last qs) (int (unat rem)) h = Some (p, h)"
      by (subst alloc_tail.simps) (simp del: unat_eq_zero)
    then show ?thesis using less.prems(1) True by auto
  next
    case nz: False
    have pos: "int (unat rem) > 0" using nz by linarith
    show ?thesis
    proof (cases "allocs h = [] \<or> hd (allocs h) = NULL")
      case True
      then have "mem_malloc h = (NULL, if allocs h = [] then h else h1)"
        by (cases "allocs h") (auto simp: mem_malloc_def h1_def)
      then have "alloc_tail p (last qs) (int (unat rem)) h
          = Some (NULL, (if allocs h = [] then h else h1)\<lparr>pbufs := H\<rparr>)"
        using pos pbuf_free_building [OF less.prems(1)] pbuf_free_building [OF h1(3)]
        by (subst alloc_tail.simps) simp
      then show ?thesis by (simp add: h1(2))
    next
      case False
      then obtain q as where a: "allocs h = q # as" "q \<noteq> NULL" by (cases "allocs h") auto
      define l where "l = min (unat rem) PBUF_POOL_BUFSIZE"
      obtain c where c: "pbufs h (last qs) = Some c"
        using less.prems(1) chain_Some [of "pbufs h" p qs NULL "last qs"] by (auto simp: building_def)
      let ?h = "set_pbuf (last qs) (c\<lparr>pb_next := q\<rparr>) (set_pbuf q \<lparr>pb_next = NULL, pb_payload = q + SIZEOF_STRUCT_PBUF,
        pb_tot_len = rem, pb_len = word_of_nat l, pb_type = PBUF_POOL, pb_flags = 0, pb_ref = 1\<rparr> h1)"
      have q: "pbufs h q = None" using less.prems(2) a by (simp add: allocs_fresh_def)
      have nq: "last qs \<noteq> q" using q c by auto
      have l: "l \<le> unat rem" "0 < l" using nz by (auto simp: l_def PBUF_POOL_BUFSIZE_def)
      have r: "unat (rem - word_of_nat l) = unat rem - l"
      proof -
        have "unat (word_of_nat l :: u16) = l" using l unat_half [of rem] by (intro unat_of_nat_small) simp
        then show ?thesis using l by (subst unat_sub) (simp_all add: word_le_nat_alt)
      qed
      have "building len H ?h p (qs @ [q]) (unat (rem - word_of_nat l))"
        unfolding r using h1 a q l(1) c by (intro building_step) simp_all
      moreover have "allocs_fresh ?h"
        using less.prems(2) a c by (auto simp: allocs_fresh_def h1_def)
      moreover have "unat (rem - word_of_nat l) < unat rem" using r l by simp
      moreover have "alloc_tail p (last qs) (int (unat rem)) h = alloc_tail p (last (qs @ [q])) (int (unat (rem - word_of_nat l))) ?h"
      proof -
        have "mem_malloc h = (q, h1)" using a by (simp add: mem_malloc_def h1_def)
        moreover have "min (unat (word_of_int (int (unat rem)) :: u16)) PBUF_POOL_BUFSIZE = l" by (simp add: l_def)
        moreover have "int (unat rem) - int l = int (unat (rem - word_of_nat l))" using r l(1) by simp
        ultimately show ?thesis
          using pos a(2) nq c h1(1) by (subst alloc_tail.simps) (simp add: Let_def)
      qed
      moreover have "pmem ?h = pmem h" using h1(2) by simp
      ultimately show ?thesis using less.hyps [of "rem - word_of_nat l" ?h "qs @ [q]"] by simp
    qed
  qed
qed

text \<open>
  \<^verbatim>\<open>pbuf_alloc\<close> from the pool either returns a packet of exactly the requested length made
  of new buffers with reference count one, or returns \<^verbatim>\<open>NULL\<close> with every buffer it had obtained on
  the way freed again; in both cases the other buffers are untouched.  The hypothesis is the contract of
  \<^verbatim>\<open>malloc\<close>: addresses handed out are not in use.
\<close>

theorem pbuf_alloc_pool:
  assumes "allocs_fresh h"
  shows "\<exists>p h'. pbuf_alloc layer len PBUF_POOL h = Some (p, h') \<and> pmem h' = pmem h
    \<and> (if p = NULL then pbufs h' = pbufs h
       else \<exists>qs. packet h' p qs (content h' qs) \<and> length (content h' qs) = unat len
         \<and> (\<forall>q \<in> set qs. pbufs h q = None \<and> pb_ref (cell (pbufs h') q) = 1)
         \<and> (\<forall>a. a \<notin> set qs \<longrightarrow> pbufs h' a = pbufs h a))"
proof (cases "allocs h = [] \<or> hd (allocs h) = NULL")
  case True
  then show ?thesis by (cases "allocs h") (auto simp: pbuf_alloc_def mem_malloc_def)
next
  case False
  then obtain p as where a: "allocs h = p # as" "p \<noteq> NULL" by (cases "allocs h") auto
  define l where "l = min (unat len) (PBUF_POOL_BUFSIZE - unat (header_room layer))"
  let ?b = "\<lparr>pb_next = NULL, pb_payload = p + (SIZEOF_STRUCT_PBUF + int (unat (header_room layer))), pb_tot_len = len,
    pb_len = word_of_nat l, pb_type = PBUF_POOL, pb_flags = 0, pb_ref = 1\<rparr>"
  let ?h = "set_pbuf p ?b (h\<lparr>allocs := as\<rparr>)"
  have p: "pbufs h p = None" using assms a by (simp add: allocs_fresh_def)
  have l: "unat (word_of_nat l :: u16) = l" "l \<le> unat len"
    using unat_half [of len] by (auto simp: l_def intro!: unat_of_nat_small)
  have r: "unat (len - word_of_nat l) = unat len - l" using l by (subst unat_sub) (simp_all add: word_le_nat_alt)
  have b: "building len (pbufs h) ?h p [p] (unat (len - word_of_nat l))"
    using a p l r by (simp add: building_def)
  have f: "allocs_fresh ?h" using assms a by (auto simp: allocs_fresh_def)
  have e: "pbuf_alloc layer len PBUF_POOL h = alloc_tail p p (int (unat (len - word_of_nat l))) ?h"
    using a arg_cong [OF l(1), of int] arg_cong [OF r, of int] l(2)
    by (simp add: pbuf_alloc_def mem_malloc_def Let_def l_def [symmetric] of_nat_diff)
  have fin: "packet h' p qs (content h' qs) \<and> length (content h' qs) = unat len
      \<and> (\<forall>q \<in> set qs. pbufs h q = None \<and> pb_ref (cell (pbufs h') q) = 1) \<and> (\<forall>a. a \<notin> set qs \<longrightarrow> pbufs h' a = pbufs h a)"
    if "building len (pbufs h) h' p qs 0" for h' qs
  proof -
    have p: "packet h' p qs (content h' qs)" "qs \<noteq> []"
      using that by (auto simp: building_def packet_def lens_ahead_0)
    obtain b where "pbufs h' p = Some b" "unat (pb_tot_len b) = length (content h' qs)"
      by (rule packet_head [OF p])
    then show ?thesis using that p by (auto simp: building_def)
  qed
  from alloc_tail_builds [OF b f] show ?thesis
  proof
    assume "\<exists>h' n. alloc_tail p (last [p]) (int (unat (len - word_of_nat l))) ?h = Some (NULL, h') \<and> pbufs h' = pbufs h \<and> pmem h' = pmem ?h"
    then show ?thesis unfolding e by auto
  next
    assume "\<exists>h' qs'. alloc_tail p (last [p]) (int (unat (len - word_of_nat l))) ?h = Some (p, h') \<and> building len (pbufs h) h' p qs' 0 \<and> pmem h' = pmem ?h"
    then show ?thesis unfolding e using fin a(2) by fastforce
  qed
qed


theorem pbuf_alloc_pool_witness:
  "\<exists>p h'. pbuf_alloc PBUF_RAW 2000 PBUF_POOL sample_heap = Some (p, h') \<and> pmem h' = pmem sample_heap
    \<and> (if p = NULL then pbufs h' = pbufs sample_heap
       else \<exists>qs. packet h' p qs (content h' qs) \<and> length (content h' qs) = 2000
         \<and> (\<forall>q \<in> set qs. pbufs sample_heap q = None \<and> pb_ref (cell (pbufs h') q) = 1)
         \<and> (\<forall>a. a \<notin> set qs \<longrightarrow> pbufs h' a = pbufs sample_heap a))"
proof -
  have "allocs_fresh sample_heap" by code_simp
  have "unat (2000 :: u16) = 2000" by simp
  with pbuf_alloc_pool [OF \<open>allocs_fresh sample_heap\<close>, of PBUF_RAW 2000] show ?thesis by (simp only:)
qed

subsection \<open>Reference counts\<close>

text \<open>
  Claim C8: the reference-count rule of \<^verbatim>\<open>pbuf.h\<close> (the count of a live buffer is the number of
  pointers to it, no pointer dangles) is kept by \<^verbatim>\<open>pbuf_free\<close>, which always returns and gives up one
  outside reference, and by \<^verbatim>\<open>pbuf_ref\<close>, which takes one as long as the 16-bit count does not overflow.
\<close>

theorem pbuf_refs_invariant:
  assumes "refs_ok h (add_mset p ext)"
  shows "(\<exists>n h'. pbuf_free p h = Some (n, h') \<and> refs_ok h' ext)
    \<and> (\<exists>b. pbufs h p = Some b \<and> (unat (pb_ref b) < 65535 \<longrightarrow> (\<exists>h'. pbuf_ref p h = Some h' \<and> refs_ok h' (add_mset p (add_mset p ext)))))"
  using pbuf_free_refs [OF assms] pbuf_ref_refs [OF assms] refs_okD(6) [OF assms, of p] by auto

text \<open>
  \<^verbatim>\<open>pbuf_free\<close> on a chain releases exactly the buffers at its head that have no other
  reference, takes one reference from the first buffer that has more, returns the number of released
  buffers (modulo 256: the counter is 8 bits wide) and leaves all other buffers as they were.
\<close>

theorem pbuf_free_releases_prefix:
  assumes "chain (pbufs h) p qs"
  shows "\<exists>h'. pbuf_free p h = Some (of_nat (length (takeWhile (\<lambda>q. pb_ref (cell (pbufs h) q) = 1) qs)), h')
    \<and> (\<forall>q. pbufs h' q = (if q \<in> set (takeWhile (\<lambda>q. pb_ref (cell (pbufs h) q) = 1) qs) then None
        else if dropWhile (\<lambda>q. pb_ref (cell (pbufs h) q) = 1) qs \<noteq> []
           \<and> q = hd (dropWhile (\<lambda>q. pb_ref (cell (pbufs h) q) = 1) qs)
        then Some ((cell (pbufs h) q)\<lparr>pb_ref := pb_ref (cell (pbufs h) q) - 1\<rparr>)
        else pbufs h q))"
proof -
  have "dropWhile (\<lambda>q. pb_ref (cell (pbufs h) q) = 1) qs = drop (length (released (pbufs h) qs)) qs"
    by (simp add: released_def dropWhile_eq_drop)
  then show ?thesis
    using free_loop_chain [OF assms, of 0]
    by (auto simp: pbuf_free_def release_def released_def split: list.splits)
qed

theorem pbuf_refs_invariant_witness:
  "\<exists>n h'. pbuf_free 100 sample_heap = Some (n, h') \<and> refs_ok h' {#200#}"
proof -
  have "refs_ok sample_heap (add_mset 100 {#200#})"
  proof -
    have "incoming (pbufs sample_heap) q = 0" if "q \<noteq> NULL" for q
      using that by (auto simp: incoming_def sample_heap_def card_eq_0_iff)
    then show ?thesis by (intro refs_okI) (auto simp: sample_heap_def split: if_splits)
  qed
  from pbuf_refs_invariant [OF this] show ?thesis by blast
qed

theorem pbuf_free_releases_prefix_witness:
  "\<exists>h'. pbuf_free 100 sample_heap = Some (1, h') \<and> pbufs h' 100 = None \<and> pbufs h' 200 = pbufs sample_heap 200"
proof -
  have "chain (pbufs sample_heap) 100 [100]" by code_simp
  from pbuf_free_releases_prefix [OF this] show ?thesis by (auto simp: sample_heap_def)
qed

end
