(* ===== verification/Pbuf_Copy.thy ===== *)
theory Pbuf_Copy
  imports Pbuf_Ops
begin

section \<open>Copying packets\<close>

text \<open>
  \<^verbatim>\<open>pbuf_copy_partial\<close> and \<^verbatim>\<open>pbuf_copy\<close> of \<^verbatim>\<open>pbuf.c\<close>, and the length of a chain.
\<close>

declare of_nat_unat [simp del]

lemma memcpy_apply:
  assumes "d + int n \<le> s \<or> s + int n \<le> d"
  shows "memcpy d s n m i = (if d \<le> i \<and> i < d + int n then m (s + (i - d)) else m i)"
  using assms
proof (induction n arbitrary: d s m)
  case (Suc n)
  have "memcpy (d + 1) (s + 1) n (m(d := m s)) i
      = (if d + 1 \<le> i \<and> i < d + 1 + int n then (m(d := m s)) (s + 1 + (i - (d + 1))) else (m(d := m s)) i)"
    using Suc.prems by (intro Suc.IH) auto
  then show ?case using Suc.prems by auto
qed auto

lemma bytes_eq_map: "bytes m p n = map (\<lambda>k. m (p + int k)) [0..<n]"
  by (rule nth_equalityI) (simp_all add: bytes_nth)

definition apart :: "pheap \<Rightarrow> addr list \<Rightarrow> addr \<Rightarrow> nat \<Rightarrow> bool" where
  "apart h qs a n \<longleftrightarrow> (\<forall>q \<in> set qs. pb_payload (cell (pbufs h) q) + int (unat (pb_len (cell (pbufs h) q))) \<le> a
     \<or> a + int n \<le> pb_payload (cell (pbufs h) q))"

lemma content_apart:
  assumes "apart h qs a n" and "pbufs h' = pbufs h" and "\<And>i. \<not> (a \<le> i \<and> i < a + int n) \<Longrightarrow> pmem h' i = pmem h i"
  shows "content h' qs = content h qs"
  using assms(1)
proof (induction qs)
  case (Cons q qs)
  have "payload_bytes (pmem h') (cell (pbufs h) q) = payload_bytes (pmem h) (cell (pbufs h) q)"
    unfolding payload_bytes_def using Cons.prems by (intro bytes_cong assms(3)) (auto simp: apart_def)
  then show ?case using Cons by (simp add: assms(2) apart_def)
qed simp

definition wrote :: "memory \<Rightarrow> memory \<Rightarrow> addr \<Rightarrow> u8 list \<Rightarrow> bool" where
  "wrote m m' a out \<longleftrightarrow> bytes m' a (length out) = out
     \<and> (\<forall>i. \<not> (a \<le> i \<and> i < a + int (length out)) \<longrightarrow> m' i = m i)"

lemma wrote_Nil [simp]: "wrote m m a []"
  by (simp add: wrote_def)

lemma wrote_append:
  assumes "wrote m m1 a xs" and "wrote m1 m2 (a + int (length xs)) ys"
  shows "wrote m m2 a (xs @ ys)"
proof -
  have "bytes m2 a (length xs) = bytes m1 a (length xs)"
    using assms(2) by (intro bytes_cong) (auto simp: wrote_def)
  then show ?thesis using assms by (auto simp: wrote_def bytes_add)
qed

lemma wrote_memcpy:
  assumes "d + int n \<le> s \<or> s + int n \<le> d"
  shows "wrote m (memcpy d s n m) d (bytes m s n)"
  using assms by (auto simp: wrote_def memcpy_apply bytes_eq_map)

lemma partial_loop_chain:
  fixes len off left :: u16
  assumes "chain (pbufs h) p qs" and "unat left + unat len < 65536"
    and "apart h qs (dst + int (unat left)) (unat len)"
  defines "out \<equiv> take (unat len) (drop (unat off) (content h qs))"
  shows "\<exists>h'. partial_loop p dst len off left tot h = Some (tot + word_of_nat (length out), h')
    \<and> pbufs h' = pbufs h \<and> wrote (pmem h) (pmem h') (dst + int (unat left)) out"
  using assms(1-3) unfolding out_def
proof (induction qs arbitrary: p h len off left tot)
  case Nil
  then show ?case by (subst partial_loop.simps) simp
next
  case (Cons q qs)
  then obtain b where b: "pbufs h q = Some b" and p: "p = q" "q \<noteq> NULL" "chain (pbufs h) (pb_next b) qs"
    by (auto split: option.splits)
  show ?case
  proof (cases "len = 0")
    case True
    then show ?thesis by (subst partial_loop.simps) simp
  next
    case nz: False
    show ?thesis
    proof (cases "off \<noteq> 0 \<and> off \<ge> pb_len b")
      case True
      have off: "unat (off - pb_len b) = unat off - unat (pb_len b)" using True by (intro unat_sub) simp
      have ge: "unat (pb_len b) \<le> unat off" using True by (simp add: word_le_nat_alt)
      have "apart h qs (dst + int (unat left)) (unat len)" using Cons.prems(3) by (simp add: apart_def)
      then obtain h' where "partial_loop (pb_next b) dst len (off - pb_len b) left tot h
          = Some (tot + word_of_nat (length (take (unat len) (drop (unat (off - pb_len b)) (content h qs)))), h')"
        "pbufs h' = pbufs h"
        "wrote (pmem h) (pmem h') (dst + int (unat left)) (take (unat len) (drop (unat (off - pb_len b)) (content h qs)))"
        using Cons.IH [OF p(3) Cons.prems(2)] by blast
      then show ?thesis
        using nz True b p ge by (subst partial_loop.simps) (simp add: off)
    next
      case False
      define n where "n = (if pb_len b - off > len then len else pb_len b - off)"
      have off: "unat (pb_len b - off) = unat (pb_len b) - unat off" "unat off \<le> unat (pb_len b)"
        using False by (auto intro!: unat_sub simp: word_le_nat_alt not_le)
      have n: "unat n = min (unat len) (unat (pb_len b) - unat off)"
        using off by (auto simp: n_def word_less_nat_alt)
      then have ln: "unat (len - n) = unat len - unat n" by (intro unat_sub) (simp add: word_le_nat_alt)
      have nl: "unat n \<le> unat len" using n by simp
      have left: "unat (left + n) = unat left + unat n"
        using Cons.prems(2) nl by (intro unat_add_small) simp
      let ?d = "dst + int (unat left)" and ?s = "pb_payload b + int (unat off)"
      let ?h = "h\<lparr>pmem := memcpy ?d ?s (unat n) (pmem h)\<rparr>"
      have sep: "?d + int (unat n) \<le> ?s \<or> ?s + int (unat n) \<le> ?d"
        using Cons.prems(3) b n off by (auto simp: apart_def)
      note w = wrote_memcpy [OF sep, of "pmem h"]
      have same: "content ?h qs = content h qs"
        using Cons.prems(3) w nl by (intro content_apart [of h qs ?d "unat len"]) (auto simp: apart_def wrote_def)
      have "chain (pbufs ?h) (pb_next b) qs" using p(3) by simp
      moreover have "unat (left + n) + unat (len - n) < 65536" using Cons.prems(2) left ln nl by simp
      moreover have "apart ?h qs (dst + int (unat (left + n))) (unat (len - n))"
        unfolding left ln using Cons.prems(3) nl by (auto simp: apart_def)
      ultimately obtain h' where ih: "partial_loop (pb_next b) dst (len - n) 0 (left + n) (tot + n) ?h
          = Some (tot + n + word_of_nat (length (take (unat (len - n)) (drop (unat (0 :: u16)) (content ?h qs)))), h')"
        "pbufs h' = pbufs ?h"
        "wrote (pmem ?h) (pmem h') (dst + int (unat (left + n))) (take (unat (len - n)) (drop (unat (0 :: u16)) (content ?h qs)))"
        using Cons.IH [of ?h "pb_next b" "left + n" "len - n" 0 "tot + n"] by blast
      have out: "take (unat len) (drop (unat off) (content h (q # qs)))
          = bytes (pmem h) ?s (unat n) @ take (unat (len - n)) (content h qs)"
        using b off n ln by (auto simp: payload_bytes_def min_def)
      have "partial_loop p dst len off left tot h = partial_loop (pb_next b) dst (len - n) 0 (left + n) (tot + n) ?h"
        using nz False b p by (subst partial_loop.simps) (auto simp: Let_def n_def)
      moreover have "wrote (pmem h) (pmem h') ?d (take (unat len) (drop (unat off) (content h (q # qs))))"
        unfolding out using ih(3) same left by (intro wrote_append [OF w]) (simp add: add.assoc)
      moreover have "tot + n + word_of_nat (length (take (unat (len - n)) (content h qs)))
          = tot + word_of_nat (length (take (unat len) (drop (unat off) (content h (q # qs)))))"
        unfolding out by (simp add: add.assoc of_nat_unat)
      ultimately show ?thesis using ih(1,2) same by simp
    qed
  qed
qed


text \<open>
  \<^verbatim>\<open>pbuf_copy_partial\<close> writes the bytes of the packet from \<^verbatim>\<open>offset\<close> on, at most
  \<^verbatim>\<open>len\<close> of them, to the application's buffer, returns their number, and changes no other byte,
  when the buffer does not overlap the packet.
\<close>

theorem pbuf_copy_partial_copies:
  assumes "packet h p qs d" and "qs \<noteq> []" and "dst \<noteq> NULL" and "apart h qs dst (unat len)"
  shows "\<exists>h'. pbuf_copy_partial p dst len off h = Some (word_of_nat (length (take (unat len) (drop (unat off) d))), h')
    \<and> pbufs h' = pbufs h \<and> bytes (pmem h') dst (length (take (unat len) (drop (unat off) d))) = take (unat len) (drop (unat off) d)
    \<and> (\<forall>i. i < dst \<or> dst + int (unat len) \<le> i \<longrightarrow> pmem h' i = pmem h i)"
proof -
  have c: "chain (pbufs h) p qs" "content h qs = d" using assms(1) by (auto simp: packet_def)
  have p: "p \<noteq> NULL" by (rule packet_head [OF assms(1,2)])
  have "unat (0 :: u16) + unat len < 65536" using unat_half [of len] by simp
  moreover have "apart h qs (dst + int (unat (0 :: u16))) (unat len)" using assms(4) by simp
  ultimately obtain h' where "partial_loop p dst len off 0 0 h = Some (0 + word_of_nat (length (take (unat len) (drop (unat off) d))), h')"
    "pbufs h' = pbufs h" "wrote (pmem h) (pmem h') (dst + int (unat (0 :: u16))) (take (unat len) (drop (unat off) d))"
    using partial_loop_chain [OF c(1), of 0 len dst off 0] c(2) by blast
  then show ?thesis using p assms(3) by (auto simp: pbuf_copy_partial_def wrote_def)
qed

theorem pbuf_copy_partial_copies_witness:
  "\<exists>h'. pbuf_copy_partial 200 1000 2 1 sample_heap = Some (2, h') \<and> bytes (pmem h') 1000 2 = [241, 242]"
proof -
  have "apart sample_heap [200] 1000 (unat (2 :: u16))" by code_simp
  moreover have "bytes m 1000 2 = [m 1000, m 1001]" for m by (simp add: numeral_2_eq_2)
  ultimately show ?thesis using pbuf_copy_partial_copies [OF sample_packets(2), of 1000 2 1] by auto
qed

subsection \<open>Two limits of the code\<close>

text \<open>
  \<^verbatim>\<open>pbuf_clen\<close> counts in 8 bits.
\<close>

lemma pbuf_clen_chain: "chain (pbufs h) p qs \<Longrightarrow> pbuf_clen p h = Some (word_of_nat (length qs))"
proof -
  have "clen_loop p n h = Some (n + word_of_nat (length qs))" if "chain (pbufs h) p qs" for n
    using that
  proof (induction qs arbitrary: p n)
    case Nil
    then show ?case by (subst clen_loop.simps) simp
  next
    case (Cons q qs)
    then show ?case by (subst clen_loop.simps) (auto split: option.splits simp: add.assoc)
  qed
  then show "chain (pbufs h) p qs \<Longrightarrow> ?thesis" by (simp add: pbuf_clen_def)
qed

text \<open>
  A packet that ends in an empty buffer makes \<^verbatim>\<open>pbuf_copy\<close> dereference \<^verbatim>\<open>NULL\<close>
  when the target is exactly as long as the source: the target runs out while the source still has
  the empty buffer to visit.
\<close>

theorem pbuf_copy_null_dereference:
  fixes k :: u16
  assumes "pbufs h t = Some \<lparr>pb_next = NULL, pb_payload = x, pb_tot_len = k, pb_len = k, pb_type = PBUF_RAM, pb_flags = 0, pb_ref = 1\<rparr>"
    and "pbufs h f = Some \<lparr>pb_next = g, pb_payload = y, pb_tot_len = k, pb_len = k, pb_type = PBUF_RAM, pb_flags = 0, pb_ref = 1\<rparr>"
    and "pbufs h g = Some \<lparr>pb_next = NULL, pb_payload = z, pb_tot_len = 0, pb_len = 0, pb_type = PBUF_RAM, pb_flags = 0, pb_ref = 1\<rparr>"
    and "pbufs h NULL = None" and "t \<noteq> NULL" and "f \<noteq> NULL" and "g \<noteq> NULL"
  shows "pbuf_copy t f h = None"
proof -
  have null: "copy_loop NULL g 0 0 h' = None" if "pbufs h' NULL = None" for h'
    using that by (subst copy_loop.simps) simp
  show ?thesis
    unfolding pbuf_copy_def using assms null
    by (subst copy_loop.simps) (simp add: is_queue_def Let_def)
qed


theorem pbuf_copy_null_dereference_witness:
  "pbuf_copy 1 2 \<lparr>pbufs = [1 \<mapsto> \<lparr>pb_next = NULL, pb_payload = 100, pb_tot_len = 4, pb_len = 4, pb_type = PBUF_RAM, pb_flags = 0, pb_ref = 1\<rparr>,
      2 \<mapsto> \<lparr>pb_next = 3, pb_payload = 200, pb_tot_len = 4, pb_len = 4, pb_type = PBUF_RAM, pb_flags = 0, pb_ref = 1\<rparr>,
      3 \<mapsto> \<lparr>pb_next = NULL, pb_payload = 300, pb_tot_len = 0, pb_len = 0, pb_type = PBUF_RAM, pb_flags = 0, pb_ref = 1\<rparr>],
    pmem = (\<lambda>_. 0), allocs = []\<rparr> = None"
  by (rule pbuf_copy_null_dereference [where k = 4 and g = 3]) simp_all

end
