(* ===== verification/Inet_Chksum.thy ===== *)
theory Inet_Chksum
  imports Inet_Order
begin

section \<open>The Internet checksum\<close>

text \<open>
  The three implementations of \<^verbatim>\<open>lwip_standard_chksum\<close> in \<^verbatim>\<open>src/core/ipv4/inet_chksum.c\<close>
  (selected there by \<^verbatim>\<open>LWIP_CHKSUM_ALGORITHM\<close>) and \<^verbatim>\<open>inet_chksum\<close>.  A loop variable \<^verbatim>\<open>len\<close>
  that only counts down to 0 or 1 is a natural number; the accumulators keep their 32 bits.
  All three are shown to compute the one's complement sum of RFC 1071.
\<close>

subsection \<open>The routines\<close>

fun chksum1_loop :: "memory \<Rightarrow> addr \<Rightarrow> nat \<Rightarrow> u32 \<Rightarrow> addr \<times> nat \<times> u32" where
  "chksum1_loop m octetptr (Suc (Suc len)) acc =
     (let src = push_bit 8 (ucast (m octetptr)) :: u16;
          src = src OR ucast (m (octetptr + 1))
      in chksum1_loop m (octetptr + 2) len (acc + ucast src))"
| "chksum1_loop m octetptr len acc = (octetptr, len, acc)"

definition lwip_standard_chksum1 :: "memory \<Rightarrow> addr \<Rightarrow> u16 \<Rightarrow> u16" where
  "lwip_standard_chksum1 m dataptr len =
     (let (octetptr, n, acc) = chksum1_loop m dataptr (unat len) 0;
          acc = (if n > 0 then acc + ucast (push_bit 8 (ucast (m octetptr)) :: u16) else acc);
          acc = drop_bit 16 acc + (acc AND 0xffff);
          acc = (if acc AND 0xffff0000 \<noteq> 0 then drop_bit 16 acc + (acc AND 0xffff) else acc)
      in htons (ucast acc))"

fun sum_words :: "memory \<Rightarrow> addr \<Rightarrow> nat \<Rightarrow> u32 \<Rightarrow> addr \<times> nat \<times> u32" where
  "sum_words m ps (Suc (Suc len)) acc = sum_words m (ps + 2) len (acc + ucast (load16 m ps))"
| "sum_words m ps len acc = (ps, len, acc)"

lemma fold_decreases:
  assumes "drop_bit 16 (s :: u32) \<noteq> 0"
  shows "unat ((s AND 0xffff) + drop_bit 16 s) < unat s"
proof -
  have m: "s AND 0xffff = take_bit 16 s" by (simp add: take_bit_eq_mask mask_eq_exp_minus_1)
  have d: "unat (drop_bit 16 s) = unat s div 65536" by (simp add: unat_drop_bit)
  have t: "unat (take_bit 16 s) = unat s mod 65536" unfolding unsigned_take_bit_eq by (simp add: take_bit_eq_mod)
  have "unat (drop_bit 16 s) \<noteq> 0" using assms by (simp add: unsigned_eq_0_iff)
  moreover have "65536 * (unat s div 65536) + unat s mod 65536 = unat s" by (rule mult_div_mod_eq)
  ultimately have "unat (take_bit 16 s) + unat (drop_bit 16 s) < unat s"
    unfolding d t by linarith
  then show ?thesis
    unfolding m unat_word_ariths by (rule order.strict_trans1 [OF mod_less_eq_dividend])
qed

function fold_carry :: "u32 \<Rightarrow> u32" where
  "fold_carry acc = (if drop_bit 16 acc \<noteq> 0 then fold_carry ((acc AND 0xffff) + drop_bit 16 acc) else acc)"
  by auto
termination
  by (relation "measure unat") (simp_all add: fold_decreases)

declare fold_carry.simps [simp del]

definition swap_bytes32 :: "u32 \<Rightarrow> u32" where
  "swap_bytes32 acc = push_bit 8 (acc AND 0xff) OR drop_bit 8 (acc AND 0xff00)"

definition byte_at :: "nat \<Rightarrow> u8 \<Rightarrow> u16 \<Rightarrow> u16" where
  "byte_at i b t = (if i = 0 then (t AND 0xff00) OR ucast b else (t AND 0xff) OR push_bit 8 (ucast b))"

definition lwip_standard_chksum2 :: "memory \<Rightarrow> addr \<Rightarrow> int \<Rightarrow> u16" where
  "lwip_standard_chksum2 m dataptr len =
     (let is_odd = odd dataptr;
          (pb, t, len) = (if is_odd \<and> len > 0 then (dataptr + 1, byte_at 1 (m dataptr) 0, len - 1)
                          else (dataptr, 0, len));
          (ps, n, acc) = sum_words m pb (nat len) 0;
          t = (if n > 0 then byte_at 0 (m ps) t else t);
          acc = fold_carry (acc + ucast t);
          acc = (if is_odd then swap_bytes32 acc else acc)
      in ucast acc)"

fun sum_longs :: "memory \<Rightarrow> addr \<Rightarrow> nat \<Rightarrow> u32 \<Rightarrow> addr \<times> nat \<times> u32" where
  "sum_longs m pl len acc =
     (if len > 7
      then let tmp = acc + load32 m pl;
               tmp = (if tmp < acc then tmp + 1 else tmp);
               acc = tmp + load32 m (pl + 4);
               acc = (if acc < tmp then acc + 1 else acc)
           in sum_longs m (pl + 8) (len - 8) acc
      else (pl, len, acc))"

declare sum_longs.simps [simp del]

definition chksum3_body :: "memory \<Rightarrow> addr \<Rightarrow> u16 \<Rightarrow> int \<Rightarrow> u32" where
  "chksum3_body m ps t len =
     (let (pl, len, acc) = (if ps mod 4 \<noteq> 0 \<and> len > 1 then (ps + 2, len - 2, ucast (load16 m ps))
                            else (ps, len, 0));
          (ps, n, acc) = sum_longs m pl (nat len) acc;
          acc = drop_bit 16 acc + (acc AND 0xffff);
          (ps, n, acc) = sum_words m ps n acc;
          t = (if n > 0 then byte_at 0 (m ps) t else t)
      in acc + ucast t)"

definition lwip_standard_chksum3 :: "memory \<Rightarrow> addr \<Rightarrow> int \<Rightarrow> u16" where
  "lwip_standard_chksum3 m dataptr len =
     (let is_odd = odd dataptr;
          (ps, t, len) = (if is_odd \<and> len > 0 then (dataptr + 1, byte_at 1 (m dataptr) 0, len - 1)
                          else (dataptr, 0, len));
          acc = fold_carry (chksum3_body m ps t len);
          acc = (if is_odd then swap_bytes32 acc else acc)
      in ucast acc)"

definition inet_chksum :: "memory \<Rightarrow> addr \<Rightarrow> u16 \<Rightarrow> u16" where
  "inet_chksum m dataptr len =
     (let acc = fold_carry (ucast (lwip_standard_chksum1 m dataptr len))
      in NOT (ucast acc))"

subsection \<open>One's complement sums\<close>

fun le_sum :: "u8 list \<Rightarrow> nat" and be_sum :: "u8 list \<Rightarrow> nat" where
  "le_sum [] = 0"
| "le_sum (b # bs) = unat b + be_sum bs"
| "be_sum [] = 0"
| "be_sum (b # bs) = 256 * unat b + le_sum bs"

definition ones_complement :: "nat \<Rightarrow> nat" where
  "ones_complement n = (if n = 0 then 0 else (n - 1) mod 65535 + 1)"

definition rfc1071 :: "u8 list \<Rightarrow> u16" where
  "rfc1071 bs = word_of_nat (ones_complement (le_sum bs))"

text \<open>
  Two sums stand for the same one's complement number when they agree modulo 65535 and
  are zero together.
\<close>

definition rep :: "nat \<Rightarrow> nat \<Rightarrow> bool" where
  "rep s n \<longleftrightarrow> s mod 65535 = n mod 65535 \<and> (s = 0 \<longleftrightarrow> n = 0)"

lemma rep_refl [simp, intro]: "rep n n"
  by (simp add: rep_def)

lemma rep_sym: "rep s n \<Longrightarrow> rep n s"
  by (auto simp: rep_def)

lemma rep_trans [trans]: "rep a b \<Longrightarrow> rep b c \<Longrightarrow> rep a c"
  by (auto simp: rep_def)

lemma rep_add: "rep a b \<Longrightarrow> rep c d \<Longrightarrow> rep (a + c) (b + d)"
  unfolding rep_def using mod_add_cong [of a 65535 b c d] by auto

lemma rep_mult: "rep a b \<Longrightarrow> 0 < k \<Longrightarrow> rep (k * a) (k * b)"
  unfolding rep_def using mod_mult_cong [of k 65535 k a b] by auto

lemma rep_65536: "rep (65536 * n) n"
proof -
  have "65536 * n = n + 65535 * n" by simp
  then show ?thesis unfolding rep_def by (simp only: mod_mult_self2) simp
qed

lemma rep_fold: "rep (s mod 65536 + s div 65536) s"
proof -
  have "rep (s mod 65536 + s div 65536) (s mod 65536 + 65536 * (s div 65536))"
    by (intro rep_add rep_refl rep_sym [OF rep_65536])
  then show ?thesis by simp
qed

lemma rep_less_eq: "rep s n \<Longrightarrow> s < 65536 \<Longrightarrow> s = ones_complement n"
proof (cases "n = 0")
  case False
  assume r: "rep s n" and s: "s < 65536"
  then have "0 < s" using False by (auto simp: rep_def)
  then have "s = (s - 1) mod 65535 + 1" using s by simp
  also have "(s - 1) mod 65535 = (n - 1) mod 65535"
  proof -
    obtain q1 q2 where "s + 65535 * q1 = n + 65535 * q2"
      using r by (auto simp: rep_def nat_mod_eq_iff)
    then have "(s - 1) + 65535 * q1 = (n - 1) + 65535 * q2" using \<open>0 < s\<close> False by simp
    then show ?thesis by (metis nat_mod_eq_iff)
  qed
  finally show ?thesis using False by (simp add: ones_complement_def)
qed (auto simp: rep_def ones_complement_def)

lemma ones_complement_less: "ones_complement n < 65536"
  using mod_less_divisor [of 65535 "n - 1"] by (simp add: ones_complement_def)

lemma ones_complement_small [simp]: "n < 65536 \<Longrightarrow> ones_complement n = n"
  using rep_less_eq [of n n] by simp

lemma rep_ones_complement: "rep (ones_complement n) n"
proof (cases "n = 0")
  case False
  have "((n - 1) mod 65535 + 1) mod 65535 = (n - 1 + 1) mod 65535" by (simp only: mod_add_left_eq)
  then show ?thesis using False by (simp add: rep_def ones_complement_def)
qed (simp add: ones_complement_def)

lemma ones_complement_cong: "rep a b \<Longrightarrow> ones_complement a = ones_complement b"
  by (rule rep_less_eq [OF rep_trans [OF rep_ones_complement] ones_complement_less])

lemma be_le_sum: "rep (256 * le_sum bs) (be_sum bs) \<and> rep (256 * be_sum bs) (le_sum bs)"
proof (induction bs)
  case (Cons b bs)
  have "rep (256 * unat b + 256 * be_sum bs) (256 * unat b + le_sum bs)"
    using Cons.IH by (intro rep_add) auto
  moreover have "rep (65536 * unat b + 256 * le_sum bs) (unat b + be_sum bs)"
    using Cons.IH by (intro rep_add rep_65536) auto
  ultimately show ?case by (simp add: algebra_simps)
qed simp

text \<open>Sums over memory, one loop at a time.\<close>

lemma mask16: "(w :: u32) AND 0xffff = take_bit 16 w"
  by (simp add: take_bit_eq_mask mask_eq_exp_minus_1)

lemma unat_fold_step: "unat (((acc :: u32) AND 0xffff) + drop_bit 16 acc) = unat acc mod 65536 + unat acc div 65536"
proof -
  have "unat acc < 4294967296" using unsigned_less [of acc, where 'a = nat] by simp
  then have "unat acc div 65536 < 65536" by (simp add: less_mult_imp_div_less)
  then have "unat acc mod 65536 + unat acc div 65536 < 4294967296"
    using mod_less_divisor [of 65536 "unat acc"] by simp
  then show ?thesis
    unfolding mask16 unat_word_ariths unat_drop_bit unat_take_bit by simp
qed

lemma unat_fold_carry: "unat (fold_carry acc) = ones_complement (unat acc)"
proof (induction acc rule: fold_carry.induct)
  case (1 acc)
  show ?case
  proof (cases "drop_bit 16 acc = 0")
    case True
    then have "unat (drop_bit 16 acc) = 0" by simp
    then have "unat acc < 65536" by (simp add: unat_drop_bit div_eq_0_iff)
    then show ?thesis using True by (subst fold_carry.simps) simp
  next
    case False
    have "ones_complement (unat ((acc AND 0xffff) + drop_bit 16 acc)) = ones_complement (unat acc)"
      unfolding unat_fold_step by (rule ones_complement_cong [OF rep_fold])
    then show ?thesis using False 1 by (subst fold_carry.simps) simp
  qed
qed

lemma unat_swap_bytes32:
  assumes "unat acc < 65536"
  shows "unat (swap_bytes32 acc) < 65536" and "rep (unat (swap_bytes32 acc)) (256 * unat acc)"
proof -
  have "swap_bytes32 acc = ucast (htons (ucast acc))"
  proof -
    have m: "(0xff00 :: u32) = push_bit 8 (mask 8)" by (simp add: mask_eq_exp_minus_1 push_bit_eq_mult)
    show ?thesis unfolding swap_bytes32_def htons_bytes byte_mask_low m drop_bit_byte_mask
      by (rule bit_word_eqI) (auto simp: bit_simps)
  qed
  then have v: "unat (swap_bytes32 acc) = 256 * (unat acc mod 256) + unat acc div 256"
    using assms unat_half [of "htons (ucast acc)"] by (simp add: unat_ucast_mod unat_htons)
  then show "unat (swap_bytes32 acc) < 65536"
    using less_mult_imp_div_less [of "unat acc" 256 256] mod_less_divisor [of 256 "unat acc"] assms
    by simp
  have "rep (256 * (unat acc mod 256) + unat acc div 256) (256 * (unat acc mod 256) + 65536 * (unat acc div 256))"
    by (intro rep_add rep_refl rep_sym [OF rep_65536])
  also have "256 * (unat acc mod 256) + 65536 * (unat acc div 256) = 256 * unat acc"
    using mult_div_mod_eq [of 256 "unat acc"] by linarith
  finally show "rep (unat (swap_bytes32 acc)) (256 * unat acc)" unfolding v .
qed


text \<open>The value of what is left after the words have been summed.\<close>

definition last_byte :: "memory \<Rightarrow> addr \<Rightarrow> nat \<Rightarrow> nat" where
  "last_byte m p n = (if 0 < n then unat (m p) else 0)"

lemma sum_words_correct:
  assumes "unat acc + 65535 * (n div 2) < 2 ^ 32"
  shows "\<exists>p r acc'. sum_words m ps n acc = (p, r, acc') \<and> r \<le> 1
    \<and> unat acc' \<le> unat acc + 65535 * (n div 2)
    \<and> unat acc' + last_byte m p r = unat acc + le_sum (bytes m ps n)"
  using assms
proof (induction m ps n acc rule: sum_words.induct)
  case (1 m ps len acc)
  let ?acc = "acc + ucast (load16 m ps)"
  have "unat ?acc = unat acc + unat (load16 m ps)"
    using 1(2) unat_half [of "load16 m ps"] by (subst unat_add_small) (simp_all add: unat_ucast_half)
  moreover from this have "unat ?acc + 65535 * (len div 2) < 2 ^ 32"
    using 1(2) unat_half [of "load16 m ps"] by simp
  then obtain p r acc' where "sum_words m (ps + 2) len ?acc = (p, r, acc')" "r \<le> 1"
    "unat acc' \<le> unat ?acc + 65535 * (len div 2)"
    "unat acc' + last_byte m p r = unat ?acc + le_sum (bytes m (ps + 2) len)"
    using 1(1) by auto
  ultimately show ?case
    using unat_half [of "load16 m ps"] by (simp add: unat_load16 add.assoc)
qed (auto simp: last_byte_def)

lemma chksum1_loop_correct:
  assumes "unat acc + 65535 * (n div 2) < 2 ^ 32"
  shows "\<exists>p r acc'. chksum1_loop m ps n acc = (p, r, acc') \<and> r \<le> 1
    \<and> unat acc' \<le> unat acc + 65535 * (n div 2)
    \<and> unat acc' + 256 * last_byte m p r = unat acc + be_sum (bytes m ps n)"
  using assms
proof (induction m ps n acc rule: chksum1_loop.induct)
  case (1 m ps len acc)
  define src where "src = push_bit 8 (ucast (m ps)) OR (ucast (m (ps + 1)) :: u16)"
  have src: "unat src = 256 * unat (m ps) + unat (m (ps + 1))"
    unfolding src_def or.commute [of "push_bit 8 _"] by (subst unat_or_push) simp_all
  let ?acc = "acc + ucast src"
  have "unat ?acc = unat acc + unat src"
    using 1(2) unat_half [of src] by (subst unat_add_small) (simp_all add: unat_ucast_half)
  moreover from this have "unat ?acc + 65535 * (len div 2) < 2 ^ 32"
    using 1(2) unat_half [of src] by simp
  then obtain p r acc' where "chksum1_loop m (ps + 2) len ?acc = (p, r, acc')" "r \<le> 1"
    "unat acc' \<le> unat ?acc + 65535 * (len div 2)"
    "unat acc' + 256 * last_byte m p r = unat ?acc + be_sum (bytes m (ps + 2) len)"
    using 1(1) [OF refl src_def] by auto
  ultimately show ?case
    using unat_half [of src] by (simp add: src src_def [symmetric] Let_def add.assoc)
qed (auto simp: last_byte_def)

text \<open>Addition with the carry added back.\<close>

lemma end_around_carry:
  fixes a b :: u32
  defines "s \<equiv> (if a + b < a then a + b + 1 else a + b)"
  shows "rep (unat s) (unat a + unat b)"
proof -
  have ab: "unat a < 4294967296" "unat b < 4294967296"
    using unsigned_less [of a, where 'a = nat] unsigned_less [of b, where 'a = nat] by simp_all
  show ?thesis
  proof (cases "unat a + unat b < 4294967296")
    case True
    then have "unat (a + b) = unat a + unat b" by (intro unat_add_small) simp
    moreover from this have "\<not> a + b < a" by (simp add: word_less_nat_alt)
    ultimately show ?thesis by (simp add: s_def)
  next
    case False
    then have v: "unat (a + b) = unat a + unat b - 4294967296"
      using ab unfolding unat_word_ariths by (simp add: le_mod_geq mod_less)
    then have "a + b < a" using ab False by (simp add: word_less_nat_alt)
    moreover have "unat (a + b + 1) = unat a + unat b - 4294967296 + 1"
      using ab False v by (subst unat_add_small) simp_all
    moreover have "rep (unat a + unat b - 4294967296 + 1) (unat a + unat b)"
    proof -
      have "rep (unat a + unat b - 4294967296 + 1) (unat a + unat b - 4294967296 + 65536 * (65536 * 1))"
        by (intro rep_add rep_refl rep_sym [OF rep_trans [OF rep_65536 rep_65536]])
      then show ?thesis using False by simp
    qed
    ultimately show ?thesis by (simp add: s_def)
  qed
qed

lemma rep_load32: "rep (unat (load32 m p)) (unat (load16 m p) + unat (load16 m (p + 2)))"
  unfolding unat_load32 by (intro rep_add rep_refl rep_65536)


lemma sum_longs_correct:
  "\<exists>p r acc' k. sum_longs m pl n acc = (p, r, acc') \<and> r \<le> 7 \<and> n = k + r \<and> p = pl + int k \<and> even k
    \<and> rep (unat acc') (unat acc + le_sum (bytes m pl k))"
proof (induction m pl n acc rule: sum_longs.induct)
  case (1 m pl len acc)
  show ?case
  proof (cases "len > 7")
    case True
    define tmp where "tmp = (if acc + load32 m pl < acc then acc + load32 m pl + 1 else acc + load32 m pl)"
    define acc' where "acc' = (if tmp + load32 m (pl + 4) < tmp then tmp + load32 m (pl + 4) + 1
      else tmp + load32 m (pl + 4))"
    have eq: "sum_longs m pl len acc = sum_longs m (pl + 8) (len - 8) acc'"
      using True by (subst sum_longs.simps) (simp add: Let_def tmp_def acc'_def)
    obtain p r acc'' k where ih: "sum_longs m (pl + 8) (len - 8) acc' = (p, r, acc'')" "r \<le> 7"
      "len - 8 = k + r" "p = pl + 8 + int k" "even k" "rep (unat acc'') (unat acc' + le_sum (bytes m (pl + 8) k))"
      using 1 [OF True refl tmp_def refl acc'_def] by auto
    have "rep (unat tmp) (unat acc + unat (load32 m pl))"
      unfolding tmp_def by (rule end_around_carry)
    moreover have "rep (unat acc') (unat tmp + unat (load32 m (pl + 4)))"
      unfolding acc'_def by (rule end_around_carry)
    ultimately have "rep (unat acc') (unat acc + unat (load32 m pl) + unat (load32 m (pl + 4)))"
      using rep_trans rep_add [OF _ rep_refl] by blast
    also have "rep \<dots> (unat acc + (unat (load16 m pl) + unat (load16 m (pl + 2)))
        + (unat (load16 m (pl + 4)) + unat (load16 m (pl + 4 + 2))))"
      by (intro rep_add rep_refl rep_load32)
    finally have "rep (unat acc' + le_sum (bytes m (pl + 8) k))
        (unat acc + (unat (load16 m pl) + unat (load16 m (pl + 2)))
        + (unat (load16 m (pl + 4)) + unat (load16 m (pl + 4 + 2))) + le_sum (bytes m (pl + 8) k))"
      by (intro rep_add rep_refl)
    note step = rep_trans [OF ih(6) this]
    have "unat acc + (unat (load16 m pl) + unat (load16 m (pl + 2)))
        + (unat (load16 m (pl + 4)) + unat (load16 m (pl + 4 + 2))) + le_sum (bytes m (pl + 8) k)
        = unat acc + le_sum (bytes m pl (8 + k))"
    proof -
      have "8 + k = Suc (Suc (Suc (Suc (Suc (Suc (Suc (Suc k)))))))" by simp
      then show ?thesis by (simp only: bytes.simps le_sum.simps be_sum.simps unat_load16) (simp add: algebra_simps)
    qed
    then have "rep (unat acc'') (unat acc + le_sum (bytes m pl (8 + k)))"
      using step by (simp only:)
    then show ?thesis
      unfolding eq ih(1) using ih True by (intro exI [of _ p] exI [of _ r] exI [of _ acc''] exI [of _ "8 + k"]) simp
  next
    case False
    then show ?thesis by (subst sum_longs.simps) auto
  qed
qed

lemma le_sum_append: "even (length xs) \<Longrightarrow> le_sum (xs @ ys) = le_sum xs + le_sum ys"
  by (induction xs rule: induct_list012) simp_all

text \<open>The two bytes at the ends of an unaligned buffer share the word \<^verbatim>\<open>t\<close>.\<close>

lemma unat_byte_at:
  "unat (byte_at 1 b 0) = 256 * unat b" "unat (byte_at 0 c 0) = unat c"
  "unat (byte_at 0 c (byte_at 1 b 0)) = unat c + 256 * unat b"
proof -
  show "unat (byte_at 1 b 0) = 256 * unat b"
    using unat_or_push [of 8 "0 :: u8" b, where 'c = 16] by (simp add: byte_at_def)
  show "unat (byte_at 0 c 0) = unat c"
    using unat_byte [of c] by (simp add: byte_at_def unat_ucast_mod)
  have m: "(0xff00 :: u16) = push_bit 8 (mask 8)" by (simp add: mask_eq_exp_minus_1 push_bit_eq_mult)
  have "byte_at 0 c (byte_at 1 b 0) = ucast c OR push_bit 8 (ucast b)"
    unfolding byte_at_def m by (rule bit_word_eqI) (auto simp: bit_simps dest: bit_imp_le_length)
  then show "unat (byte_at 0 c (byte_at 1 b 0)) = unat c + 256 * unat b"
    by (simp only:) (subst unat_or_push, simp_all)
qed


lemma rfc1071I:
  assumes "rep (unat w) (le_sum bs)" and "unat w < 65536"
  shows "ucast (w :: u32) = rfc1071 bs"
proof -
  have "unat w = ones_complement (le_sum bs)" using assms by (rule rep_less_eq)
  then show ?thesis unfolding rfc1071_def by (simp flip: \<open>unat w = _\<close>)
qed

lemma last_byte_le: "last_byte m p r \<le> 255"
  using unat_byte [of "m p"] by (simp add: last_byte_def)

text \<open>\<^verbatim>\<open>t\<close> holds the first byte in its high and the last byte in its low half.\<close>

lemma unat_end_bytes:
  "unat (if 0 < n then byte_at 0 (m ps) (byte_at 1 b 0) else byte_at 1 b 0) = last_byte m ps n + 256 * unat b"
  "unat (if 0 < n then byte_at 0 (m ps) 0 else 0) = last_byte m ps n"
  using unat_byte_at by (simp_all add: last_byte_def)

lemma mask_high16: "(acc :: u32) AND 0xffff0000 = 0 \<longleftrightarrow> drop_bit 16 acc = 0"
proof -
  have m: "(0xffff0000 :: u32) = push_bit 16 (mask 16)" by (simp add: mask_eq_exp_minus_1 push_bit_eq_mult)
  have "drop_bit 16 (acc AND 0xffff0000) = drop_bit 16 acc"
    unfolding m by (rule bit_word_eqI) (auto simp: bit_simps dest: bit_imp_le_length)
  moreover have "acc AND 0xffff0000 = push_bit 16 (drop_bit 16 acc)"
    unfolding m by (rule bit_word_eqI) (auto simp: bit_simps dest: bit_imp_le_length)
  ultimately show ?thesis by (metis drop_bit_of_0 push_bit_of_0)
qed

lemma fold_twice:
  fixes acc :: u32
  assumes "unat acc < 2 ^ 32"
  defines "f \<equiv> drop_bit 16 acc + (acc AND 0xffff)"
  shows "(if f AND 0xffff0000 \<noteq> 0 then drop_bit 16 f + (f AND 0xffff) else f) = fold_carry acc"
proof -
  have f: "unat f = unat acc mod 65536 + unat acc div 65536"
    unfolding f_def by (simp only: add.commute [of "drop_bit 16 acc"] unat_fold_step)
  have div: "unat acc div 65536 < 65536" using assms by (simp add: less_mult_imp_div_less)
  have "unat f < 131071" using f div mod_less_divisor [of 65536 "unat acc"] by simp
  let ?g = "if f AND 0xffff0000 \<noteq> 0 then drop_bit 16 f + (f AND 0xffff) else f"
  have "unat ?g = ones_complement (unat f)"
  proof (cases "unat f < 65536")
    case True
    then have "unat (drop_bit 16 f) = 0" by (simp add: unat_drop_bit)
    then have "drop_bit 16 f = 0" by (simp only: unat_eq_zero)
    then show ?thesis using True by (simp add: mask_high16)
  next
    case False
    then have "unat (drop_bit 16 f) \<noteq> 0" by (simp add: unat_drop_bit)
    then have "drop_bit 16 f \<noteq> 0" by (simp only: unat_eq_zero not_False_eq_True)
    then have "unat ?g = unat f mod 65536 + unat f div 65536"
      by (simp add: mask_high16 add.commute [of "drop_bit 16 f"] unat_fold_step)
    moreover have "unat f mod 65536 + unat f div 65536 < 65536"
      using False \<open>unat f < 131071\<close> by (simp add: mod_below_double div_below_double)
    ultimately show ?thesis using rep_less_eq [OF rep_fold] by simp
  qed
  also have "\<dots> = ones_complement (unat acc)"
    unfolding f by (rule ones_complement_cong [OF rep_fold])
  finally show ?thesis unfolding word_unat_eq_iff unat_fold_carry .
qed

lemma chksum1_correct: "lwip_standard_chksum1 m p len = rfc1071 (bytes m p (unat len))"
proof -
  let ?bs = "bytes m p (unat len)"
  have "unat (0 :: u32) + 65535 * (unat len div 2) < 2 ^ 32" using unat_half [of len] by simp
  then obtain q r acc where l: "chksum1_loop m p (unat len) 0 = (q, r, acc)"
    and acc: "unat acc \<le> 65535 * (unat len div 2)" "unat acc + 256 * last_byte m q r = be_sum ?bs"
    using chksum1_loop_correct [of 0 "unat len" m p] by auto
  define acc' where "acc' = (if 0 < r then acc + ucast (push_bit 8 (ucast (m q)) :: u16) else acc)"
  have c: "unat (push_bit 8 (ucast (m q)) :: u16) = 256 * unat (m q)"
    using unat_or_push [of 8 "0 :: u8" "m q", where 'c = 16] by simp
  have "unat acc' = be_sum ?bs"
    using acc unat_half [of len] unat_byte [of "m q"]
    by (auto simp: acc'_def last_byte_def unat_ucast_half c unat_add_small)
  then have "unat (fold_carry acc') = ones_complement (be_sum ?bs)"
    by (simp add: unat_fold_carry)
  then have "unat (ucast (fold_carry acc') :: u16) = ones_complement (be_sum ?bs)"
    using ones_complement_less [of "be_sum ?bs"] by (simp add: unat_ucast_mod)
  moreover have "lwip_standard_chksum1 m p len = htons (ucast (fold_carry acc'))"
    unfolding lwip_standard_chksum1_def l Let_def case_prod_conv acc'_def [symmetric]
    using fold_twice [of acc'] unsigned_less [of acc', where 'a = nat] by simp
  moreover have "unat (htons x) = ones_complement (256 * unat x)" for x
  proof (rule rep_less_eq)
    have "rep (256 * (unat x mod 256) + unat x div 256) (256 * (unat x mod 256) + 65536 * (unat x div 256))"
      by (intro rep_add rep_refl rep_sym [OF rep_65536])
    also have "256 * (unat x mod 256) + 65536 * (unat x div 256) = 256 * unat x"
      using mult_div_mod_eq [of 256 "unat x"] by linarith
    finally show "rep (unat (htons x)) (256 * unat x)" unfolding unat_htons .
  qed (use unat_half [of "htons x"] in simp)
  moreover have "ones_complement (256 * ones_complement (be_sum ?bs)) = ones_complement (le_sum ?bs)"
    using be_le_sum [of ?bs] rep_mult [OF rep_ones_complement, of 256 "be_sum ?bs"]
    by (intro ones_complement_cong) (auto intro: rep_trans)
  ultimately show ?thesis
    unfolding rfc1071_def by (metis word_of_natI)
qed


text \<open>The folded sum is the checksum, byte-swapped when the buffer started at an odd address.\<close>

lemma fold_even: "rep (unat s) (le_sum bs) \<Longrightarrow> ucast (fold_carry s) = rfc1071 bs"
  using rep_trans [OF rep_ones_complement] ones_complement_less
  by (intro rfc1071I) (simp_all add: unat_fold_carry)

lemma fold_odd:
  assumes "rep (unat s) (256 * unat b + le_sum bs)"
  shows "ucast (swap_bytes32 (fold_carry s)) = rfc1071 (b # bs)"
proof -
  have f: "unat (fold_carry s) < 65536" and r: "rep (unat (fold_carry s)) (256 * unat b + le_sum bs)"
    unfolding unat_fold_carry by (rule ones_complement_less, rule rep_trans [OF rep_ones_complement assms])
  have "rep (unat (swap_bytes32 (fold_carry s))) (256 * (256 * unat b + le_sum bs))"
    by (rule rep_trans [OF unat_swap_bytes32(2) [OF f] rep_mult [OF r]]) simp
  also have "256 * (256 * unat b + le_sum bs) = 65536 * unat b + 256 * le_sum bs" by simp
  also have "rep \<dots> (le_sum (b # bs))"
    using be_le_sum [of bs] by (auto intro!: rep_add rep_65536)
  finally show ?thesis
    using unat_swap_bytes32(1) [OF f] by (intro rfc1071I)
qed

lemma fold_empty [simp]: "fold_carry 0 = 0" "swap_bytes32 0 = 0" "rfc1071 [] = 0"
  by (simp_all add: fold_carry.simps swap_bytes32_def rfc1071_def ones_complement_def)

lemma bytes_nat_pos: "0 < len \<Longrightarrow> bytes m p (nat len) = m p # bytes m (p + 1) (nat (len - 1))"
  by (cases "nat len") (simp_all add: nat_diff_distrib)

lemma chksum2_correct:
  assumes "len \<le> 0x20000"
  shows "lwip_standard_chksum2 m p len = rfc1071 (bytes m p (nat len))"
proof (cases "odd p \<and> 0 < len")
  case True
  let ?n = "nat (len - 1)"
  have n: "?n div 2 \<le> 65535" using assms by simp
  then obtain q r acc where l: "sum_words m (p + 1) ?n 0 = (q, r, acc)"
    and acc: "unat acc \<le> 65535 * (?n div 2)" "unat acc + last_byte m q r = le_sum (bytes m (p + 1) ?n)"
    using sum_words_correct [of 0 ?n m "p + 1"] by auto
  define t where "t = (if 0 < r then byte_at 0 (m q) (byte_at 1 (m p) 0) else byte_at 1 (m p) 0)"
  have t: "unat t = last_byte m q r + 256 * unat (m p)"
    unfolding t_def by (rule unat_end_bytes)
  have "unat (acc + ucast t) = unat acc + unat t"
    using acc(1) n unat_half [of t] by (subst unat_add_small) (simp_all add: unat_ucast_half)
  then have "unat (acc + ucast t) = 256 * unat (m p) + le_sum (bytes m (p + 1) ?n)"
    using acc(2) t by linarith
  then have "rep (unat (acc + ucast t)) (256 * unat (m p) + le_sum (bytes m (p + 1) ?n))" by simp
  then have "ucast (swap_bytes32 (fold_carry (acc + ucast t))) = rfc1071 (bytes m p (nat len))"
    using True by (simp add: fold_odd bytes_nat_pos)
  then show ?thesis
    unfolding lwip_standard_chksum2_def Let_def using True by (simp add: l t_def cong: if_cong)
next
  case False
  have n: "nat len div 2 \<le> 65536" and n': "65535 * (nat len div 2) + (if odd (nat len) then 255 else 0) < 2 ^ 32"
    using assms by (auto elim!: oddE)
  then obtain q r acc where l: "sum_words m p (nat len) 0 = (q, r, acc)"
    and acc: "unat acc \<le> 65535 * (nat len div 2)" "unat acc + last_byte m q r = le_sum (bytes m p (nat len))"
    using sum_words_correct [of 0 "nat len" m p] by auto
  define t where "t = (if 0 < r then byte_at 0 (m q) 0 else 0)"
  have t: "unat t = last_byte m q r"
    unfolding t_def by (rule unat_end_bytes)
  have "unat (acc + ucast t) = unat acc + unat t"
    using acc(1) n last_byte_le [of m q r] t
    by (subst unat_add_small) (simp_all add: unat_ucast_half)
  then have "ucast (fold_carry (acc + ucast t)) = rfc1071 (bytes m p (nat len))"
    using acc(2) t by (intro fold_even) simp
  moreover have "odd p \<Longrightarrow> acc + ucast t = 0"
    using False l by (auto simp: t_def)
  ultimately show ?thesis
    unfolding lwip_standard_chksum2_def Let_def using False by (auto simp: l t_def cong: if_cong)
qed


lemma chksum3_align:
  "\<exists>pl n' acc k. (if ps mod 4 \<noteq> 0 \<and> n > 1 then (ps + 2, n - 2, ucast (load16 m ps)) else (ps, n, 0)) = (pl, n', acc)
    \<and> nat n = k + nat n' \<and> even k \<and> pl = ps + int k \<and> unat (acc :: u32) = le_sum (bytes m ps k)"
proof (cases "ps mod 4 \<noteq> 0 \<and> n > 1")
  case True
  have "bytes m ps 2 = [m ps, m (ps + 1)]" by (simp add: numeral_2_eq_2)
  then have "unat (ucast (load16 m ps) :: u32) = le_sum (bytes m ps 2)"
    by (simp add: unat_ucast_half unat_load16)
  moreover have "nat n = 2 + nat (n - 2)" using True by linarith
  ultimately show ?thesis
    using True by (metis even_numeral of_nat_numeral)

next
  case False
  then have e: "(if ps mod 4 \<noteq> 0 \<and> n > 1 then (ps + 2, n - 2, ucast (load16 m ps)) else (ps, n, 0)) = (ps, n, (0 :: u32))"
    by (simp only: if_False)
  show ?thesis
    unfolding e by (rule exI [of _ ps], rule exI [of _ n], rule exI [of _ 0], rule exI [of _ 0]) simp
qed

lemma chksum3_body_correct:
  assumes t: "\<And>r q. unat (if r > 0 then byte_at 0 (m q) t else t) = last_byte m q r + 256 * b"
  shows "rep (unat (chksum3_body m ps t n)) (256 * b + le_sum (bytes m ps (nat n)))"
proof -
  obtain pl n' acc0 k0 where
    s0: "(if ps mod 4 \<noteq> 0 \<and> n > 1 then (ps + 2, n - 2, ucast (load16 m ps)) else (ps, n, 0)) = (pl, n', acc0)"
    and k0: "nat n = k0 + nat n'" "even k0" "pl = ps + int k0" "unat (acc0 :: u32) = le_sum (bytes m ps k0)"
    using chksum3_align by blast
  obtain p1 r acc1 k1 where s1: "sum_longs m pl (nat n') acc0 = (p1, r, acc1)"
    and r: "r \<le> 7" and k1: "nat n' = k1 + r" "p1 = pl + int k1" "even k1"
    and a1: "rep (unat acc1) (unat acc0 + le_sum (bytes m pl k1))"
    using sum_longs_correct by blast
  define acc2 where "acc2 = drop_bit 16 acc1 + (acc1 AND 0xffff)"
  have a2: "unat acc2 = unat acc1 mod 65536 + unat acc1 div 65536"
    unfolding acc2_def by (simp only: add.commute [of "drop_bit 16 acc1"] unat_fold_step)
  have "unat acc1 < 4294967296" using unsigned_less [of acc1, where 'a = nat] by simp
  then have a2b: "unat acc2 < 2 * 65536"
    using a2 mod_less_divisor [of 65536 "unat acc1"] less_mult_imp_div_less [of "unat acc1" 65536 65536] by simp
  then have "unat acc2 + 65535 * (r div 2) < 2 ^ 32" using r by simp
  then obtain q r' acc3 where s3: "sum_words m p1 r acc2 = (q, r', acc3)"
    and a3: "unat acc3 \<le> unat acc2 + 65535 * (r div 2)" "unat acc3 + last_byte m q r' = unat acc2 + le_sum (bytes m p1 r)"
    using sum_words_correct [of acc2 r m p1] by auto
  define t' where "t' = (if r' > 0 then byte_at 0 (m q) t else t)"
  have "unat acc3 + unat t' < 2 ^ 32" using a2b a3(1) r unat_half [of t'] by simp
  then have "unat (acc3 + ucast t') = unat acc3 + unat t'"
    by (subst unat_add_small) (simp_all add: unat_ucast_half)
  then have "unat (acc3 + ucast t') = 256 * b + (unat acc2 + le_sum (bytes m p1 r))"
    using a3(2) t [of r' q] unfolding t'_def [symmetric] by linarith
  moreover have "rep (256 * b + (unat acc2 + le_sum (bytes m p1 r)))
      (256 * b + (unat acc0 + le_sum (bytes m pl k1) + le_sum (bytes m p1 r)))"
    unfolding a2 by (intro rep_add rep_refl rep_trans [OF rep_fold a1])
  moreover have "unat acc0 + le_sum (bytes m pl k1) + le_sum (bytes m p1 r) = le_sum (bytes m ps (nat n))"
    unfolding k0 k1 by (simp add: bytes_add le_sum_append add.assoc k0(2) k1(3))
  moreover have "chksum3_body m ps t n = acc3 + ucast t'"
    unfolding chksum3_body_def Let_def s0 case_prod_conv s1 acc2_def [symmetric] s3 t'_def ..
  ultimately show ?thesis by (simp only:)
qed

lemma chksum3_correct: "lwip_standard_chksum3 m p len = rfc1071 (bytes m p (nat len))"
proof (cases "odd p \<and> 0 < len")
  case True
  have "rep (unat (chksum3_body m (p + 1) (byte_at 1 (m p) 0) (len - 1)))
      (256 * unat (m p) + le_sum (bytes m (p + 1) (nat (len - 1))))"
    by (rule chksum3_body_correct, rule unat_end_bytes)
  then have "ucast (swap_bytes32 (fold_carry (chksum3_body m (p + 1) (byte_at 1 (m p) 0) (len - 1))))
      = rfc1071 (m p # bytes m (p + 1) (nat (len - 1)))"
    by (rule fold_odd)
  then show ?thesis
    using True unfolding lwip_standard_chksum3_def Let_def by (simp add: bytes_nat_pos)
next
  case False
  have "rep (unat (chksum3_body m p 0 len)) (256 * 0 + le_sum (bytes m p (nat len)))"
    by (rule chksum3_body_correct) (simp only: mult_0_right add_0_right unat_end_bytes)
  then have r: "rep (unat (chksum3_body m p 0 len)) (le_sum (bytes m p (nat len)))" by simp
  then have "odd p \<Longrightarrow> chksum3_body m p 0 len = 0"
    using False by (simp add: rep_def unat_eq_zero)
  then show ?thesis
    using False fold_even [OF r] unfolding lwip_standard_chksum3_def Let_def
    by (cases "odd p") simp_all
qed

text \<open>A stored byte, and what it does to the sum.\<close>

definition store16 :: "memory \<Rightarrow> addr \<Rightarrow> u16 \<Rightarrow> memory" where
  "store16 m p w = m(p := ucast w, p + 1 := ucast (drop_bit 8 w))"

lemma bytes_upd: "k < n \<Longrightarrow> bytes (m(p + int k := b)) p n = (bytes m p n)[k := b]"
proof (induction n arbitrary: p k)
  case (Suc n)
  show ?case
  proof (cases k)
    case 0
    have "bytes (m(p := b)) (p + 1) n = bytes m (p + 1) n" by (rule bytes_cong) simp
    then show ?thesis using 0 by (simp add: fun_upd_def)
  next
    case (Suc j)
    have "bytes (m(p + 1 + int j := b)) (p + 1) n = (bytes m (p + 1) n)[j := b]"
      using Suc Suc.prems by (intro Suc.IH) simp
    then show ?thesis using Suc by (simp add: add.assoc fun_upd_def)
  qed
qed simp

lemma le_sum_update:
  assumes "k < length xs"
  shows "le_sum (xs[k := b]) + (if even k then 1 else 256) * unat (xs ! k)
      = le_sum xs + (if even k then 1 else 256) * unat b
    \<and> be_sum (xs[k := b]) + (if even k then 256 else 1) * unat (xs ! k)
      = be_sum xs + (if even k then 256 else 1) * unat b"
  using assms
proof (induction xs arbitrary: k)
  case (Cons x xs)
  show ?case
  proof (cases k)
    case (Suc j)
    then show ?thesis using Cons.IH [of j] Cons.prems by (cases "even j") simp_all
  qed simp
qed simp

lemma not_half: "unat (NOT (w :: u16)) = 65535 - unat w"
proof -
  have "NOT w = - 1 - w" by (simp add: not_eq_complement)
  moreover have "w \<le> - 1" by simp
  moreover have "unat (- 1 :: u16) = 65535" by (simp add: unsigned_minus_1_eq_mask mask_eq_exp_minus_1)
  ultimately show ?thesis by (simp only: unat_sub)
qed

lemma unat_inet_chksum: "unat (inet_chksum m p len) = 65535 - ones_complement (le_sum (bytes m p (unat len)))"
proof -
  let ?n = "ones_complement (le_sum (bytes m p (unat len)))"
  have n: "?n < 65536" by (rule ones_complement_less)
  then have "unat (rfc1071 (bytes m p (unat len))) = ?n"
    unfolding rfc1071_def by (intro unat_of_nat_small) simp
  then have "unat (fold_carry (ucast (rfc1071 (bytes m p (unat len))))) = ?n"
    using n by (simp add: unat_fold_carry unat_ucast_half)
  then have "unat (ucast (fold_carry (ucast (rfc1071 (bytes m p (unat len))))) :: u16) = ?n"
    using n by (simp add: unat_ucast_mod)
  then show ?thesis
    unfolding inet_chksum_def chksum1_correct Let_def not_half by simp
qed

lemma inet_chksum_zero_iff:
  "inet_chksum m p len = 0 \<longleftrightarrow> rep (le_sum (bytes m p (unat len))) 65535"
proof -
  let ?n = "le_sum (bytes m p (unat len))"
  have "inet_chksum m p len = 0 \<longleftrightarrow> unat (inet_chksum m p len) = 0" by (rule unat_eq_zero [symmetric])
  also have "\<dots> \<longleftrightarrow> ones_complement ?n = 65535"
    unfolding unat_inet_chksum using ones_complement_less [of ?n] by linarith
  also have "\<dots> \<longleftrightarrow> rep ?n 65535"
    using rep_less_eq [OF rep_sym, of ?n 65535] rep_ones_complement [of ?n] rep_sym by auto
  finally show ?thesis .
qed

text \<open>
  Claim C29: the three implementations of \<^verbatim>\<open>lwip_standard_chksum\<close> return the same value, the one's
  complement sum of RFC 1071, for every buffer, at every alignment and every length they accept: any
  16-bit length for the first, up to 0x20000 bytes for the second, any length for the third.
\<close>

theorem lwip_standard_chksums_agree:
  fixes len :: u16 and n :: int
  shows "lwip_standard_chksum1 m p len = rfc1071 (bytes m p (unat len))
    \<and> (n \<le> 0x20000 \<longrightarrow> lwip_standard_chksum2 m p n = rfc1071 (bytes m p (nat n)))
    \<and> lwip_standard_chksum3 m p n = rfc1071 (bytes m p (nat n))"
  by (simp add: chksum1_correct chksum2_correct chksum3_correct)


theorem lwip_standard_chksums_agree_witness:
  "lwip_standard_chksum2 (\<lambda>i. if i = 5 then 0x12 else 0x34) 5 3 = lwip_standard_chksum3 (\<lambda>i. if i = 5 then 0x12 else 0x34) 5 3
   \<and> (3 :: int) \<le> 0x20000 \<and> lwip_standard_chksum3 (\<lambda>i. if i = 5 then 0x12 else 0x34) 5 3 = 0x3446"
proof -
  have "lwip_standard_chksum3 (\<lambda>i. if i = 5 then 0x12 else 0x34) 5 3 = 0x3446" by code_simp
  then show ?thesis
    using lwip_standard_chksums_agree [of "\<lambda>i. if i = 5 then 0x12 else 0x34" 5 3 3] by simp
qed

text \<open>
  A sender that writes \<^verbatim>\<open>inet_chksum\<close> of a buffer into a cleared, 16-bit aligned
  checksum field of that buffer makes the receiver's \<^verbatim>\<open>inet_chksum\<close> over the whole buffer zero.
\<close>

theorem inet_chksum_verifies:
  assumes "even k" and "k + 2 \<le> unat len"
    and "m (p + int k) = 0" and "m (p + int k + 1) = 0"
  shows "inet_chksum (store16 m (p + int k) (inet_chksum m p len)) p len = 0"
proof -
  let ?bs = "bytes m p (unat len)" and ?c = "inet_chksum m p len"
  let ?lo = "ucast ?c :: u8" and ?hi = "ucast (drop_bit 8 ?c) :: u8"
  have c: "unat ?lo + 256 * unat ?hi = unat ?c"
    using unat_half [of ?c] less_mult_imp_div_less [of "unat ?c" 256 256] mult_div_mod_eq [of 256 "unat ?c"]
    by (simp add: unat_ucast_mod unat_drop_bit)
  have "le_sum (?bs[k := ?lo]) = le_sum ?bs + unat ?lo"
    using le_sum_update [of k ?bs ?lo] assms by (simp add: bytes_nth)
  moreover have "le_sum (?bs[k := ?lo, k + 1 := ?hi]) = le_sum (?bs[k := ?lo]) + 256 * unat ?hi"
    using le_sum_update [of "k + 1" "?bs[k := ?lo]" ?hi] assms bytes_nth [of "k + 1" "unat len" m p]
    by (simp add: add.assoc add.commute [of 1])
  moreover have b: "bytes (store16 m (p + int k) ?c) p (unat len) = ?bs[k := ?lo, k + 1 := ?hi]"
    using assms bytes_upd [of k "unat len" m p ?lo] bytes_upd [of "k + 1" "unat len" "m(p + int k := ?lo)" p ?hi]
    by (simp add: store16_def add.assoc add.commute [of 1])
  ultimately have "le_sum (bytes (store16 m (p + int k) ?c) p (unat len)) = le_sum ?bs + unat ?c"
    unfolding b using c by linarith
  moreover have "rep (le_sum ?bs + unat ?c) (ones_complement (le_sum ?bs) + unat ?c)"
    by (intro rep_add rep_refl rep_sym [OF rep_ones_complement])
  moreover have "ones_complement (le_sum ?bs) + unat ?c = 65535"
    using unat_inet_chksum [of m p len] ones_complement_less [of "le_sum ?bs"] by simp
  ultimately show ?thesis by (simp add: inet_chksum_zero_iff)
qed

theorem inet_chksum_verifies_witness:
  "inet_chksum (store16 (\<lambda>i. if i = 2 \<or> i = 3 then 0 else 0x45) 2 (inet_chksum (\<lambda>i. if i = 2 \<or> i = 3 then 0 else 0x45) 0 5)) 0 5 = 0"
  using inet_chksum_verifies [of 2 5 "\<lambda>i. if i = 2 \<or> i = 3 then 0 else 0x45" 0] by simp

text \<open>
  Changing any one byte of a buffer whose checksum verifies makes the check fail.
\<close>

theorem inet_chksum_detects_byte_error:
  assumes "inet_chksum m p len = 0" and "k < unat len" and "b \<noteq> m (p + int k)"
  shows "inet_chksum (m(p + int k := b)) p len \<noteq> 0"
proof
  let ?bs = "bytes m p (unat len)" and ?a = "m (p + int k)"
  define w where "w = (if even k then 1 else 256 :: nat)"
  assume "inet_chksum (m(p + int k := b)) p len = 0"
  then have "le_sum (?bs[k := b]) mod 65535 = 0"
    using assms(2) by (simp add: inet_chksum_zero_iff rep_def bytes_upd)
  moreover have "le_sum ?bs mod 65535 = 0"
    using assms(1) by (simp add: inet_chksum_zero_iff rep_def)
  moreover have "le_sum (?bs[k := b]) + w * unat ?a = le_sum ?bs + w * unat b"
    using le_sum_update [of k ?bs b] assms(2) by (simp add: w_def bytes_nth)
  ultimately have "(w * unat ?a) mod 65535 = (w * unat b) mod 65535"
    by (metis mod_add_left_eq add_0)
  moreover have "w * unat x < 65535" for x :: u8 using unat_byte [of x] by (simp add: w_def)
  ultimately have "w * unat ?a = w * unat b" by simp
  then show False using assms(3) by (simp add: w_def word_unat_eq_iff split: if_splits)
qed

theorem inet_chksum_detects_byte_error_witness:
  "inet_chksum ((\<lambda>i. 0xff)(3 := 0xfe)) 0 4 \<noteq> 0"
proof -
  have "inet_chksum (\<lambda>i. 0xff) 0 4 = 0" by code_simp
  then show ?thesis using inet_chksum_detects_byte_error [of "\<lambda>i. 0xff" 0 4 3 "0xfe"] by simp
qed

end
