(* ===== verification/Pbuf_Chksum.thy ===== *)
theory Pbuf_Chksum
  imports Pbuf_Copy Inet_Chksum
begin

section \<open>Checksums over packets\<close>

text \<open>
  The checksum functions of \<^verbatim>\<open>src/core/ipv4/inet_chksum.c\<close> that walk a chain of buffers:
  \<^verbatim>\<open>inet_chksum_pseudo\<close>, \<^verbatim>\<open>inet_chksum_pseudo_partial\<close> and \<^verbatim>\<open>inet_chksum_pbuf\<close>.  Their sum must
  not depend on where the buffers split the packet, although every buffer is summed as if it started
  at an even offset; the \<^verbatim>\<open>swapped\<close> flag repairs that.
\<close>

partial_function (option) pseudo_loop :: "addr \<Rightarrow> u32 \<Rightarrow> u8 \<Rightarrow> pheap \<Rightarrow> (u32 \<times> u8) option" where [code]:
  "pseudo_loop q acc swapped h =
     (if q = NULL then Some (acc, swapped)
      else do {
        b \<leftarrow> pbufs h q;
        let acc = fold_carry (acc + ucast (lwip_standard_chksum1 (pmem h) (pb_payload b) (pb_len b)));
        let (swapped, acc) = (if pb_len b mod 2 \<noteq> 0 then (1 - swapped, swap_bytes32 acc) else (swapped, acc));
        pseudo_loop (pb_next b) acc swapped h
      })"

definition pseudo_tail :: "u32 \<Rightarrow> u8 \<Rightarrow> u32 \<Rightarrow> u32 \<Rightarrow> u8 \<Rightarrow> u16 \<Rightarrow> u16" where
  "pseudo_tail acc swapped src dest proto proto_len =
     (let acc = (if swapped \<noteq> 0 then swap_bytes32 acc else acc);
          acc = acc + (src AND 0xffff);
          acc = acc + (drop_bit 16 src AND 0xffff);
          acc = acc + (dest AND 0xffff);
          acc = acc + (drop_bit 16 dest AND 0xffff);
          acc = acc + ucast (htons (ucast proto));
          acc = acc + ucast (htons proto_len);
          acc = fold_carry acc
      in ucast (NOT (acc AND 0xffff)))"

definition inet_chksum_pseudo :: "addr \<Rightarrow> u32 \<Rightarrow> u32 \<Rightarrow> u8 \<Rightarrow> u16 \<Rightarrow> pheap \<Rightarrow> u16 option" where
  "inet_chksum_pseudo p src dest proto proto_len h = do {
     (acc, swapped) \<leftarrow> pseudo_loop p 0 0 h;
     Some (pseudo_tail acc swapped src dest proto proto_len)
   }"

partial_function (option) pseudo_partial_loop :: "addr \<Rightarrow> u16 \<Rightarrow> u32 \<Rightarrow> u8 \<Rightarrow> pheap \<Rightarrow> (u32 \<times> u8) option" where [code]:
  "pseudo_partial_loop q chksum_len acc swapped h =
     (if q \<noteq> NULL \<and> chksum_len > 0
      then do {
        b \<leftarrow> pbufs h q;
        let chklen = (if pb_len b > chksum_len then chksum_len else pb_len b);
        let acc = fold_carry (acc + ucast (lwip_standard_chksum1 (pmem h) (pb_payload b) chklen));
        let (swapped, acc) = (if pb_len b mod 2 \<noteq> 0 then (1 - swapped, swap_bytes32 acc) else (swapped, acc));
        pseudo_partial_loop (pb_next b) (chksum_len - chklen) acc swapped h
      }
      else Some (acc, swapped))"

definition inet_chksum_pseudo_partial :: "addr \<Rightarrow> u32 \<Rightarrow> u32 \<Rightarrow> u8 \<Rightarrow> u16 \<Rightarrow> u16 \<Rightarrow> pheap \<Rightarrow> u16 option" where
  "inet_chksum_pseudo_partial p src dest proto proto_len chksum_len h = do {
     (acc, swapped) \<leftarrow> pseudo_partial_loop p chksum_len 0 0 h;
     Some (pseudo_tail acc swapped src dest proto proto_len)
   }"

text \<open>
  In \<^verbatim>\<open>inet_chksum_pbuf\<close> the operators bind so that the masks are shifted, not the accumulator.
\<close>

partial_function (option) pbuf_sum_loop :: "addr \<Rightarrow> u32 \<Rightarrow> u8 \<Rightarrow> pheap \<Rightarrow> (u32 \<times> u8) option" where [code]:
  "pbuf_sum_loop q acc swapped h =
     (if q = NULL then Some (acc, swapped)
      else do {
        b \<leftarrow> pbufs h q;
        let acc = fold_carry (acc + ucast (lwip_standard_chksum1 (pmem h) (pb_payload b) (pb_len b)));
        let (swapped, acc) = (if pb_len b mod 2 \<noteq> 0
          then (1 - swapped, (acc AND push_bit 8 0x00ff) OR (acc AND drop_bit 8 0xff00)) else (swapped, acc));
        pbuf_sum_loop (pb_next b) acc swapped h
      })"

definition inet_chksum_pbuf :: "addr \<Rightarrow> pheap \<Rightarrow> u16 option" where
  "inet_chksum_pbuf p h = do {
     (acc, swapped) \<leftarrow> pbuf_sum_loop p 0 0 h;
     let acc = (if swapped \<noteq> 0 then swap_bytes32 acc else acc);
     Some (ucast (NOT (acc AND 0xffff)))
   }"

subsection \<open>Sums across buffer boundaries\<close>

lemma le_be_append:
  "le_sum (xs @ ys) = le_sum xs + (if even (length xs) then le_sum ys else be_sum ys)"
  "be_sum (xs @ ys) = be_sum xs + (if even (length xs) then be_sum ys else le_sum ys)"
  by (induction xs) auto

text \<open>
  The accumulator after the bytes \<^term>\<open>xs\<close>: their sum, byte-swapped when their number is odd.
\<close>

definition framed :: "u32 \<Rightarrow> u8 \<Rightarrow> u8 list \<Rightarrow> bool" where
  "framed acc swapped xs \<longleftrightarrow> unat acc < 65536 \<and> swapped = (if even (length xs) then 0 else 1)
     \<and> rep (unat acc) (if even (length xs) then le_sum xs else be_sum xs)"

lemma odd_half: "(l :: u16) mod 2 = 0 \<longleftrightarrow> even (unat l)" "(l :: u16) mod 2 = 1 \<longleftrightarrow> odd (unat l)"
proof -
  have "l mod 2 = 0 \<longleftrightarrow> unat (l mod 2) = 0" by (simp only: unat_eq_zero)
  then show "l mod 2 = 0 \<longleftrightarrow> even (unat l)" by (simp add: unat_mod even_iff_mod_2_eq_zero)
  then show "l mod 2 = 1 \<longleftrightarrow> odd (unat l)" by (metis not_mod_2_eq_0_eq_1 one_neq_zero)
qed

lemma unat_chksum1: "unat (ucast (lwip_standard_chksum1 m p l) :: u32) = ones_complement (le_sum (bytes m p (unat l)))"
  unfolding unat_ucast_half chksum1_correct rfc1071_def
  using ones_complement_less by (intro unat_of_nat_small) simp

lemma acc_chunk:
  assumes "unat acc < 65536" and "rep (unat acc) n"
  shows "unat (fold_carry (acc + ucast (lwip_standard_chksum1 m p l))) < 65536"
    and "rep (unat (fold_carry (acc + ucast (lwip_standard_chksum1 m p l)))) (n + le_sum (bytes m p (unat l)))"
proof -
  let ?c = "ucast (lwip_standard_chksum1 m p l) :: u32"
  have "unat acc + unat ?c < 2 ^ 32"
    using assms(1) unat_chksum1 [of m p l] ones_complement_less [of "le_sum (bytes m p (unat l))"] by simp
  then have s: "unat (acc + ?c) = unat acc + ones_complement (le_sum (bytes m p (unat l)))"
    by (subst unat_add_small) (simp_all add: unat_chksum1)
  show "unat (fold_carry (acc + ?c)) < 65536" by (simp add: unat_fold_carry ones_complement_less)
  show "rep (unat (fold_carry (acc + ?c))) (n + le_sum (bytes m p (unat l)))"
    unfolding unat_fold_carry s
    by (rule rep_trans [OF rep_ones_complement rep_add [OF assms(2) rep_ones_complement]])
qed

lemma rep_swap:
  assumes "unat acc < 65536" and "rep (unat acc) (le_sum xs)"
  shows "rep (unat (swap_bytes32 acc)) (be_sum xs)"
  using rep_trans [OF rep_trans [OF unat_swap_bytes32(2) [OF assms(1)] rep_mult [OF assms(2)]]] be_le_sum [of xs] by simp

lemma rep_swap':
  assumes "unat acc < 65536" and "rep (unat acc) (be_sum xs)"
  shows "rep (unat (swap_bytes32 acc)) (le_sum xs)"
  using rep_trans [OF rep_trans [OF unat_swap_bytes32(2) [OF assms(1)] rep_mult [OF assms(2)]]] be_le_sum [of xs] by simp

lemma framed_chunk:
  fixes m :: memory and p :: addr and l :: u16
  assumes "framed acc swapped xs"
  defines "acc' \<equiv> fold_carry (acc + ucast (lwip_standard_chksum1 m p l))"
  defines "ys \<equiv> xs @ bytes m p (unat l)"
  shows "odd (unat l) \<Longrightarrow> framed (swap_bytes32 acc') (1 - swapped) ys"
    and "even (unat l) \<Longrightarrow> framed acc' swapped ys"
    and "unat acc' < 65536 \<and> rep (unat acc') (if swapped = 0 then le_sum ys else be_sum ys)"
proof -
  have a: "unat acc < 65536" "rep (unat acc) (if even (length xs) then le_sum xs else be_sum xs)"
    and s: "swapped = (if even (length xs) then 0 else 1)"
    using assms(1) by (auto simp: framed_def)
  note c = acc_chunk [OF a, of m p l, folded acc'_def]
  show acc': "unat acc' < 65536 \<and> rep (unat acc') (if swapped = 0 then le_sum ys else be_sum ys)"
    using c s by (simp add: ys_def le_be_append split: if_splits)
  show "even (unat l) \<Longrightarrow> framed acc' swapped ys"
    using acc' s by (auto simp: framed_def ys_def)
  show "odd (unat l) \<Longrightarrow> framed (swap_bytes32 acc') (1 - swapped) ys"
    using acc' s rep_swap [of acc' ys] rep_swap' [of acc' ys] unat_swap_bytes32(1) [of acc']
    by (auto simp: framed_def ys_def split: if_splits)
qed

lemma pseudo_loop_chain:
  assumes "chain (pbufs h) p qs" and "framed acc swapped xs"
  shows "\<exists>acc' s'. pseudo_loop p acc swapped h = Some (acc', s') \<and> framed acc' s' (xs @ content h qs)"
  using assms
proof (induction qs arbitrary: p acc swapped xs)
  case Nil
  then show ?case by (subst pseudo_loop.simps) simp
next
  case (Cons q qs)
  then obtain b where b: "pbufs h q = Some b" and p: "p = q" "q \<noteq> NULL" "chain (pbufs h) (pb_next b) qs"
    by (auto split: option.splits)
  note f = framed_chunk [OF Cons.prems(2), where m = "pmem h" and p = "pb_payload b" and l = "pb_len b"]
  show ?case
  proof (cases "odd (unat (pb_len b))")
    case True
    then show ?thesis
      using Cons.IH [OF p(3) f(1) [OF True]] b p
      by (subst pseudo_loop.simps) (simp add: Let_def odd_half payload_bytes_def)
  next
    case False
    then show ?thesis
      using Cons.IH [OF p(3) f(2)] b p
      by (subst pseudo_loop.simps) (simp add: Let_def odd_half payload_bytes_def)
  qed
qed


text \<open>What the end of the loop hands on: swapped back, the sum of all bytes.\<close>

definition summed :: "u32 \<Rightarrow> u8 \<Rightarrow> u8 list \<Rightarrow> bool" where
  "summed acc swapped xs \<longleftrightarrow> (let acc = (if swapped \<noteq> 0 then swap_bytes32 acc else acc)
     in unat acc < 65536 \<and> rep (unat acc) (le_sum xs))"

lemma framed_summed: "framed acc swapped xs \<Longrightarrow> summed acc swapped xs"
  using rep_swap' [of acc xs] unat_swap_bytes32(1) [of acc]
  by (auto simp: framed_def summed_def Let_def split: if_splits)

lemma high_bits: "unat (acc :: u32) < 65536 \<Longrightarrow> 16 \<le> i \<Longrightarrow> \<not> bit acc i"
proof -
  assume a: "unat acc < 65536" "16 \<le> i"
  have "unat acc div 2 ^ i = 0"
    using a power_increasing [of 16 i "2 :: nat"] by (intro div_less) simp
  then have "\<not> bit (unat acc) i" by (simp add: bit_iff_odd [of "unat acc"])
  then show ?thesis by (auto simp: bit_unsigned_iff dest: bit_imp_le_length)
qed

lemma swap_swap: "unat acc < 65536 \<Longrightarrow> swap_bytes32 (swap_bytes32 acc) = acc"
proof -
  assume a: "unat acc < 65536"
  have m: "(0xff00 :: u32) = push_bit 8 (mask 8)" by (simp add: mask_eq_exp_minus_1 push_bit_eq_mult)
  note hi = high_bits [OF a]
  show ?thesis
    unfolding swap_bytes32_def byte_mask_low m drop_bit_byte_mask
    by (rule bit_word_eqI) (auto simp: bit_simps not_less hi dest: bit_imp_le_length, metis le_add_diff_inverse not_less)
qed

lemma pseudo_partial_loop_chain:
  assumes "chain (pbufs h) p qs" and "framed acc swapped xs"
  shows "\<exists>acc' s'. pseudo_partial_loop p k acc swapped h = Some (acc', s')
    \<and> summed acc' s' (xs @ take (unat k) (content h qs))"
  using assms
proof (induction qs arbitrary: p acc swapped xs k)
  case Nil
  then show ?case by (subst pseudo_partial_loop.simps) (simp add: framed_summed)
next
  case (Cons q qs)
  then obtain b where b: "pbufs h q = Some b" and p: "p = q" "q \<noteq> NULL" "chain (pbufs h) (pb_next b) qs"
    by (auto split: option.splits)
  show ?case
  proof (cases "k = 0")
    case True
    then show ?thesis using Cons.prems(2) by (subst pseudo_partial_loop.simps) (simp add: framed_summed)
  next
    case nz: False
    then have k0: "k > 0" by (simp add: word_neq_0_conv)
    define l where "l = (if pb_len b > k then k else pb_len b)"
    note f = framed_chunk [OF Cons.prems(2), where m = "pmem h" and p = "pb_payload b" and l = l]
    let ?acc = "fold_carry (acc + ucast (lwip_standard_chksum1 (pmem h) (pb_payload b) l))"
    have step: "pseudo_partial_loop p k acc swapped h = pseudo_partial_loop (pb_next b) (k - l)
        (if odd (unat (pb_len b)) then swap_bytes32 ?acc else ?acc) (if odd (unat (pb_len b)) then 1 - swapped else swapped) h"
      using b p k0 by (subst pseudo_partial_loop.simps) (simp add: Let_def odd_half l_def [symmetric])
    show ?thesis
    proof (cases "pb_len b > k")
      case True
      then have "unat k < unat (pb_len b)" by (simp add: word_less_nat_alt)
      then have out: "take (unat k) (content h (q # qs)) = bytes (pmem h) (pb_payload b) (unat l)"
        using b True by (simp add: l_def payload_bytes_def)
      have stop: "pseudo_partial_loop (pb_next b) (k - l) a s h = Some (a, s)" for a s
        using True by (subst pseudo_partial_loop.simps) (simp add: l_def)
      have s: "swapped = 0 \<or> swapped = 1" using Cons.prems(2) by (simp add: framed_def)
      have sum: "summed ?acc swapped (xs @ bytes (pmem h) (pb_payload b) (unat l))"
        using f(3) rep_swap' [of ?acc] unat_swap_bytes32(1) [of ?acc] by (auto simp: summed_def Let_def split: if_splits)
      moreover have "summed (swap_bytes32 ?acc) (1 - swapped) (xs @ bytes (pmem h) (pb_payload b) (unat l))"
        using sum f(3) s swap_swap [of ?acc] by (auto simp: summed_def Let_def)
      ultimately show ?thesis
        unfolding step stop out by simp
    next
      case False
      then have l: "l = pb_len b" and le: "unat (pb_len b) \<le> unat k" by (simp_all add: l_def word_less_nat_alt)
      have d: "unat (k - l) = unat k - unat (pb_len b)" using le l by (simp add: unat_sub word_le_nat_alt)
      then have out: "xs @ take (unat k) (content h (q # qs))
          = (xs @ bytes (pmem h) (pb_payload b) (unat l)) @ take (unat (k - l)) (content h qs)"
        using b le l by (simp add: payload_bytes_def)
      show ?thesis
      proof (cases "odd (unat (pb_len b))")
        case True
        then show ?thesis
          using Cons.IH [OF p(3) f(1), of "k - l"] l unfolding out step by simp
      next
        case even: False
        then show ?thesis
          using Cons.IH [OF p(3) f(2), of "k - l"] l unfolding out step by simp
      qed
    qed
  qed
qed


text \<open>The pseudo header of RFC 793 and RFC 768, as the bytes it has on the wire.\<close>

definition le_bytes32 :: "u32 \<Rightarrow> u8 list" where
  "le_bytes32 w = [ucast w, ucast (drop_bit 8 w), ucast (drop_bit 16 w), ucast (drop_bit 24 w)]"

definition pseudo_header :: "u32 \<Rightarrow> u32 \<Rightarrow> u8 \<Rightarrow> u16 \<Rightarrow> u8 list" where
  "pseudo_header src dest proto proto_len =
     le_bytes32 src @ le_bytes32 dest @ [0, proto, ucast (drop_bit 8 proto_len), ucast proto_len]"

lemma le_sum_bytes32: "le_sum (le_bytes32 w) = unat (w AND 0xffff) + unat (drop_bit 16 w AND 0xffff)"
proof -
  have d: "x mod 65536 = x mod 256 + 256 * (x div 256 mod 256)" for x :: nat
    using mod_mult2_eq [of x 256 256] by simp
  have e: "x div 256 div 65536 mod 256 = x div 16777216 mod 256" for x :: nat by (simp add: div_mult2_eq [symmetric])
  show ?thesis
    unfolding le_bytes32_def le_sum.simps be_sum.simps mask16 unat_take_bit unat_drop_bit unat_ucast_mod
    by (simp add: d [of "unat w"] d [of "unat w div 65536"] div_mult2_eq [symmetric])
qed

lemma not_low_half: "ucast (NOT (w AND 0xffff)) = NOT (ucast w :: u16)" for w :: u32
  unfolding mask16 by (rule bit_word_eqI) (auto simp: bit_simps)

lemma pseudo_tail_correct:
  assumes "summed acc swapped d"
  shows "pseudo_tail acc swapped src dest proto proto_len = NOT (rfc1071 (pseudo_header src dest proto proto_len @ d))"
proof -
  define a0 where "a0 = (if swapped \<noteq> 0 then swap_bytes32 acc else acc)"
  have a0: "unat a0 < 65536" "rep (unat a0) (le_sum d)" using assms by (auto simp: summed_def a0_def Let_def)
  have half: "unat (w AND 0xffff) < 65536" for w :: u32 unfolding mask16 unat_take_bit by simp
  have hh: "unat (ucast (htons n) :: u32) < 65536" for n using unat_half [of "htons n"] by (simp add: unat_ucast_half)
  define a where "a = a0 + (src AND 0xffff) + (drop_bit 16 src AND 0xffff) + (dest AND 0xffff)
    + (drop_bit 16 dest AND 0xffff) + ucast (htons (ucast proto)) + ucast (htons proto_len)"
  have a: "unat a = unat a0 + unat (src AND 0xffff) + unat (drop_bit 16 src AND 0xffff) + unat (dest AND 0xffff)
    + unat (drop_bit 16 dest AND 0xffff) + unat (ucast (htons (ucast proto)) :: u32) + unat (ucast (htons proto_len) :: u32)"
    using a0(1) half [of src] half [of "drop_bit 16 src"] half [of dest] half [of "drop_bit 16 dest"]
      hh [of "ucast proto"] hh [of proto_len]
    unfolding a_def by (simp add: unat_add_small)
  have hp: "unat (ucast (htons (ucast proto)) :: u32) = 256 * unat proto"
    using unat_byte [of proto] by (simp add: unat_ucast_half unat_htons unat_ucast_mod)
  have hl: "unat (ucast (htons proto_len) :: u32) = unat (ucast (drop_bit 8 proto_len) :: u8) + 256 * unat (ucast proto_len :: u8)"
    using unat_half [of proto_len] less_mult_imp_div_less [of "unat proto_len" 256 256]
    by (simp add: unat_ucast_half unat_htons unat_ucast_mod unat_drop_bit)
  have "unat a = unat a0 + le_sum (pseudo_header src dest proto proto_len)"
    unfolding a pseudo_header_def hp hl
    by (simp add: le_be_append le_sum_bytes32) (simp add: le_bytes32_def)
  moreover have "rep (unat a0 + le_sum (pseudo_header src dest proto proto_len)) (le_sum d + le_sum (pseudo_header src dest proto proto_len))"
    by (intro rep_add rep_refl a0(2))
  moreover have "le_sum (pseudo_header src dest proto proto_len @ d) = le_sum (pseudo_header src dest proto proto_len) + le_sum d"
    by (simp add: le_be_append(1)) (simp add: pseudo_header_def le_bytes32_def)
  ultimately have "rep (unat a) (le_sum (pseudo_header src dest proto proto_len @ d))" by (simp add: add.commute)
  then have f: "ucast (fold_carry a) = rfc1071 (pseudo_header src dest proto proto_len @ d)" by (rule fold_even)
  show ?thesis
    unfolding pseudo_tail_def Let_def a0_def [symmetric] f [symmetric] a_def not_low_half ..
qed

text \<open>
  Claim C11: the transport checksum of a packet is the one's complement of the RFC 1071 sum of the
  pseudo header followed by the payload (of its first \<^verbatim>\<open>chksum_len\<close> bytes for the partial variant), no
  matter how the payload is split into buffers, and computing it always terminates.
\<close>

theorem inet_chksum_pseudo_segmentation:
  assumes "packet h p qs d"
  shows "inet_chksum_pseudo p src dest proto len h = Some (NOT (rfc1071 (pseudo_header src dest proto len @ d)))
    \<and> inet_chksum_pseudo_partial p src dest proto len n h
        = Some (NOT (rfc1071 (pseudo_header src dest proto len @ take (unat n) d)))"
proof -
  have c: "chain (pbufs h) p qs" "content h qs = d" using assms by (auto simp: packet_def)
  have z: "framed 0 0 []" by (simp add: framed_def)
  obtain acc s where "pseudo_loop p 0 0 h = Some (acc, s)" "framed acc s d"
    using pseudo_loop_chain [OF c(1) z] c(2) by auto
  moreover obtain acc' s' where "pseudo_partial_loop p n 0 0 h = Some (acc', s')" "summed acc' s' (take (unat n) d)"
    using pseudo_partial_loop_chain [OF c(1) z, of n] c(2) by auto
  ultimately show ?thesis
    by (simp add: inet_chksum_pseudo_def inet_chksum_pseudo_partial_def pseudo_tail_correct framed_summed)
qed

theorem inet_chksum_pseudo_segmentation_witness:
  "inet_chksum_pseudo 200 0x0100007f 0x0100007f 6 3 sample_heap
    = Some (NOT (rfc1071 (pseudo_header 0x0100007f 0x0100007f 6 3 @ [240, 241, 242])))"
  using inet_chksum_pseudo_segmentation [OF sample_packets(2)] by blast


lemma misplaced_shift:
  assumes "unat acc < 65536"
  shows "(acc AND push_bit 8 0x00ff) OR (acc AND drop_bit 8 0xff00) = (acc :: u32)"
proof -
  have m: "push_bit 8 (0xff :: u32) = push_bit 8 (mask 8)" "drop_bit 8 (0xff00 :: u32) = mask 8"
    by (simp_all add: mask_eq_exp_minus_1)
  have lo: "bit acc n \<Longrightarrow> n < 16" for n using high_bits [OF assms, of n] not_less by blast
  show ?thesis
    unfolding m by (rule bit_word_eqI) (auto simp: bit_simps not_less dest: lo)
qed

lemma pbuf_sum_even:
  assumes "chain (pbufs h) p qs" and "\<And>q. q \<in> set qs \<Longrightarrow> even (unat (pb_len (cell (pbufs h) q)))"
    and "framed acc 0 xs"
  shows "\<exists>acc'. pbuf_sum_loop p acc 0 h = Some (acc', 0) \<and> framed acc' 0 (xs @ content h qs)"
  using assms
proof (induction qs arbitrary: p acc xs)
  case Nil
  then show ?case by (subst pbuf_sum_loop.simps) simp
next
  case (Cons q qs)
  then obtain b where b: "pbufs h q = Some b" and p: "p = q" "q \<noteq> NULL" "chain (pbufs h) (pb_next b) qs"
    by (auto split: option.splits)
  have e: "even (unat (pb_len b))" using Cons.prems(2) [of q] b by simp
  note f = framed_chunk(2) [OF Cons.prems(3) e, where m = "pmem h" and p = "pb_payload b"]
  show ?case
    using Cons.IH [OF p(3) _ f] Cons.prems(2) b p e
    by (subst pbuf_sum_loop.simps) (simp add: Let_def odd_half payload_bytes_def)
qed

lemma ucast_swap_bytes32: "ucast (swap_bytes32 acc) = htons (ucast acc)"
proof -
  have m: "(0xff00 :: u32) = push_bit 8 (mask 8)" by (simp add: mask_eq_exp_minus_1 push_bit_eq_mult)
  show ?thesis
    unfolding swap_bytes32_def htons_bytes byte_mask_low m drop_bit_byte_mask
    by (rule bit_word_eqI) (auto simp: bit_simps)
qed

text \<open>
  \<^verbatim>\<open>inet_chksum_pbuf\<close> is right for packets whose buffers all have even lengths, but for a
  packet of one buffer with an odd number of bytes it returns the checksum with its two bytes
  exchanged: the shifts inside the loop bind to the masks, so the accumulator is never swapped there.
\<close>

theorem inet_chksum_pbuf_swaps_odd:
  assumes "packet h p qs d"
  shows "((\<forall>q \<in> set qs. even (unat (pb_len (cell (pbufs h) q)))) \<longrightarrow> inet_chksum_pbuf p h = Some (NOT (rfc1071 d)))
    \<and> (length qs = 1 \<and> odd (length d) \<longrightarrow> inet_chksum_pbuf p h = Some (NOT (htons (rfc1071 d))))"
proof -
  have c: "chain (pbufs h) p qs" "content h qs = d" using assms by (auto simp: packet_def)
  have z: "framed 0 0 []" by (simp add: framed_def)
  have "inet_chksum_pbuf p h = Some (NOT (rfc1071 d))"
    if ev: "\<And>q. q \<in> set qs \<Longrightarrow> even (unat (pb_len (cell (pbufs h) q)))"
  proof -
    obtain acc where l: "pbuf_sum_loop p 0 0 h = Some (acc, 0)" and f: "framed acc 0 d"
      using pbuf_sum_even [OF c(1) ev z] c(2) by auto
    have "ucast acc = rfc1071 d" using f by (intro rfc1071I) (auto simp: framed_def split: if_splits)
    then show ?thesis using l unfolding inet_chksum_pbuf_def Let_def not_low_half by simp
  qed
  moreover have "inet_chksum_pbuf p h = Some (NOT (htons (rfc1071 d)))" if one: "length qs = 1" and o: "odd (length d)"
  proof -
    obtain b where qs: "qs = [p]" and b: "pbufs h p = Some b" "p \<noteq> NULL" "pb_next b = NULL" "d = payload_bytes (pmem h) b"
      using c one by (cases qs) (auto split: option.splits)
    let ?acc = "fold_carry (0 + ucast (lwip_standard_chksum1 (pmem h) (pb_payload b) (pb_len b)))"
    have a: "unat ?acc < 65536" "rep (unat ?acc) (le_sum d)"
      using framed_chunk(3) [OF z, where m = "pmem h" and p = "pb_payload b" and l = "pb_len b"] b(4)
      by (simp_all add: payload_bytes_def)
    have "pbuf_sum_loop p 0 0 h = Some (?acc, 1)"
      using b o misplaced_shift [OF a(1)]
      by (subst pbuf_sum_loop.simps, subst pbuf_sum_loop.simps) (simp add: Let_def odd_half)
    moreover have "ucast ?acc = rfc1071 d" using a by (intro rfc1071I)
    ultimately show ?thesis
      unfolding inet_chksum_pbuf_def Let_def not_low_half by (simp add: ucast_swap_bytes32)
  qed
  ultimately show ?thesis by blast
qed

theorem inet_chksum_pbuf_swaps_odd_witness:
  "inet_chksum_pbuf 200 sample_heap = Some (NOT (htons (rfc1071 [240, 241, 242])))
    \<and> inet_chksum_pbuf 200 sample_heap \<noteq> Some (NOT (rfc1071 [240, 241, 242]))"
proof -
  have "rfc1071 [240, 241, 242] = 62178" by (simp add: rfc1071_def)
  moreover have "NOT (htons 62178) \<noteq> NOT (62178 :: u16)" by code_simp
  ultimately have "NOT (htons (rfc1071 [240, 241, 242])) \<noteq> NOT (rfc1071 [240, 241, 242])" by (simp only: not_False_eq_True)
  then show ?thesis using inet_chksum_pbuf_swaps_odd [OF sample_packets(2)] by simp
qed

end
