(* ===== verification/Tcp.thy ===== *)
theory Tcp
  imports Pbuf_Chksum
begin

section \<open>TCP: data\<close>

text \<open>
  \<^verbatim>\<open>include/lwip/tcp.h\<close>: sequence number comparison, headers, segments, protocol control blocks and
  the global state of TCP.  A packet is seen here as the list of the payloads of its buffers, the
  view in which the theorems on \<^verbatim>\<open>pbuf.c\<close> state what its operations do; a segment queue, linked through
  \<^verbatim>\<open>next\<close> in C, is a list; the header that \<^verbatim>\<open>seg->tcphdr\<close> points to is a record kept in the
  segment, its fields in host byte order; a callback is a number (0 is \<^verbatim>\<open>NULL\<close>) that a record of
  functions, a parameter of the model, gives a meaning.
\<close>

subsection \<open>Constants and macros\<close>

type_synonym s16 = "16 word"
type_synonym bufs = "u8 list list"

abbreviation has :: "'a::len word \<Rightarrow> 'a word \<Rightarrow> bool" where "has w f \<equiv> w AND f \<noteq> 0"

definition TCP_FIN :: u8 where "TCP_FIN = 0x01"
definition TCP_SYN :: u8 where "TCP_SYN = 0x02"
definition TCP_RST :: u8 where "TCP_RST = 0x04"
definition TCP_PSH :: u8 where "TCP_PSH = 0x08"
definition TCP_ACK :: u8 where "TCP_ACK = 0x10"
definition TCP_FLAGS :: u8 where "TCP_FLAGS = 0x3f"

definition TF_ACK_DELAY :: u8 where "TF_ACK_DELAY = 0x01"
definition TF_ACK_NOW :: u8 where "TF_ACK_NOW = 0x02"
definition TF_INFR :: u8 where "TF_INFR = 0x04"
definition TF_FIN :: u8 where "TF_FIN = 0x20"
definition TF_NODELAY :: u8 where "TF_NODELAY = 0x40"
definition TF_NAGLEMEMERR :: u8 where "TF_NAGLEMEMERR = 0x80"

definition TF_RESET :: u8 where "TF_RESET = 0x08"
definition TF_CLOSED :: u8 where "TF_CLOSED = 0x10"
definition TF_GOT_FIN :: u8 where "TF_GOT_FIN = 0x20"

definition TCP_WRITE_FLAG_COPY :: u8 where "TCP_WRITE_FLAG_COPY = 0x01"
definition TCP_WRITE_FLAG_MORE :: u8 where "TCP_WRITE_FLAG_MORE = 0x02"

definition SOF_ACCEPTCONN :: u16 where "SOF_ACCEPTCONN = 0x0002"
definition SOF_KEEPALIVE :: u16 where "SOF_KEEPALIVE = 0x0008"

definition TCP_MSS :: u16 where "TCP_MSS = 1460"
definition TCP_WND :: u16 where "TCP_WND = 64512"
definition TCP_SND_BUF :: u16 where "TCP_SND_BUF = 64512"
definition TCP_SND_QUEUELEN :: u16 where "TCP_SND_QUEUELEN = 4 * (TCP_SND_BUF div TCP_MSS)"
definition TCP_SNDQUEUELEN_OVERFLOW :: u16 where "TCP_SNDQUEUELEN_OVERFLOW = 0xffff - 3"
definition TCP_TTL :: u8 where "TCP_TTL = 255"
definition TCP_HLEN :: u16 where "TCP_HLEN = 20"
definition IP_HLEN :: u16 where "IP_HLEN = 20"
definition IP_PROTO_TCP :: u8 where "IP_PROTO_TCP = 6"
definition TCP_PRIO_NORMAL :: u8 where "TCP_PRIO_NORMAL = 64"
definition TCP_PRIO_MAX :: u8 where "TCP_PRIO_MAX = 127"
definition TCP_MAXRTX :: u8 where "TCP_MAXRTX = 12"
definition TCP_SYNMAXRTX :: u8 where "TCP_SYNMAXRTX = 6"
definition TCP_SLOW_INTERVAL :: u32 where "TCP_SLOW_INTERVAL = 500"
definition TCP_FIN_WAIT_TIMEOUT :: u32 where "TCP_FIN_WAIT_TIMEOUT = 20000"
definition TCP_SYN_RCVD_TIMEOUT :: u32 where "TCP_SYN_RCVD_TIMEOUT = 20000"
definition TCP_OOSEQ_TIMEOUT :: u32 where "TCP_OOSEQ_TIMEOUT = 6"
definition TCP_MSL :: u32 where "TCP_MSL = 60000"
definition TCP_KEEPIDLE_DEFAULT :: u32 where "TCP_KEEPIDLE_DEFAULT = 7200000"
definition TCP_KEEPINTVL_DEFAULT :: u32 where "TCP_KEEPINTVL_DEFAULT = 75000"
definition TCP_MAXIDLE :: u32 where "TCP_MAXIDLE = 9 * TCP_KEEPINTVL_DEFAULT"
definition TCP_LOCAL_PORT_RANGE_START :: u16 where "TCP_LOCAL_PORT_RANGE_START = 4096"
definition TCP_LOCAL_PORT_RANGE_END :: u16 where "TCP_LOCAL_PORT_RANGE_END = 0x7fff"

definition TCP_SEQ_LT :: "u32 \<Rightarrow> u32 \<Rightarrow> bool" where "TCP_SEQ_LT a b \<longleftrightarrow> sint (a - b) < 0"
definition TCP_SEQ_LEQ :: "u32 \<Rightarrow> u32 \<Rightarrow> bool" where "TCP_SEQ_LEQ a b \<longleftrightarrow> sint (a - b) \<le> 0"
definition TCP_SEQ_GT :: "u32 \<Rightarrow> u32 \<Rightarrow> bool" where "TCP_SEQ_GT a b \<longleftrightarrow> sint (a - b) > 0"
definition TCP_SEQ_GEQ :: "u32 \<Rightarrow> u32 \<Rightarrow> bool" where "TCP_SEQ_GEQ a b \<longleftrightarrow> sint (a - b) \<ge> 0"
definition TCP_SEQ_BETWEEN :: "u32 \<Rightarrow> u32 \<Rightarrow> u32 \<Rightarrow> bool" where
  "TCP_SEQ_BETWEEN a b c \<longleftrightarrow> TCP_SEQ_GEQ a b \<and> TCP_SEQ_LEQ a c"

subsection \<open>Packets as lists of buffers\<close>

definition tot_len :: "bufs \<Rightarrow> u16" where
  "tot_len p = word_of_nat (length (concat p))"

definition clen :: "bufs option \<Rightarrow> u8" where
  "clen p = (case p of None \<Rightarrow> 0 | Some p \<Rightarrow> word_of_nat (length p))"

fun keep_bufs :: "nat \<Rightarrow> bufs \<Rightarrow> bufs" where
  "keep_bufs n [] = []"
| "keep_bufs n (b # bs) = (if n > length b then b # keep_bufs (n - length b) bs else [take n b])"

text \<open>\<^verbatim>\<open>pbuf_realloc\<close> on the buffers of a packet.\<close>

definition shrink :: "bufs \<Rightarrow> u16 \<Rightarrow> bufs" where
  "shrink p new_len = (if new_len \<ge> tot_len p then p else keep_bufs (unat new_len) p)"

subsection \<open>Headers, segments and control blocks\<close>

record tcp_hdr =
  hdr_src :: u16
  hdr_dest :: u16
  hdr_seqno :: u32
  hdr_ackno :: u32
  hdr_hdrlen :: u8
  hdr_flags :: u8
  hdr_wnd :: u16
  hdr_chksum :: u16
  hdr_urgp :: u16

record tcp_seg =
  seg_p :: "bufs option"
  seg_len :: u16
  seg_hdr :: tcp_hdr

abbreviation seg_seqno :: "tcp_seg \<Rightarrow> u32" where "seg_seqno g \<equiv> hdr_seqno (seg_hdr g)"
abbreviation seg_flags :: "tcp_seg \<Rightarrow> u8" where "seg_flags g \<equiv> hdr_flags (seg_hdr g)"

definition TCPH_SET_FLAG :: "u8 \<Rightarrow> tcp_seg \<Rightarrow> tcp_seg" where
  "TCPH_SET_FLAG f g = g\<lparr>seg_hdr := (seg_hdr g)\<lparr>hdr_flags := hdr_flags (seg_hdr g) OR f\<rparr>\<rparr>"

definition TCP_TCPLEN :: "tcp_seg \<Rightarrow> u32" where
  "TCP_TCPLEN g = ucast (seg_len g)
     + (if has (seg_flags g) TCP_FIN \<or> has (seg_flags g) TCP_SYN then 1 else 0)"

datatype tcp_state = CLOSED | LISTEN | SYN_SENT | SYN_RCVD | ESTABLISHED | FIN_WAIT_1 | FIN_WAIT_2
  | CLOSE_WAIT | CLOSING | LAST_ACK | TIME_WAIT

record tcp_pcb =
  pcb_addr :: addr
  local_ip :: u32
  remote_ip :: u32
  so_options :: u16
  tos :: u8
  ttl :: u8
  state :: tcp_state
  prio :: u8
  callback_arg :: addr
  local_port :: u16
  remote_port :: u16
  flags :: u8
  rcv_nxt :: u32
  rcv_wnd :: u16
  rcv_ann_wnd :: u16
  tmr :: u32
  polltmr :: u8
  pollinterval :: u8
  rtime :: s16
  mss :: u16
  rttest :: u32
  rtseq :: u32
  sa :: s16
  sv :: s16
  rto :: s16
  nrtx :: u8
  lastack :: u32
  dupacks :: u8
  cwnd :: u16
  ssthresh :: u16
  snd_nxt :: u32
  snd_max :: u32
  snd_wnd :: u16
  snd_wl1 :: u32
  snd_wl2 :: u32
  snd_lbb :: u32
  acked :: u16
  snd_buf :: u16
  snd_queuelen :: u16
  unsent :: "tcp_seg list"
  unacked :: "tcp_seg list"
  ooseq :: "tcp_seg list"
  refused_data :: "bufs option"
  cb_sent :: nat
  cb_recv :: nat
  cb_connected :: nat
  cb_accept :: nat
  cb_poll :: nat
  cb_errf :: nat
  keep_idle :: u32
  persist_cnt :: u32
  persist_backoff :: u8
  keep_cnt_sent :: u8

subsection \<open>The state of TCP\<close>

record netif =
  netif_ip_addr :: u32
  netif_netmask :: u32
  netif_flags :: u8
  netif_mtu :: u16
  netif_gw :: u32
  netif_name :: "u8 \<times> u8"
  netif_num :: u8

record datagram =
  d_src :: u32
  d_dest :: u32
  d_ttl :: u8
  d_tos :: u8
  d_hdr :: tcp_hdr
  d_data :: "u8 list"

record tcp =
  tcp_ticks :: u32
  tcp_timer :: u8
  tcp_port :: u16
  tcp_iss :: u32
  tcp_input_pcb :: addr
  tcp_bound_pcbs :: "addr list"
  tcp_listen_pcbs :: "addr list"
  tcp_active_pcbs :: "addr list"
  tcp_tw_pcbs :: "addr list"
  pcbs :: "addr \<rightharpoonup> tcp_pcb"
  netif_list :: "netif list"
  netif_default :: "netif option"
  mem :: "bool list"
  pcb_allocs :: "addr list"
  ip_out :: "datagram list"

record app =
  app_sent :: "nat \<Rightarrow> addr \<Rightarrow> u16 \<Rightarrow> tcp \<Rightarrow> err \<times> tcp"
  app_recv :: "nat \<Rightarrow> addr \<Rightarrow> bufs option \<Rightarrow> err \<Rightarrow> tcp \<Rightarrow> err \<times> tcp"
  app_connected :: "nat \<Rightarrow> addr \<Rightarrow> err \<Rightarrow> tcp \<Rightarrow> err \<times> tcp"
  app_accept :: "nat \<Rightarrow> addr \<Rightarrow> err \<Rightarrow> tcp \<Rightarrow> err \<times> tcp"
  app_poll :: "nat \<Rightarrow> addr \<Rightarrow> tcp \<Rightarrow> err \<times> tcp"
  app_err :: "nat \<Rightarrow> addr \<Rightarrow> err \<Rightarrow> tcp \<Rightarrow> tcp"

text \<open>
  An allocation succeeds or fails as the next element of \<^const>\<open>mem\<close> says; with none left it fails.
\<close>

definition memory_left :: "tcp \<Rightarrow> bool \<times> tcp" where
  "memory_left s = (case mem s of [] \<Rightarrow> (False, s) | b # bs \<Rightarrow> (b, s\<lparr>mem := bs\<rparr>))"

definition put :: "tcp_pcb \<Rightarrow> tcp \<Rightarrow> tcp" where
  "put pcb s = s\<lparr>pcbs := (pcbs s)(pcb_addr pcb \<mapsto> pcb)\<rparr>"

definition tcp_seg_copy :: "tcp_seg \<Rightarrow> tcp \<Rightarrow> tcp_seg option \<times> tcp" where
  "tcp_seg_copy seg s = (let (ok, s) = memory_left s in (if ok then Some seg else None, s))"

text \<open>A callback runs with the control block in the store and may change or free it.\<close>

definition call :: "(addr \<Rightarrow> tcp \<Rightarrow> err \<times> tcp) \<Rightarrow> tcp_pcb \<Rightarrow> tcp \<Rightarrow> (err \<times> tcp_pcb \<times> tcp) option" where
  "call cb pcb s = (let (e, s) = cb (pcb_addr pcb) (put pcb s)
     in do { pcb \<leftarrow> pcbs s (pcb_addr pcb); Some (e, pcb, s) })"

subsection \<open>IP as TCP sees it\<close>

definition NETIF_FLAG_UP :: u8 where "NETIF_FLAG_UP = 0x01"
definition NETIF_FLAG_BROADCAST :: u8 where "NETIF_FLAG_BROADCAST = 0x02"

definition netif_is_up :: "netif \<Rightarrow> bool" where
  "netif_is_up n \<longleftrightarrow> has (netif_flags n) NETIF_FLAG_UP"

definition ip_addr_netcmp :: "u32 \<Rightarrow> u32 \<Rightarrow> u32 \<Rightarrow> bool" where
  "ip_addr_netcmp a b m \<longleftrightarrow> a AND m = b AND m"

definition ip_route :: "u32 \<Rightarrow> tcp \<Rightarrow> netif option" where
  "ip_route dest s =
     (case List.find (\<lambda>n. netif_is_up n \<and> ip_addr_netcmp dest (netif_ip_addr n) (netif_netmask n)) (netif_list s) of
        Some n \<Rightarrow> Some n
      | None \<Rightarrow> (case netif_default s of
          None \<Rightarrow> None
        | Some n \<Rightarrow> if netif_is_up n then Some n else None))"

definition ip_addr_isbroadcast :: "u32 \<Rightarrow> netif \<Rightarrow> bool" where
  "ip_addr_isbroadcast a n =
     (if NOT a = 0 \<or> a = 0 then True
      else if netif_flags n AND NETIF_FLAG_BROADCAST = 0 then False
      else if a = netif_ip_addr n then False
      else ip_addr_netcmp a (netif_ip_addr n) (netif_netmask n)
        \<and> a AND NOT (netif_netmask n) = 0xffffffff AND NOT (netif_netmask n))"

definition ip_addr_ismulticast :: "u32 \<Rightarrow> bool" where
  "ip_addr_ismulticast a \<longleftrightarrow> a AND ntohl 0xf0000000 = ntohl 0xe0000000"

text \<open>
  The IP layer is the boundary of the model: a datagram that has a route is recorded, its source
  address filled in from the interface when it has none.
\<close>

definition ip_output :: "datagram \<Rightarrow> tcp \<Rightarrow> err \<times> tcp" where
  "ip_output d s = (case ip_route (d_dest d) s of
     None \<Rightarrow> (ERR_RTE, s)
   | Some n \<Rightarrow> (ERR_OK, s\<lparr>ip_out := ip_out s @ [if d_src d = 0 then d\<lparr>d_src := netif_ip_addr n\<rparr> else d]\<rparr>))"

text \<open>
  The bytes of a header on the wire, and the checksum \<^verbatim>\<open>inet_chksum_pseudo\<close> computes for a header
  followed by data.
\<close>

definition be_bytes16 :: "u16 \<Rightarrow> u8 list" where "be_bytes16 w = [ucast (drop_bit 8 w), ucast w]"
definition be_bytes32 :: "u32 \<Rightarrow> u8 list" where
  "be_bytes32 w = [ucast (drop_bit 24 w), ucast (drop_bit 16 w), ucast (drop_bit 8 w), ucast w]"

definition hdr_bytes :: "tcp_hdr \<Rightarrow> u8 list" where
  "hdr_bytes h = be_bytes16 (hdr_src h) @ be_bytes16 (hdr_dest h) @ be_bytes32 (hdr_seqno h)
     @ be_bytes32 (hdr_ackno h) @ [push_bit 4 (hdr_hdrlen h), hdr_flags h] @ be_bytes16 (hdr_wnd h)
     @ [ucast (hdr_chksum h), ucast (drop_bit 8 (hdr_chksum h))] @ be_bytes16 (hdr_urgp h)"

definition tcp_chksum :: "u32 \<Rightarrow> u32 \<Rightarrow> tcp_hdr \<Rightarrow> u8 list \<Rightarrow> u16" where
  "tcp_chksum src dest h data = (let seg = hdr_bytes h @ data
     in NOT (rfc1071 (pseudo_header src dest IP_PROTO_TCP (word_of_nat (length seg)) @ seg)))"

definition with_chksum :: "u32 \<Rightarrow> u32 \<Rightarrow> u8 list \<Rightarrow> tcp_hdr \<Rightarrow> tcp_hdr" where
  "with_chksum src dest data h =
     (let h = h\<lparr>hdr_chksum := 0\<rparr> in h\<lparr>hdr_chksum := tcp_chksum src dest h data\<rparr>)"

end
