(* ===== verification/Tcp_Out.thy ===== *)
theory Tcp_Out
  imports Tcp
begin

section \<open>TCP: output\<close>

text \<open>
  \<^verbatim>\<open>src/core/tcp_out.c\<close>: splitting data into segments (\<^verbatim>\<open>tcp_enqueue\<close>), sending what the window and
  the Nagle algorithm allow (\<^verbatim>\<open>tcp_output\<close>), retransmission, resets, keepalive and zero window probes.
  A function takes the control block and the state of TCP and returns both; what it hands to IP is
  appended to \<^const>\<open>ip_out\<close>.
\<close>

subsection \<open>Sending\<close>

definition tcp_do_output_nagle :: "tcp_pcb \<Rightarrow> bool" where
  "tcp_do_output_nagle pcb \<longleftrightarrow> unacked pcb = [] \<or> has (flags pcb) TF_NODELAY
     \<or> (unsent pcb \<noteq> [] \<and> tl (unsent pcb) \<noteq> [])"

definition seg_data :: "tcp_seg \<Rightarrow> u8 list" where
  "seg_data seg = (case seg_p seg of None \<Rightarrow> [] | Some p \<Rightarrow> concat p)"

definition send_segment :: "tcp_seg \<Rightarrow> tcp_pcb \<Rightarrow> tcp \<Rightarrow> tcp_seg \<times> tcp_pcb \<times> tcp" where
  "send_segment seg pcb s =
     (let pcb = (if rtime pcb = - 1 then pcb\<lparr>rtime := 0\<rparr> else pcb);
          pcb = (if rttest pcb = 0 then pcb\<lparr>rttest := tcp_ticks s, rtseq := seg_seqno seg\<rparr> else pcb);
          seg = seg\<lparr>seg_hdr := with_chksum (local_ip pcb) (remote_ip pcb) (seg_data seg) (seg_hdr seg)\<rparr>;
          (_, s) = ip_output \<lparr>d_src = local_ip pcb, d_dest = remote_ip pcb, d_ttl = ttl pcb, d_tos = tos pcb,
            d_hdr = seg_hdr seg, d_data = seg_data seg\<rparr> s
      in (seg, pcb, s))"

definition tcp_output_segment :: "tcp_seg \<Rightarrow> tcp_pcb \<Rightarrow> tcp \<Rightarrow> tcp_seg \<times> tcp_pcb \<times> tcp" where
  "tcp_output_segment seg pcb s =
     (let seg = seg\<lparr>seg_hdr := (seg_hdr seg)\<lparr>hdr_ackno := rcv_nxt pcb, hdr_wnd := rcv_ann_wnd pcb\<rparr>\<rparr>
      in if local_ip pcb = 0
         then (case ip_route (remote_ip pcb) s of
             None \<Rightarrow> (seg, pcb, s)
           | Some n \<Rightarrow> send_segment seg (pcb\<lparr>local_ip := netif_ip_addr n\<rparr>) s)
         else send_segment seg pcb s)"

text \<open>The header of the segments TCP builds outside the queues: no options, urgent pointer 0.\<close>

definition ctrl_hdr :: "u16 \<Rightarrow> u16 \<Rightarrow> u32 \<Rightarrow> u32 \<Rightarrow> u8 \<Rightarrow> u16 \<Rightarrow> tcp_hdr" where
  "ctrl_hdr src dest seqno ackno fl wnd = \<lparr>hdr_src = src, hdr_dest = dest, hdr_seqno = seqno,
     hdr_ackno = ackno, hdr_hdrlen = 5, hdr_flags = fl, hdr_wnd = wnd, hdr_chksum = 0, hdr_urgp = 0\<rparr>"

definition send_ctrl_hdr :: "tcp_hdr \<Rightarrow> u8 list \<Rightarrow> u32 \<Rightarrow> u32 \<Rightarrow> u8 \<Rightarrow> u8 \<Rightarrow> tcp \<Rightarrow> tcp" where
  "send_ctrl_hdr h data src dest t ts s = snd (ip_output \<lparr>d_src = src, d_dest = dest, d_ttl = t, d_tos = ts,
     d_hdr = with_chksum src dest data h, d_data = data\<rparr> s)"

text \<open>The bytes past \<^verbatim>\<open>lastack\<close> a segment would have in flight.\<close>

definition in_flight :: "tcp_pcb \<Rightarrow> tcp_seg \<Rightarrow> u32" where
  "in_flight pcb seg = seg_seqno seg - lastack pcb + ucast (seg_len seg)"

definition queue_unacked :: "tcp_seg \<Rightarrow> tcp_seg list \<Rightarrow> tcp_seg list" where
  "queue_unacked seg segs =
     (if segs = [] then [seg]
      else if TCP_SEQ_LT (seg_seqno seg) (seg_seqno (last segs)) then seg # segs
      else segs @ [seg])"

definition output_one :: "tcp_seg \<Rightarrow> tcp_seg list \<Rightarrow> tcp_pcb \<Rightarrow> tcp \<Rightarrow> tcp_pcb \<times> tcp" where
  "output_one seg rest pcb s =
     (let pcb = pcb\<lparr>unsent := rest\<rparr>;
          (seg, pcb) = (if state pcb \<noteq> SYN_SENT
            then (TCPH_SET_FLAG TCP_ACK seg, pcb\<lparr>flags := flags pcb AND NOT (TF_ACK_DELAY OR TF_ACK_NOW)\<rparr>)
            else (seg, pcb));
          (seg, pcb, s) = tcp_output_segment seg pcb s;
          pcb = pcb\<lparr>snd_nxt := seg_seqno seg + TCP_TCPLEN seg\<rparr>;
          pcb = (if TCP_SEQ_LT (snd_max pcb) (snd_nxt pcb) then pcb\<lparr>snd_max := snd_nxt pcb\<rparr> else pcb)
      in (if TCP_TCPLEN seg > 0 then pcb\<lparr>unacked := queue_unacked seg (unacked pcb)\<rparr> else pcb, s))"

fun output_loop :: "u32 \<Rightarrow> tcp_seg list \<Rightarrow> tcp_pcb \<Rightarrow> tcp \<Rightarrow> tcp_pcb \<times> tcp" where
  "output_loop wnd [] pcb s = (pcb, s)"
| "output_loop wnd (seg # rest) pcb s =
     (if in_flight pcb seg \<le> wnd
      then if \<not> tcp_do_output_nagle pcb \<and> \<not> has (flags pcb) (TF_NAGLEMEMERR OR TF_FIN)
           then (pcb, s)
           else let (pcb, s) = output_one seg rest pcb s in output_loop wnd rest pcb s
      else (pcb, s))"

definition tcp_output :: "tcp_pcb \<Rightarrow> tcp \<Rightarrow> err \<times> tcp_pcb \<times> tcp" where
  "tcp_output pcb s =
     (if tcp_input_pcb s = pcb_addr pcb then (ERR_OK, pcb, s)
      else let wnd = ucast (min (snd_wnd pcb) (cwnd pcb)) in
        if has (flags pcb) TF_ACK_NOW \<and> (unsent pcb = [] \<or> in_flight pcb (hd (unsent pcb)) > wnd)
        then let (ok, s) = memory_left s in
          if \<not> ok then (ERR_BUF, pcb, s)
          else let pcb = pcb\<lparr>flags := flags pcb AND NOT (TF_ACK_DELAY OR TF_ACK_NOW)\<rparr>
            in (ERR_OK, pcb, send_ctrl_hdr (ctrl_hdr (local_port pcb) (remote_port pcb) (snd_nxt pcb)
                 (rcv_nxt pcb) TCP_ACK (rcv_ann_wnd pcb)) [] (local_ip pcb) (remote_ip pcb) (ttl pcb) (tos pcb) s)
        else let (pcb, s) = output_loop wnd (unsent pcb) pcb s;
            pcb = (if unsent pcb \<noteq> [] \<and> persist_backoff pcb = 0
                \<and> in_flight pcb (hd (unsent pcb)) > ucast (snd_wnd pcb)
              then pcb\<lparr>persist_cnt := 0, persist_backoff := 1\<rparr> else pcb)
          in (ERR_OK, pcb\<lparr>flags := flags pcb AND NOT TF_NAGLEMEMERR\<rparr>, s))"

definition tcp_ack_now :: "tcp_pcb \<Rightarrow> tcp \<Rightarrow> tcp_pcb \<times> tcp" where
  "tcp_ack_now pcb s = snd (tcp_output (pcb\<lparr>flags := flags pcb OR TF_ACK_NOW\<rparr>) s)"

definition tcp_ack :: "tcp_pcb \<Rightarrow> tcp \<Rightarrow> tcp_pcb \<times> tcp" where
  "tcp_ack pcb s =
     (if has (flags pcb) TF_ACK_DELAY
      then tcp_ack_now (pcb\<lparr>flags := flags pcb AND NOT TF_ACK_DELAY\<rparr>) s
      else (pcb\<lparr>flags := flags pcb OR TF_ACK_DELAY\<rparr>, s))"

definition tcp_rst :: "u32 \<Rightarrow> u32 \<Rightarrow> u32 \<Rightarrow> u32 \<Rightarrow> u16 \<Rightarrow> u16 \<Rightarrow> tcp \<Rightarrow> tcp" where
  "tcp_rst seqno ackno lip rip lport rport s =
     (let (ok, s) = memory_left s in
      if \<not> ok then s
      else send_ctrl_hdr (ctrl_hdr lport rport seqno ackno (TCP_RST OR TCP_ACK) TCP_WND) []
        lip rip TCP_TTL 0 s)"

subsection \<open>Retransmission and probes\<close>

definition tcp_rexmit_rto :: "tcp_pcb \<Rightarrow> tcp \<Rightarrow> tcp_pcb \<times> tcp" where
  "tcp_rexmit_rto pcb s =
     (if unacked pcb = [] then (pcb, s)
      else let pcb = pcb\<lparr>unsent := unacked pcb @ unsent pcb, unacked := []\<rparr>;
               pcb = pcb\<lparr>snd_nxt := seg_seqno (hd (unsent pcb)), nrtx := nrtx pcb + 1, rttest := 0\<rparr>
           in snd (tcp_output pcb s))"

definition tcp_rexmit :: "tcp_pcb \<Rightarrow> tcp \<Rightarrow> tcp_pcb \<times> tcp" where
  "tcp_rexmit pcb s =
     (case unacked pcb of
        [] \<Rightarrow> (pcb, s)
      | seg # rest \<Rightarrow>
          let pcb = pcb\<lparr>unsent := seg # unsent pcb, unacked := rest\<rparr>;
              pcb = pcb\<lparr>snd_nxt := seg_seqno (hd (unsent pcb)), nrtx := nrtx pcb + 1, rttest := 0\<rparr>
          in snd (tcp_output pcb s))"

definition tcp_keepalive :: "tcp_pcb \<Rightarrow> tcp \<Rightarrow> tcp" where
  "tcp_keepalive pcb s =
     (let (ok, s) = memory_left s in
      if \<not> ok then s
      else send_ctrl_hdr (ctrl_hdr (local_port pcb) (remote_port pcb) (snd_nxt pcb - 1) (rcv_nxt pcb) 0
        (rcv_ann_wnd pcb)) [] (local_ip pcb) (remote_ip pcb) (ttl pcb) 0 s)"

text \<open>\<^const>\<open>None\<close>: the byte at \<^verbatim>\<open>seg->dataptr\<close> is read from a segment that has none.\<close>

definition tcp_zero_window_probe :: "tcp_pcb \<Rightarrow> tcp \<Rightarrow> tcp option" where
  "tcp_zero_window_probe pcb s =
     (case unacked pcb @ unsent pcb of
        [] \<Rightarrow> Some s
      | seg # _ \<Rightarrow>
          let (ok, s) = memory_left s in
          if \<not> ok then Some s
          else (case seg_data seg of
              [] \<Rightarrow> None
            | b # _ \<Rightarrow> Some (send_ctrl_hdr (ctrl_hdr (local_port pcb) (remote_port pcb) (seg_seqno seg)
                (rcv_nxt pcb) 0 (rcv_ann_wnd pcb)) [b] (local_ip pcb) (remote_ip pcb) (ttl pcb) 0 s)))"

subsection \<open>Queueing\<close>

text \<open>The buffers of one new segment and the number of buffers on the queues after it.\<close>

definition enqueue_bufs :: "u8 list option \<Rightarrow> u8 \<Rightarrow> u8 list option \<Rightarrow> u16 \<Rightarrow> u16 \<Rightarrow> tcp \<Rightarrow> (bufs \<times> u16) option \<times> tcp" where
  "enqueue_bufs optdata apiflags ptr seglen queuelen s =
     (let data = (case ptr of None \<Rightarrow> replicate (unat seglen) 0 | Some d \<Rightarrow> take (unat seglen) d);
          (ok, s) = memory_left s in
      if \<not> ok then (None, s)
      else case optdata of
        Some opts \<Rightarrow> (Some ([opts], queuelen + ucast (clen (Some [opts]))), s)
      | None \<Rightarrow>
          if has apiflags TCP_WRITE_FLAG_COPY then (Some ([data], queuelen + ucast (clen (Some [data]))), s)
          else let (ok, s) = memory_left s in
            if \<not> ok then (None, s)
            else (Some ([[], data], queuelen + 1 + ucast (clen (Some [[]]))), s))"

lemma memory_left_decreases: "memory_left s = (True, s') \<Longrightarrow> length (mem s') < length (mem s)"
  by (auto simp: memory_left_def split: list.splits)

lemma memory_left_le: "memory_left s = (ok, s') \<Longrightarrow> length (mem s') \<le> length (mem s)"
  by (auto simp: memory_left_def split: list.splits)

lemma enqueue_bufs_le: "enqueue_bufs od af ptr l q s = (r, s') \<Longrightarrow> length (mem s') \<le> length (mem s)"
  by (auto simp: enqueue_bufs_def Let_def split: prod.splits if_splits option.splits dest!: memory_left_le)

lemma enqueue_decreases:
  assumes "(True, s1) = memory_left s" "(r, s2) = enqueue_bufs od af ptr l q s1"
  shows "length (mem s2) < length (mem s)"
  using memory_left_decreases [OF assms(1) [symmetric]] enqueue_bufs_le [OF assms(2) [symmetric]] by simp

definition enqueue_seg :: "tcp_pcb \<Rightarrow> u8 \<Rightarrow> u8 list option \<Rightarrow> u32 \<Rightarrow> u16 \<Rightarrow> bufs \<Rightarrow> tcp_seg" where
  "enqueue_seg pcb fl optdata seqno seglen p = \<lparr>seg_p = Some p, seg_len = seglen,
     seg_hdr = \<lparr>hdr_src = local_port pcb, hdr_dest = remote_port pcb, hdr_seqno = seqno, hdr_ackno = 0,
       hdr_hdrlen = (case optdata of None \<Rightarrow> 5 | Some opts \<Rightarrow> 5 + word_of_nat (length opts div 4)),
       hdr_flags = fl, hdr_wnd = 0, hdr_chksum = 0, hdr_urgp = 0\<rparr>\<rparr>"

function enqueue_loop :: "tcp_pcb \<Rightarrow> u8 \<Rightarrow> u8 \<Rightarrow> u8 list option \<Rightarrow> u8 list option \<Rightarrow> u16 \<Rightarrow> u32 \<Rightarrow> u16
    \<Rightarrow> tcp_seg list \<Rightarrow> u16 \<Rightarrow> tcp \<Rightarrow> tcp + tcp_seg list \<times> u16 \<times> u16 \<times> tcp" where
  "enqueue_loop pcb fl apiflags optdata ptr left seqno queuelen queue seglen s =
     (if queue = [] \<or> left > 0
      then let seglen = (if left > mss pcb then mss pcb else left) in
        case memory_left s of
          (False, s) \<Rightarrow> Inl s
        | (True, s) \<Rightarrow>
            (case enqueue_bufs optdata apiflags ptr seglen queuelen s of
               (None, s) \<Rightarrow> Inl s
             | (Some (p, queuelen), s) \<Rightarrow>
                 if queuelen > TCP_SND_QUEUELEN \<or> queuelen > TCP_SNDQUEUELEN_OVERFLOW then Inl s
                 else enqueue_loop pcb fl apiflags optdata (map_option (drop (unat seglen)) ptr) (left - seglen)
                   (seqno + ucast seglen) queuelen (queue @ [enqueue_seg pcb fl optdata seqno seglen p]) seglen s)
      else Inr (queue, seglen, queuelen, s))"
  by pat_completeness auto
termination
  by (relation "measure (\<lambda>(_, _, _, _, _, _, _, _, _, _, s). length (mem s))")
    (auto dest!: enqueue_decreases)

declare enqueue_loop.simps [simp del]

text \<open>
  The new segments join the unsent queue: the first is chained to the last unsent segment when both
  carry only data and fit into one, and the last new segment gets the PSH flag.
\<close>

definition can_merge :: "tcp_pcb \<Rightarrow> u8 \<Rightarrow> tcp_seg \<Rightarrow> tcp_seg \<Rightarrow> bool" where
  "can_merge pcb fl useg seg \<longleftrightarrow> TCP_TCPLEN useg \<noteq> 0 \<and> \<not> has (seg_flags useg) (TCP_SYN OR TCP_FIN)
     \<and> \<not> has fl (TCP_SYN OR TCP_FIN) \<and> unat (seg_len useg) + unat (seg_len seg) \<le> unat (mss pcb)"

definition chain_seg :: "tcp_seg \<Rightarrow> tcp_seg \<Rightarrow> tcp_seg" where
  "chain_seg useg seg = useg\<lparr>seg_p := (case (seg_p useg, seg_p seg) of
       (Some p, Some q) \<Rightarrow> Some (p @ q) | (p, _) \<Rightarrow> p), seg_len := seg_len useg + seg_len seg\<rparr>"

definition set_psh :: "bool \<Rightarrow> tcp_seg list \<Rightarrow> tcp_seg list" where
  "set_psh b segs = (if b \<and> segs \<noteq> [] then butlast segs @ [TCPH_SET_FLAG TCP_PSH (last segs)] else segs)"

definition join_queue :: "tcp_pcb \<Rightarrow> u8 \<Rightarrow> bool \<Rightarrow> tcp_seg list \<Rightarrow> tcp_seg list" where
  "join_queue pcb fl psh queue =
     (if unsent pcb \<noteq> [] \<and> can_merge pcb fl (last (unsent pcb)) (hd queue)
      then butlast (unsent pcb) @ chain_seg (last (unsent pcb)) (hd queue) # set_psh psh (tl queue)
      else unsent pcb @ set_psh psh queue)"

definition tcp_enqueue :: "tcp_pcb \<Rightarrow> u8 list option \<Rightarrow> u16 \<Rightarrow> u8 \<Rightarrow> u8 \<Rightarrow> u8 list option \<Rightarrow> tcp \<Rightarrow> err \<times> tcp_pcb \<times> tcp" where
  "tcp_enqueue pcb arg len fl apiflags optdata s =
     (let optlen = (case optdata of None \<Rightarrow> 0 | Some opts \<Rightarrow> length opts) in
      if \<not> (len = 0 \<or> optlen = 0) then (ERR_ARG, pcb, s)
      else if \<not> (arg = None \<or> optdata = None) then (ERR_ARG, pcb, s)
      else if len > snd_buf pcb \<or> snd_queuelen pcb \<ge> TCP_SND_QUEUELEN \<or> snd_queuelen pcb > TCP_SNDQUEUELEN_OVERFLOW
      then (ERR_MEM, pcb\<lparr>flags := flags pcb OR TF_NAGLEMEMERR\<rparr>, s)
      else case enqueue_loop pcb fl apiflags optdata arg len (snd_lbb pcb) (snd_queuelen pcb) [] 0 s of
        Inl s \<Rightarrow> (ERR_MEM, pcb\<lparr>flags := flags pcb OR TF_NAGLEMEMERR\<rparr>, s)
      | Inr (queue, seglen, queuelen, s) \<Rightarrow>
          let psh = (seglen > 0 \<and> \<not> has apiflags TCP_WRITE_FLAG_MORE);
              pcb = pcb\<lparr>unsent := join_queue pcb fl psh queue\<rparr>;
              len = (if has fl TCP_SYN \<or> has fl TCP_FIN then len + 1 else len);
              pcb = (if has fl TCP_FIN then pcb\<lparr>flags := flags pcb OR TF_FIN\<rparr> else pcb)
          in (ERR_OK, pcb\<lparr>snd_lbb := snd_lbb pcb + ucast len, snd_buf := snd_buf pcb - len,
                snd_queuelen := queuelen\<rparr>, s))"

definition tcp_send_ctrl :: "tcp_pcb \<Rightarrow> u8 \<Rightarrow> tcp \<Rightarrow> err \<times> tcp_pcb \<times> tcp" where
  "tcp_send_ctrl pcb fl s = tcp_enqueue pcb None 0 fl TCP_WRITE_FLAG_COPY None s"

definition tcp_write :: "tcp_pcb \<Rightarrow> u8 list \<Rightarrow> u16 \<Rightarrow> u8 \<Rightarrow> tcp \<Rightarrow> err \<times> tcp_pcb \<times> tcp" where
  "tcp_write pcb data len apiflags s =
     (if state pcb = ESTABLISHED \<or> state pcb = CLOSE_WAIT \<or> state pcb = SYN_SENT \<or> state pcb = SYN_RCVD
      then if len > 0 then tcp_enqueue pcb (Some data) len 0 apiflags None s else (ERR_OK, pcb, s)
      else (ERR_CONN, pcb, s))"

end
