(* ===== verification/Tcp_Pcb.thy ===== *)
theory Tcp_Pcb
  imports Tcp_Out
begin

section \<open>TCP: control blocks and timers\<close>

text \<open>
  \<^verbatim>\<open>src/core/tcp.c\<close>: creating, binding, connecting, closing and aborting connections, and the
  timers.  A function that the application calls takes the address of a control block and works on the
  store; \<^const>\<open>None\<close> is the use of a freed block or of \<^verbatim>\<open>NULL\<close>, an array index out of range, or a loop
  that does not end.
\<close>

subsection \<open>Lists of control blocks\<close>

definition RMV_bound :: "addr \<Rightarrow> tcp \<Rightarrow> tcp" where
  "RMV_bound a s = s\<lparr>tcp_bound_pcbs := remove1 a (tcp_bound_pcbs s)\<rparr>"
definition RMV_listen :: "addr \<Rightarrow> tcp \<Rightarrow> tcp" where
  "RMV_listen a s = s\<lparr>tcp_listen_pcbs := remove1 a (tcp_listen_pcbs s)\<rparr>"
definition RMV_active :: "addr \<Rightarrow> tcp \<Rightarrow> tcp" where
  "RMV_active a s = s\<lparr>tcp_active_pcbs := remove1 a (tcp_active_pcbs s)\<rparr>"
definition RMV_tw :: "addr \<Rightarrow> tcp \<Rightarrow> tcp" where
  "RMV_tw a s = s\<lparr>tcp_tw_pcbs := remove1 a (tcp_tw_pcbs s)\<rparr>"
definition REG_bound :: "addr \<Rightarrow> tcp \<Rightarrow> tcp" where
  "REG_bound a s = s\<lparr>tcp_bound_pcbs := a # tcp_bound_pcbs s\<rparr>"
definition REG_listen :: "addr \<Rightarrow> tcp \<Rightarrow> tcp" where
  "REG_listen a s = s\<lparr>tcp_listen_pcbs := a # tcp_listen_pcbs s\<rparr>"
definition REG_active :: "addr \<Rightarrow> tcp \<Rightarrow> tcp" where
  "REG_active a s = s\<lparr>tcp_active_pcbs := a # tcp_active_pcbs s\<rparr>"
definition REG_tw :: "addr \<Rightarrow> tcp \<Rightarrow> tcp" where
  "REG_tw a s = s\<lparr>tcp_tw_pcbs := a # tcp_tw_pcbs s\<rparr>"

lemmas pcb_list_defs = RMV_bound_def RMV_listen_def RMV_active_def RMV_tw_def
  REG_bound_def REG_listen_def REG_active_def REG_tw_def

definition free_pcb :: "addr \<Rightarrow> tcp \<Rightarrow> tcp" where
  "free_pcb a s = s\<lparr>pcbs := (pcbs s)(a := None)\<rparr>"

text \<open>The \<^verbatim>\<open>next\<close> pointer of a control block: its successor on the list, \<^verbatim>\<open>NULL\<close> when it is last or removed.\<close>

fun next_pcb :: "addr list \<Rightarrow> addr \<Rightarrow> addr" where
  "next_pcb [] a = NULL"
| "next_pcb (x # xs) a = (if x = a then (case xs of [] \<Rightarrow> NULL | y # _ \<Rightarrow> y) else next_pcb xs a)"

definition blocks :: "addr list \<Rightarrow> tcp \<Rightarrow> tcp_pcb list option" where
  "blocks as s = those (map (pcbs s) as)"

subsection \<open>Purging and aborting\<close>

definition tcp_pcb_purge :: "tcp_pcb \<Rightarrow> tcp_pcb" where
  "tcp_pcb_purge pcb =
     (if state pcb \<noteq> CLOSED \<and> state pcb \<noteq> TIME_WAIT \<and> state pcb \<noteq> LISTEN
      then pcb\<lparr>refused_data := None, rtime := - 1, ooseq := [], unsent := [], unacked := []\<rparr>
      else pcb)"

definition tcp_pcb_remove :: "(addr \<Rightarrow> tcp \<Rightarrow> tcp) \<Rightarrow> tcp_pcb \<Rightarrow> tcp \<Rightarrow> tcp_pcb \<times> tcp" where
  "tcp_pcb_remove rmv pcb s =
     (let s = rmv (pcb_addr pcb) s;
          pcb = tcp_pcb_purge pcb;
          (pcb, s) = (if state pcb \<noteq> TIME_WAIT \<and> state pcb \<noteq> LISTEN \<and> has (flags pcb) TF_ACK_DELAY
            then snd (tcp_output (pcb\<lparr>flags := flags pcb OR TF_ACK_NOW\<rparr>) s) else (pcb, s))
      in (pcb\<lparr>state := CLOSED\<rparr>, s))"

definition tcp_event_err :: "app \<Rightarrow> nat \<Rightarrow> addr \<Rightarrow> err \<Rightarrow> tcp \<Rightarrow> tcp" where
  "tcp_event_err app errf arg e s = (if errf \<noteq> 0 then app_err app errf arg e s else s)"

definition tcp_abort :: "app \<Rightarrow> addr \<Rightarrow> tcp \<Rightarrow> tcp option" where
  "tcp_abort app a s = do {
     pcb \<leftarrow> pcbs s a;
     if state pcb = TIME_WAIT
     then Some (free_pcb a (snd (tcp_pcb_remove RMV_tw pcb s)))
     else do {
       let s = free_pcb a (snd (tcp_pcb_remove RMV_active pcb s));
       let s = tcp_event_err app (cb_errf pcb) (callback_arg pcb) ERR_ABRT s;
       Some (tcp_rst (snd_nxt pcb) (rcv_nxt pcb) (local_ip pcb) (remote_ip pcb) (local_port pcb) (remote_port pcb) s)
     }
   }"

subsection \<open>Closing\<close>

definition tcp_close :: "addr \<Rightarrow> tcp \<Rightarrow> (err \<times> tcp) option" where
  "tcp_close a s = do {
     pcb \<leftarrow> pcbs s a;
     let finish = (\<lambda>st. let (e, pcb, s) = tcp_send_ctrl pcb TCP_FIN s
       in if e = ERR_OK then let (_, pcb, s) = tcp_output (pcb\<lparr>state := st\<rparr>) s in (e, put pcb s)
          else (e, put pcb s));
     Some (case state pcb of
       CLOSED \<Rightarrow> (ERR_OK, free_pcb a (RMV_bound a s))
     | LISTEN \<Rightarrow> (ERR_OK, free_pcb a (snd (tcp_pcb_remove RMV_listen pcb s)))
     | SYN_SENT \<Rightarrow> (ERR_OK, free_pcb a (snd (tcp_pcb_remove RMV_active pcb s)))
     | SYN_RCVD \<Rightarrow> finish FIN_WAIT_1
     | ESTABLISHED \<Rightarrow> finish FIN_WAIT_1
     | CLOSE_WAIT \<Rightarrow> finish LAST_ACK
     | _ \<Rightarrow> (ERR_OK, s))
   }"

text \<open>Callback 1 is \<^verbatim>\<open>tcp_recv_null\<close>, the default.\<close>

definition tcp_recv_null :: "tcp_pcb \<Rightarrow> bufs option \<Rightarrow> err \<Rightarrow> tcp \<Rightarrow> (err \<times> tcp_pcb \<times> tcp) option" where
  "tcp_recv_null pcb p e s =
     (if p \<noteq> None then Some (ERR_OK, pcb, s)
      else if e = ERR_OK
      then do {
        (e, s) \<leftarrow> tcp_close (pcb_addr pcb) (put pcb s);
        pcb \<leftarrow> pcbs s (pcb_addr pcb);
        Some (e, pcb, s)
      }
      else Some (ERR_OK, pcb, s))"

definition tcp_event_recv :: "app \<Rightarrow> tcp_pcb \<Rightarrow> bufs option \<Rightarrow> err \<Rightarrow> tcp \<Rightarrow> (err \<times> tcp_pcb \<times> tcp) option" where
  "tcp_event_recv app pcb p e s =
     (if cb_recv pcb = 0 then Some (ERR_OK, pcb, s)
      else if cb_recv pcb = 1 then tcp_recv_null pcb p e s
      else call (\<lambda>a. app_recv app (cb_recv pcb) a p e) pcb s)"

subsection \<open>Ports and addresses\<close>

partial_function (option) new_port_loop :: "u16 list \<Rightarrow> u16 \<Rightarrow> u16 option" where [code]:
  "new_port_loop used port =
     (let port = (if port + 1 > TCP_LOCAL_PORT_RANGE_END then TCP_LOCAL_PORT_RANGE_START else port + 1)
      in if port \<in> set used then new_port_loop used port else Some port)"

definition tcp_new_port :: "tcp \<Rightarrow> (u16 \<times> tcp) option" where
  "tcp_new_port s = do {
     active \<leftarrow> blocks (tcp_active_pcbs s) s;
     tw \<leftarrow> blocks (tcp_tw_pcbs s) s;
     listen \<leftarrow> blocks (tcp_listen_pcbs s) s;
     port \<leftarrow> new_port_loop (map local_port (active @ tw @ listen)) (tcp_port s);
     Some (port, s\<lparr>tcp_port := port\<rparr>)
   }"

text \<open>The address clash \<^verbatim>\<open>tcp_bind\<close> looks for; an absent address is \<^verbatim>\<open>NULL\<close>.\<close>

definition ip_addr_isany :: "u32 option \<Rightarrow> bool" where
  "ip_addr_isany ip \<longleftrightarrow> ip = None \<or> ip = Some 0"

definition in_use :: "u32 option \<Rightarrow> u16 \<Rightarrow> tcp_pcb \<Rightarrow> bool" where
  "in_use ip port pcb \<longleftrightarrow> local_port pcb = port
     \<and> (local_ip pcb = 0 \<or> ip_addr_isany ip \<or> Some (local_ip pcb) = ip)"

definition tcp_bind :: "addr \<Rightarrow> u32 option \<Rightarrow> u16 \<Rightarrow> tcp \<Rightarrow> (err \<times> tcp) option" where
  "tcp_bind a ip port s = do {
     pcb \<leftarrow> pcbs s a;
     if state pcb \<noteq> CLOSED then Some (ERR_ISCONN, s)
     else do {
       (port, s) \<leftarrow> (if port = 0 then tcp_new_port s else Some (port, s));
       listen \<leftarrow> blocks (tcp_listen_pcbs s) s;
       active \<leftarrow> blocks (tcp_active_pcbs s) s;
       bound \<leftarrow> blocks (tcp_bound_pcbs s) s;
       tw \<leftarrow> blocks (tcp_tw_pcbs s) s;
       if list_ex (in_use ip port) (listen @ active @ bound) then Some (ERR_USE, s)
       else if ip = None \<and> list_ex (\<lambda>c. local_port c = port) tw then None
       else if list_ex (\<lambda>c. local_port c = port \<and> Some (local_ip c) = ip) tw then Some (ERR_USE, s)
       else let pcb = (if ip_addr_isany ip then pcb else pcb\<lparr>local_ip := the ip\<rparr>);
                pcb = pcb\<lparr>local_port := port\<rparr>
         in Some (ERR_OK, REG_bound a (put pcb s))
     }
   }"

subsection \<open>Allocation\<close>

definition memp_malloc :: "tcp \<Rightarrow> addr \<times> tcp" where
  "memp_malloc s = (case pcb_allocs s of [] \<Rightarrow> (NULL, s) | a # as \<Rightarrow> (a, s\<lparr>pcb_allocs := as\<rparr>))"

definition tcp_next_iss :: "tcp \<Rightarrow> u32 \<times> tcp" where
  "tcp_next_iss s = (let iss = tcp_iss s + tcp_ticks s in (iss, s\<lparr>tcp_iss := iss\<rparr>))"

definition tcp_eff_send_mss :: "u16 \<Rightarrow> u32 \<Rightarrow> tcp \<Rightarrow> u16" where
  "tcp_eff_send_mss sendmss a s =
     (case ip_route a s of
        None \<Rightarrow> sendmss
      | Some n \<Rightarrow> if netif_mtu n \<noteq> 0 then min sendmss (netif_mtu n - IP_HLEN - TCP_HLEN) else sendmss)"

text \<open>The oldest block on a list, as the loops of \<^verbatim>\<open>tcp_kill_prio\<close> and \<^verbatim>\<open>tcp_kill_timewait\<close> find it.\<close>

fun oldest_prio :: "u32 \<Rightarrow> u8 \<Rightarrow> tcp_pcb list \<Rightarrow> u8 \<Rightarrow> u32 \<Rightarrow> addr \<Rightarrow> addr" where
  "oldest_prio ticks p [] mprio inactivity inactive = inactive"
| "oldest_prio ticks p (pcb # rest) mprio inactivity inactive =
     (if prio pcb \<le> p \<and> prio pcb \<le> mprio \<and> ticks - tmr pcb \<ge> inactivity
      then oldest_prio ticks p rest (prio pcb) (ticks - tmr pcb) (pcb_addr pcb)
      else oldest_prio ticks p rest mprio inactivity inactive)"

fun oldest :: "u32 \<Rightarrow> tcp_pcb list \<Rightarrow> u32 \<Rightarrow> addr \<Rightarrow> addr" where
  "oldest ticks [] inactivity inactive = inactive"
| "oldest ticks (pcb # rest) inactivity inactive =
     (if ticks - tmr pcb \<ge> inactivity then oldest ticks rest (ticks - tmr pcb) (pcb_addr pcb)
      else oldest ticks rest inactivity inactive)"

definition tcp_kill_prio :: "app \<Rightarrow> u8 \<Rightarrow> tcp \<Rightarrow> tcp option" where
  "tcp_kill_prio app p s = do {
     active \<leftarrow> blocks (tcp_active_pcbs s) s;
     let inactive = oldest_prio (tcp_ticks s) p active TCP_PRIO_MAX 0 NULL;
     if inactive \<noteq> NULL then tcp_abort app inactive s else Some s
   }"

definition tcp_kill_timewait :: "app \<Rightarrow> tcp \<Rightarrow> tcp option" where
  "tcp_kill_timewait app s = do {
     tw \<leftarrow> blocks (tcp_tw_pcbs s) s;
     let inactive = oldest (tcp_ticks s) tw 0 NULL;
     if inactive \<noteq> NULL then tcp_abort app inactive s else Some s
   }"

definition zero_pcb :: "addr \<Rightarrow> tcp_pcb" where
  "zero_pcb a = \<lparr>pcb_addr = a, local_ip = 0, remote_ip = 0, so_options = 0, tos = 0, ttl = 0, state = CLOSED,
     prio = 0, callback_arg = 0, local_port = 0, remote_port = 0, flags = 0, rcv_nxt = 0, rcv_wnd = 0,
     rcv_ann_wnd = 0, tmr = 0, polltmr = 0, pollinterval = 0, rtime = 0, mss = 0, rttest = 0, rtseq = 0,
     sa = 0, sv = 0, rto = 0, nrtx = 0, lastack = 0, dupacks = 0, cwnd = 0, ssthresh = 0, snd_nxt = 0,
     snd_max = 0, snd_wnd = 0, snd_wl1 = 0, snd_wl2 = 0, snd_lbb = 0, acked = 0, snd_buf = 0,
     snd_queuelen = 0, unsent = [], unacked = [], ooseq = [], refused_data = None, cb_sent = 0, cb_recv = 0,
     cb_connected = 0, cb_accept = 0, cb_poll = 0, cb_errf = 0, keep_idle = 0, persist_cnt = 0,
     persist_backoff = 0, keep_cnt_sent = 0\<rparr>"

definition fresh_pcb :: "addr \<Rightarrow> tcp \<Rightarrow> tcp_pcb \<times> tcp" where
  "fresh_pcb a s = (let (iss, s) = tcp_next_iss s
     in ((zero_pcb a)\<lparr>prio := TCP_PRIO_NORMAL, snd_buf := TCP_SND_BUF, snd_queuelen := 0, rcv_wnd := TCP_WND,
       rcv_ann_wnd := TCP_WND, tos := 0, ttl := TCP_TTL, mss := (if TCP_MSS > 536 then 536 else TCP_MSS),
       rto := 6, sa := 0, sv := 6, rtime := - 1, cwnd := 1, snd_wl2 := iss, snd_nxt := iss, snd_max := iss,
       lastack := iss, snd_lbb := iss, tmr := tcp_ticks s, polltmr := 0, cb_recv := 1,
       keep_idle := TCP_KEEPIDLE_DEFAULT, keep_cnt_sent := 0\<rparr>, s))"

definition tcp_alloc :: "app \<Rightarrow> u8 \<Rightarrow> tcp \<Rightarrow> (addr \<times> tcp) option" where
  "tcp_alloc app p s = do {
     let (a, s) = memp_malloc s;
     (a, s) \<leftarrow> (if a = NULL
       then do {
         s \<leftarrow> tcp_kill_timewait app s;
         let (a, s) = memp_malloc s;
         if a = NULL then do { s \<leftarrow> tcp_kill_prio app p s; Some (memp_malloc s) } else Some (a, s)
       }
       else Some (a, s));
     if a \<noteq> NULL then let (pcb, s) = fresh_pcb a s in Some (a, put pcb s) else Some (a, s)
   }"

definition tcp_new :: "app \<Rightarrow> tcp \<Rightarrow> (addr \<times> tcp) option" where
  "tcp_new app s = tcp_alloc app TCP_PRIO_NORMAL s"

subsection \<open>Listening, connecting and receiving\<close>

text \<open>
  \<^verbatim>\<open>tcp_listen_with_backlog\<close> sets only some fields of the block it allocates: the others are what the
  memory held, \<^term>\<open>junk\<close>.  Callback 1 of an accept is \<^verbatim>\<open>tcp_accept_null\<close>.
\<close>

definition tcp_listen_with_backlog :: "tcp_pcb \<Rightarrow> addr \<Rightarrow> tcp \<Rightarrow> (addr \<times> tcp) option" where
  "tcp_listen_with_backlog junk a s = do {
     pcb \<leftarrow> pcbs s a;
     if state pcb \<noteq> CLOSED then Some (NULL, s)
     else if state pcb = LISTEN then Some (a, s)
     else let (l, s) = memp_malloc s in
       if l = NULL then Some (NULL, s)
       else let lpcb = junk\<lparr>pcb_addr := l, callback_arg := callback_arg pcb, local_port := local_port pcb,
                state := LISTEN, so_options := so_options pcb OR SOF_ACCEPTCONN, ttl := ttl pcb, tos := tos pcb,
                local_ip := local_ip pcb\<rparr>;
              s = free_pcb a (RMV_bound a s)
         in Some (l, REG_listen l (put (lpcb\<lparr>cb_accept := 1\<rparr>) s))
   }"

definition tcp_recved :: "addr \<Rightarrow> u16 \<Rightarrow> tcp \<Rightarrow> tcp option" where
  "tcp_recved a len s = do {
     pcb \<leftarrow> pcbs s a;
     let pcb = (if unat (rcv_wnd pcb) + unat len > unat TCP_WND
       then pcb\<lparr>rcv_wnd := TCP_WND, rcv_ann_wnd := TCP_WND\<rparr>
       else let pcb = pcb\<lparr>rcv_wnd := rcv_wnd pcb + len\<rparr>
         in if rcv_wnd pcb \<ge> mss pcb then pcb\<lparr>rcv_ann_wnd := rcv_wnd pcb\<rparr> else pcb);
     let (pcb, s) = (if \<not> has (flags pcb) TF_ACK_DELAY \<and> \<not> has (flags pcb) TF_ACK_NOW then tcp_ack pcb s
       else if has (flags pcb) TF_ACK_DELAY \<and> rcv_wnd pcb \<ge> TCP_WND div 2 then tcp_ack_now pcb s
       else (pcb, s));
     Some (put pcb s)
   }"

definition TCP_BUILD_MSS_OPTION :: "u8 list" where
  "TCP_BUILD_MSS_OPTION = [2, 4, ucast (TCP_MSS div 256), ucast (TCP_MSS AND 255)]"

definition tcp_connect :: "addr \<Rightarrow> u32 option \<Rightarrow> u16 \<Rightarrow> nat \<Rightarrow> tcp \<Rightarrow> (err \<times> tcp) option" where
  "tcp_connect a ip port connected s = do {
     pcb \<leftarrow> pcbs s a;
     if state pcb \<noteq> CLOSED then Some (ERR_ISCONN, s)
     else case ip of
       None \<Rightarrow> Some (ERR_VAL, s)
     | Some dest \<Rightarrow> do {
         let pcb = pcb\<lparr>remote_ip := dest, remote_port := port\<rparr>;
         (pcb, s) \<leftarrow> (if local_port pcb = 0
           then do { (lp, s) \<leftarrow> tcp_new_port s; Some (pcb\<lparr>local_port := lp\<rparr>, s) } else Some (pcb, s));
         let (iss, s) = tcp_next_iss s;
         let pcb = pcb\<lparr>rcv_nxt := 0, snd_nxt := iss, lastack := iss - 1, snd_lbb := iss - 1, rcv_wnd := TCP_WND,
           rcv_ann_wnd := TCP_WND, snd_wnd := TCP_WND, mss := (if TCP_MSS > 536 then 536 else TCP_MSS)\<rparr>;
         let pcb = pcb\<lparr>mss := tcp_eff_send_mss (mss pcb) dest s\<rparr>;
         let pcb = pcb\<lparr>cwnd := 1, ssthresh := mss pcb * 10, state := SYN_SENT, cb_connected := connected\<rparr>;
         let s = REG_active a (RMV_bound a s);
         let (e, pcb, s) = tcp_enqueue pcb None 0 TCP_SYN 0 (Some TCP_BUILD_MSS_OPTION) s;
         let (pcb, s) = (if e = ERR_OK then snd (tcp_output pcb s) else (pcb, s));
         Some (e, put pcb s)
       }
   }"

subsection \<open>Timers\<close>

definition tcp_backoff :: "u8 list" where
  "tcp_backoff = [1, 2, 3, 4, 5, 6, 7, 7, 7, 7, 7, 7, 7]"
definition tcp_persist_backoff :: "u8 list" where
  "tcp_persist_backoff = [3, 6, 12, 24, 48, 96, 120]"

text \<open>A read of an array of the program.\<close>

definition elem :: "'a list \<Rightarrow> nat \<Rightarrow> 'a option" where
  "elem xs i = (if i < length xs then Some (xs ! i) else None)"

definition rto_expired :: "u8 \<Rightarrow> tcp_pcb \<Rightarrow> tcp_pcb" where
  "rto_expired backoff pcb =
     (let pcb = (if state pcb \<noteq> SYN_SENT
            then pcb\<lparr>rto := push_bit (unat backoff) (signed_drop_bit 3 (sa pcb) + sv pcb)\<rparr> else pcb);
          eff_wnd = min (cwnd pcb) (snd_wnd pcb);
          pcb = pcb\<lparr>rtime := 0, ssthresh := drop_bit 1 eff_wnd\<rparr>;
          pcb = (if ssthresh pcb < mss pcb then pcb\<lparr>ssthresh := mss pcb * 2\<rparr> else pcb)
      in pcb\<lparr>cwnd := mss pcb\<rparr>)"

definition slowtmr_rexmit :: "tcp_pcb \<Rightarrow> tcp \<Rightarrow> (tcp_pcb \<times> tcp) option" where
  "slowtmr_rexmit pcb s =
     (if persist_backoff pcb > 0
      then do {
        let pcb = pcb\<lparr>persist_cnt := persist_cnt pcb + 1\<rparr>;
        limit \<leftarrow> elem tcp_persist_backoff (unat (persist_backoff pcb - 1));
        if persist_cnt pcb \<ge> ucast limit
        then do {
          let pcb = pcb\<lparr>persist_cnt := 0\<rparr>;
          let pcb = (if unat (persist_backoff pcb) < length tcp_persist_backoff
            then pcb\<lparr>persist_backoff := persist_backoff pcb + 1\<rparr> else pcb);
          s \<leftarrow> tcp_zero_window_probe pcb s;
          Some (pcb, s)
        }
        else Some (pcb, s)
      }
      else do {
        let pcb = (if sint (rtime pcb) \<ge> 0 then pcb\<lparr>rtime := rtime pcb + 1\<rparr> else pcb);
        if unacked pcb \<noteq> [] \<and> sint (rtime pcb) \<ge> sint (rto pcb)
        then do {
          backoff \<leftarrow> (if state pcb \<noteq> SYN_SENT then elem tcp_backoff (unat (nrtx pcb)) else Some 0);
          Some (tcp_rexmit_rto (rto_expired backoff pcb) s)
        }
        else Some (pcb, s)
      })"

definition slowtmr_keepalive :: "app \<Rightarrow> tcp_pcb \<Rightarrow> tcp \<Rightarrow> (tcp_pcb \<times> tcp) option" where
  "slowtmr_keepalive app pcb s =
     (if has (so_options pcb) SOF_KEEPALIVE \<and> (state pcb = ESTABLISHED \<or> state pcb = CLOSE_WAIT)
      then if tcp_ticks s - tmr pcb > (keep_idle pcb + TCP_MAXIDLE) div TCP_SLOW_INTERVAL
        then do {
          s \<leftarrow> tcp_abort app (pcb_addr pcb) (put pcb s);
          pcb \<leftarrow> pcbs s (pcb_addr pcb);
          Some (pcb, s)
        }
        else if tcp_ticks s - tmr pcb
            > (keep_idle pcb + ucast (keep_cnt_sent pcb) * TCP_KEEPINTVL_DEFAULT) div TCP_SLOW_INTERVAL
        then let s = tcp_keepalive pcb s in Some (pcb\<lparr>keep_cnt_sent := keep_cnt_sent pcb + 1\<rparr>, s)
        else Some (pcb, s)
      else Some (pcb, s))"

text \<open>One round of the loop over the active blocks up to the decision whether to remove the block.\<close>

definition slowtmr_check :: "app \<Rightarrow> tcp_pcb \<Rightarrow> tcp \<Rightarrow> (bool \<times> tcp_pcb \<times> tcp) option" where
  "slowtmr_check app pcb s = do {
     let exhausted = (state pcb = SYN_SENT \<and> nrtx pcb = TCP_SYNMAXRTX \<or> nrtx pcb = TCP_MAXRTX);
     (pcb, s) \<leftarrow> (if exhausted then Some (pcb, s) else slowtmr_rexmit pcb s);
     let fin_wait = (state pcb = FIN_WAIT_2
       \<and> tcp_ticks s - tmr pcb > TCP_FIN_WAIT_TIMEOUT div TCP_SLOW_INTERVAL);
     (pcb, s) \<leftarrow> slowtmr_keepalive app pcb s;
     let pcb = (if ooseq pcb \<noteq> [] \<and> tcp_ticks s - tmr pcb \<ge> scast (rto pcb) * TCP_OOSEQ_TIMEOUT
       then pcb\<lparr>ooseq := []\<rparr> else pcb);
     let syn_rcvd = (state pcb = SYN_RCVD
       \<and> tcp_ticks s - tmr pcb > TCP_SYN_RCVD_TIMEOUT div TCP_SLOW_INTERVAL);
     let last_ack = (state pcb = LAST_ACK \<and> tcp_ticks s - tmr pcb > 2 * TCP_MSL div TCP_SLOW_INTERVAL);
     Some (exhausted \<or> fin_wait \<or> syn_rcvd \<or> last_ack, pcb, s)
   }"

definition slowtmr_poll :: "app \<Rightarrow> err \<Rightarrow> tcp_pcb \<Rightarrow> tcp \<Rightarrow> (err \<times> tcp_pcb \<times> tcp) option" where
  "slowtmr_poll app e pcb s = do {
     let pcb = pcb\<lparr>polltmr := polltmr pcb + 1\<rparr>;
     if polltmr pcb \<ge> pollinterval pcb
     then do {
       let pcb = pcb\<lparr>polltmr := 0\<rparr>;
       (e, pcb, s) \<leftarrow> (if cb_poll pcb \<noteq> 0 then call (app_poll app (cb_poll pcb)) pcb s else Some (e, pcb, s));
       if e = ERR_OK then let (_, pcb, s) = tcp_output pcb s in Some (e, pcb, s) else Some (e, pcb, s)
     }
     else Some (e, pcb, s)
   }"

partial_function (option) slowtmr_active :: "app \<Rightarrow> addr \<Rightarrow> err \<Rightarrow> tcp \<Rightarrow> tcp option" where [code]:
  "slowtmr_active app a e s =
     (if a = NULL then Some s
      else do {
        pcb \<leftarrow> pcbs s a;
        (remove, pcb, s) \<leftarrow> slowtmr_check app pcb s;
        if remove
        then do {
          let pcb = tcp_pcb_purge pcb;
          let a2 = next_pcb (tcp_active_pcbs s) a;
          let s = RMV_active a (put pcb s);
          let s = tcp_event_err app (cb_errf pcb) (callback_arg pcb) ERR_ABRT s;
          slowtmr_active app a2 e (free_pcb a s)
        }
        else do {
          (e, pcb, s) \<leftarrow> slowtmr_poll app e pcb s;
          slowtmr_active app (next_pcb (tcp_active_pcbs s) a) e (put pcb s)
        }
      })"

fun slowtmr_tw :: "addr list \<Rightarrow> tcp \<Rightarrow> tcp option" where
  "slowtmr_tw [] s = Some s"
| "slowtmr_tw (a # as) s = do {
     pcb \<leftarrow> pcbs s a;
     if tcp_ticks s - tmr pcb > 2 * TCP_MSL div TCP_SLOW_INTERVAL
     then slowtmr_tw as (free_pcb a (RMV_tw a s))
     else slowtmr_tw as s
   }"

definition tcp_slowtmr :: "app \<Rightarrow> tcp \<Rightarrow> tcp option" where
  "tcp_slowtmr app s = do {
     let s = s\<lparr>tcp_ticks := tcp_ticks s + 1\<rparr>;
     s \<leftarrow> slowtmr_active app (case tcp_active_pcbs s of [] \<Rightarrow> NULL | a # _ \<Rightarrow> a) ERR_OK s;
     slowtmr_tw (tcp_tw_pcbs s) s
   }"

definition fasttmr_one :: "app \<Rightarrow> tcp_pcb \<Rightarrow> tcp \<Rightarrow> (tcp_pcb \<times> tcp) option" where
  "fasttmr_one app pcb s = do {
     (pcb, s) \<leftarrow> (if refused_data pcb \<noteq> None
       then do {
         (e, pcb, s) \<leftarrow> tcp_event_recv app pcb (refused_data pcb) ERR_OK s;
         Some (if e = ERR_OK then pcb\<lparr>refused_data := None\<rparr> else pcb, s)
       }
       else Some (pcb, s));
     if has (flags pcb) TF_ACK_DELAY
     then let (pcb, s) = tcp_ack_now pcb s
       in Some (pcb\<lparr>flags := flags pcb AND NOT (TF_ACK_DELAY OR TF_ACK_NOW)\<rparr>, s)
     else Some (pcb, s)
   }"

partial_function (option) fasttmr_loop :: "app \<Rightarrow> addr \<Rightarrow> tcp \<Rightarrow> tcp option" where [code]:
  "fasttmr_loop app a s =
     (if a = NULL then Some s
      else do {
        pcb \<leftarrow> pcbs s a;
        (pcb, s) \<leftarrow> fasttmr_one app pcb s;
        fasttmr_loop app (next_pcb (tcp_active_pcbs s) a) (put pcb s)
      })"

definition tcp_fasttmr :: "app \<Rightarrow> tcp \<Rightarrow> tcp option" where
  "tcp_fasttmr app s = fasttmr_loop app (case tcp_active_pcbs s of [] \<Rightarrow> NULL | a # _ \<Rightarrow> a) s"

definition tcp_tmr :: "app \<Rightarrow> tcp \<Rightarrow> tcp option" where
  "tcp_tmr app s = do {
     s \<leftarrow> tcp_fasttmr app s;
     let s = s\<lparr>tcp_timer := tcp_timer s + 1\<rparr>;
     if tcp_timer s AND 1 \<noteq> 0 then tcp_slowtmr app s else Some s
   }"

subsection \<open>Callback registration\<close>

definition tcp_setprio :: "addr \<Rightarrow> u8 \<Rightarrow> tcp \<Rightarrow> tcp option" where
  "tcp_setprio a p s = do { pcb \<leftarrow> pcbs s a; Some (put (pcb\<lparr>prio := p\<rparr>) s) }"
definition tcp_arg :: "addr \<Rightarrow> addr \<Rightarrow> tcp \<Rightarrow> tcp option" where
  "tcp_arg a arg s = do { pcb \<leftarrow> pcbs s a; Some (put (pcb\<lparr>callback_arg := arg\<rparr>) s) }"
definition tcp_recv :: "addr \<Rightarrow> nat \<Rightarrow> tcp \<Rightarrow> tcp option" where
  "tcp_recv a cb s = do { pcb \<leftarrow> pcbs s a; Some (put (pcb\<lparr>cb_recv := cb\<rparr>) s) }"
definition tcp_sent :: "addr \<Rightarrow> nat \<Rightarrow> tcp \<Rightarrow> tcp option" where
  "tcp_sent a cb s = do { pcb \<leftarrow> pcbs s a; Some (put (pcb\<lparr>cb_sent := cb\<rparr>) s) }"
definition tcp_err :: "addr \<Rightarrow> nat \<Rightarrow> tcp \<Rightarrow> tcp option" where
  "tcp_err a cb s = do { pcb \<leftarrow> pcbs s a; Some (put (pcb\<lparr>cb_errf := cb\<rparr>) s) }"
definition tcp_accept :: "addr \<Rightarrow> nat \<Rightarrow> tcp \<Rightarrow> tcp option" where
  "tcp_accept a cb s = do { pcb \<leftarrow> pcbs s a; Some (put (pcb\<lparr>cb_accept := cb\<rparr>) s) }"
definition tcp_poll :: "addr \<Rightarrow> nat \<Rightarrow> u8 \<Rightarrow> tcp \<Rightarrow> tcp option" where
  "tcp_poll a cb interval s = do { pcb \<leftarrow> pcbs s a; Some (put (pcb\<lparr>cb_poll := cb, pollinterval := interval\<rparr>) s) }"

end
