(* ===== verification/Tcp_In.thy ===== *)
theory Tcp_In
  imports Tcp_Pcb
begin

section \<open>TCP: input\<close>

text \<open>
  \<^verbatim>\<open>src/core/tcp_in.c\<close>: checking and demultiplexing a segment (\<^verbatim>\<open>tcp_input\<close>), the state machine
  (\<^verbatim>\<open>tcp_process\<close>), acknowledgement and data processing (\<^verbatim>\<open>tcp_receive\<close>) and the options.  The global
  variables that describe the segment being processed are the record \<^verbatim>\<open>rx\<close>: \<^verbatim>\<open>rx_hdr\<close> is the header
  \<^verbatim>\<open>tcphdr\<close> points to, \<^verbatim>\<open>rx_opts\<close> the bytes of the first buffer behind it.
\<close>

record rx =
  rx_src :: u32
  rx_dest :: u32
  rx_hdr :: tcp_hdr
  rx_opts :: "u8 list"
  seqno :: u32
  ackno :: u32
  rx_flags :: u8
  tcplen :: u16
  inseg :: tcp_seg
  recv_flags :: u8
  recv_data :: "bufs option"

subsection \<open>Options\<close>

text \<open>The loop of \<^verbatim>\<open>tcp_parseopt\<close>, with its 8-bit counter: \<^const>\<open>None\<close> when it does not end or reads behind the buffer.\<close>

partial_function (option) parseopt_loop :: "u8 list \<Rightarrow> nat \<Rightarrow> u8 \<Rightarrow> tcp_pcb \<Rightarrow> tcp_pcb option" where [code]:
  "parseopt_loop opts limit c pcb =
     (if unat c < limit
      then do {
        opt \<leftarrow> elem opts (unat c);
        if opt = 0x00 then Some pcb
        else if opt = 0x01 then parseopt_loop opts limit (c + 1) pcb
        else do {
          l \<leftarrow> elem opts (unat c + 1);
          if opt = 0x02 \<and> l = 0x04
          then do {
            b1 \<leftarrow> elem opts (unat c + 2);
            b2 \<leftarrow> elem opts (unat c + 3);
            let m = push_bit 8 (ucast b1) OR ucast b2;
            Some (pcb\<lparr>mss := if m > TCP_MSS then TCP_MSS else m\<rparr>)
          }
          else if l = 0 then Some pcb
          else parseopt_loop opts limit (c + l) pcb
        }
      }
      else Some pcb)"

definition tcp_parseopt :: "rx \<Rightarrow> tcp_pcb \<Rightarrow> tcp_pcb option" where
  "tcp_parseopt r pcb =
     (if hdr_hdrlen (rx_hdr r) > 5
      then parseopt_loop (rx_opts r) (4 * (unat (hdr_hdrlen (rx_hdr r)) - 5)) 0 pcb
      else Some pcb)"

subsection \<open>Acknowledgements\<close>

definition update_window :: "rx \<Rightarrow> tcp_pcb \<Rightarrow> tcp_pcb" where
  "update_window r pcb =
     (if TCP_SEQ_LT (snd_wl1 pcb) (seqno r)
        \<or> (snd_wl1 pcb = seqno r \<and> TCP_SEQ_LT (snd_wl2 pcb) (ackno r))
        \<or> (snd_wl2 pcb = ackno r \<and> hdr_wnd (rx_hdr r) > snd_wnd pcb)
      then let pcb = pcb\<lparr>snd_wnd := hdr_wnd (rx_hdr r), snd_wl1 := seqno r, snd_wl2 := ackno r\<rparr>
        in if snd_wnd pcb > 0 \<and> persist_backoff pcb > 0 then pcb\<lparr>persist_backoff := 0\<rparr> else pcb
      else pcb)"

definition enter_recovery :: "tcp_pcb \<Rightarrow> tcp_pcb" where
  "enter_recovery pcb =
     (let pcb = pcb\<lparr>ssthresh := (if cwnd pcb > snd_wnd pcb then snd_wnd pcb div 2 else cwnd pcb div 2)\<rparr>;
          pcb = (if unat (ssthresh pcb) < 2 * unat (mss pcb) then pcb\<lparr>ssthresh := 2 * mss pcb\<rparr> else pcb)
      in pcb\<lparr>cwnd := ssthresh pcb + 3 * mss pcb, flags := flags pcb OR TF_INFR\<rparr>)"

definition inflate_cwnd :: "tcp_pcb \<Rightarrow> tcp_pcb" where
  "inflate_cwnd pcb = (if cwnd pcb + mss pcb > cwnd pcb then pcb\<lparr>cwnd := cwnd pcb + mss pcb\<rparr> else pcb)"

definition duplicate_ack :: "u32 \<Rightarrow> tcp_pcb \<Rightarrow> tcp \<Rightarrow> tcp_pcb \<times> tcp" where
  "duplicate_ack right_wnd_edge pcb s =
     (let pcb = pcb\<lparr>acked := 0\<rparr> in
      if snd_wl1 pcb + ucast (snd_wnd pcb) = right_wnd_edge
      then let pcb = pcb\<lparr>dupacks := dupacks pcb + 1\<rparr> in
        if dupacks pcb \<ge> 3 \<and> unacked pcb \<noteq> []
        then if \<not> has (flags pcb) TF_INFR
          then let (pcb, s) = tcp_rexmit pcb s in (enter_recovery pcb, s)
          else (inflate_cwnd pcb, s)
        else (pcb, s)
      else (pcb, s))"

text \<open>\<^const>\<open>None\<close>: the congestion avoidance step divides by a congestion window of 0.\<close>

definition open_cwnd :: "tcp_pcb \<Rightarrow> tcp_pcb option" where
  "open_cwnd pcb =
     (if state pcb \<in> {CLOSED, LISTEN, SYN_SENT, SYN_RCVD} then Some pcb
      else if cwnd pcb < ssthresh pcb then Some (inflate_cwnd pcb)
      else if cwnd pcb = 0 then None
      else let new_cwnd = word_of_nat (unat (cwnd pcb) + unat (mss pcb) * unat (mss pcb) div unat (cwnd pcb))
        in Some (if new_cwnd > cwnd pcb then pcb\<lparr>cwnd := new_cwnd\<rparr> else pcb))"

fun free_unacked :: "u32 \<Rightarrow> tcp_seg list \<Rightarrow> tcp_pcb \<Rightarrow> tcp_pcb" where
  "free_unacked ack [] pcb = pcb\<lparr>unacked := []\<rparr>"
| "free_unacked ack (g # gs) pcb =
     (if TCP_SEQ_LEQ (seg_seqno g + TCP_TCPLEN g) ack
      then free_unacked ack gs (pcb\<lparr>snd_queuelen := snd_queuelen pcb - ucast (clen (seg_p g))\<rparr>)
      else pcb\<lparr>unacked := g # gs\<rparr>)"

definition new_ack :: "rx \<Rightarrow> tcp_pcb \<Rightarrow> tcp_pcb option" where
  "new_ack r pcb = do {
     let pcb = (if has (flags pcb) TF_INFR
       then pcb\<lparr>flags := flags pcb AND NOT TF_INFR, cwnd := ssthresh pcb\<rparr> else pcb);
     let pcb = pcb\<lparr>nrtx := 0, rto := signed_drop_bit 3 (sa pcb) + sv pcb\<rparr>;
     let pcb = pcb\<lparr>acked := ucast (ackno r - lastack pcb)\<rparr>;
     let pcb = pcb\<lparr>snd_buf := snd_buf pcb + acked pcb, dupacks := 0, lastack := ackno r\<rparr>;
     pcb \<leftarrow> open_cwnd pcb;
     let pcb = free_unacked (ackno r) (unacked pcb) pcb;
     let pcb = pcb\<lparr>rtime := (if unacked pcb = [] then - 1 else 0)\<rparr>;
     Some (pcb\<lparr>polltmr := 0\<rparr>)
   }"

fun free_unsent :: "u32 \<Rightarrow> tcp_seg list \<Rightarrow> tcp_pcb \<Rightarrow> tcp_pcb" where
  "free_unsent ack [] pcb = pcb\<lparr>unsent := []\<rparr>"
| "free_unsent ack (g # gs) pcb =
     (if TCP_SEQ_BETWEEN ack (seg_seqno g + TCP_TCPLEN g) (snd_max pcb)
      then let pcb = pcb\<lparr>snd_queuelen := snd_queuelen pcb - ucast (clen (seg_p g))\<rparr>
        in free_unsent ack gs (case gs of [] \<Rightarrow> pcb | g' # _ \<Rightarrow> pcb\<lparr>snd_nxt := seg_seqno g'\<rparr>)
      else pcb\<lparr>unsent := g # gs\<rparr>)"

definition estimate_rtt :: "rx \<Rightarrow> tcp \<Rightarrow> tcp_pcb \<Rightarrow> tcp_pcb" where
  "estimate_rtt r s pcb =
     (if rttest pcb \<noteq> 0 \<and> TCP_SEQ_LT (rtseq pcb) (ackno r)
      then let m = ucast (tcp_ticks s - rttest pcb) :: s16;
               m = m - signed_drop_bit 3 (sa pcb);
               pcb = pcb\<lparr>sa := sa pcb + m\<rparr>;
               m = (if sint m < 0 then - m else m);
               m = m - signed_drop_bit 2 (sv pcb);
               pcb = pcb\<lparr>sv := sv pcb + m\<rparr>
           in pcb\<lparr>rto := signed_drop_bit 3 (sa pcb) + sv pcb, rttest := 0\<rparr>
      else pcb)"

definition receive_ack :: "rx \<Rightarrow> tcp_pcb \<Rightarrow> tcp \<Rightarrow> (tcp_pcb \<times> tcp) option" where
  "receive_ack r pcb s = do {
     let right_wnd_edge = ucast (snd_wnd pcb) + snd_wl1 pcb;
     let pcb = update_window r pcb;
     (pcb, s) \<leftarrow> (if lastack pcb = ackno r then Some (duplicate_ack right_wnd_edge pcb s)
       else if TCP_SEQ_BETWEEN (ackno r) (lastack pcb + 1) (snd_max pcb)
       then do { pcb \<leftarrow> new_ack r pcb; Some (pcb, s) }
       else Some (pcb\<lparr>acked := 0\<rparr>, s));
     let pcb = free_unsent (ackno r) (unsent pcb) pcb;
     Some (estimate_rtt r s pcb, s)
   }"

subsection \<open>Data\<close>

text \<open>
  Dropping the first \<^term>\<open>off\<close> bytes of a packet: buffers shorter than the rest are emptied but stay in
  the chain.  \<^const>\<open>None\<close>: the chain ends, or the offset does not fit the 16-bit argument of
  \<^verbatim>\<open>pbuf_header\<close>.
\<close>

fun trim_front :: "nat \<Rightarrow> bufs \<Rightarrow> bufs option" where
  "trim_front off [] = None"
| "trim_front off (b # bs) =
     (if length b < off then map_option ((#) []) (trim_front (off - length b) bs)
      else if off \<le> 32768 then Some (drop off b # bs) else None)"

definition trim_inseg :: "tcp_pcb \<Rightarrow> rx \<Rightarrow> rx option" where
  "trim_inseg pcb r = do {
     p \<leftarrow> seg_p (inseg r);
     p \<leftarrow> trim_front (unat (rcv_nxt pcb - seqno r)) p;
     let g = inseg r;
     Some (r\<lparr>inseg := g\<lparr>seg_p := Some p, seg_len := seg_len g - ucast (rcv_nxt pcb - seqno r),
       seg_hdr := (seg_hdr g)\<lparr>hdr_seqno := rcv_nxt pcb\<rparr>\<rparr>, seqno := rcv_nxt pcb\<rparr>)
   }"

definition trim_seg :: "u16 \<Rightarrow> tcp_seg \<Rightarrow> tcp_seg option" where
  "trim_seg len g = do { p \<leftarrow> seg_p g; Some (g\<lparr>seg_len := len, seg_p := Some (shrink p len)\<rparr>) }"

definition shrink_wnd :: "u32 \<Rightarrow> tcp_pcb \<Rightarrow> tcp_pcb" where
  "shrink_wnd n pcb =
     (let pcb = pcb\<lparr>rcv_wnd := (if ucast (rcv_wnd pcb) < n then 0 else rcv_wnd pcb - ucast n)\<rparr>
      in pcb\<lparr>rcv_ann_wnd := (if ucast (rcv_ann_wnd pcb) < n then 0 else rcv_ann_wnd pcb - ucast n)\<rparr>)"

definition trim_against_ooseq :: "tcp_pcb \<Rightarrow> rx \<Rightarrow> (tcp_pcb \<times> rx) option" where
  "trim_against_ooseq pcb r =
     (case ooseq pcb of
        [] \<Rightarrow> Some (pcb, r)
      | g # gs \<Rightarrow>
          if TCP_SEQ_LEQ (seg_seqno g) (seqno r + ucast (seg_len (inseg r)))
          then if seg_len g > 0
            then do { i \<leftarrow> trim_seg (ucast (seg_seqno g - seqno r)) (inseg r); Some (pcb, r\<lparr>inseg := i\<rparr>) }
            else if seg_flags (inseg r) AND (TCP_FIN OR TCP_SYN) = seg_flags g AND (TCP_FIN OR TCP_SYN)
            then Some (pcb\<lparr>ooseq := gs\<rparr>, r)
            else Some (pcb, r)
          else Some (pcb, r))"

definition accept_inseg :: "tcp_pcb \<Rightarrow> rx \<Rightarrow> (tcp_pcb \<times> rx) option" where
  "accept_inseg pcb r = do {
     let r = r\<lparr>tcplen := ucast (TCP_TCPLEN (inseg r))\<rparr>;
     let pcb = (if state pcb \<noteq> CLOSE_WAIT then pcb\<lparr>rcv_nxt := rcv_nxt pcb + ucast (tcplen r)\<rparr> else pcb);
     let pcb = shrink_wnd (ucast (tcplen r)) pcb;
     p \<leftarrow> seg_p (inseg r);
     let r = (if tot_len p > 0 then r\<lparr>recv_data := Some p, inseg := (inseg r)\<lparr>seg_p := None\<rparr>\<rparr> else r);
     Some (pcb, if has (seg_flags (inseg r)) TCP_FIN then r\<lparr>recv_flags := TF_GOT_FIN\<rparr> else r)
   }"

fun dequeue_ooseq :: "tcp_seg list \<Rightarrow> tcp_pcb \<Rightarrow> rx \<Rightarrow> (tcp_pcb \<times> rx) option" where
  "dequeue_ooseq [] pcb r = Some (pcb\<lparr>ooseq := []\<rparr>, r)"
| "dequeue_ooseq (g # gs) pcb r =
     (if seg_seqno g = rcv_nxt pcb
      then do {
        let r = r\<lparr>seqno := seg_seqno g\<rparr>;
        let pcb = shrink_wnd (TCP_TCPLEN g) (pcb\<lparr>rcv_nxt := rcv_nxt pcb + TCP_TCPLEN g\<rparr>);
        p \<leftarrow> seg_p g;
        let r = (if tot_len p > 0
          then r\<lparr>recv_data := Some (case recv_data r of None \<Rightarrow> p | Some d \<Rightarrow> d @ p)\<rparr> else r);
        let (pcb, r) = (if has (seg_flags g) TCP_FIN
          then (if state pcb = ESTABLISHED then pcb\<lparr>state := CLOSE_WAIT\<rparr> else pcb, r\<lparr>recv_flags := TF_GOT_FIN\<rparr>)
          else (pcb, r));
        dequeue_ooseq gs pcb r
      }
      else Some (pcb\<lparr>ooseq := g # gs\<rparr>, r))"

definition receive_inseq :: "rx \<Rightarrow> tcp_pcb \<Rightarrow> tcp \<Rightarrow> (rx \<times> tcp_pcb \<times> tcp) option" where
  "receive_inseq r pcb s = do {
     (pcb, r) \<leftarrow> trim_against_ooseq pcb r;
     (pcb, r) \<leftarrow> accept_inseg pcb r;
     (pcb, r) \<leftarrow> dequeue_ooseq (ooseq pcb) pcb r;
     Some (r, tcp_ack pcb s)
   }"

text \<open>
  The walk over the out-of-sequence queue: \<^term>\<open>pre\<close> are the segments passed (the last is \<^verbatim>\<open>prev\<close>).
  \<^const>\<open>None\<close>: the copy of the segment could not be allocated and \<^verbatim>\<open>cseg->next\<close> is read all the same.
\<close>

definition overlaps :: "u32 \<Rightarrow> u16 \<Rightarrow> tcp_seg \<Rightarrow> bool" where
  "overlaps from len g \<longleftrightarrow> TCP_SEQ_GT (from + ucast len) (seg_seqno g)"

definition trim_before :: "u32 \<Rightarrow> tcp_seg \<Rightarrow> tcp_seg \<Rightarrow> tcp_seg option" where
  "trim_before from next g =
     (if overlaps from (seg_len g) next then trim_seg (ucast (seg_seqno next - from)) g else Some g)"

definition trim_prev :: "u32 \<Rightarrow> tcp_seg \<Rightarrow> tcp_seg option" where
  "trim_prev from g =
     (if TCP_SEQ_GT (seg_seqno g + ucast (seg_len g)) from then trim_seg (ucast (from - seg_seqno g)) g else Some g)"

fun ooseq_walk :: "u32 \<Rightarrow> tcp_seg list \<Rightarrow> tcp_seg list \<Rightarrow> tcp_seg \<Rightarrow> tcp \<Rightarrow> (tcp_seg list \<times> tcp) option" where
  "ooseq_walk sq pre [] i s = Some (pre, s)"
| "ooseq_walk sq pre (next # rest) i s =
     (if sq = seg_seqno next
      then if seg_len i > seg_len next
        then case tcp_seg_copy i s of
            (None, s) \<Rightarrow> None
          | (Some c, s) \<Rightarrow> (case rest of
              [] \<Rightarrow> Some (pre @ [c], s)
            | n # _ \<Rightarrow> do { c \<leftarrow> trim_before sq n c; Some (pre @ c # rest, s) })
        else Some (pre @ next # rest, s)
      else if pre = [] \<and> TCP_SEQ_LT sq (seg_seqno next)
      then do {
        i \<leftarrow> trim_before sq next i;
        case tcp_seg_copy i s of
          (None, s) \<Rightarrow> Some (next # rest, s)
        | (Some c, s) \<Rightarrow> Some (c # next # rest, s)
      }
      else if pre \<noteq> [] \<and> TCP_SEQ_BETWEEN sq (seg_seqno (last pre) + 1) (seg_seqno next - 1)
      then do {
        i \<leftarrow> trim_before sq next i;
        case tcp_seg_copy i s of
          (None, s) \<Rightarrow> Some (pre @ next # rest, s)
        | (Some c, s) \<Rightarrow> do { prev \<leftarrow> trim_prev sq (last pre); Some (butlast pre @ prev # c # next # rest, s) }
      }
      else if rest = [] \<and> TCP_SEQ_GT sq (seg_seqno next)
      then (case tcp_seg_copy i s of
          (None, s) \<Rightarrow> Some (pre @ [next], s)
        | (Some c, s) \<Rightarrow> do { next \<leftarrow> trim_prev sq next; Some (pre @ [next, c], s) })
      else ooseq_walk sq (pre @ [next]) rest i s)"

definition receive_ooseq :: "rx \<Rightarrow> tcp_pcb \<Rightarrow> tcp \<Rightarrow> (tcp_pcb \<times> tcp) option" where
  "receive_ooseq r pcb s =
     (let (pcb, s) = tcp_ack_now pcb s in
      if ooseq pcb = []
      then let (c, s) = tcp_seg_copy (inseg r) s
        in Some (pcb\<lparr>ooseq := (case c of None \<Rightarrow> [] | Some c \<Rightarrow> [c])\<rparr>, s)
      else do {
        (q, s) \<leftarrow> ooseq_walk (seqno r) [] (ooseq pcb) (inseg r) s;
        Some (pcb\<lparr>ooseq := q\<rparr>, s)
      })"

definition receive_data :: "rx \<Rightarrow> tcp_pcb \<Rightarrow> tcp \<Rightarrow> (bool \<times> rx \<times> tcp_pcb \<times> tcp) option" where
  "receive_data r pcb s = do {
     (r, pcb, s) \<leftarrow> (if TCP_SEQ_BETWEEN (rcv_nxt pcb) (seqno r + 1) (seqno r + ucast (tcplen r) - 1)
       then do { r \<leftarrow> trim_inseg pcb r; Some (r, pcb, s) }
       else if TCP_SEQ_LT (seqno r) (rcv_nxt pcb) then Some (r, tcp_ack_now pcb s)
       else Some (r, pcb, s));
     if TCP_SEQ_BETWEEN (seqno r) (rcv_nxt pcb) (rcv_nxt pcb + ucast (rcv_ann_wnd pcb) - 1)
     then if rcv_nxt pcb = seqno r
       then do { (r, pcb, s) \<leftarrow> receive_inseq r pcb s; Some (True, r, pcb, s) }
       else do { (pcb, s) \<leftarrow> receive_ooseq r pcb s; Some (False, r, pcb, s) }
     else Some (False, r, tcp_ack_now pcb s)
   }"

definition tcp_receive :: "rx \<Rightarrow> tcp_pcb \<Rightarrow> tcp \<Rightarrow> (bool \<times> rx \<times> tcp_pcb \<times> tcp) option" where
  "tcp_receive r pcb s = do {
     (pcb, s) \<leftarrow> (if has (rx_flags r) TCP_ACK then receive_ack r pcb s else Some (pcb, s));
     if tcplen r > 0 then receive_data r pcb s
     else if \<not> TCP_SEQ_BETWEEN (seqno r) (rcv_nxt pcb) (rcv_nxt pcb + ucast (rcv_wnd pcb) - 1)
     then Some (False, r, tcp_ack_now pcb s)
     else Some (False, r, pcb, s)
   }"

subsection \<open>The state machine\<close>

definition process_reset :: "rx \<Rightarrow> tcp_pcb \<Rightarrow> err \<times> rx \<times> tcp_pcb" where
  "process_reset r pcb =
     (let acceptable = (if state pcb = SYN_SENT then ackno r = snd_nxt pcb
            else TCP_SEQ_BETWEEN (seqno r) (rcv_nxt pcb) (rcv_nxt pcb + ucast (rcv_ann_wnd pcb)))
      in if acceptable
         then (ERR_RST, r\<lparr>recv_flags := TF_RESET\<rparr>, pcb\<lparr>flags := flags pcb AND NOT TF_ACK_DELAY\<rparr>)
         else (ERR_OK, r, pcb))"

definition reply_rst :: "rx \<Rightarrow> tcp \<Rightarrow> tcp" where
  "reply_rst r s = tcp_rst (ackno r) (seqno r + ucast (tcplen r)) (rx_dest r) (rx_src r)
     (hdr_dest (rx_hdr r)) (hdr_src (rx_hdr r)) s"

definition process_syn_sent :: "app \<Rightarrow> rx \<Rightarrow> tcp_pcb \<Rightarrow> tcp \<Rightarrow> (rx \<times> tcp_pcb \<times> tcp) option" where
  "process_syn_sent app r pcb s = do {
     expected \<leftarrow> (if has (rx_flags r) TCP_ACK \<and> has (rx_flags r) TCP_SYN
       then (case unacked pcb of [] \<Rightarrow> None | g # _ \<Rightarrow> Some (ackno r = seg_seqno g + 1)) else Some False);
     if expected
     then do {
       let pcb = pcb\<lparr>snd_buf := snd_buf pcb + 1, rcv_nxt := seqno r + 1, lastack := ackno r,
         snd_wnd := hdr_wnd (rx_hdr r), snd_wl1 := seqno r - 1, state := ESTABLISHED\<rparr>;
       pcb \<leftarrow> tcp_parseopt r pcb;
       let pcb = pcb\<lparr>mss := tcp_eff_send_mss (mss pcb) (remote_ip pcb) s\<rparr>;
       let pcb = pcb\<lparr>ssthresh := mss pcb * 10, cwnd := (if cwnd pcb = 1 then mss pcb * 2 else mss pcb),
         snd_queuelen := snd_queuelen pcb - 1, unacked := tl (unacked pcb)\<rparr>;
       let pcb = (if unacked pcb = [] then pcb\<lparr>rtime := - 1\<rparr> else pcb\<lparr>rtime := 0, nrtx := 0\<rparr>);
       (_, pcb, s) \<leftarrow> (if cb_connected pcb \<noteq> 0
         then call (\<lambda>a. app_connected app (cb_connected pcb) a ERR_OK) pcb s else Some (ERR_OK, pcb, s));
       Some (r, tcp_ack_now pcb s)
     }
     else Some (r, pcb, if has (rx_flags r) TCP_ACK then reply_rst r s else s)
   }"

text \<open>Accept callback 1 is \<^verbatim>\<open>tcp_accept_null\<close>, which refuses.\<close>

definition tcp_event_accept :: "app \<Rightarrow> tcp_pcb \<Rightarrow> tcp \<Rightarrow> (err \<times> tcp_pcb \<times> tcp) option" where
  "tcp_event_accept app pcb s =
     (if cb_accept pcb = 0 then Some (ERR_OK, pcb, s)
      else if cb_accept pcb = 1 then Some (ERR_ABRT, pcb, s)
      else call (\<lambda>a. app_accept app (cb_accept pcb) a ERR_OK) pcb s)"

definition passive_close :: "bool \<Rightarrow> rx \<Rightarrow> tcp_pcb \<Rightarrow> tcp \<Rightarrow> tcp_pcb \<times> tcp" where
  "passive_close accepted_inseq r pcb s =
     (if has (rx_flags r) TCP_FIN \<and> accepted_inseq
      then let (pcb, s) = tcp_ack_now pcb s in (pcb\<lparr>state := CLOSE_WAIT\<rparr>, s) else (pcb, s))"

definition process_syn_rcvd :: "app \<Rightarrow> rx \<Rightarrow> tcp_pcb \<Rightarrow> tcp \<Rightarrow> (err \<times> rx \<times> tcp_pcb \<times> tcp) option" where
  "process_syn_rcvd app r pcb s =
     (if has (rx_flags r) TCP_ACK \<and> \<not> has (rx_flags r) TCP_RST
      then if TCP_SEQ_BETWEEN (ackno r) (lastack pcb + 1) (snd_nxt pcb)
        then do {
          (e, pcb, s) \<leftarrow> tcp_event_accept app (pcb\<lparr>state := ESTABLISHED\<rparr>) s;
          if e \<noteq> ERR_OK
          then do { s \<leftarrow> tcp_abort app (pcb_addr pcb) (put pcb s); Some (ERR_ABRT, r, pcb, s) }
          else do {
            let old_cwnd = cwnd pcb;
            (accepted_inseq, r, pcb, s) \<leftarrow> tcp_receive r pcb s;
            let pcb = pcb\<lparr>cwnd := (if old_cwnd = 1 then mss pcb * 2 else mss pcb)\<rparr>;
            Some (ERR_OK, r, passive_close accepted_inseq r pcb s)
          }
        }
        else Some (ERR_OK, r, pcb, reply_rst r s)
      else Some (ERR_OK, r, pcb, s))"

definition enter_time_wait :: "tcp_pcb \<Rightarrow> tcp \<Rightarrow> tcp_pcb \<times> tcp" where
  "enter_time_wait pcb s =
     (let (pcb, s) = tcp_ack_now pcb s;
          pcb = tcp_pcb_purge pcb
      in (pcb\<lparr>state := TIME_WAIT\<rparr>, REG_tw (pcb_addr pcb) (RMV_active (pcb_addr pcb) s)))"

definition fin_acked :: "rx \<Rightarrow> tcp_pcb \<Rightarrow> bool" where
  "fin_acked r pcb \<longleftrightarrow> has (rx_flags r) TCP_ACK \<and> ackno r = snd_nxt pcb"

definition process_fin_wait_1 :: "rx \<Rightarrow> tcp_pcb \<Rightarrow> tcp \<Rightarrow> tcp_pcb \<times> tcp" where
  "process_fin_wait_1 r pcb s =
     (if has (rx_flags r) TCP_FIN
      then if fin_acked r pcb then enter_time_wait pcb s
        else let (pcb, s) = tcp_ack_now pcb s in (pcb\<lparr>state := CLOSING\<rparr>, s)
      else if fin_acked r pcb then (pcb\<lparr>state := FIN_WAIT_2\<rparr>, s)
      else (pcb, s))"

definition tcp_process :: "app \<Rightarrow> rx \<Rightarrow> tcp_pcb \<Rightarrow> tcp \<Rightarrow> (err \<times> rx \<times> tcp_pcb \<times> tcp) option" where
  "tcp_process app r pcb s =
     (if has (rx_flags r) TCP_RST
      then let (e, r, pcb) = process_reset r pcb in Some (e, r, pcb, s)
      else let pcb = pcb\<lparr>tmr := tcp_ticks s, keep_cnt_sent := 0\<rparr> in
        case state pcb of
          SYN_SENT \<Rightarrow> do { (r, pcb, s) \<leftarrow> process_syn_sent app r pcb s; Some (ERR_OK, r, pcb, s) }
        | SYN_RCVD \<Rightarrow> process_syn_rcvd app r pcb s
        | CLOSE_WAIT \<Rightarrow> do { (acc, r, pcb, s) \<leftarrow> tcp_receive r pcb s; Some (ERR_OK, r, passive_close acc r pcb s) }
        | ESTABLISHED \<Rightarrow> do { (acc, r, pcb, s) \<leftarrow> tcp_receive r pcb s; Some (ERR_OK, r, passive_close acc r pcb s) }
        | FIN_WAIT_1 \<Rightarrow> do { (_, r, pcb, s) \<leftarrow> tcp_receive r pcb s; Some (ERR_OK, r, process_fin_wait_1 r pcb s) }
        | FIN_WAIT_2 \<Rightarrow> do {
            (_, r, pcb, s) \<leftarrow> tcp_receive r pcb s;
            Some (ERR_OK, r, if has (rx_flags r) TCP_FIN then enter_time_wait pcb s else (pcb, s))
          }
        | CLOSING \<Rightarrow> do {
            (_, r, pcb, s) \<leftarrow> tcp_receive r pcb s;
            Some (ERR_OK, r, if fin_acked r pcb then enter_time_wait pcb s else (pcb, s))
          }
        | LAST_ACK \<Rightarrow> do {
            (_, r, pcb, s) \<leftarrow> tcp_receive r pcb s;
            Some (ERR_OK, if fin_acked r pcb then r\<lparr>recv_flags := TF_CLOSED\<rparr> else r, pcb, s)
          }
        | _ \<Rightarrow> Some (ERR_OK, r, pcb, s))"

definition tcp_timewait_input :: "rx \<Rightarrow> tcp_pcb \<Rightarrow> tcp \<Rightarrow> err \<times> tcp_pcb \<times> tcp" where
  "tcp_timewait_input r pcb s =
     (let pcb = (if TCP_SEQ_GT (seqno r + ucast (tcplen r)) (rcv_nxt pcb)
            then pcb\<lparr>rcv_nxt := seqno r + ucast (tcplen r)\<rparr> else pcb);
          (pcb, s) = (if tcplen r > 0 then tcp_ack_now pcb s else (pcb, s))
      in tcp_output pcb s)"

definition INHERITED_OPTIONS :: u16 where
  "INHERITED_OPTIONS = 0x0001 OR 0x0010 OR SOF_KEEPALIVE OR 0x0100 OR 0x0080"

definition tcp_listen_input :: "app \<Rightarrow> rx \<Rightarrow> tcp_pcb \<Rightarrow> tcp \<Rightarrow> (err \<times> tcp) option" where
  "tcp_listen_input app r lpcb s =
     (if has (rx_flags r) TCP_ACK
      then Some (ERR_OK, tcp_rst (ackno r + 1) (seqno r + ucast (tcplen r)) (rx_dest r) (rx_src r)
        (hdr_dest (rx_hdr r)) (hdr_src (rx_hdr r)) s)
      else if has (rx_flags r) TCP_SYN
      then do {
        (n, s) \<leftarrow> tcp_alloc app (prio lpcb) s;
        if n = NULL then Some (ERR_MEM, s)
        else do {
          npcb \<leftarrow> pcbs s n;
          let npcb = npcb\<lparr>local_ip := rx_dest r, local_port := local_port lpcb, remote_ip := rx_src r,
            remote_port := hdr_src (rx_hdr r), state := SYN_RCVD, rcv_nxt := seqno r + 1,
            snd_wnd := hdr_wnd (rx_hdr r), ssthresh := hdr_wnd (rx_hdr r), snd_wl1 := seqno r - 1,
            callback_arg := callback_arg lpcb, cb_accept := cb_accept lpcb,
            so_options := so_options lpcb AND INHERITED_OPTIONS\<rparr>;
          let s = REG_active n s;
          npcb \<leftarrow> tcp_parseopt r npcb;
          let npcb = npcb\<lparr>mss := tcp_eff_send_mss (mss npcb) (remote_ip npcb) s\<rparr>;
          let (_, npcb, s) = tcp_enqueue npcb None 0 (TCP_SYN OR TCP_ACK) 0 (Some TCP_BUILD_MSS_OPTION) s;
          let (e, npcb, s) = tcp_output npcb s;
          Some (e, put npcb s)
        }
      }
      else Some (ERR_OK, s))"

subsection \<open>Parsing and demultiplexing\<close>

definition get16 :: "u8 list \<Rightarrow> nat \<Rightarrow> u16 option" where
  "get16 b i = do { x \<leftarrow> elem b i; y \<leftarrow> elem b (i + 1); Some (push_bit 8 (ucast x) OR ucast y) }"

definition get32 :: "u8 list \<Rightarrow> nat \<Rightarrow> u32 option" where
  "get32 b i = do { x \<leftarrow> get16 b i; y \<leftarrow> get16 b (i + 2); Some (push_bit 16 (ucast x) OR ucast y) }"

text \<open>An address is kept in network byte order: read as the little endian host does.\<close>

definition get_addr :: "u8 list \<Rightarrow> nat \<Rightarrow> u32 option" where
  "get_addr b i = map_option htonl (get32 b i)"

definition get_hdr :: "u8 list \<Rightarrow> tcp_hdr option" where
  "get_hdr b = do {
     src \<leftarrow> get16 b 0; dest \<leftarrow> get16 b 2; sq \<leftarrow> get32 b 4; ack \<leftarrow> get32 b 8;
     hl \<leftarrow> elem b 12; fl \<leftarrow> elem b 13; wnd \<leftarrow> get16 b 14; ck \<leftarrow> get16 b 16; up \<leftarrow> get16 b 18;
     Some \<lparr>hdr_src = src, hdr_dest = dest, hdr_seqno = sq, hdr_ackno = ack, hdr_hdrlen = drop_bit 4 hl,
       hdr_flags = fl AND TCP_FLAGS, hdr_wnd = wnd, hdr_chksum = htons ck, hdr_urgp = up\<rparr>
   }"

text \<open>The checks at the start of \<^verbatim>\<open>tcp_input\<close>: \<^term>\<open>Some None\<close> is a segment that is dropped.\<close>

definition parse_segment :: "bufs \<Rightarrow> netif \<Rightarrow> rx option option" where
  "parse_segment p inp = (case p of
     [] \<Rightarrow> None
   | b # bs \<Rightarrow> do {
       v \<leftarrow> elem b 0;
       let hl = 4 * unat (v AND 0x0f);
       src \<leftarrow> get_addr b 12;
       dest \<leftarrow> get_addr b 16;
       if hl > length b \<or> tot_len (drop hl b # bs) < TCP_HLEN then Some None
       else if ip_addr_isbroadcast dest inp \<or> ip_addr_ismulticast dest then Some None
       else do {
         let b = drop hl b;
         let p = b # bs;
         if NOT (rfc1071 (pseudo_header src dest IP_PROTO_TCP (tot_len p) @ concat p)) \<noteq> 0 then Some None
         else do {
           o12 \<leftarrow> elem b 12;
           let hdrlen = 4 * unat (drop_bit 4 o12);
           if hdrlen > length b then Some None
           else do {
             h \<leftarrow> get_hdr b;
             let p = drop hdrlen b # bs;
             let fl = hdr_flags h;
             Some (Some \<lparr>rx_src = src, rx_dest = dest, rx_hdr = h, rx_opts = drop 20 b, seqno = hdr_seqno h,
               ackno = hdr_ackno h, rx_flags = fl,
               tcplen = tot_len p + (if has fl TCP_FIN \<or> has fl TCP_SYN then 1 else 0),
               inseg = \<lparr>seg_p = Some p, seg_len = tot_len p, seg_hdr = h\<rparr>, recv_flags = 0, recv_data = None\<rparr>)
           }
         }
       }
     })"

definition connection_of :: "rx \<Rightarrow> tcp_pcb \<Rightarrow> bool" where
  "connection_of r pcb \<longleftrightarrow> remote_port pcb = hdr_src (rx_hdr r) \<and> local_port pcb = hdr_dest (rx_hdr r)
     \<and> remote_ip pcb = rx_src r \<and> local_ip pcb = rx_dest r"

definition listener_of :: "rx \<Rightarrow> tcp_pcb \<Rightarrow> bool" where
  "listener_of r pcb \<longleftrightarrow> (local_ip pcb = 0 \<or> local_ip pcb = rx_dest r) \<and> local_port pcb = hdr_dest (rx_hdr r)"

text \<open>What \<^verbatim>\<open>tcp_input\<close> does for the application once \<^verbatim>\<open>tcp_process\<close> has returned.\<close>

definition deliver :: "app \<Rightarrow> rx \<Rightarrow> tcp_pcb \<Rightarrow> tcp \<Rightarrow> tcp option" where
  "deliver app r pcb s = do {
     (e, pcb, s) \<leftarrow> (if acked pcb > 0 \<and> cb_sent pcb \<noteq> 0
       then call (\<lambda>a. app_sent app (cb_sent pcb) a (acked pcb)) pcb s else Some (ERR_OK, pcb, s));
     (e, pcb, s) \<leftarrow> (if recv_data r \<noteq> None
       then do {
         (e, pcb, s) \<leftarrow> tcp_event_recv app pcb (recv_data r) ERR_OK s;
         Some (e, if e \<noteq> ERR_OK then pcb\<lparr>refused_data := recv_data r\<rparr> else pcb, s)
       }
       else Some (e, pcb, s));
     (e, pcb, s) \<leftarrow> (if has (recv_flags r) TF_GOT_FIN then tcp_event_recv app pcb None ERR_OK s
       else Some (e, pcb, s));
     let (pcb, s) = (if e = ERR_OK then snd (tcp_output pcb s) else (pcb, s));
     Some (put pcb s)
   }"

definition input_active :: "app \<Rightarrow> rx \<Rightarrow> tcp_pcb \<Rightarrow> tcp \<Rightarrow> tcp option" where
  "input_active app r pcb s = do {
     (e, pcb, s) \<leftarrow> (if refused_data pcb \<noteq> None
       then do {
         (e, pcb, s) \<leftarrow> tcp_event_recv app pcb (refused_data pcb) ERR_OK s;
         Some (e, if e = ERR_OK then pcb\<lparr>refused_data := None\<rparr> else pcb, s)
       }
       else Some (ERR_OK, pcb, s));
     if e \<noteq> ERR_OK then Some (put pcb s)
     else do {
       (e, r, pcb, s) \<leftarrow> tcp_process app r pcb (s\<lparr>tcp_input_pcb := pcb_addr pcb\<rparr>);
       let s = s\<lparr>tcp_input_pcb := NULL\<rparr>;
       if e = ERR_ABRT then Some s
       else if has (recv_flags r) TF_RESET
       then do {
         let s = tcp_event_err app (cb_errf pcb) (callback_arg pcb) ERR_RST (put pcb s);
         pcb \<leftarrow> pcbs s (pcb_addr pcb);
         Some (free_pcb (pcb_addr pcb) (snd (tcp_pcb_remove RMV_active pcb s)))
       }
       else if has (recv_flags r) TF_CLOSED
       then Some (free_pcb (pcb_addr pcb) (snd (tcp_pcb_remove RMV_active pcb s)))
       else deliver app r pcb s
     }
   }"

definition tcp_input :: "app \<Rightarrow> bufs \<Rightarrow> netif \<Rightarrow> tcp \<Rightarrow> tcp option" where
  "tcp_input app p inp s = do {
     parsed \<leftarrow> parse_segment p inp;
     case parsed of
       None \<Rightarrow> Some s
     | Some r \<Rightarrow> do {
         active \<leftarrow> blocks (tcp_active_pcbs s) s;
         case List.find (connection_of r) active of
           Some pcb \<Rightarrow>
             input_active app r pcb (s\<lparr>tcp_active_pcbs := pcb_addr pcb # remove1 (pcb_addr pcb) (tcp_active_pcbs s)\<rparr>)
         | None \<Rightarrow> do {
             tw \<leftarrow> blocks (tcp_tw_pcbs s) s;
             case List.find (connection_of r) tw of
               Some pcb \<Rightarrow> let (_, pcb, s) = tcp_timewait_input r pcb s in Some (put pcb s)
             | None \<Rightarrow> do {
                 listen \<leftarrow> blocks (tcp_listen_pcbs s) s;
                 case List.find (listener_of r) listen of
                   Some l \<Rightarrow> do {
                     (_, s) \<leftarrow> tcp_listen_input app r l
                       (s\<lparr>tcp_listen_pcbs := pcb_addr l # remove1 (pcb_addr l) (tcp_listen_pcbs s)\<rparr>);
                     Some s
                   }
                 | None \<Rightarrow> Some (if \<not> has (rx_flags r) TCP_RST then reply_rst r s else s)
               }
           }
       }
   }"

end
