(* ===== verification/Tcp_Seq.thy ===== *)
theory Tcp_Seq
  imports Tcp_In
begin

section \<open>Sequence numbers as offsets\<close>

text \<open>
  Sequence numbers are compared by the sign of their 32-bit difference.  Relative to a base
  \<^term>\<open>n\<close> (the next expected number) the numbers in play have small offsets, and on those the
  comparisons are the comparisons of natural numbers.
\<close>

definition off :: "u32 \<Rightarrow> u32 \<Rightarrow> nat" where
  "off n x = unat (x - n)"

abbreviation near :: "u32 \<Rightarrow> u32 \<Rightarrow> bool" where "near n x \<equiv> off n x < 2 ^ 30"

lemma off_self [simp]: "off n n = 0"
  by (simp add: off_def)

lemma off_eq_0 [simp]: "off n x = 0 \<longleftrightarrow> x = n"
  by (simp add: off_def unat_eq_zero)

lemma off_pos [simp]: "0 < off n x \<longleftrightarrow> x \<noteq> n"
  by (metis neq0_conv off_eq_0)

lemma off_ge_1 [simp]: "Suc 0 \<le> off n x \<longleftrightarrow> x \<noteq> n"
  by (simp add: Suc_le_eq)

lemma off_inj: "off n x = off n y \<longleftrightarrow> x = y"
  by (simp add: off_def word_unat_eq_iff [symmetric])

lemma sint_diff:
  assumes "near n x" "near n y"
  shows "sint (x - y) = int (off n x) - int (off n y)"
proof -
  have "sint (word_of_int k :: u32) = signed_take_bit 31 k" for k
    by (simp add: signed_of_int)
  moreover have "x - y = word_of_int (int (off n x) - int (off n y))"
    by (simp add: off_def wi_hom_syms)
  moreover have "signed_take_bit 31 (int (off n x) - int (off n y)) = int (off n x) - int (off n y)"
    using assms by (intro signed_take_bit_int_eq_self) simp_all
  ultimately show ?thesis
    by metis
qed

lemma seq_LT: "near n x \<Longrightarrow> near n y \<Longrightarrow> TCP_SEQ_LT x y \<longleftrightarrow> off n x < off n y"
  by (simp add: TCP_SEQ_LT_def sint_diff [of n])

lemma seq_LEQ: "near n x \<Longrightarrow> near n y \<Longrightarrow> TCP_SEQ_LEQ x y \<longleftrightarrow> off n x \<le> off n y"
  by (simp add: TCP_SEQ_LEQ_def sint_diff [of n])

lemma seq_GT: "near n x \<Longrightarrow> near n y \<Longrightarrow> TCP_SEQ_GT x y \<longleftrightarrow> off n x > off n y"
  by (simp add: TCP_SEQ_GT_def sint_diff [of n])

lemma seq_GEQ: "near n x \<Longrightarrow> near n y \<Longrightarrow> TCP_SEQ_GEQ x y \<longleftrightarrow> off n x \<ge> off n y"
  by (simp add: TCP_SEQ_GEQ_def sint_diff [of n])

lemma seq_BETWEEN: "near n x \<Longrightarrow> near n y \<Longrightarrow> near n z \<Longrightarrow>
    TCP_SEQ_BETWEEN x y z \<longleftrightarrow> off n y \<le> off n x \<and> off n x \<le> off n z"
  by (simp add: TCP_SEQ_BETWEEN_def seq_GEQ [of n] seq_LEQ [of n])

lemmas seq_off = seq_LT seq_LEQ seq_GT seq_GEQ seq_BETWEEN

lemma off_add: "off n x + unat k < 2 ^ 32 \<Longrightarrow> off n (x + k) = off n x + unat k"
  unfolding off_def by (simp add: unat_add_small [of "x - n" k] diff_add_eq [symmetric])

lemma off_sub: "off n y \<le> off n x \<Longrightarrow> off y x = off n x - off n y"
proof -
  assume "off n y \<le> off n x"
  then have "y - n \<le> x - n" by (simp add: off_def word_le_nat_alt)
  then have "unat ((x - n) - (y - n)) = unat (x - n) - unat (y - n)" by (rule unat_sub)
  then show ?thesis by (simp add: off_def)
qed

lemma off_step: "unat k \<le> off n x \<Longrightarrow> off (n + k) x = off n x - unat k"
  using off_sub [of n "n + k" x] by (simp add: off_def)

lemma unat_ucast_u16: "unat (w :: u32) < 65536 \<Longrightarrow> unat (ucast w :: u16) = unat w"
  by (simp add: unat_ucast_mod)

lemma off_succ: "near n x \<Longrightarrow> off n (x + 1) = off n x + 1"
  using off_add [of n x 1] by simp

lemma off_pred: "1 \<le> off n x \<Longrightarrow> off n (x - 1) = off n x - 1"
proof -
  assume "1 \<le> off n x"
  then have "x - n \<noteq> 0" by (auto simp: off_def)
  then have "unat (x - n - 1) = unat (x - n) - 1" by (rule unat_minus_one)
  then show ?thesis by (simp add: off_def algebra_simps)
qed

lemma ucast_up_down [simp]: "ucast (ucast (l :: u16) :: u32) = l"
  using unat_half [of l] by (simp add: word_unat_eq_iff unat_ucast_u16 unat_ucast_half)

end
