(* ===== verification/Tcp_Frame.thy ===== *)
theory Tcp_Frame
  imports Tcp_In
begin

section \<open>What the operations of TCP leave alone\<close>

text \<open>
  The output side of TCP does not touch what the receiver keeps in a control block (\<^verbatim>\<open>kept\<close>) and
  changes nothing of the global state but the memory left and the datagrams sent (\<^verbatim>\<open>quiet\<close>).  The
  lemmas are collected in \<^verbatim>\<open>frame\<close>.
\<close>

named_theorems frame

definition kept where
  "kept pcb = (pcb_addr pcb, state pcb, rcv_nxt pcb, rcv_wnd pcb, rcv_ann_wnd pcb, mss pcb, ooseq pcb,
     refused_data pcb, (remote_ip pcb, local_port pcb, remote_port pcb),
     (cb_sent pcb, cb_recv pcb, cb_connected pcb, cb_accept pcb, cb_poll pcb, cb_errf pcb))"

lemma kept_update [simp]:
  "kept (pcb\<lparr>local_ip := x0\<rparr>) = kept pcb"
  "kept (pcb\<lparr>so_options := x1\<rparr>) = kept pcb"
  "kept (pcb\<lparr>tos := x2\<rparr>) = kept pcb"
  "kept (pcb\<lparr>ttl := x3\<rparr>) = kept pcb"
  "kept (pcb\<lparr>prio := x4\<rparr>) = kept pcb"
  "kept (pcb\<lparr>callback_arg := x5\<rparr>) = kept pcb"
  "kept (pcb\<lparr>flags := x6\<rparr>) = kept pcb"
  "kept (pcb\<lparr>tmr := x7\<rparr>) = kept pcb"
  "kept (pcb\<lparr>polltmr := x8\<rparr>) = kept pcb"
  "kept (pcb\<lparr>pollinterval := x9\<rparr>) = kept pcb"
  "kept (pcb\<lparr>rtime := x10\<rparr>) = kept pcb"
  "kept (pcb\<lparr>rttest := x11\<rparr>) = kept pcb"
  "kept (pcb\<lparr>rtseq := x12\<rparr>) = kept pcb"
  "kept (pcb\<lparr>sa := x13\<rparr>) = kept pcb"
  "kept (pcb\<lparr>sv := x14\<rparr>) = kept pcb"
  "kept (pcb\<lparr>rto := x15\<rparr>) = kept pcb"
  "kept (pcb\<lparr>nrtx := x16\<rparr>) = kept pcb"
  "kept (pcb\<lparr>lastack := x17\<rparr>) = kept pcb"
  "kept (pcb\<lparr>dupacks := x18\<rparr>) = kept pcb"
  "kept (pcb\<lparr>cwnd := x19\<rparr>) = kept pcb"
  "kept (pcb\<lparr>ssthresh := x20\<rparr>) = kept pcb"
  "kept (pcb\<lparr>snd_nxt := x21\<rparr>) = kept pcb"
  "kept (pcb\<lparr>snd_max := x22\<rparr>) = kept pcb"
  "kept (pcb\<lparr>snd_wnd := x23\<rparr>) = kept pcb"
  "kept (pcb\<lparr>snd_wl1 := x24\<rparr>) = kept pcb"
  "kept (pcb\<lparr>snd_wl2 := x25\<rparr>) = kept pcb"
  "kept (pcb\<lparr>snd_lbb := x26\<rparr>) = kept pcb"
  "kept (pcb\<lparr>acked := x27\<rparr>) = kept pcb"
  "kept (pcb\<lparr>snd_buf := x28\<rparr>) = kept pcb"
  "kept (pcb\<lparr>snd_queuelen := x29\<rparr>) = kept pcb"
  "kept (pcb\<lparr>unsent := x30\<rparr>) = kept pcb"
  "kept (pcb\<lparr>unacked := x31\<rparr>) = kept pcb"
  "kept (pcb\<lparr>keep_idle := x32\<rparr>) = kept pcb"
  "kept (pcb\<lparr>persist_cnt := x33\<rparr>) = kept pcb"
  "kept (pcb\<lparr>persist_backoff := x34\<rparr>) = kept pcb"
  "kept (pcb\<lparr>keep_cnt_sent := x35\<rparr>) = kept pcb"
  by (simp_all add: kept_def)

definition quiet :: "tcp \<Rightarrow> tcp \<Rightarrow> bool" where
  "quiet s s' \<longleftrightarrow> (\<exists>m d. s' = s\<lparr>mem := m, ip_out := d\<rparr>)"

lemma quietI: "quiet s (s\<lparr>mem := m, ip_out := d\<rparr>)"
  by (auto simp: quiet_def)

lemma quiet_refl [simp]: "quiet s s"
  using quietI [where s = s and m = "mem s" and d = "ip_out s"] by simp

lemma quiet_trans [trans]:
  assumes "quiet s t" "quiet t u"
  shows "quiet s u"
proof -
  obtain m d where "u = t\<lparr>mem := m, ip_out := d\<rparr>" using assms(2) by (auto simp: quiet_def)
  then have "u = s\<lparr>mem := m, ip_out := d\<rparr>" using assms(1) by (auto simp: quiet_def)
  then show ?thesis by (simp add: quietI)
qed

lemma quietD:
  assumes "quiet s s'"
  shows "pcbs s' = pcbs s" "tcp_active_pcbs s' = tcp_active_pcbs s" "tcp_tw_pcbs s' = tcp_tw_pcbs s"
    "tcp_listen_pcbs s' = tcp_listen_pcbs s" "tcp_bound_pcbs s' = tcp_bound_pcbs s"
    "tcp_ticks s' = tcp_ticks s" "tcp_input_pcb s' = tcp_input_pcb s" "netif_list s' = netif_list s"
    "netif_default s' = netif_default s" "pcb_allocs s' = pcb_allocs s" "tcp_port s' = tcp_port s"
  using assms by (auto simp: quiet_def)

subsection \<open>Output\<close>

lemma memory_left_quiet [frame]: "memory_left s = (ok, s') \<Longrightarrow> quiet s s'"
  using quietI [where s = s and d = "ip_out s"] by (auto simp: memory_left_def split: list.splits)

lemma ip_output_quiet [frame]: "ip_output d s = (e, s') \<Longrightarrow> quiet s s'"
  using quietI [where s = s and m = "mem s"] by (auto simp: ip_output_def split: option.splits)

lemma send_ctrl_hdr_quiet [simp]: "quiet s (send_ctrl_hdr h d src dst t ts s)"
  by (cases "ip_output \<lparr>d_src = src, d_dest = dst, d_ttl = t, d_tos = ts, d_hdr = with_chksum src dst d h, d_data = d\<rparr> s")
    (auto simp: send_ctrl_hdr_def intro: ip_output_quiet)

lemma send_segment_frame [frame]:
  "send_segment g pcb s = (g', pcb', s') \<Longrightarrow> kept pcb' = kept pcb \<and> quiet s s'"
  by (auto simp: send_segment_def Let_def split: prod.splits if_splits dest: ip_output_quiet)

lemma tcp_output_segment_frame [frame]:
  "tcp_output_segment g pcb s = (g', pcb', s') \<Longrightarrow> kept pcb' = kept pcb \<and> quiet s s'"
  by (auto simp: tcp_output_segment_def Let_def split: if_splits option.splits
    dest!: send_segment_frame)

lemma output_one_frame [frame]:
  "output_one g rest pcb s = (pcb', s') \<Longrightarrow> kept pcb' = kept pcb \<and> quiet s s'"
  by (auto simp: output_one_def Let_def split: if_splits prod.splits
    dest!: tcp_output_segment_frame)

lemma output_loop_frame [frame]:
  "output_loop wnd gs pcb s = (pcb', s') \<Longrightarrow> kept pcb' = kept pcb \<and> quiet s s'"
  by (induction wnd gs pcb s rule: output_loop.induct)
    (fastforce simp: Let_def split: if_splits prod.splits dest: output_one_frame intro: quiet_trans)+

lemma tcp_output_frame [frame]:
  "tcp_output pcb s = (e, pcb', s') \<Longrightarrow> kept pcb' = kept pcb \<and> quiet s s'"
  by (auto simp: tcp_output_def Let_def split: if_splits prod.splits
    dest!: output_loop_frame memory_left_quiet intro: quiet_trans)

lemma tcp_output_snd_frame [frame]:
  "snd (tcp_output pcb s) = (pcb', s') \<Longrightarrow> kept pcb' = kept pcb \<and> quiet s s'"
  by (metis tcp_output_frame prod.collapse)

lemma tcp_ack_now_frame [frame]:
  "tcp_ack_now pcb s = (pcb', s') \<Longrightarrow> kept pcb' = kept pcb \<and> quiet s s'"
  by (auto simp: tcp_ack_now_def dest!: tcp_output_snd_frame)

lemma tcp_ack_frame [frame]:
  "tcp_ack pcb s = (pcb', s') \<Longrightarrow> kept pcb' = kept pcb \<and> quiet s s'"
  by (auto simp: tcp_ack_def split: if_splits dest!: tcp_ack_now_frame)

lemma tcp_rexmit_frame [frame]:
  "tcp_rexmit pcb s = (pcb', s') \<Longrightarrow> kept pcb' = kept pcb \<and> quiet s s'"
  by (auto simp: tcp_rexmit_def Let_def split: list.splits dest!: tcp_output_snd_frame)

lemma tcp_rexmit_rto_frame [frame]:
  "tcp_rexmit_rto pcb s = (pcb', s') \<Longrightarrow> kept pcb' = kept pcb \<and> quiet s s'"
  by (auto simp: tcp_rexmit_rto_def Let_def split: if_splits dest!: tcp_output_snd_frame)

lemma tcp_rst_quiet [simp]: "quiet s (tcp_rst sq ack lip rip lp rp s)"
  by (auto simp: tcp_rst_def split: prod.splits intro: quiet_trans [OF memory_left_quiet])

lemma tcp_keepalive_quiet [simp]: "quiet s (tcp_keepalive pcb s)"
  by (auto simp: tcp_keepalive_def split: prod.splits intro: quiet_trans [OF memory_left_quiet])

lemma tcp_zero_window_probe_quiet [frame]: "tcp_zero_window_probe pcb s = Some s' \<Longrightarrow> quiet s s'"
  by (auto simp: tcp_zero_window_probe_def Let_def split: list.splits prod.splits if_splits
    intro: quiet_trans [OF memory_left_quiet] dest: memory_left_quiet)

lemma enqueue_bufs_quiet [frame]: "enqueue_bufs od af ptr l q s = (r, s') \<Longrightarrow> quiet s s'"
  by (auto simp: enqueue_bufs_def Let_def split: prod.splits if_splits option.splits dest!: memory_left_quiet
    intro: quiet_trans)

fun enqueue_state :: "tcp + tcp_seg list \<times> u16 \<times> u16 \<times> tcp \<Rightarrow> tcp" where
  "enqueue_state (Inl s) = s"
| "enqueue_state (Inr (_, _, _, s)) = s"

lemma enqueue_loop_quiet: "quiet s (enqueue_state (enqueue_loop pcb fl af od ptr left sq ql queue sl s))"
proof (induction pcb fl af od ptr left sq ql queue sl s rule: enqueue_loop.induct)
  case (1 pcb fl af od ptr left sq ql queue sl s)
  let ?l = "if left > mss pcb then mss pcb else left"
  obtain ok s1 where m: "memory_left s = (ok, s1)" by force
  obtain b s2 where b: "enqueue_bufs od af ptr ?l ql s1 = (b, s2)" by force
  have q: "quiet s s1" "quiet s s2"
    using memory_left_quiet [OF m] enqueue_bufs_quiet [OF b] quiet_trans by blast+
  show ?case
  proof (cases "(queue = [] \<or> left > 0) \<and> ok \<and> b \<noteq> None")
    case True
    then show ?thesis
      using m b q "1.IH" [OF _ refl m [symmetric] _ b [symmetric]]
      by (subst enqueue_loop.simps) (auto simp: Let_def intro: quiet_trans)
  qed (use m b q in \<open>subst enqueue_loop.simps, auto simp: Let_def split: bool.splits option.splits\<close>)
qed

lemma tcp_enqueue_frame [frame]:
  assumes "tcp_enqueue pcb arg len fl af od s = (e, pcb', s')"
  shows "kept pcb' = kept pcb \<and> quiet s s'"
  using assms enqueue_loop_quiet [of s pcb fl af od arg len "snd_lbb pcb" "snd_queuelen pcb" "[]" 0]
  by (auto simp: tcp_enqueue_def Let_def split: if_splits sum.splits)

subsection \<open>Input\<close>

text \<open>While a segment is being processed \<^verbatim>\<open>tcp_output\<close> sends nothing: an acknowledgement is only noted.\<close>

abbreviation input_for :: "tcp_pcb \<Rightarrow> tcp \<Rightarrow> bool" where
  "input_for pcb s \<equiv> tcp_input_pcb s = pcb_addr pcb"

lemma tcp_output_input: "input_for pcb s \<Longrightarrow> tcp_output pcb s = (ERR_OK, pcb, s)"
  by (simp add: tcp_output_def)

lemma tcp_ack_now_input:
  "input_for pcb s \<Longrightarrow> tcp_ack_now pcb s = (pcb\<lparr>flags := flags pcb OR TF_ACK_NOW\<rparr>, s)"
  by (simp add: tcp_ack_now_def tcp_output_input)

lemma tcp_ack_input: "input_for pcb s \<Longrightarrow> \<exists>f. tcp_ack pcb s = (pcb\<lparr>flags := f\<rparr>, s)"
  by (auto simp: tcp_ack_def tcp_ack_now_input)

lemma tcp_rexmit_input: "input_for pcb s \<Longrightarrow> snd (tcp_rexmit pcb s) = s"
  by (auto simp: tcp_rexmit_def tcp_output_input Let_def split: list.splits)

lemma free_unacked_kept [simp]: "kept (free_unacked ack gs pcb) = kept pcb"
  by (induction ack gs pcb rule: free_unacked.induct) simp_all

lemma free_unsent_kept [simp]: "kept (free_unsent ack gs pcb) = kept pcb"
  by (induction ack gs pcb rule: free_unsent.induct) (auto simp: Let_def split: list.splits)

lemma new_ack_kept [frame]: "new_ack r pcb = Some pcb' \<Longrightarrow> kept pcb' = kept pcb"
  by (auto simp: new_ack_def open_cwnd_def inflate_cwnd_def Let_def split: if_splits Option.bind_splits)

lemma duplicate_ack_frame [frame]:
  "duplicate_ack e pcb s = (pcb', s') \<Longrightarrow> kept pcb' = kept pcb \<and> quiet s s'"
  by (auto simp: duplicate_ack_def enter_recovery_def inflate_cwnd_def Let_def
    split: if_splits prod.splits dest!: tcp_rexmit_frame)

lemma update_window_kept [simp]: "kept (update_window r pcb) = kept pcb"
  by (simp add: update_window_def Let_def)

lemma estimate_rtt_kept [simp]: "kept (estimate_rtt r s pcb) = kept pcb"
  by (simp add: estimate_rtt_def Let_def)

lemma receive_ack_frame [frame]:
  "receive_ack r pcb s = Some (pcb', s') \<Longrightarrow> kept pcb' = kept pcb \<and> quiet s s'"
  by (auto simp: receive_ack_def Let_def split: if_splits Option.bind_splits prod.splits
    dest!: duplicate_ack_frame new_ack_kept)

lemma keptD:
  assumes "kept pcb' = kept pcb"
  shows "pcb_addr pcb' = pcb_addr pcb" "state pcb' = state pcb" "rcv_nxt pcb' = rcv_nxt pcb"
    "rcv_wnd pcb' = rcv_wnd pcb" "rcv_ann_wnd pcb' = rcv_ann_wnd pcb" "mss pcb' = mss pcb"
    "ooseq pcb' = ooseq pcb" "refused_data pcb' = refused_data pcb" "remote_ip pcb' = remote_ip pcb"
    "local_port pcb' = local_port pcb" "remote_port pcb' = remote_port pcb"
    "cb_sent pcb' = cb_sent pcb" "cb_recv pcb' = cb_recv pcb" "cb_errf pcb' = cb_errf pcb"
  using assms by (simp_all add: kept_def)

lemma duplicate_ack_input: "input_for pcb s \<Longrightarrow> snd (duplicate_ack e pcb s) = s"
  by (auto simp: duplicate_ack_def Let_def split: prod.splits dest: arg_cong [where f = snd]
    simp: tcp_rexmit_input [where pcb = "pcb\<lparr>acked := 0, dupacks := _\<rparr>", simplified])

lemma receive_ack_input:
  assumes "receive_ack r pcb s = Some (pcb', s')" "input_for pcb s"
  shows "s' = s"
proof -
  have "input_for (update_window r pcb) s" using assms(2) keptD(1) [OF update_window_kept] by simp
  then have "snd (duplicate_ack (ucast (snd_wnd pcb) + snd_wl1 pcb) (update_window r pcb) s) = s"
    by (rule duplicate_ack_input)
  then show ?thesis using assms(1)
    by (auto simp: receive_ack_def Let_def split: if_splits Option.bind_splits prod.splits)
qed

end
