(* ===== verification/Tcp_Stream.thy ===== *)
theory Tcp_Stream
  imports Tcp_Seq Tcp_Frame
begin

section \<open>TCP: reassembly of the byte stream\<close>

text \<open>
  The peer sends a stream of bytes, one for every sequence number.  A segment carries the part of the
  stream at its sequence number; the out-of-sequence queue is ordered, its segments do not overlap and
  lie behind the next expected number.  The lemmas show that trimming, queueing and dequeueing keep
  this, and that what is handed to the application is the next part of the stream.
\<close>

definition stream :: "(u32 \<Rightarrow> u8) \<Rightarrow> u32 \<Rightarrow> nat \<Rightarrow> u8 list" where
  "stream S x n = map (\<lambda>i. S (x + word_of_nat i)) [0..<n]"

lemma length_stream [simp]: "length (stream S x n) = n"
  by (simp add: stream_def)

lemma stream_0 [simp]: "stream S x 0 = []"
  by (simp add: stream_def)

lemma take_stream [simp]: "take k (stream S x n) = stream S x (min k n)"
  by (simp add: stream_def take_map min_def)

lemma drop_stream [simp]: "drop k (stream S x n) = stream S (x + word_of_nat k) (n - k)"
  by (rule nth_equalityI) (auto simp: stream_def add.assoc)

lemma stream_append: "stream S x (a + b) = stream S x a @ stream S (x + word_of_nat a) b"
  by (rule nth_equalityI) (auto simp: stream_def nth_append add.assoc simp flip: of_nat_add)

definition carries :: "(u32 \<Rightarrow> u8) \<Rightarrow> tcp_seg \<Rightarrow> bool" where
  "carries S g \<longleftrightarrow> (\<exists>p. seg_p g = Some p \<and> concat p = stream S (seg_seqno g) (unat (seg_len g)))
     \<and> \<not> has (seg_flags g) TCP_FIN \<and> \<not> has (seg_flags g) TCP_SYN"

lemma carries_TCPLEN: "carries S g \<Longrightarrow> TCP_TCPLEN g = ucast (seg_len g)"
  by (simp add: carries_def TCP_TCPLEN_def)

subsection \<open>Trimming\<close>

lemma concat_keep_bufs: "concat (keep_bufs n p) = take n (concat p)"
  by (induction n p rule: keep_bufs.induct) auto

lemma unat_tot_len: "length (concat p) < 65536 \<Longrightarrow> unat (tot_len p) = length (concat p)"
  by (simp add: tot_len_def unat_of_nat_small)

lemma concat_shrink:
  "length (concat p) < 65536 \<Longrightarrow> concat (shrink p len) = take (unat len) (concat p)"
  by (auto simp: shrink_def concat_keep_bufs word_le_nat_alt unat_tot_len)

lemma trim_seg_carries:
  assumes "carries S g" "unat len \<le> unat (seg_len g)"
  obtains g' where "trim_seg len g = Some g'" "carries S g'" "seg_len g' = len" "seg_hdr g' = seg_hdr g"
proof -
  obtain p where p: "seg_p g = Some p" "concat p = stream S (seg_seqno g) (unat (seg_len g))"
    using assms(1) by (auto simp: carries_def)
  have "length (concat p) < 65536" using p(2) unat_half [of "seg_len g"] by simp
  then have "concat (shrink p len) = stream S (seg_seqno g) (unat len)"
    using p(2) assms(2) by (simp add: concat_shrink min_def)
  then show thesis
    using assms(1) p(1) that [of "g\<lparr>seg_len := len, seg_p := Some (shrink p len)\<rparr>"]
    by (simp add: trim_seg_def carries_def)
qed

lemma trim_front_drop:
  assumes "k \<le> length (concat p)" "p \<noteq> []" "\<forall>b\<in>set p. length b \<le> 32768"
  shows "\<exists>q. trim_front k p = Some q \<and> concat q = drop k (concat p)"
  using assms
proof (induction k p rule: trim_front.induct)
  case (2 k b bs)
  show ?case
  proof (cases "length b < k")
    case True
    then have "bs \<noteq> []" using "2.prems"(1) by auto
    moreover have "k - length b \<le> length (concat bs)" using "2.prems"(1) by simp
    ultimately obtain q where "trim_front (k - length b) bs = Some q" "concat q = drop (k - length b) (concat bs)"
      using "2.IH" True "2.prems"(3) by auto
    then show ?thesis using True by simp
  qed (use "2.prems" in \<open>auto simp: drop_append\<close>)
qed simp

subsection \<open>The out-of-sequence queue\<close>

abbreviation behind :: "u32 \<Rightarrow> tcp_seg \<Rightarrow> nat" where
  "behind n g \<equiv> off n (seg_seqno g) + unat (seg_len g)"

fun queued :: "u32 \<Rightarrow> nat \<Rightarrow> tcp_seg list \<Rightarrow> bool" where
  "queued n lo [] \<longleftrightarrow> True"
| "queued n lo (g # gs) \<longleftrightarrow> lo \<le> off n (seg_seqno g) \<and> 0 < seg_len g \<and> behind n g \<le> 2 ^ 17
     \<and> queued n (behind n g) gs"

definition reassembly :: "(u32 \<Rightarrow> u8) \<Rightarrow> u32 \<Rightarrow> tcp_seg list \<Rightarrow> bool" where
  "reassembly S n q \<longleftrightarrow> queued n 1 q \<and> (\<forall>g\<in>set q. carries S g)"

lemma queued_mono: "queued n lo q \<Longrightarrow> lo' \<le> lo \<Longrightarrow> queued n lo' q"
  by (cases q) auto

lemma queued_append:
  "queued n lo (xs @ ys) \<longleftrightarrow> queued n lo xs \<and> queued n (if xs = [] then lo else behind n (last xs)) ys"
  by (induction xs arbitrary: lo) auto

lemma queued_rebase:
  "queued n lo q \<Longrightarrow> unat k \<le> lo \<Longrightarrow> queued (n + k) (lo - unat k) q"
proof (induction q arbitrary: lo)
  case (Cons g gs)
  then have "off (n + k) (seg_seqno g) = off n (seg_seqno g) - unat k" by (auto intro: off_step)
  with Cons.IH [of "behind n g"] Cons.prems show ?case by auto
qed simp

lemma unat_pos: "0 < (w :: 'a::len word) \<longleftrightarrow> 0 < unat w"
  by (simp add: word_less_nat_alt)

text \<open>Offsets of the segments in the queue and of their ends.\<close>

lemma queued_near: "queued n lo q \<Longrightarrow> g \<in> set q \<Longrightarrow> behind n g \<le> 2 ^ 17 \<and> lo \<le> off n (seg_seqno g)"
  by (induction q arbitrary: lo) fastforce+

lemma near_end: "off n x + unat (l :: u16) \<le> 2 ^ 17 \<Longrightarrow> off n (x + ucast l) = off n x + unat l"
  by (simp add: off_add unat_ucast_half)

lemma trim_before_ordered:
  assumes "carries S g" "seg_seqno g = sq" "0 < seg_len g" "behind n g \<le> 2 ^ 17"
    and "off n (seg_seqno next) \<le> 2 ^ 17" "off n sq < off n (seg_seqno next)"
  obtains g' where "trim_before sq next g = Some g'" "carries S g'" "seg_seqno g' = sq" "0 < seg_len g'"
    "behind n g' \<le> off n (seg_seqno next)"
proof (cases "behind n g > off n (seg_seqno next)")
  case True
  have u: "unat (seg_seqno next - sq) = off n (seg_seqno next) - off n sq"
    using off_sub [of n sq "seg_seqno next"] assms(6) by (simp add: off_def)
  have "unat (seg_seqno next - sq) < unat (seg_len g)" using u True [unfolded assms(2)] assms(6) by linarith
  then have l: "unat (ucast (seg_seqno next - sq) :: u16) = off n (seg_seqno next) - off n sq"
    using u unat_half [of "seg_len g"] by (simp add: unat_ucast_u16)
  have "overlaps sq (seg_len g) next"
    using assms True by (simp add: overlaps_def seq_GT [of n] near_end)
  moreover obtain g' where "trim_seg (ucast (seg_seqno next - sq)) g = Some g'" "carries S g'"
    "seg_len g' = ucast (seg_seqno next - sq)" "seg_hdr g' = seg_hdr g"
    using trim_seg_carries [OF assms(1), of "ucast (seg_seqno next - sq)"] l u True assms(2,6) by force
  ultimately show thesis
    using that [of g'] l assms(2,6) by (simp add: trim_before_def unat_pos)
next
  case False
  then have "\<not> overlaps sq (seg_len g) next"
    using assms by (simp add: overlaps_def seq_GT [of n] near_end)
  then show thesis using that [of g] False assms by (simp add: trim_before_def)
qed

lemma trim_prev_ordered:
  assumes "carries S g" "0 < seg_len g" "behind n g \<le> 2 ^ 17"
    and "off n sq \<le> 2 ^ 17" "off n (seg_seqno g) < off n sq"
  obtains g' where "trim_prev sq g = Some g'" "carries S g'" "seg_seqno g' = seg_seqno g" "0 < seg_len g'"
    "behind n g' \<le> off n sq"
proof -
  let ?next = "\<lparr>seg_p = None, seg_len = 0, seg_hdr = (seg_hdr g)\<lparr>hdr_seqno := sq\<rparr>\<rparr>"
  have "trim_prev sq g = trim_before (seg_seqno g) ?next g"
    by (simp add: trim_prev_def trim_before_def overlaps_def)
  then show thesis
    using trim_before_ordered [OF assms(1) refl assms(2,3), of ?next] assms(4,5) that by fastforce
qed

text \<open>The walk finds the place of a segment and keeps the queue ordered.\<close>

lemma seg_copy_ok: "mem s = True # m \<Longrightarrow> tcp_seg_copy i s = (Some i, s\<lparr>mem := m\<rparr>)"
  by (simp add: tcp_seg_copy_def memory_left_def)

definition walk_ok :: "(u32 \<Rightarrow> u8) \<Rightarrow> u32 \<Rightarrow> u32 \<Rightarrow> tcp \<Rightarrow> (tcp_seg list \<times> tcp) option \<Rightarrow> bool" where
  "walk_ok S n sq s w \<longleftrightarrow> (case w of None \<Rightarrow> False
     | Some (q, s') \<Rightarrow> queued n 1 q \<and> (\<forall>g\<in>set q. carries S g) \<and> sq \<in> seg_seqno ` set q
         \<and> s' \<in> {s, s\<lparr>mem := tl (mem s)\<rparr>})"

lemma walk_okI:
  assumes "w = Some (xs @ c # ys, s')" "queued n 1 (xs @ c # ys)" "\<forall>g\<in>set xs \<union> set ys. carries S g" "carries S c"
    and "sq = seg_seqno c" "s' \<in> {s, s\<lparr>mem := tl (mem s)\<rparr>}"
  shows "walk_ok S n sq s w"
  using assms by (auto simp: walk_ok_def)

lemma ooseq_walk_queues:
  assumes "mem s = True # m" and i: "carries S i" "seg_seqno i = sq" "0 < seg_len i" "behind n i \<le> 2 ^ 17"
    and "1 \<le> off n sq" "q \<noteq> []" "queued n 1 (pre @ q)" "\<forall>g\<in>set (pre @ q). carries S g"
    and "\<forall>g\<in>set pre. off n (seg_seqno g) < off n sq"
  shows "walk_ok S n sq s (ooseq_walk sq pre q i s)"
  using assms(7-)
proof (induction q arbitrary: pre)
  case (Cons nx rest)
  note copy = seg_copy_ok [OF assms(1)] and prems = Cons.prems and IH = Cons.IH
  have nn: "behind n nx \<le> 2 ^ 17" "0 < seg_len nx" "carries S nx" "1 \<le> off n (seg_seqno nx)"
    using prems queued_near [of n 1 "pre @ nx # rest" nx] by (auto simp: queued_append)
  have isq: "off n sq \<le> 2 ^ 17" using i by simp
  have m: "s\<lparr>mem := m\<rparr> \<in> {s, s\<lparr>mem := tl (mem s)\<rparr>}" using assms(1) by simp
  consider (same) "sq = seg_seqno nx"
    | (before) "off n sq < off n (seg_seqno nx)"
    | (behind) "off n (seg_seqno nx) < off n sq"
    by (metis linorder_neqE_nat off_inj)
  then show ?case
  proof cases
    case same
    show ?thesis
    proof (cases "seg_len i > seg_len nx")
      case True
      show ?thesis
      proof (cases rest)
        case Nil
        have "queued n 1 (pre @ i # [])" using prems(2) i same by (simp add: queued_append)
        with Nil same True show ?thesis using i prems(3)
          by (intro walk_okI [where xs = pre and c = i and ys = "[]", OF _ _ _ _ _ m]) (simp_all add: copy)
      next
        case (Cons n' rest')
        have on: "behind n n' \<le> 2 ^ 17" "off n sq < off n (seg_seqno n')"
          using prems(2) Cons nn(2) same by (auto simp: queued_append unat_pos)
        obtain c where c: "trim_before sq n' i = Some c" "carries S c" "seg_seqno c = sq" "0 < seg_len c"
          "behind n c \<le> off n (seg_seqno n')"
          using trim_before_ordered [OF i(1-4), of n'] on by auto
        have "queued n 1 (pre @ c # rest)"
          using prems(2) Cons c on same by (simp add: queued_append)
        with same True c Cons show ?thesis using prems(3)
          by (intro walk_okI [where xs = pre and c = c and ys = rest, OF _ _ _ _ _ m]) (simp_all add: copy)
      qed
    next
      case False
      with same show ?thesis using prems
        by (intro walk_okI [where xs = pre and c = nx and ys = rest and s' = s]) simp_all
    qed
  next
    case before
    then have ne: "sq \<noteq> seg_seqno nx" by auto
    obtain c where c: "trim_before sq nx i = Some c" "carries S c" "seg_seqno c = sq" "0 < seg_len c"
      "behind n c \<le> off n (seg_seqno nx)"
      using trim_before_ordered [OF i(1-4), of nx] nn before by auto
    show ?thesis
    proof (cases "pre = []")
      case True
      then have lt: "TCP_SEQ_LT sq (seg_seqno nx)" using before nn isq by (simp add: seq_LT [of n])
      have "queued n 1 ([] @ c # nx # rest)" using c prems(2) True assms(6) nn by simp
      with lt ne c True show ?thesis using prems(3)
        by (intro walk_okI [where xs = "[]" and c = c and ys = "nx # rest", OF _ _ _ _ _ m]) (simp_all add: copy)
    next
      case False
      let ?prev = "last pre"
      have prev: "off n (seg_seqno ?prev) < off n sq" "carries S ?prev" "0 < seg_len ?prev" "behind n ?prev \<le> 2 ^ 17"
        using False prems queued_near [of n 1 "pre @ nx # rest" ?prev]
          queued_append [of n 1 "butlast pre" "[?prev]"] by (auto simp: queued_append)
      obtain g where g: "trim_prev sq ?prev = Some g" "carries S g" "seg_seqno g = seg_seqno ?prev"
        "0 < seg_len g" "behind n g \<le> off n sq"
        using trim_prev_ordered [OF prev(2-4) isq prev(1)] by auto
      have "TCP_SEQ_BETWEEN sq (seg_seqno ?prev + 1) (seg_seqno nx - 1)"
        using prev isq nn before by (simp add: seq_BETWEEN [of n] off_succ off_pred)
      moreover have "queued n 1 ((butlast pre @ [g]) @ c # nx # rest)"
        using prems(2) False g c nn before queued_append [of n 1 "butlast pre" "[?prev]"]
        by (simp add: queued_append split: if_splits)
      ultimately show ?thesis using False ne c g prems(3)
        by (intro walk_okI [where xs = "butlast pre @ [g]" and c = c and ys = "nx # rest", OF _ _ _ _ _ m])
          (auto simp: copy dest: in_set_butlastD)
    qed
  next
    case behind
    then have b: "sq \<noteq> seg_seqno nx" "\<not> TCP_SEQ_LT sq (seg_seqno nx)"
      "\<not> TCP_SEQ_BETWEEN sq (seg_seqno (last pre) + 1) (seg_seqno nx - 1)"
      using nn isq by (auto simp: seq_LT [of n] seq_LEQ [of n] TCP_SEQ_BETWEEN_def off_pred)
    show ?thesis
    proof (cases "rest = []")
      case True
      obtain g where g: "trim_prev sq nx = Some g" "carries S g" "seg_seqno g = seg_seqno nx"
        "0 < seg_len g" "behind n g \<le> off n sq"
        using trim_prev_ordered [of S nx n sq] nn isq behind by auto
      have "TCP_SEQ_GT sq (seg_seqno nx)" using behind nn isq by (simp add: seq_GT [of n])
      moreover have "queued n 1 ((pre @ [g]) @ i # [])"
        using prems(2) True g i by (simp add: queued_append)
      ultimately show ?thesis using True b g i prems(3)
        by (intro walk_okI [where xs = "pre @ [g]" and c = i and ys = "[]", OF _ _ _ _ _ m]) (simp_all add: copy)
    next
      case False
      then show ?thesis
        using IH [of "pre @ [nx]"] prems b behind by simp
    qed
  qed
qed simp

subsection \<open>Delivery\<close>

lemma shrink_wnd_keeps [simp]:
  "rcv_nxt (shrink_wnd k pcb) = rcv_nxt pcb" "ooseq (shrink_wnd k pcb) = ooseq pcb"
  "state (shrink_wnd k pcb) = state pcb" "pcb_addr (shrink_wnd k pcb) = pcb_addr pcb"
  by (simp_all add: shrink_wnd_def Let_def)

lemma carries_packet:
  assumes "carries S g"
  obtains p where "seg_p g = Some p" "concat p = stream S (seg_seqno g) (unat (seg_len g))"
    "tot_len p > 0 \<longleftrightarrow> seg_len g > 0"
proof -
  obtain p where p: "seg_p g = Some p" "concat p = stream S (seg_seqno g) (unat (seg_len g))"
    using assms by (auto simp: carries_def)
  then have "unat (tot_len p) = unat (seg_len g)" using unat_half [of "seg_len g"] by (simp add: unat_tot_len)
  then show thesis using that p by (metis unat_pos)
qed

lemma dequeue_delivers:
  assumes "queued (rcv_nxt pcb) 0 q" "\<forall>g\<in>set q. carries S g" "recv_data r = Some d"
  shows "\<exists>pcb' r' d' k. dequeue_ooseq q pcb r = Some (pcb', r') \<and> rcv_nxt pcb' = rcv_nxt pcb + word_of_nat k
    \<and> recv_data r' = Some d' \<and> concat d' = concat d @ stream S (rcv_nxt pcb) k
    \<and> reassembly S (rcv_nxt pcb') (ooseq pcb') \<and> state pcb' = state pcb \<and> recv_flags r' = recv_flags r
    \<and> pcb_addr pcb' = pcb_addr pcb"
  using assms
proof (induction q pcb r arbitrary: d rule: dequeue_ooseq.induct)
  case (2 g gs pcb r)
  have g: "carries S g" "\<not> has (seg_flags g) TCP_FIN" "TCP_TCPLEN g = ucast (seg_len g)" "seg_len g > 0"
    using "2.prems" by (auto simp: carries_def carries_TCPLEN)
  obtain p where p: "seg_p g = Some p" "concat p = stream S (seg_seqno g) (unat (seg_len g))" "tot_len p > 0"
    using carries_packet [OF g(1)] g(4) by metis
  show ?case
  proof (cases "seg_seqno g = rcv_nxt pcb")
    case True
    let ?pcb = "shrink_wnd (TCP_TCPLEN g) (pcb\<lparr>rcv_nxt := rcv_nxt pcb + TCP_TCPLEN g\<rparr>)"
    let ?r = "r\<lparr>seqno := seg_seqno g, recv_data := Some (d @ p)\<rparr>"
    have n: "rcv_nxt ?pcb = rcv_nxt pcb + ucast (seg_len g)" using g by simp
    have "queued (rcv_nxt ?pcb) 0 gs"
      using "2.prems"(1) queued_rebase [of "rcv_nxt pcb" "unat (seg_len g)" gs "ucast (seg_len g)"] True n
      by (simp add: unat_ucast_half)
    with "2.IH" [OF True refl refl p(1)] "2.prems" g p True
    obtain pcb' r' d' k where k: "dequeue_ooseq gs ?pcb ?r = Some (pcb', r')"
      "rcv_nxt pcb' = rcv_nxt ?pcb + word_of_nat k" "recv_data r' = Some d'"
      "concat d' = concat (d @ p) @ stream S (rcv_nxt ?pcb) k" "reassembly S (rcv_nxt pcb') (ooseq pcb')"
      "state pcb' = state pcb" "recv_flags r' = recv_flags r" "pcb_addr pcb' = pcb_addr pcb"
      by fastforce
    have "ucast (seg_len g) = (word_of_nat (unat (seg_len g)) :: u32)" by simp
    then have "concat d' = concat d @ stream S (rcv_nxt pcb) (unat (seg_len g) + k)"
      "rcv_nxt pcb' = rcv_nxt pcb + word_of_nat (unat (seg_len g) + k)"
      using k p True n by (simp_all add: stream_append add.assoc)
    moreover have "dequeue_ooseq (g # gs) pcb r = Some (pcb', r')"
      using True p g k(1) "2.prems"(3) by simp
    ultimately show ?thesis using k by blast
  next
    case False
    then have "1 \<le> off (rcv_nxt pcb) (seg_seqno g)"
      by (metis One_nat_def Suc_leI neq0_conv off_eq_0)
    with False "2.prems" show ?thesis
      by (intro exI [of _ "pcb\<lparr>ooseq := g # gs\<rparr>"] exI [of _ r] exI [of _ d] exI [of _ 0])
        (simp add: reassembly_def)
  qed
qed (auto simp: reassembly_def intro: exI [of _ 0])

lemma trim_against_delivers:
  assumes "reassembly S (rcv_nxt pcb) (ooseq pcb)" "carries S (inseg r)" "seqno r = rcv_nxt pcb"
    and "seg_seqno (inseg r) = rcv_nxt pcb" "seg_len (inseg r) > 0"
  obtains r' where "trim_against_ooseq pcb r = Some (pcb, r')" "carries S (inseg r')"
    "seg_hdr (inseg r') = seg_hdr (inseg r)" "seg_len (inseg r') > 0"
    "queued (rcv_nxt pcb) (unat (seg_len (inseg r'))) (ooseq pcb)"
    "recv_data r' = recv_data r" "recv_flags r' = recv_flags r"
proof (cases "ooseq pcb")
  case Nil
  then show thesis using that [of r] assms by (simp add: trim_against_ooseq_def)
next
  case (Cons g gs)
  let ?n = "rcv_nxt pcb" and ?len = "seg_len (inseg r)"
  have g: "1 \<le> off ?n (seg_seqno g)" "seg_len g > 0" "behind ?n g \<le> 2 ^ 17" "queued ?n (off ?n (seg_seqno g)) (g # gs)"
    using assms(1) Cons by (auto simp: reassembly_def)
  have e: "off ?n (?n + ucast ?len) = unat ?len"
    using off_add [of ?n ?n "ucast ?len"] unat_half [of ?len] by (simp add: unat_ucast_half)
  have leq: "TCP_SEQ_LEQ (seg_seqno g) (seqno r + ucast ?len) \<longleftrightarrow> off ?n (seg_seqno g) \<le> unat ?len"
    using g e unat_half [of ?len] assms(3) by (simp add: seq_LEQ [of ?n])
  show thesis
  proof (cases "off ?n (seg_seqno g) \<le> unat ?len")
    case True
    then have l: "unat (ucast (seg_seqno g - seqno r) :: u16) = off ?n (seg_seqno g)"
      using unat_half [of ?len] assms(3) unat_ucast_u16 [of "seg_seqno g - ?n"] by (simp add: off_def)
    obtain i where i: "trim_seg (ucast (seg_seqno g - seqno r)) (inseg r) = Some i" "carries S i"
      "seg_len i = ucast (seg_seqno g - seqno r)" "seg_hdr i = seg_hdr (inseg r)"
      using trim_seg_carries [OF assms(2)] l True by metis
    show thesis
      using that [of "r\<lparr>inseg := i\<rparr>"] Cons True leq i l g by (simp add: trim_against_ooseq_def unat_pos)
  next
    case False
    then have "queued ?n (unat ?len) (ooseq pcb)" using g Cons by simp
    then show thesis using that [of r] Cons False leq assms by (simp add: trim_against_ooseq_def)
  qed
qed

lemma receive_inseq_delivers:
  assumes "reassembly S (rcv_nxt pcb) (ooseq pcb)" "carries S (inseg r)" "seqno r = rcv_nxt pcb"
    and "seg_seqno (inseg r) = rcv_nxt pcb" "seg_len (inseg r) > 0"
    and "state pcb \<noteq> CLOSE_WAIT" "input_for pcb s"
  shows "\<exists>r' pcb' d k. receive_inseq r pcb s = Some (r', pcb', s) \<and> 0 < k
    \<and> rcv_nxt pcb' = rcv_nxt pcb + word_of_nat k \<and> recv_data r' = Some d
    \<and> concat d = stream S (rcv_nxt pcb) k \<and> reassembly S (rcv_nxt pcb') (ooseq pcb')
    \<and> state pcb' = state pcb \<and> recv_flags r' = recv_flags r"
proof -
  obtain r1 where r1: "trim_against_ooseq pcb r = Some (pcb, r1)" "carries S (inseg r1)"
    "seg_hdr (inseg r1) = seg_hdr (inseg r)" "seg_len (inseg r1) > 0"
    "queued (rcv_nxt pcb) (unat (seg_len (inseg r1))) (ooseq pcb)" "recv_flags r1 = recv_flags r"
    using trim_against_delivers [OF assms(1-5)] by metis
  let ?l = "seg_len (inseg r1)"
  obtain p where p: "seg_p (inseg r1) = Some p" "concat p = stream S (rcv_nxt pcb) (unat ?l)" "tot_len p > 0"
    using carries_packet [OF r1(2)] r1(3,4) assms(4) by metis
  have t: "ucast (TCP_TCPLEN (inseg r1)) = ?l" using carries_TCPLEN [OF r1(2)] by simp
  have fin: "\<not> has (seg_flags (inseg r1)) TCP_FIN" using r1(2) by (simp add: carries_def)
  let ?pcb = "shrink_wnd (ucast ?l) (pcb\<lparr>rcv_nxt := rcv_nxt pcb + ucast ?l\<rparr>)"
  obtain r2 where r2: "accept_inseg pcb r1 = Some (?pcb, r2)" "recv_data r2 = Some p" "recv_flags r2 = recv_flags r"
    using p t assms(6) fin r1(6) by (simp add: accept_inseg_def)
  have "queued (rcv_nxt ?pcb) 0 (ooseq ?pcb)"
    using queued_rebase [OF r1(5), of "ucast ?l"] by (simp add: unat_ucast_half)
  then obtain pcb' r' d k where k: "dequeue_ooseq (ooseq ?pcb) ?pcb r2 = Some (pcb', r')"
    "rcv_nxt pcb' = rcv_nxt ?pcb + word_of_nat k" "recv_data r' = Some d"
    "concat d = concat p @ stream S (rcv_nxt ?pcb) k" "reassembly S (rcv_nxt pcb') (ooseq pcb')"
    "state pcb' = state ?pcb" "recv_flags r' = recv_flags r" "pcb_addr pcb' = pcb_addr ?pcb"
    using dequeue_delivers [of ?pcb "ooseq ?pcb" S r2 p] assms(1) r2 by (auto simp: reassembly_def)
  obtain f where f: "tcp_ack pcb' s = (pcb'\<lparr>flags := f\<rparr>, s)"
    using tcp_ack_input [of s pcb'] k(8) assms(7) by auto
  have "receive_inseq r pcb s = Some (r', pcb'\<lparr>flags := f\<rparr>, s)"
    using r1(1) r2(1) k(1) f by (simp add: receive_inseq_def)
  moreover have "rcv_nxt pcb' = rcv_nxt pcb + word_of_nat (unat ?l + k)"
    "concat d = stream S (rcv_nxt pcb) (unat ?l + k)"
    using k(2,4) p(2) by (simp_all add: stream_append add.assoc)
  moreover have "0 < unat ?l + k" using r1(4) by (simp add: unat_pos)
  ultimately show ?thesis using k
    by (intro exI [of _ r'] exI [of _ "pcb'\<lparr>flags := f\<rparr>"] exI [of _ d] exI [of _ "unat ?l + k"]) simp
qed

lemma receive_ooseq_queues:
  assumes "reassembly S (rcv_nxt pcb) (ooseq pcb)" "carries S (inseg r)" "seg_seqno (inseg r) = seqno r"
    and "seg_len (inseg r) > 0" "1 \<le> off (rcv_nxt pcb) (seqno r)" "off (rcv_nxt pcb) (seqno r) < 65536"
    and "input_for pcb s" "mem s = True # m"
  shows "\<exists>pcb' s'. receive_ooseq r pcb s = Some (pcb', s') \<and> rcv_nxt pcb' = rcv_nxt pcb
    \<and> reassembly S (rcv_nxt pcb') (ooseq pcb') \<and> seqno r \<in> seg_seqno ` set (ooseq pcb')"
proof -
  let ?pcb = "pcb\<lparr>flags := flags pcb OR TF_ACK_NOW\<rparr>" and ?n = "rcv_nxt pcb"
  have b: "behind ?n (inseg r) \<le> 2 ^ 17" using assms(3,6) unat_half [of "seg_len (inseg r)"] by simp
  show ?thesis
  proof (cases "ooseq pcb = []")
    case True
    then show ?thesis using assms b
      by (simp add: receive_ooseq_def tcp_ack_now_input seg_copy_ok reassembly_def)
  next
    case False
    have "walk_ok S ?n (seqno r) s (ooseq_walk (seqno r) [] (ooseq pcb) (inseg r) s)"
      using assms False b by (intro ooseq_walk_queues) (auto simp: reassembly_def)
    then show ?thesis using False assms(7)
      by (auto simp: receive_ooseq_def tcp_ack_now_input walk_ok_def reassembly_def split: option.splits)
  qed
qed

lemma window_test:
  assumes "off n x < 2 ^ 29"
  shows "TCP_SEQ_BETWEEN x n (n + ucast (w :: u16) - 1) \<longleftrightarrow> off n x < unat w"
proof -
  let ?b = "n - 1"
  have o: "off ?b n = 1" "off ?b x = off n x + 1" "off ?b (n + ucast w - 1) = unat w"
    using assms off_add [of ?b n "x - n"] by (simp_all add: off_def unat_ucast_half)
  then show ?thesis using assms unat_half [of w] by (simp add: seq_BETWEEN [of ?b] Suc_le_eq)
qed

lemma receive_data_fresh:
  assumes "reassembly S (rcv_nxt pcb) (ooseq pcb)" "carries S (inseg r)" "seg_seqno (inseg r) = seqno r"
    and "seg_len (inseg r) > 0" "off (rcv_nxt pcb) (seqno r) < 2 ^ 29" "recv_data r = None"
    and "state pcb \<noteq> CLOSE_WAIT" "input_for pcb s" "mem s = True # m"
    and "\<not> TCP_SEQ_BETWEEN (rcv_nxt pcb) (seqno r + 1) (seqno r + ucast (tcplen r) - 1)"
  shows "\<exists>acc r' pcb' s' k. receive_data r pcb s = Some (acc, r', pcb', s')
    \<and> rcv_nxt pcb' = rcv_nxt pcb + word_of_nat k \<and> concat (case recv_data r' of None \<Rightarrow> [] | Some d \<Rightarrow> d) = stream S (rcv_nxt pcb) k
    \<and> reassembly S (rcv_nxt pcb') (ooseq pcb')
    \<and> (seqno r = rcv_nxt pcb \<and> rcv_ann_wnd pcb > 0 \<longrightarrow> 0 < k)"
proof -
  have lt: "\<not> TCP_SEQ_LT (seqno r) (rcv_nxt pcb)" using assms(5) by (simp add: seq_LT [of "rcv_nxt pcb"])
  note w = window_test [OF assms(5), of "rcv_ann_wnd pcb"]
  show ?thesis
  proof (cases "off (rcv_nxt pcb) (seqno r) < unat (rcv_ann_wnd pcb)")
    case False
    then show ?thesis using lt w assms
      by (intro exI [of _ False] exI [of _ r] exI [of _ "fst (tcp_ack_now pcb s)"] exI [of _ s] exI [of _ 0])
        (auto simp: receive_data_def tcp_ack_now_input unat_pos)
  next
    case True
    show ?thesis
    proof (cases "seqno r = rcv_nxt pcb")
      case eq: True
      then obtain r' pcb' d k where "receive_inseq r pcb s = Some (r', pcb', s)" "0 < k"
        "rcv_nxt pcb' = rcv_nxt pcb + word_of_nat k" "recv_data r' = Some d"
        "concat d = stream S (rcv_nxt pcb) k" "reassembly S (rcv_nxt pcb') (ooseq pcb')"
        using receive_inseq_delivers [OF assms(1,2) eq _ assms(4,7,8)] assms(3) by auto
      then show ?thesis using lt w True assms(10) eq by (auto simp: receive_data_def)
    next
      case ne: False
      have "1 \<le> off (rcv_nxt pcb) (seqno r)" using ne by (metis One_nat_def Suc_leI neq0_conv off_eq_0)
      moreover have "off (rcv_nxt pcb) (seqno r) < 65536" using True unat_half [of "rcv_ann_wnd pcb"] by simp
      ultimately obtain pcb' s' where "receive_ooseq r pcb s = Some (pcb', s')" "rcv_nxt pcb' = rcv_nxt pcb"
        "reassembly S (rcv_nxt pcb') (ooseq pcb')"
        using receive_ooseq_queues [OF assms(1-4) _ _ assms(8,9)] by auto
      then show ?thesis using lt w True assms(6,10) ne
        by (intro exI [of _ False] exI [of _ r] exI [of _ pcb'] exI [of _ s'] exI [of _ 0])
          (simp add: receive_data_def)
    qed
  qed
qed

abbreviation delivered :: "rx \<Rightarrow> u8 list" where
  "delivered r \<equiv> concat (case recv_data r of None \<Rightarrow> [] | Some d \<Rightarrow> d)"

lemma trim_inseg_carries:
  assumes "carries S (inseg r)" "seg_seqno (inseg r) = seqno r"
    and d: "off (seqno r) (rcv_nxt pcb) < unat (seg_len (inseg r))"
    and "\<forall>b\<in>set (the (seg_p (inseg r))). length b \<le> 32768"
  obtains r' where "trim_inseg pcb r = Some r'" "carries S (inseg r')" "seg_seqno (inseg r') = rcv_nxt pcb"
    "seqno r' = rcv_nxt pcb" "seg_len (inseg r') > 0" "recv_data r' = recv_data r" "tcplen r' = tcplen r"
proof -
  let ?d = "rcv_nxt pcb - seqno r" and ?len = "seg_len (inseg r)"
  obtain p where p: "seg_p (inseg r) = Some p" "concat p = stream S (seqno r) (unat ?len)"
    using assms(1,2) by (auto simp: carries_def)
  then have "p \<noteq> []" "unat ?d \<le> length (concat p)" using d by (auto simp: off_def dest: arg_cong [where f = length])
  then obtain q where q: "trim_front (unat ?d) p = Some q" "concat q = drop (unat ?d) (concat p)"
    using trim_front_drop [of "unat ?d" p] assms(4) p(1) by auto
  have u: "unat (ucast ?d :: u16) = unat ?d"
    using d unat_half [of ?len] by (simp add: off_def unat_ucast_u16)
  then have l: "unat (?len - ucast ?d) = unat ?len - unat ?d"
    using d by (simp add: off_def unat_sub word_le_nat_alt)
  let ?g = "(inseg r)\<lparr>seg_p := Some q, seg_len := ?len - ucast ?d, seg_hdr := (seg_hdr (inseg r))\<lparr>hdr_seqno := rcv_nxt pcb\<rparr>\<rparr>"
  have "concat q = stream S (rcv_nxt pcb) (unat (?len - ucast ?d))" using q(2) p(2) l by simp
  then have "carries S ?g" using assms(1) by (simp add: carries_def)
  then show thesis
    using that [of "r\<lparr>inseg := ?g, seqno := rcv_nxt pcb\<rparr>"] p(1) q(1) l d
    by (simp add: trim_inseg_def Let_def unat_pos off_def)
qed

text \<open>The outcome of processing one segment: the next \<^term>\<open>k\<close> bytes of the stream are delivered.\<close>

definition delivers :: "(u32 \<Rightarrow> u8) \<Rightarrow> tcp_pcb \<Rightarrow> (bool \<times> rx \<times> tcp_pcb \<times> tcp) option \<Rightarrow> nat \<Rightarrow> bool" where
  "delivers S pcb res k \<longleftrightarrow> (case res of None \<Rightarrow> False
     | Some (acc, r', pcb', s') \<Rightarrow> rcv_nxt pcb' = rcv_nxt pcb + word_of_nat k
         \<and> delivered r' = stream S (rcv_nxt pcb) k \<and> reassembly S (rcv_nxt pcb') (ooseq pcb'))"

lemma receive_data_delivers:
  assumes "reassembly S (rcv_nxt pcb) (ooseq pcb)" "carries S (inseg r)" "seg_seqno (inseg r) = seqno r"
    and "seg_len (inseg r) > 0" "tcplen r = seg_len (inseg r)"
    and near: "off (rcv_nxt pcb) (seqno r) < 2 ^ 29 \<or> off (seqno r) (rcv_nxt pcb) < 2 ^ 29"
    and "\<forall>b\<in>set (the (seg_p (inseg r))). length b \<le> 32768" "recv_data r = None"
    and "state pcb \<noteq> CLOSE_WAIT" "input_for pcb s" "mem s = True # m"
  shows "\<exists>k. delivers S pcb (receive_data r pcb s) k
    \<and> (off (seqno r) (rcv_nxt pcb) < unat (tcplen r) \<and> rcv_ann_wnd pcb > 0 \<longrightarrow> 0 < k)"
proof (cases "off (rcv_nxt pcb) (seqno r) < 2 ^ 29")
  case True
  let ?n = "rcv_nxt pcb"
  have nb: "\<not> TCP_SEQ_BETWEEN ?n (seqno r + 1) (seqno r + ucast (tcplen r) - 1)"
    using True by (simp add: TCP_SEQ_BETWEEN_def seq_GEQ [of ?n] off_succ)
  have eq: "seqno r = ?n" if "off (seqno r) ?n < unat (tcplen r)"
  proof -
    have "off ?n (seqno r) = 0"
      using that True unat_half [of "tcplen r"] unat_add_small [of "seqno r - ?n" "?n - seqno r"]
      by (simp add: off_def)
    then show ?thesis by simp
  qed
  from receive_data_fresh [OF assms(1-4) True assms(8-11) nb] show ?thesis
    by (auto simp: delivers_def eq)
next
  case False
  let ?b = "seqno r" and ?n = "rcv_nxt pcb"
  have d: "off ?b ?n < 2 ^ 29" "0 < off ?b ?n" using near False by auto
  have o: "off ?b (?b + ucast (tcplen r)) = unat (tcplen r)"
    using off_add [of ?b ?b "ucast (tcplen r)"] unat_half [of "tcplen r"] by (simp add: unat_ucast_half)
  have e: "off ?b (?b + ucast (tcplen r) - 1) = unat (tcplen r) - 1"
    using off_pred [of ?b "?b + ucast (tcplen r)", unfolded o] assms(4,5) by (simp add: unat_pos)
  have bt: "TCP_SEQ_BETWEEN ?n (?b + 1) (?b + ucast (tcplen r) - 1) \<longleftrightarrow> off ?b ?n < unat (tcplen r)"
    using d e unat_half [of "tcplen r"] off_succ [of ?b ?b] assms(4,5) by (auto simp: seq_BETWEEN [of ?b] unat_pos)
  show ?thesis
  proof (cases "off ?b ?n < unat (tcplen r)")
    case True
    obtain r' where r': "trim_inseg pcb r = Some r'" "carries S (inseg r')" "seg_seqno (inseg r') = ?n"
      "seqno r' = ?n" "seg_len (inseg r') > 0" "recv_data r' = recv_data r" "tcplen r' = tcplen r"
      using trim_inseg_carries [OF assms(2,3) _ assms(7)] True assms(5) by metis
    have nb: "\<not> TCP_SEQ_BETWEEN ?n (seqno r' + 1) (seqno r' + ucast (tcplen r') - 1)"
      using r'(4) by (simp add: TCP_SEQ_BETWEEN_def seq_GEQ [of ?n] off_succ)
    moreover have "\<not> TCP_SEQ_LT (seqno r') ?n" using r'(4) by (simp add: TCP_SEQ_LT_def)
    ultimately have "receive_data r pcb s = receive_data r' pcb s"
      using bt True r'(1) by (simp add: receive_data_def)
    with receive_data_fresh [of S pcb r' s m] nb r' assms show ?thesis
      by (auto simp: delivers_def)
  next
    case dup: False
    have "TCP_SEQ_LT ?b ?n" "\<not> TCP_SEQ_BETWEEN ?b ?n x" for x
      using d by (simp_all add: seq_LT [of ?b] TCP_SEQ_BETWEEN_def seq_GEQ [of ?b])
    with bt dup assms show ?thesis
      by (intro exI [of _ 0]) (simp add: delivers_def receive_data_def tcp_ack_now_input)
  qed
qed

subsection \<open>Properties\<close>

text \<open>
  Claim C1: when the out-of-sequence queue is ordered and holds parts of the peer's stream, and a data
  segment of that stream arrives (in order, early, late, overlapping or duplicate), then
  \<^verbatim>\<open>tcp_receive\<close> returns, hands the application exactly the next \<^term>\<open>k\<close> bytes of the stream, advances
  \<^verbatim>\<open>rcv_nxt\<close> by \<^term>\<open>k\<close> and leaves the queue ordered and part of the stream; and \<^term>\<open>k\<close> is
  positive whenever the segment holds the next expected byte and the window is open.
\<close>

theorem tcp_receive_reassembles:
  assumes "reassembly S (rcv_nxt pcb) (ooseq pcb)" "carries S (inseg r)" "seg_seqno (inseg r) = seqno r"
    and "seg_len (inseg r) > 0" "tcplen r = seg_len (inseg r)"
    and "off (rcv_nxt pcb) (seqno r) < 2 ^ 29 \<or> off (seqno r) (rcv_nxt pcb) < 2 ^ 29"
    and "\<forall>b\<in>set (the (seg_p (inseg r))). length b \<le> 32768" "recv_data r = None"
    and "state pcb \<noteq> CLOSE_WAIT" "tcp_input_pcb s = pcb_addr pcb" "mem s = True # m"
    and "has (rx_flags r) TCP_ACK \<longrightarrow> receive_ack r pcb s \<noteq> None"
  shows "\<exists>k. delivers S pcb (tcp_receive r pcb s) k
    \<and> (off (seqno r) (rcv_nxt pcb) < unat (tcplen r) \<and> rcv_ann_wnd pcb > 0 \<longrightarrow> 0 < k)"
proof -
  obtain pcb1 where p: "kept pcb1 = kept pcb"
    "(if has (rx_flags r) TCP_ACK then receive_ack r pcb s else Some (pcb, s)) = Some (pcb1, s)"
  proof (cases "has (rx_flags r) TCP_ACK")
    case True
    then obtain pcb1 s1 where a: "receive_ack r pcb s = Some (pcb1, s1)" using assms(12) by auto
    then show thesis using that [of pcb1] True receive_ack_frame [OF a] receive_ack_input [OF a assms(10)] by simp
  qed (use that [of pcb] in simp)
  then have "tcp_receive r pcb s = receive_data r pcb1 s"
    using assms(4,5) by (simp add: tcp_receive_def)
  moreover have "delivers S pcb1 res k = delivers S pcb res k" for res k
    unfolding delivers_def keptD(3) [OF p(1)] ..
  ultimately show ?thesis
    using receive_data_delivers [of S pcb1 r s m] assms keptD [OF p(1)] by simp
qed

definition sample_hdr :: "u32 \<Rightarrow> u8 \<Rightarrow> tcp_hdr" where
  "sample_hdr sq fl = \<lparr>hdr_src = 80, hdr_dest = 4097, hdr_seqno = sq, hdr_ackno = 0, hdr_hdrlen = 5,
     hdr_flags = fl, hdr_wnd = 1000, hdr_chksum = 0, hdr_urgp = 0\<rparr>"

definition sample_seg :: "u32 \<Rightarrow> u8 \<Rightarrow> bufs \<Rightarrow> tcp_seg" where
  "sample_seg sq fl p = \<lparr>seg_p = Some p, seg_len = tot_len p, seg_hdr = sample_hdr sq fl\<rparr>"

definition sample_rx :: "tcp_seg \<Rightarrow> rx" where
  "sample_rx g = \<lparr>rx_src = 1, rx_dest = 2, rx_hdr = seg_hdr g, rx_opts = [], seqno = seg_seqno g, ackno = 0,
     rx_flags = seg_flags g, tcplen = ucast (TCP_TCPLEN g), inseg = g, recv_flags = 0, recv_data = None\<rparr>"

definition sample_pcb :: tcp_pcb where
  "sample_pcb = (zero_pcb 16)\<lparr>state := ESTABLISHED, rcv_nxt := 0xfffffffe, rcv_wnd := 1000, rcv_ann_wnd := 1000,
     mss := 536, cwnd := 536, ssthresh := 5360, ooseq := [sample_seg 3 0 [[3], [4, 5]]]\<rparr>"

definition sample_tcp :: tcp where
  "sample_tcp = \<lparr>tcp_ticks = 7, tcp_timer = 0, tcp_port = 4096, tcp_iss = 6510, tcp_input_pcb = 16,
     tcp_bound_pcbs = [], tcp_listen_pcbs = [], tcp_active_pcbs = [16], tcp_tw_pcbs = [],
     pcbs = [16 \<mapsto> sample_pcb], netif_list = [], netif_default = None, mem = [True, True], pcb_allocs = [],
     ip_out = []\<rparr>"

lemmas sample_defs = sample_hdr_def sample_seg_def sample_rx_def sample_pcb_def sample_tcp_def zero_pcb_def

theorem tcp_receive_reassembles_witness:
  "\<exists>k. delivers ucast sample_pcb (tcp_receive (sample_rx (sample_seg 0xfffffffd 0 [[253, 254], [255, 0, 1, 2, 3]])) sample_pcb sample_tcp) k
    \<and> 0 < k"
  using tcp_receive_reassembles [of ucast sample_pcb "sample_rx (sample_seg 0xfffffffd 0 [[253, 254], [255, 0, 1, 2, 3]])" sample_tcp "[True]"]
  by (simp add: sample_defs reassembly_def carries_def off_def tot_len_def TCP_TCPLEN_def stream_def upt_rec TCP_ACK_def TCP_FIN_def TCP_SYN_def)

text \<open>
  Claim C38: when an in-sequence segment that carries a FIN runs into the first queued segment
  \<^term>\<open>g\<close>, \<^verbatim>\<open>tcp_receive\<close> cuts off its data there but not its FIN: \<^verbatim>\<open>rcv_nxt\<close> ends one beyond the start
  of \<^term>\<open>g\<close>, whose first byte is acknowledged and never delivered, the application is told of the end of
  the stream, and the queue keeps \<^term>\<open>g\<close>, which can no longer be dequeued.
\<close>

theorem receive_inseq_trim_keeps_fin:
  assumes "ooseq pcb = g # gs" "0 < seg_len g" "seqno r = rcv_nxt pcb" "seg_p (inseg r) = Some p"
    and "has (seg_flags (inseg r)) TCP_FIN" "state pcb \<noteq> CLOSE_WAIT" "tcp_input_pcb s = pcb_addr pcb"
    and "0 < off (rcv_nxt pcb) (seg_seqno g)" "off (rcv_nxt pcb) (seg_seqno g) \<le> unat (seg_len (inseg r))"
    and "off (rcv_nxt pcb) (seg_seqno g) < 65535" "unat (seg_len (inseg r)) = length (concat p)"
  shows "\<exists>r' pcb'. receive_inseq r pcb s = Some (r', pcb', s) \<and> rcv_nxt pcb' = seg_seqno g + 1
    \<and> delivered r' = take (off (rcv_nxt pcb) (seg_seqno g)) (concat p)
    \<and> has (recv_flags r') TF_GOT_FIN \<and> ooseq pcb' = g # gs"
proof -
  let ?n = "rcv_nxt pcb" and ?j = "ucast (seg_seqno g - rcv_nxt pcb) :: u16"
  have l: "length (concat p) < 65536" using assms(11) unat_half [of "seg_len (inseg r)"] by simp
  have j: "unat ?j = off ?n (seg_seqno g)" using assms(10) by (simp add: off_def unat_ucast_u16)
  have "off ?n (?n + ucast (seg_len (inseg r))) = unat (seg_len (inseg r))"
    using off_add [of ?n ?n "ucast (seg_len (inseg r))"] unat_half [of "seg_len (inseg r)"] by (simp add: unat_ucast_half)
  then have leq: "TCP_SEQ_LEQ (seg_seqno g) (seqno r + ucast (seg_len (inseg r)))"
    using assms(3,9,10) unat_half [of "seg_len (inseg r)"] by (simp add: seq_LEQ [of ?n])
  define i where "i = (inseg r)\<lparr>seg_len := ?j, seg_p := Some (shrink p ?j)\<rparr>"
  have trim: "trim_against_ooseq pcb r = Some (pcb, r\<lparr>inseg := i\<rparr>)"
    using assms(1-4) leq by (simp add: trim_against_ooseq_def trim_seg_def i_def)
  have cut: "concat (shrink p ?j) = take (off ?n (seg_seqno g)) (concat p)" using l j by (simp add: concat_shrink)
  then have "unat (tot_len (shrink p ?j)) = off ?n (seg_seqno g)"
    using l assms(9,11) by (simp add: unat_tot_len)
  then have t: "tot_len (shrink p ?j) > 0" using assms(8) by (simp add: unat_pos)
  have "unat (ucast ?j + 1 :: u32) = unat ?j + 1"
    using j assms(10) unat_add_small [of "ucast ?j :: u32" 1] by (simp add: unat_ucast_half)
  then have "ucast (ucast (TCP_TCPLEN i) :: u16) = (seg_seqno g - ?n) + (1 :: u32)"
    using j assms(5,10) by (simp add: TCP_TCPLEN_def i_def word_unat_eq_iff unat_ucast_half unat_ucast_u16 off_def unat_add_small)
  then have n: "?n + ucast (ucast (TCP_TCPLEN i) :: u16) = seg_seqno g + 1" by simp
  let ?r = "r\<lparr>tcplen := ucast (TCP_TCPLEN i), inseg := i\<lparr>seg_p := None\<rparr>, recv_data := Some (shrink p ?j), recv_flags := TF_GOT_FIN\<rparr>"
  let ?pcb = "shrink_wnd (ucast (ucast (TCP_TCPLEN i) :: u16)) (pcb\<lparr>rcv_nxt := seg_seqno g + 1\<rparr>)"
  have acc: "accept_inseg pcb (r\<lparr>inseg := i\<rparr>) = Some (?pcb, ?r)"
    using assms(5,6) t n by (simp add: accept_inseg_def Let_def i_def)
  have deq: "dequeue_ooseq (ooseq ?pcb) ?pcb ?r = Some (?pcb\<lparr>ooseq := g # gs\<rparr>, ?r)"
    using assms(1) by simp
  obtain f where "tcp_ack (?pcb\<lparr>ooseq := g # gs\<rparr>) s = (?pcb\<lparr>ooseq := g # gs, flags := f\<rparr>, s)"
    using tcp_ack_input [of s "?pcb\<lparr>ooseq := g # gs\<rparr>"] assms(7) by auto
  then have "receive_inseq r pcb s = Some (?r, ?pcb\<lparr>ooseq := g # gs, flags := f\<rparr>, s)"
    using trim acc deq by (simp add: receive_inseq_def)
  then show ?thesis using cut by (auto simp: TF_GOT_FIN_def)
qed

theorem receive_inseq_trim_keeps_fin_witness:
  "\<exists>r' pcb'. receive_inseq (sample_rx (sample_seg 0xfffffffe 1 [[254, 255, 0, 1, 2, 3, 4, 5, 6]])) sample_pcb sample_tcp
      = Some (r', pcb', sample_tcp) \<and> rcv_nxt pcb' = 4 \<and> delivered r' = [254, 255, 0, 1, 2]
    \<and> has (recv_flags r') TF_GOT_FIN \<and> ooseq pcb' = [sample_seg 3 0 [[3], [4, 5]]]"
  using receive_inseq_trim_keeps_fin [of sample_pcb "sample_seg 3 0 [[3], [4, 5]]" "[]"
    "sample_rx (sample_seg 0xfffffffe 1 [[254, 255, 0, 1, 2, 3, 4, 5, 6]])" "[[254, 255, 0, 1, 2, 3, 4, 5, 6]]" sample_tcp]
  by (simp add: sample_defs off_def tot_len_def TCP_FIN_def)

end
