(* ===== verification/Tcp_Send.thy ===== *)
theory Tcp_Send
  imports Tcp_Stream
begin

section \<open>TCP: the send queues\<close>

text \<open>
  The segments that are sent and not acknowledged, followed by those not yet sent, cover the sequence
  numbers from the oldest unacknowledged one to \<^verbatim>\<open>snd_lbb\<close> without a gap.
\<close>

fun contiguous :: "u32 \<Rightarrow> tcp_seg list \<Rightarrow> u32 \<Rightarrow> bool" where
  "contiguous n [] m \<longleftrightarrow> n = m"
| "contiguous n (g # gs) m \<longleftrightarrow> seg_seqno g = n \<and> contiguous (n + TCP_TCPLEN g) gs m"

definition queue_data :: "tcp_seg list \<Rightarrow> u8 list" where
  "queue_data gs = concat (map seg_data gs)"

lemma queue_data_simps [simp]: "queue_data [] = []" "queue_data (g # gs) = seg_data g @ queue_data gs"
  "queue_data (xs @ ys) = queue_data xs @ queue_data ys"
  by (simp_all add: queue_data_def)

lemma contiguous_append: "contiguous n (xs @ ys) m \<longleftrightarrow> (\<exists>k. contiguous n xs k \<and> contiguous k ys m)"
  by (induction xs arbitrary: n) auto

subsection \<open>Queueing\<close>

lemma enqueue_bufs_data:
  assumes "enqueue_bufs None af (Some d) l q s = (Some (p, q'), s')"
  shows "concat p = take (unat l) d"
  using assms by (auto simp: enqueue_bufs_def Let_def split: prod.splits if_splits)

definition plain :: "u8 \<Rightarrow> bool" where
  "plain fl \<longleftrightarrow> \<not> has fl TCP_SYN \<and> \<not> has fl TCP_FIN"

lemma enqueue_seg_simps [simp]:
  "seg_seqno (enqueue_seg pcb fl od sq l p) = sq" "seg_len (enqueue_seg pcb fl od sq l p) = l"
  "seg_flags (enqueue_seg pcb fl od sq l p) = fl" "seg_data (enqueue_seg pcb fl od sq l p) = concat p"
  "seg_p (enqueue_seg pcb fl od sq l p) = Some p"
  by (simp_all add: enqueue_seg_def seg_data_def)

lemma TCPLEN_plain: "plain (seg_flags g) \<Longrightarrow> TCP_TCPLEN g = ucast (seg_len g)"
  by (simp add: TCP_TCPLEN_def plain_def)

lemma ucast_u16_0 [simp]: "(ucast (l :: u16) :: u32) = 0 \<longleftrightarrow> l = 0"
  by (metis ucast_up_down unsigned_0)

lemma unat_diff_half: "l \<le> (k :: u16) \<Longrightarrow> unat (k - l) = unat k - unat l"
  by (rule unat_sub)

lemma ucast_diff_half: "l \<le> (k :: u16) \<Longrightarrow> ucast l + ucast (k - l) = (ucast k :: u32)"
proof -
  assume "l \<le> k"
  then have "unat l + unat (k - l) = unat k" by (simp add: unat_diff_half word_le_nat_alt)
  then show ?thesis
    using unat_half [of k] by (simp add: word_unat_eq_iff unat_add_small unat_ucast_half)
qed

text \<open>The loop of \<^verbatim>\<open>tcp_enqueue\<close> on data: the new segments continue the queue and hold the data.\<close>

definition chopped :: "tcp_pcb \<Rightarrow> u8 \<Rightarrow> tcp_seg list \<Rightarrow> bool" where
  "chopped pcb fl gs \<longleftrightarrow> (\<forall>g\<in>set gs. seg_flags g = fl \<and> seg_p g \<noteq> None \<and> seg_len g \<le> mss pcb
     \<and> seg_len g \<noteq> 0 \<and> length (seg_data g) = unat (seg_len g))"

lemma enqueue_loop_data:
  assumes "enqueue_loop pcb fl af od ptr left sq ql queue sl s = Inr (queue', sl', ql', s')"
    and "plain fl" "od = None" "ptr = Some d" "unat left \<le> length d" "contiguous n queue sq" "chopped pcb fl queue"
    and "0 < mss pcb" "queue \<noteq> [] \<or> 0 < left"
  shows "contiguous n queue' (sq + ucast left) \<and> queue_data queue' = queue_data queue @ take (unat left) d
    \<and> chopped pcb fl queue' \<and> queue' \<noteq> []"
  using assms
proof (induction pcb fl af od ptr left sq ql queue sl s arbitrary: d rule: enqueue_loop.induct)
  case (1 pcb fl af od ptr left sq ql queue sl s)
  note prems = "1.prems"
  show ?case
  proof (cases "queue = [] \<or> left > 0")
    case False
    then have "left = 0" using word_gt_0 [of left] by blast
    with False show ?thesis using prems by (subst (asm) enqueue_loop.simps) auto
  next
    case True
    let ?l = "if left > mss pcb then mss pcb else left"
    obtain s1 p ql1 s2 where m: "memory_left s = (True, s1)"
      and b: "enqueue_bufs od af ptr ?l ql s1 = (Some (p, ql1), s2)"
      and q: "\<not> (ql1 > TCP_SND_QUEUELEN \<or> ql1 > TCP_SNDQUEUELEN_OVERFLOW)"
      and rec: "enqueue_loop pcb fl af od (map_option (drop (unat ?l)) ptr) (left - ?l) (sq + ucast ?l) ql1
        (queue @ [enqueue_seg pcb fl od sq ?l p]) ?l s2 = Inr (queue', sl', ql', s')"
      using prems(1) True
      by (subst (asm) enqueue_loop.simps) (simp add: Let_def split: prod.splits bool.splits option.splits if_splits)
    have l: "?l \<le> left" "?l \<le> mss pcb" by auto
    have nz: "?l \<noteq> 0" using True prems(8,9) by auto
    have p: "concat p = take (unat ?l) d" using enqueue_bufs_data b prems(3,4) by metis
    have "unat ?l \<le> length d" using l(1) prems(5) by (simp add: word_le_nat_alt)
    then have c: "contiguous n (queue @ [enqueue_seg pcb fl od sq ?l p]) (sq + ucast ?l)"
      "chopped pcb fl (queue @ [enqueue_seg pcb fl od sq ?l p])"
      using prems(2,6,7) p l(2) nz by (auto simp: contiguous_append chopped_def TCPLEN_plain)
    have "unat (left - ?l) \<le> length (drop (unat ?l) d)"
      using prems(5) unat_diff_half [OF l(1)] by simp
    with "1.IH" [OF True refl m [symmetric] refl b [symmetric] refl refl q rec prems(2,3) _ _ c prems(8), of "drop (unat ?l) d"]
    have IH: "contiguous n queue' (sq + ucast ?l + ucast (left - ?l))"
      "queue_data queue' = (queue_data queue @ concat p) @ take (unat (left - ?l)) (drop (unat ?l) d)"
      "chopped pcb fl queue'" "queue' \<noteq> []"
      using prems(4) by simp_all
    have "take (unat ?l) d @ take (unat (left - ?l)) (drop (unat ?l) d) = take (unat left) d"
      using l(1) unat_diff_half [OF l(1)] by (simp add: word_le_nat_alt flip: take_add)
    then show ?thesis using IH p ucast_diff_half [OF l(1)] by (simp add: add.assoc)
  qed
qed

lemma plain_iff: "plain fl \<longleftrightarrow> \<not> has fl (TCP_SYN OR TCP_FIN)"
  by (auto simp: plain_def bit.conj_disj_distrib or_eq_0_iff)

lemma psh_neutral [simp]: "has (w OR TCP_PSH) TCP_FIN \<longleftrightarrow> has w TCP_FIN" "has (w OR TCP_PSH) TCP_SYN \<longleftrightarrow> has w TCP_SYN"
  by (simp_all add: bit.conj_disj_distrib2 TCP_PSH_def TCP_FIN_def TCP_SYN_def)

lemma ack_neutral [simp]: "has (w OR TCP_ACK) TCP_FIN \<longleftrightarrow> has w TCP_FIN" "has (w OR TCP_ACK) TCP_SYN \<longleftrightarrow> has w TCP_SYN"
  by (simp_all add: bit.conj_disj_distrib2 TCP_ACK_def TCP_FIN_def TCP_SYN_def)

text \<open>A queued segment: it has buffers, fits the segment size, takes sequence numbers and, when it carries data only, is as long as it says.\<close>

definition sound :: "u16 \<Rightarrow> tcp_seg \<Rightarrow> bool" where
  "sound m g \<longleftrightarrow> seg_p g \<noteq> None \<and> seg_len g \<le> m \<and> TCP_TCPLEN g \<noteq> 0
     \<and> (plain (seg_flags g) \<longrightarrow> length (seg_data g) = unat (seg_len g))"

text \<open>Two segments that are the same to the receiver: sequence number, length and content.\<close>

definition view :: "tcp_seg \<Rightarrow> u32 \<times> u16 \<times> bufs option \<times> bool \<times> bool" where
  "view g = (seg_seqno g, seg_len g, seg_p g, has (seg_flags g) TCP_SYN, has (seg_flags g) TCP_FIN)"

lemma viewD:
  assumes "view g = view h"
  shows "seg_seqno g = seg_seqno h" "seg_len g = seg_len h" "seg_p g = seg_p h" "seg_data g = seg_data h"
    "TCP_TCPLEN g = TCP_TCPLEN h" "plain (seg_flags g) = plain (seg_flags h)" "sound m g = sound m h"
  using assms by (auto simp: view_def seg_data_def TCP_TCPLEN_def plain_def sound_def)

lemma view_psh [simp]: "view (TCPH_SET_FLAG TCP_PSH g) = view g"
  by (simp add: view_def TCPH_SET_FLAG_def)

lemma view_ack [simp]: "view (TCPH_SET_FLAG TCP_ACK g) = view g"
  by (simp add: view_def TCPH_SET_FLAG_def)

lemma view_set_psh [simp]: "map view (set_psh b gs) = map view gs"
  by (cases gs rule: rev_cases) (auto simp: set_psh_def)

lemma view_contiguous: "map view gs = map view hs \<Longrightarrow> contiguous n gs m = contiguous n hs m"
proof (induction gs arbitrary: hs n)
  case (Cons g gs)
  then obtain h hs' where h: "hs = h # hs'" "view g = view h" "map view gs = map view hs'" by auto
  show ?case using Cons.IH [OF h(3)] viewD(1,5) [OF h(2)] h(1) by simp
qed simp

lemma view_queue_data: "map view gs = map view hs \<Longrightarrow> queue_data gs = queue_data hs"
proof (induction gs arbitrary: hs)
  case (Cons g gs)
  then obtain h hs' where h: "hs = h # hs'" "view g = view h" "map view gs = map view hs'" by auto
  show ?case using Cons.IH [OF h(3)] viewD(4) [OF h(2)] h(1) by simp
qed simp

lemma view_all_sound: "map view gs = map view hs \<Longrightarrow> (\<forall>g\<in>set gs. sound m g) = (\<forall>h\<in>set hs. sound m h)"
proof (induction gs arbitrary: hs)
  case (Cons g gs)
  then obtain h hs' where h: "hs = h # hs'" "view g = view h" "map view gs = map view hs'" by auto
  show ?case using Cons.IH [OF h(3)] viewD(7) [OF h(2)] h(1) by simp
qed simp

lemma chain_seg_merges:
  assumes "can_merge pcb fl u g" "seg_flags g = fl" "seg_p u \<noteq> None" "seg_p g \<noteq> None"
  shows "seg_seqno (chain_seg u g) = seg_seqno u" "TCP_TCPLEN (chain_seg u g) = TCP_TCPLEN u + TCP_TCPLEN g"
    "seg_data (chain_seg u g) = seg_data u @ seg_data g"
    "sound (mss pcb) u \<Longrightarrow> sound (mss pcb) g \<Longrightarrow> sound (mss pcb) (chain_seg u g)"
proof -
  have pl: "plain (seg_flags u)" "plain (seg_flags g)" "plain (seg_flags (chain_seg u g))"
    using assms(1,2) by (auto simp: can_merge_def plain_iff chain_seg_def)
  have "unat (seg_len u + seg_len g) = unat (seg_len u) + unat (seg_len g)"
    using assms(1) unat_half [of "mss pcb"] by (intro unat_add_small) (simp add: can_merge_def)
  then have l: "unat (seg_len (chain_seg u g)) = unat (seg_len u) + unat (seg_len g)" by (simp add: chain_seg_def)
  show "seg_seqno (chain_seg u g) = seg_seqno u" by (simp add: chain_seg_def)
  have "ucast (seg_len (chain_seg u g)) = ucast (seg_len u) + (ucast (seg_len g) :: u32)"
    using l unat_half [of "seg_len u"] unat_half [of "seg_len g"]
    by (simp add: word_unat_eq_iff unat_add_small unat_ucast_half)
  then show "TCP_TCPLEN (chain_seg u g) = TCP_TCPLEN u + TCP_TCPLEN g" using pl by (simp add: TCPLEN_plain)
  have t: "sound m u \<Longrightarrow> TCP_TCPLEN (chain_seg u g) \<noteq> 0" for m
    using l pl by (auto simp: TCPLEN_plain sound_def word_unat_eq_iff unat_ucast_half)
  show d: "seg_data (chain_seg u g) = seg_data u @ seg_data g"
    using assms(3,4) by (auto simp: chain_seg_def seg_data_def)
  show "sound (mss pcb) (chain_seg u g)" if "sound (mss pcb) u" "sound (mss pcb) g"
    using that pl l d t assms(1,3,4) by (auto simp: sound_def can_merge_def word_le_nat_alt chain_seg_def)
qed

lemma join_queue_extends:
  assumes "queue \<noteq> []" "\<forall>g\<in>set queue. seg_flags g = fl \<and> sound (mss pcb) g" "\<forall>g\<in>set (unsent pcb). sound (mss pcb) g"
  shows "contiguous n (unsent pcb @ queue) m \<Longrightarrow> contiguous n (join_queue pcb fl psh queue) m"
    and "queue_data (join_queue pcb fl psh queue) = queue_data (unsent pcb) @ queue_data queue"
    and "\<forall>g\<in>set (join_queue pcb fl psh queue). sound (mss pcb) g"
proof -
  let ?j = "join_queue pcb fl psh queue"
  have "(contiguous n (unsent pcb @ queue) m \<longrightarrow> contiguous n ?j m)
    \<and> queue_data ?j = queue_data (unsent pcb) @ queue_data queue \<and> (\<forall>g\<in>set ?j. sound (mss pcb) g)"
  proof (cases "unsent pcb \<noteq> [] \<and> can_merge pcb fl (last (unsent pcb)) (hd queue)")
    case False
    then have "map view ?j = map view (unsent pcb @ queue)" by (auto simp: join_queue_def)
    from view_contiguous [OF this] view_queue_data [OF this] view_all_sound [OF this] show ?thesis using assms by auto
  next
    case True
    obtain q qs us u where q: "queue = q # qs" and u: "unsent pcb = us @ [u]"
      using True assms(1) by (metis append_butlast_last_id list.exhaust)
    then have j: "map view ?j = map view (us @ chain_seg u q # qs)" using True by (auto simp: join_queue_def)
    have p: "can_merge pcb fl u q" "seg_flags q = fl" "seg_p u \<noteq> None" "seg_p q \<noteq> None"
      "sound (mss pcb) u" "sound (mss pcb) q" using True assms(2,3) q u by (auto simp: sound_def)
    note c = chain_seg_merges [OF p(1-4)]
    show ?thesis
      using view_contiguous [OF j] view_queue_data [OF j] view_all_sound [OF j] c p(5,6) assms(2,3) q u
      by (auto simp: contiguous_append add.assoc)
  qed
  then show "contiguous n (unsent pcb @ queue) m \<Longrightarrow> contiguous n ?j m"
    "queue_data ?j = queue_data (unsent pcb) @ queue_data queue" "\<forall>g\<in>set ?j. sound (mss pcb) g" by auto
qed

text \<open>The send queue of a control block starts at \<^term>\<open>n\<close>, ends at \<^verbatim>\<open>snd_lbb\<close> and has no gap.\<close>

definition send_queue :: "u32 \<Rightarrow> tcp_pcb \<Rightarrow> bool" where
  "send_queue n pcb \<longleftrightarrow> contiguous n (unacked pcb @ unsent pcb) (snd_lbb pcb)
     \<and> (\<forall>g\<in>set (unacked pcb @ unsent pcb). sound (mss pcb) g)"

lemma chopped_sound: "plain fl \<Longrightarrow> chopped pcb fl gs \<Longrightarrow> \<forall>g\<in>set gs. seg_flags g = fl \<and> sound (mss pcb) g"
  by (auto simp: chopped_def sound_def TCPLEN_plain)

lemma enqueue_ctrl:
  assumes "enqueue_loop pcb fl af od None 0 sq ql [] sl s = Inr (queue, sl', ql', s')"
  shows "\<exists>p. queue = [enqueue_seg pcb fl od sq 0 p] \<and> (od = None \<longrightarrow> concat p = [])"
proof -
  have "enqueue_loop pcb fl af od p 0 sq' ql' (g # gs) sl' s' = Inr (g # gs, sl', ql', s')" for p sq' ql' g gs sl' s'
    by (subst enqueue_loop.simps) simp
  then show ?thesis using assms
    by (subst (asm) enqueue_loop.simps)
      (auto simp: Let_def enqueue_bufs_def split: prod.splits bool.splits option.splits if_splits)
qed

lemma enqueue_extends:
  assumes "send_queue n pcb" "queue \<noteq> []" "\<forall>g\<in>set queue. seg_flags g = fl \<and> sound (mss pcb) g"
    and "contiguous (snd_lbb pcb) queue m" "unacked pcb' = unacked pcb" "unsent pcb' = join_queue pcb fl psh queue"
    and "snd_lbb pcb' = m" "mss pcb' = mss pcb"
  shows "send_queue n pcb' \<and> queue_data (unsent pcb') = queue_data (unsent pcb) @ queue_data queue"
proof -
  have u: "\<forall>g\<in>set (unsent pcb). sound (mss pcb) g" using assms(1) by (simp add: send_queue_def)
  obtain k where "contiguous n (unacked pcb) k" "contiguous k (unsent pcb @ queue) m"
    using assms(1,4) by (auto simp: send_queue_def contiguous_append)
  then have "contiguous n (unacked pcb') k" "contiguous k (unsent pcb') m"
    using assms(5,6) join_queue_extends(1) [OF assms(2,3) u] by simp_all
  then show ?thesis
    using assms join_queue_extends(2,3) [OF assms(2,3) u] by (auto simp: send_queue_def contiguous_append)
qed

lemma tcp_enqueue_data:
  assumes "tcp_enqueue pcb (Some d) len fl af None s = (e, pcb', s')" "send_queue n pcb" "plain fl"
    and "unat len \<le> length d" "0 < len" "0 < mss pcb"
  shows "if e = ERR_OK
    then send_queue n pcb' \<and> queue_data (unsent pcb') = queue_data (unsent pcb) @ take (unat len) d
      \<and> unacked pcb' = unacked pcb \<and> snd_lbb pcb' = snd_lbb pcb + ucast len
      \<and> unat (snd_buf pcb') + unat len = unat (snd_buf pcb)
    else e = ERR_MEM \<and> pcb' = pcb\<lparr>flags := flags pcb OR TF_NAGLEMEMERR\<rparr>"
proof (cases "enqueue_loop pcb fl af None (Some d) len (snd_lbb pcb) (snd_queuelen pcb) [] 0 s")
  case (Inl t)
  then show ?thesis using assms(1) by (auto simp: tcp_enqueue_def Let_def split: if_splits)
next
  case (Inr q)
  obtain queue sl ql t where q: "q = (queue, sl, ql, t)" by (metis prod_cases4)
  have "contiguous (snd_lbb pcb) queue (snd_lbb pcb + ucast len) \<and> queue_data queue = queue_data [] @ take (unat len) d
    \<and> chopped pcb fl queue \<and> queue \<noteq> []"
    using Inr assms(3-6) by (intro enqueue_loop_data) (auto simp: q chopped_def)
  then have c: "contiguous (snd_lbb pcb) queue (snd_lbb pcb + ucast len)" "queue_data queue = take (unat len) d"
    "\<forall>g\<in>set queue. seg_flags g = fl \<and> sound (mss pcb) g" "queue \<noteq> []"
    using chopped_sound [OF assms(3)] by auto
  have fl: "\<not> has fl TCP_SYN" "\<not> has fl TCP_FIN" using assms(3) by (auto simp: plain_def)
  show ?thesis
  proof (cases "e = ERR_OK")
    case True
    then have p: "pcb' = pcb\<lparr>unsent := join_queue pcb fl (sl > 0 \<and> \<not> has af TCP_WRITE_FLAG_MORE) queue,
        snd_lbb := snd_lbb pcb + ucast len, snd_buf := snd_buf pcb - len, snd_queuelen := ql\<rparr>" "len \<le> snd_buf pcb"
      using assms(1) Inr fl by (auto simp: tcp_enqueue_def Let_def q split: if_splits)
    then have "send_queue n pcb' \<and> queue_data (unsent pcb') = queue_data (unsent pcb) @ queue_data queue"
      by (intro enqueue_extends [OF assms(2) c(4,3,1)]) auto
    with True p c(2) show ?thesis by (auto simp: unat_sub word_le_nat_alt)
  next
    case False
    then show ?thesis using assms(1) Inr by (auto simp: tcp_enqueue_def Let_def q split: if_splits)
  qed
qed

lemma tcp_enqueue_ctrl:
  assumes "tcp_enqueue pcb None 0 fl af od s = (ERR_OK, pcb', s')" "send_queue n pcb" "\<not> plain fl"
  shows "send_queue n pcb' \<and> snd_lbb pcb' = snd_lbb pcb + 1 \<and> unacked pcb' = unacked pcb
    \<and> (od = None \<longrightarrow> queue_data (unsent pcb') = queue_data (unsent pcb)) \<and> (has fl TCP_FIN \<longrightarrow> has (flags pcb') TF_FIN)"
proof -
  obtain queue sl ql t where l: "enqueue_loop pcb fl af od None 0 (snd_lbb pcb) (snd_queuelen pcb) [] 0 s = Inr (queue, sl, ql, t)"
    and p: "pcb' = (if has fl TCP_FIN then (pcb\<lparr>unsent := join_queue pcb fl (sl > 0 \<and> \<not> has af TCP_WRITE_FLAG_MORE) queue,
        flags := flags pcb OR TF_FIN\<rparr>) else pcb\<lparr>unsent := join_queue pcb fl (sl > 0 \<and> \<not> has af TCP_WRITE_FLAG_MORE) queue\<rparr>)
        \<lparr>snd_lbb := snd_lbb pcb + 1, snd_buf := snd_buf pcb - 1, snd_queuelen := ql\<rparr>"
    using assms(1,3) by (auto simp: tcp_enqueue_def Let_def plain_def split: if_splits sum.splits)
  obtain b where q: "queue = [enqueue_seg pcb fl od (snd_lbb pcb) 0 b]" "od = None \<longrightarrow> concat b = []"
    using enqueue_ctrl [OF l] by blast
  have "contiguous (snd_lbb pcb) queue (snd_lbb pcb + 1)" "\<forall>g\<in>set queue. seg_flags g = fl \<and> sound (mss pcb) g"
    using assms(3) q(1) by (auto simp: TCP_TCPLEN_def plain_def sound_def)
  then have "send_queue n pcb' \<and> queue_data (unsent pcb') = queue_data (unsent pcb) @ queue_data queue"
    using p q(1) by (intro enqueue_extends [OF assms(2)]) auto
  moreover have "has (w OR TF_FIN) TF_FIN" for w by (simp add: bit.conj_disj_distrib2 TF_FIN_def)
  ultimately show ?thesis using p q by auto
qed

subsection \<open>Sending\<close>

definition span :: "tcp_seg list \<Rightarrow> nat" where
  "span gs = sum_list (map (\<lambda>g. unat (TCP_TCPLEN g)) gs)"

lemma span_simps [simp]: "span [] = 0" "span (g # gs) = unat (TCP_TCPLEN g) + span gs"
  "span (xs @ ys) = span xs + span ys"
  by (simp_all add: span_def)

lemma contiguous_end: "contiguous n gs m \<Longrightarrow> m = n + word_of_nat (span gs)"
proof (induction gs arbitrary: n)
  case (Cons g gs)
  then have "m = n + TCP_TCPLEN g + word_of_nat (span gs)" by simp
  then show ?case by (simp add: add.assoc)
qed simp

lemma contiguous_off:
  assumes "contiguous n gs m" "span gs < 2 ^ 30"
  shows "off n m = span gs"
  using contiguous_end [OF assms(1)] assms(2) by (simp add: off_def unat_of_nat_small)

text \<open>A segment taken from the head of the unsent queue belongs at the end of the unacknowledged one.\<close>

lemma queue_unacked_appends:
  assumes "contiguous n (us @ [g]) m" "span us < 2 ^ 30" "view g' = view g"
  shows "queue_unacked g' us = us @ [g']"
proof (cases us rule: rev_cases)
  case (snoc vs u)
  obtain k where k: "contiguous n vs k" "seg_seqno u = k" "contiguous n us (seg_seqno g)"
    using assms(1) by (auto simp: snoc contiguous_append)
  have "off n (seg_seqno u) = span vs" "off n (seg_seqno g) = span us"
    using contiguous_off [OF k(1)] contiguous_off [OF k(3)] k(2) assms(2) by (simp_all add: snoc)
  then have "\<not> TCP_SEQ_LT (seg_seqno g') (seg_seqno u)"
    using assms(2) viewD(1) [OF assms(3)] by (simp add: seq_LT [of n] snoc)
  then show ?thesis by (simp add: queue_unacked_def snoc)
qed (simp add: queue_unacked_def)

text \<open>What the output of a segment leaves alone, and what is put on the wire.\<close>

definition sender where
  "sender pcb = (lastack pcb, snd_wnd pcb, cwnd pcb, snd_lbb pcb, mss pcb, remote_ip pcb, snd_buf pcb)"

lemma senderD:
  assumes "sender pcb' = sender pcb"
  shows "lastack pcb' = lastack pcb" "snd_wnd pcb' = snd_wnd pcb" "cwnd pcb' = cwnd pcb"
    "snd_lbb pcb' = snd_lbb pcb" "mss pcb' = mss pcb" "remote_ip pcb' = remote_ip pcb" "in_flight pcb' g = in_flight pcb g"
  using assms by (simp_all add: sender_def in_flight_def)

definition wire :: "datagram \<Rightarrow> u32 \<times> u8 list" where
  "wire d = (hdr_seqno (d_hdr d), d_data d)"

definition seg_wire :: "tcp_seg \<Rightarrow> u32 \<times> u8 list" where
  "seg_wire g = (seg_seqno g, seg_data g)"

lemma quiet_route [simp]: "quiet s s' \<Longrightarrow> ip_route ip s' = ip_route ip s"
  by (simp only: ip_route_def quietD(8,9))

lemma send_segment_sends:
  assumes "send_segment g pcb s = (g', pcb', s')"
  shows "view g' = view g" "sender pcb' = sender pcb" "unsent pcb' = unsent pcb" "unacked pcb' = unacked pcb"
    "ip_route (remote_ip pcb) s \<noteq> None \<Longrightarrow> map wire (ip_out s') = map wire (ip_out s) @ [seg_wire g]"
  using assms
  by (auto simp: send_segment_def Let_def view_def sender_def with_chksum_def ip_output_def wire_def seg_wire_def
      seg_data_def split: if_splits prod.splits option.splits)

lemma tcp_output_segment_sends:
  assumes "tcp_output_segment g pcb s = (g', pcb', s')"
  shows "view g' = view g" "sender pcb' = sender pcb" "unsent pcb' = unsent pcb" "unacked pcb' = unacked pcb"
    "ip_route (remote_ip pcb) s \<noteq> None \<Longrightarrow> map wire (ip_out s') = map wire (ip_out s) @ [seg_wire g]"
proof -
  let ?g = "g\<lparr>seg_hdr := (seg_hdr g)\<lparr>hdr_ackno := rcv_nxt pcb, hdr_wnd := rcv_ann_wnd pcb\<rparr>\<rparr>"
  have v: "view ?g = view g" "seg_wire ?g = seg_wire g" by (simp_all add: view_def seg_wire_def seg_data_def)
  have "view g' = view g \<and> sender pcb' = sender pcb \<and> unsent pcb' = unsent pcb \<and> unacked pcb' = unacked pcb
    \<and> (ip_route (remote_ip pcb) s \<noteq> None \<longrightarrow> map wire (ip_out s') = map wire (ip_out s) @ [seg_wire g])"
  proof (cases "ip_route (remote_ip pcb) s = None \<and> local_ip pcb = 0")
    case True
    then show ?thesis using assms v by (auto simp: tcp_output_segment_def Let_def)
  next
    case False
    then obtain ip where "send_segment ?g (pcb\<lparr>local_ip := ip\<rparr>) s = (g', pcb', s')"
      using assms that [of "local_ip pcb"] by (auto simp: tcp_output_segment_def Let_def split: if_splits)
    from send_segment_sends [OF this] v show ?thesis by (auto simp: sender_def)
  qed
  then show "view g' = view g" "sender pcb' = sender pcb" "unsent pcb' = unsent pcb" "unacked pcb' = unacked pcb"
    "ip_route (remote_ip pcb) s \<noteq> None \<Longrightarrow> map wire (ip_out s') = map wire (ip_out s) @ [seg_wire g]" by auto
qed

lemma output_one_sends:
  assumes "output_one g rest pcb s = (pcb', s')" "TCP_TCPLEN g \<noteq> 0"
  shows "sender pcb' = sender pcb" "unsent pcb' = rest"
    "\<exists>g'. view g' = view g \<and> unacked pcb' = queue_unacked g' (unacked pcb)"
    "ip_route (remote_ip pcb) s \<noteq> None \<Longrightarrow> map wire (ip_out s') = map wire (ip_out s) @ [seg_wire g]"
proof -
  let ?g = "if state pcb \<noteq> SYN_SENT then TCPH_SET_FLAG TCP_ACK g else g"
  let ?f = "if state pcb \<noteq> SYN_SENT then flags pcb AND NOT (TF_ACK_DELAY OR TF_ACK_NOW) else flags pcb"
  obtain h p t where o: "tcp_output_segment ?g (pcb\<lparr>unsent := rest, flags := ?f\<rparr>) s = (h, p, t)" by (metis prod_cases3)
  note t = tcp_output_segment_sends [OF o]
  have v: "view ?g = view g" by simp
  have w: "seg_wire ?g = seg_wire g" using viewD(1,4) [OF v] by (simp add: seg_wire_def)
  have h: "view h = view g" using t(1) v by simp
  have "TCP_TCPLEN h \<noteq> 0" using viewD(5) [OF h] assms(2) by simp
  then have r: "sender pcb' = sender p" "unsent pcb' = unsent p" "unacked pcb' = queue_unacked h (unacked p)" "s' = t"
    using assms(1) o by (auto simp: output_one_def Let_def sender_def word_gt_0 split: if_splits prod.splits)
  show "sender pcb' = sender pcb" using r(1) t(2) by (simp add: sender_def)
  show "unsent pcb' = rest" using r(2) t(3) by simp
  show "\<exists>g'. view g' = view g \<and> unacked pcb' = queue_unacked g' (unacked pcb)" using h r(3) t(4) by auto
  show "map wire (ip_out s') = map wire (ip_out s) @ [seg_wire g]" if "ip_route (remote_ip pcb) s \<noteq> None"
    using t(5) that r(4) w by simp
qed

lemma output_loop_sends:
  assumes "output_loop w gs pcb s = (pcb', s')" "unsent pcb = gs" "send_queue n pcb" "span (unacked pcb @ gs) < 2 ^ 30"
  shows "\<exists>k. send_queue n pcb' \<and> sender pcb' = sender pcb \<and> unsent pcb' = drop k gs
    \<and> (\<forall>g\<in>set (take k gs). in_flight pcb g \<le> w)
    \<and> map view (unacked pcb') = map view (unacked pcb @ take k gs)
    \<and> (unsent pcb' = [] \<or> in_flight pcb (hd (unsent pcb')) > w \<or> unacked pcb' \<noteq> [] \<and> length (unsent pcb') = 1)
    \<and> (ip_route (remote_ip pcb) s \<noteq> None \<longrightarrow>
        map wire (ip_out s') = map wire (ip_out s) @ map seg_wire (take k gs))"
  using assms
proof (induction w gs pcb s rule: output_loop.induct)
  case (1 w pcb s)
  then show ?case by simp
next
  case (2 w g rest pcb s)
  note prems = "2.prems"
  show ?case
  proof (cases "in_flight pcb g \<le> w \<and> (tcp_do_output_nagle pcb \<or> has (flags pcb) (TF_NAGLEMEMERR OR TF_FIN))")
    case False
    then have "pcb' = pcb" "s' = s" using prems(1) by (auto split: if_splits)
    moreover have "in_flight pcb g > w \<or> unacked pcb \<noteq> [] \<and> rest = []"
      using False prems(2) by (auto simp: tcp_do_output_nagle_def)
    ultimately show ?thesis using prems(2,3) by (intro exI [of _ 0]) auto
  next
    case True
    obtain p t where o: "output_one g rest pcb s = (p, t)" by force
    have r: "output_loop w rest p t = (pcb', s')" using prems(1) True o by (auto split: if_splits)
    have sd: "sound (mss pcb) g" using prems(2,3) by (simp add: send_queue_def)
    then have nz: "TCP_TCPLEN g \<noteq> 0" by (simp add: sound_def)
    note one = output_one_sends [OF o nz]
    obtain g' where g': "view g' = view g" "unacked p = queue_unacked g' (unacked pcb)" using one(3) by blast
    have c: "contiguous n (unacked pcb @ g # rest) (snd_lbb pcb)" using prems(2,3) by (simp add: send_queue_def)
    then have "contiguous n (unacked pcb @ [g]) (seg_seqno g + TCP_TCPLEN g)" by (auto simp: contiguous_append)
    then have u: "unacked p = unacked pcb @ [g']"
      using queue_unacked_appends g' prems(4) by fastforce
    have e: "map view (unacked p @ unsent p) = map view (unacked pcb @ unsent pcb)"
      using u g'(1) one(2) prems(2) by simp
    have q: "send_queue n p"
      using prems(3) view_contiguous [OF e] view_all_sound [OF e] senderD(4,5) [OF one(1)] by (simp add: send_queue_def)
    have sp: "span (unacked p @ rest) < 2 ^ 30" using prems(4) u viewD(5) [OF g'(1)] by simp
    have nagle: "in_flight pcb g \<le> w" "\<not> (\<not> tcp_do_output_nagle pcb \<and> \<not> has (flags pcb) (TF_NAGLEMEMERR OR TF_FIN))"
      using True by blast+
    obtain k where k: "send_queue n pcb'" "sender pcb' = sender p" "unsent pcb' = drop k rest"
      "\<forall>g\<in>set (take k rest). in_flight p g \<le> w" "map view (unacked pcb') = map view (unacked p @ take k rest)"
      "unsent pcb' = [] \<or> in_flight p (hd (unsent pcb')) > w \<or> unacked pcb' \<noteq> [] \<and> length (unsent pcb') = 1"
      "ip_route (remote_ip p) t \<noteq> None \<longrightarrow> map wire (ip_out s') = map wire (ip_out t) @ map seg_wire (take k rest)"
      using "2.IH" [OF nagle o [symmetric] refl r one(2) q sp] by blast
    have "ip_route (remote_ip p) t = ip_route (remote_ip pcb) s"
      using output_one_frame [OF o] senderD(6) [OF one(1)] by simp
    then have "ip_route (remote_ip pcb) s \<noteq> None \<longrightarrow>
        map wire (ip_out s') = map wire (ip_out s) @ map seg_wire (take (Suc k) (g # rest))"
      using k(7) one(4) by simp
    then show ?thesis
      using k(1-6) senderD(7) [OF one(1)] one(1) True u g'(1) by (intro exI [of _ "Suc k"]) auto
  qed
qed

definition pure_ack :: "datagram \<Rightarrow> bool" where
  "pure_ack d \<longleftrightarrow> d_data d = [] \<and> hdr_flags (d_hdr d) = TCP_ACK"

lemma tcp_output_acks:
  assumes "tcp_output pcb s = (e, pcb', s')" "tcp_input_pcb s \<noteq> pcb_addr pcb" "ip_route (remote_ip pcb) s \<noteq> None"
    and "has (flags pcb) TF_ACK_NOW" "unsent pcb = [] \<or> in_flight pcb (hd (unsent pcb)) > ucast (min (snd_wnd pcb) (cwnd pcb))"
  shows "\<exists>f. pcb' = pcb\<lparr>flags := f\<rparr> \<and> (map wire (ip_out s') = map wire (ip_out s) \<or> (\<exists>d. pure_ack d \<and> ip_out s' = ip_out s @ [d]))"
proof -
  obtain ok t where m: "memory_left s = (ok, t)" by force
  have t: "ip_route ip t = ip_route ip s" "ip_out t = ip_out s" for ip
    using memory_left_quiet [OF m] m by (auto simp: memory_left_def split: list.splits)
  show ?thesis
  proof (cases ok)
    case False
    then have "pcb' = pcb\<lparr>flags := flags pcb\<rparr>" "s' = t"
      using assms m by (simp_all add: tcp_output_def Let_def split: if_splits)
    then show ?thesis using t(2) by (intro exI [of _ "flags pcb"]) simp
  next
    case True
    then have "pcb' = pcb\<lparr>flags := flags pcb AND NOT (TF_ACK_DELAY OR TF_ACK_NOW)\<rparr>"
      "s' = send_ctrl_hdr (ctrl_hdr (local_port pcb) (remote_port pcb) (snd_nxt pcb)
         (rcv_nxt pcb) TCP_ACK (rcv_ann_wnd pcb)) [] (local_ip pcb) (remote_ip pcb) (ttl pcb) (tos pcb) t"
      using assms m by (simp_all add: tcp_output_def Let_def split: if_splits)
    moreover obtain n where "ip_route (remote_ip pcb) t = Some n" using assms(3) t(1) by auto
    ultimately show ?thesis
      using t(2) by (auto simp: send_ctrl_hdr_def ip_output_def pure_ack_def ctrl_hdr_def with_chksum_def Let_def)
  qed
qed

lemma window_min:
  assumes "x \<le> (ucast (min a b) :: u32)"
  shows "x \<le> ucast (a :: u16) \<and> x \<le> ucast (b :: u16)"
  using assms by (auto simp: min_def word_le_nat_alt unat_ucast_half split: if_splits)

text \<open>
  Claim C4: outside the processing of a segment and with a route to the peer, \<^verbatim>\<open>tcp_output\<close> keeps the send
  queue gapless and its content as it was; what it puts on the wire is either one empty acknowledgement, asked
  for by \<^verbatim>\<open>TF_ACK_NOW\<close>, or, in order, the first \<^term>\<open>k\<close> unsent segments, each of which ends within
  both the peer's window and the congestion window; and what stays unsent begins beyond the window or is a single
  segment held back while data is unacknowledged.
\<close>

theorem tcp_output_within_window:
  assumes "tcp_output pcb s = (e, pcb', s')" "send_queue n pcb" "span (unacked pcb @ unsent pcb) < 2 ^ 30"
    and "tcp_input_pcb s \<noteq> pcb_addr pcb" "ip_route (remote_ip pcb) s \<noteq> None"
  shows "send_queue n pcb' \<and> queue_data (unacked pcb' @ unsent pcb') = queue_data (unacked pcb @ unsent pcb)
    \<and> (\<exists>k. unsent pcb' = drop k (unsent pcb)
      \<and> (\<forall>g\<in>set (take k (unsent pcb)). in_flight pcb g \<le> ucast (snd_wnd pcb) \<and> in_flight pcb g \<le> ucast (cwnd pcb))
      \<and> (map wire (ip_out s') = map wire (ip_out s) @ map seg_wire (take k (unsent pcb))
         \<or> k = 0 \<and> has (flags pcb) TF_ACK_NOW \<and> (\<exists>d. pure_ack d \<and> ip_out s' = ip_out s @ [d])))
    \<and> (unsent pcb' = [] \<or> in_flight pcb (hd (unsent pcb')) > ucast (min (snd_wnd pcb) (cwnd pcb))
      \<or> unacked pcb' \<noteq> [] \<and> length (unsent pcb') = 1)"
proof (cases "has (flags pcb) TF_ACK_NOW \<and> (unsent pcb = [] \<or> in_flight pcb (hd (unsent pcb)) > ucast (min (snd_wnd pcb) (cwnd pcb)))")
  case True
  then obtain f where p: "pcb' = pcb\<lparr>flags := f\<rparr>"
    and o: "map wire (ip_out s') = map wire (ip_out s) \<or> (\<exists>d. pure_ack d \<and> ip_out s' = ip_out s @ [d])"
    using tcp_output_acks [OF assms(1,4,5)] by blast
  show ?thesis using True o assms(2) unfolding p by (auto simp: send_queue_def intro!: exI [of _ 0])
next
  case False
  let ?w = "ucast (min (snd_wnd pcb) (cwnd pcb)) :: u32"
  obtain p t where l: "output_loop ?w (unsent pcb) pcb s = (p, t)" by force
  have r: "unsent pcb' = unsent p" "unacked pcb' = unacked p" "mss pcb' = mss p" "snd_lbb pcb' = snd_lbb p" "s' = t"
    using assms(1,4) l False by (auto simp: tcp_output_def Let_def split: if_splits)
  obtain k where k: "send_queue n p" "unsent p = drop k (unsent pcb)" "\<forall>g\<in>set (take k (unsent pcb)). in_flight pcb g \<le> ?w"
    "map view (unacked p) = map view (unacked pcb @ take k (unsent pcb))"
    "unsent p = [] \<or> in_flight pcb (hd (unsent p)) > ?w \<or> unacked p \<noteq> [] \<and> length (unsent p) = 1"
    "map wire (ip_out t) = map wire (ip_out s) @ map seg_wire (take k (unsent pcb))"
    using output_loop_sends [OF l refl assms(2,3)] assms(5) by blast
  have "send_queue n pcb'" using k(1) r by (simp add: send_queue_def)
  moreover have "map view (unacked pcb' @ unsent pcb') = map view (unacked pcb @ unsent pcb)"
    using k(2,4) r append_take_drop_id [of k "unsent pcb"] by (metis append.assoc map_append)
  then have "queue_data (unacked pcb' @ unsent pcb') = queue_data (unacked pcb @ unsent pcb)" by (rule view_queue_data)
  moreover have "\<forall>g\<in>set (take k (unsent pcb)). in_flight pcb g \<le> ucast (snd_wnd pcb) \<and> in_flight pcb g \<le> ucast (cwnd pcb)"
    using k(3) window_min by blast
  ultimately show ?thesis using k(2,5,6) r by auto
qed

text \<open>
  Claim C9: for a connection whose send queue has no gap, \<^verbatim>\<open>tcp_write\<close> of \<^term>\<open>len\<close> bytes either queues
  them all behind the data already queued, in segments of at most \<^verbatim>\<open>mss\<close> bytes with consecutive sequence numbers
  (the last unsent segment being filled up first), moves \<^verbatim>\<open>snd_lbb\<close> up and \<^verbatim>\<open>snd_buf\<close> down by \<^term>\<open>len\<close>,
  or queues nothing and reports \<^verbatim>\<open>ERR_MEM\<close>.
\<close>

theorem tcp_write_queues_stream:
  assumes "tcp_write pcb data len apiflags s = (e, pcb', s')" "send_queue n pcb" "unat len \<le> length data"
    and "0 < len" "0 < mss pcb" "state pcb \<in> {ESTABLISHED, CLOSE_WAIT, SYN_SENT, SYN_RCVD}"
  shows "if e = ERR_OK
    then send_queue n pcb' \<and> queue_data (unsent pcb') = queue_data (unsent pcb) @ take (unat len) data
      \<and> unacked pcb' = unacked pcb \<and> snd_lbb pcb' = snd_lbb pcb + ucast len
      \<and> unat (snd_buf pcb') + unat len = unat (snd_buf pcb)
    else e = ERR_MEM \<and> pcb' = pcb\<lparr>flags := flags pcb OR TF_NAGLEMEMERR\<rparr>"
proof (rule tcp_enqueue_data [OF _ assms(2) _ assms(3-5)])
  show "tcp_enqueue pcb (Some data) len 0 apiflags None s = (e, pcb', s')"
    using assms(1,4,6) by (auto simp: tcp_write_def)
qed (simp add: plain_def)

definition send_pcb :: tcp_pcb where
  "send_pcb = sample_pcb\<lparr>mss := 4, snd_lbb := 103, lastack := 100, snd_wnd := 8, snd_buf := 100,
     unsent := [sample_seg 100 0 [[1, 2], [3]]]\<rparr>"

definition send_tcp :: tcp where
  "send_tcp = sample_tcp\<lparr>tcp_input_pcb := NULL, mem := replicate 8 True,
     netif_default := Some \<lparr>netif_ip_addr = 9, netif_netmask = 255, netif_flags = 1, netif_mtu = 1500, netif_gw = 0, netif_name = (0, 0), netif_num = 0\<rparr>\<rparr>"

lemma send_pcb_queue: "send_queue 100 send_pcb" "span (unacked send_pcb @ unsent send_pcb) < 2 ^ 30"
  by (simp_all add: send_pcb_def sample_defs send_queue_def sound_def seg_data_def TCP_TCPLEN_def tot_len_def
    TCP_SYN_def TCP_FIN_def)

theorem tcp_write_queues_stream_witness:
  "case tcp_write send_pcb [4, 5, 6, 7, 8, 9, 10] 6 TCP_WRITE_FLAG_COPY send_tcp of (e, pcb', s') \<Rightarrow>
     e = ERR_OK \<and> queue_data (unsent pcb') = [1, 2, 3, 4, 5, 6, 7, 8, 9] \<and> snd_lbb pcb' = 109"
proof -
  obtain e pcb' s' where w: "tcp_write send_pcb [4, 5, 6, 7, 8, 9, 10] 6 TCP_WRITE_FLAG_COPY send_tcp = (e, pcb', s')"
    by (metis prod_cases3)
  have "fst (tcp_write send_pcb [4, 5, 6, 7, 8, 9, 10] 6 TCP_WRITE_FLAG_COPY send_tcp) = ERR_OK" by code_simp
  then show ?thesis
    using tcp_write_queues_stream [OF w send_pcb_queue(1)] w
    by (simp add: send_pcb_def sample_defs seg_data_def)
qed

theorem tcp_output_within_window_witness:
  "case tcp_output send_pcb send_tcp of (e, pcb', s') \<Rightarrow> send_queue 100 pcb' \<and>
     queue_data (unacked pcb' @ unsent pcb') = [1, 2, 3]"
proof -
  obtain e pcb' s' where w: "tcp_output send_pcb send_tcp = (e, pcb', s')" by (metis prod_cases3)
  show ?thesis
    using tcp_output_within_window [OF w send_pcb_queue] w
    by (simp add: send_pcb_def send_tcp_def sample_defs seg_data_def ip_route_def netif_is_up_def NETIF_FLAG_UP_def)
qed

end
