(* ===== verification/Tcp_Wire.thy ===== *)
theory Tcp_Wire
  imports Tcp_Send
begin

section \<open>TCP on the wire\<close>

text \<open>
  What the output side puts into a segment, the input side reads back: the bytes of a header are parsed to
  the same header, and the checksum the sender stores passes the test of \<^verbatim>\<open>tcp_input\<close>.
\<close>

subsection \<open>Header bytes\<close>

lemma join_bytes16: "push_bit 8 (ucast (ucast (drop_bit 8 w) :: u8)) OR ucast (ucast w :: u8) = (w :: u16)"
  by (rule bit_eqI) (auto simp: bit_simps)

lemma join_bytes32: "push_bit 16 (ucast (push_bit 8 (ucast (ucast (drop_bit 24 w) :: u8)) OR ucast (ucast (drop_bit 16 w) :: u8) :: u16))
    OR ucast (push_bit 8 (ucast (ucast (drop_bit 8 w) :: u8)) OR ucast (ucast w :: u8) :: u16) = (w :: u32)"
proof (rule bit_word_eqI)
  fix n :: nat
  assume "n < LENGTH(32)"
  then consider "n < 8" | "8 \<le> n" "n < 16" | "16 \<le> n" "n < 24" | "24 \<le> n" "n < 32" by fastforce
  then show "bit (push_bit 16 (ucast (push_bit 8 (ucast (ucast (drop_bit 24 w) :: u8)) OR ucast (ucast (drop_bit 16 w) :: u8) :: u16))
    OR ucast (push_bit 8 (ucast (ucast (drop_bit 8 w) :: u8)) OR ucast (ucast w :: u8) :: u16) :: u32) n = bit w n"
    by cases (auto simp: bit_simps)
qed

lemma join_chksum: "htons (push_bit 8 (ucast (ucast w :: u8)) OR ucast (ucast (drop_bit 8 w) :: u8)) = (w :: u16)"
  unfolding htons_bytes by (rule bit_eqI) (auto simp: bit_simps)

lemma drop_push_nibble: "w < 16 \<Longrightarrow> drop_bit 4 (push_bit 4 w) = (w :: u8)"
proof -
  assume "w < 16"
  then have "take_bit 4 w = w" by (simp add: word_unat_eq_iff unat_take_bit word_less_nat_alt)
  moreover have "drop_bit 4 (push_bit 4 w) = take_bit 4 w" by (rule bit_eqI) (auto simp: bit_simps)
  ultimately show ?thesis by simp
qed

lemma length_hdr_bytes [simp]: "length (hdr_bytes h) = 20"
  by (simp add: hdr_bytes_def be_bytes16_def be_bytes32_def)

lemma get_hdr_bytes:
  assumes "hdr_hdrlen h < 16"
  shows "get_hdr (hdr_bytes h @ xs) = Some (h\<lparr>hdr_flags := hdr_flags h AND TCP_FLAGS\<rparr>)"
  using assms
  by (simp add: get_hdr_def get32_def get16_def elem_def hdr_bytes_def be_bytes16_def be_bytes32_def
      join_bytes16 join_bytes32 join_chksum drop_push_nibble)

subsection \<open>Checksum\<close>

lemma chksum_completes: "ones_complement (n + (65535 - ones_complement n)) = 65535"
proof -
  have "rep (ones_complement n + (65535 - ones_complement n)) (n + (65535 - ones_complement n))"
    by (intro rep_add rep_refl rep_ones_complement)
  then have "rep 65535 (n + (65535 - ones_complement n))" using ones_complement_less [of n] by simp
  then show ?thesis using rep_less_eq [of 65535] by simp
qed

lemma le_sum_hdr_bytes: "le_sum (hdr_bytes h @ xs) = le_sum (hdr_bytes (h\<lparr>hdr_chksum := 0\<rparr>) @ xs) + unat (hdr_chksum h)"
proof -
  have "unat (ucast (hdr_chksum h) :: u8) + 256 * unat (ucast (drop_bit 8 (hdr_chksum h)) :: u8) = unat (hdr_chksum h)"
    using unat_half [of "hdr_chksum h"] by (simp add: unat_ucast_mod unat_drop_bit)
  then show ?thesis
    by (simp add: hdr_bytes_def be_bytes16_def be_bytes32_def)
qed

lemma chksum_verifies:
  fixes src dest :: u32 and data :: "u8 list" and h :: tcp_hdr
  defines "seg \<equiv> hdr_bytes (with_chksum src dest data h) @ data"
  shows "NOT (rfc1071 (pseudo_header src dest IP_PROTO_TCP (word_of_nat (length seg)) @ seg)) = 0"
proof -
  let ?ph = "pseudo_header src dest IP_PROTO_TCP (word_of_nat (20 + length data))"
  let ?n = "le_sum ?ph + le_sum (hdr_bytes (h\<lparr>hdr_chksum := 0\<rparr>) @ data)"
  have even: "even (length ?ph)" by (simp add: pseudo_header_def le_bytes32_def)
  have n: "le_sum (?ph @ hdr_bytes (h\<lparr>hdr_chksum := 0\<rparr>) @ data) = ?n" using even by (rule le_sum_append)
  have c: "hdr_chksum (with_chksum src dest data h) = NOT (word_of_nat (ones_complement ?n))"
    by (simp add: with_chksum_def Let_def tcp_chksum_def rfc1071_def n [simplified])
  then have "unat (hdr_chksum (with_chksum src dest data h)) = 65535 - ones_complement ?n"
    using ones_complement_less [of ?n] by (simp add: not_half unat_of_nat_small)
  moreover have "(with_chksum src dest data h)\<lparr>hdr_chksum := 0\<rparr> = h\<lparr>hdr_chksum := 0\<rparr>"
    by (simp add: with_chksum_def Let_def)
  ultimately have "le_sum (?ph @ seg) = ?n + (65535 - ones_complement ?n)"
    using le_sum_append [OF even, of seg] le_sum_hdr_bytes [of "with_chksum src dest data h" data] by (simp add: seg_def)
  then have "rfc1071 (?ph @ seg) = 65535" using chksum_completes [of ?n] by (simp add: rfc1071_def)
  then show ?thesis by (simp add: seg_def)
qed

subsection \<open>Round trip\<close>

lemma mod_8: "(8 + n) mod 8 = n mod 8" "(16 + n) mod 8 = n mod 8" "(24 + n) mod 8 = n mod (8 :: nat)"
  "(8 + n) div 8 = 1 + n div 8" "(16 + n) div 8 = 2 + n div 8" "(24 + n) div 8 = 3 + n div 8"
  by presburger+

lemma htonl_reads:
  "(ucast (drop_bit 24 (htonl a)) :: u8) = ucast a" "(ucast (drop_bit 16 (htonl a)) :: u8) = ucast (drop_bit 8 a)"
  "(ucast (drop_bit 8 (htonl a)) :: u8) = ucast (drop_bit 16 a)" "(ucast (htonl a) :: u8) = ucast (drop_bit 24 a)"
  by (rule bit_word_eqI, simp add: bit_simps bit_htonl mod_8)+

lemma get_addr_bytes: "get_addr (xs @ le_bytes32 a @ ys) (length xs) = Some a"
proof -
  have "htonl (push_bit 16 (ucast (push_bit 8 (ucast (ucast a :: u8)) OR ucast (ucast (drop_bit 8 a) :: u8) :: u16))
    OR ucast (push_bit 8 (ucast (ucast (drop_bit 16 a) :: u8)) OR ucast (ucast (drop_bit 24 a) :: u8) :: u16)) = a"
    using join_bytes32 [of "htonl a"] unfolding htonl_reads by simp
  then show ?thesis by (simp add: get_addr_def get32_def get16_def elem_def le_bytes32_def nth_append)
qed

text \<open>
  An IP header without options for the two addresses, and a segment behind it that lies in any number of
  buffers as long as the TCP header and options are in the first.
\<close>

definition ip_header_for :: "u32 \<Rightarrow> u32 \<Rightarrow> u8 list \<Rightarrow> bool" where
  "ip_header_for src dest iph \<longleftrightarrow> length iph = 20 \<and> iph ! 0 AND 0x0f = 5 \<and> drop 12 iph = le_bytes32 src @ le_bytes32 dest"

lemma ip_header_forD:
  assumes "ip_header_for src dest iph"
  shows "iph \<noteq> []" "elem (iph @ xs) 0 = Some (iph ! 0)" "get_addr (iph @ xs) 12 = Some src" "get_addr (iph @ xs) 16 = Some dest"
    "4 * unat (iph ! 0 AND 0x0f) = length iph" "length iph = 20"
proof -
  have l: "length iph = 20" "iph ! 0 AND 0x0f = 5" and d: "drop 12 iph = le_bytes32 src @ le_bytes32 dest"
    using assms by (auto simp: ip_header_for_def)
  have i: "iph @ xs = take 12 iph @ le_bytes32 src @ le_bytes32 dest @ xs"
    using append_take_drop_id [of 12 iph] unfolding d by (metis append.assoc)
  show "get_addr (iph @ xs) 12 = Some src" unfolding i using get_addr_bytes [of "take 12 iph"] l(1) by simp
  show "get_addr (iph @ xs) 16 = Some dest"
    unfolding i using get_addr_bytes [of "take 12 iph @ le_bytes32 src"] l(1) by (simp add: le_bytes32_def)
  show "iph \<noteq> []" "elem (iph @ xs) 0 = Some (iph ! 0)" "4 * unat (iph ! 0 AND 0x0f) = length iph" "length iph = 20"
    using l by (auto simp: elem_def nth_append)
qed

lemma hdr_bytes_hdrlen: "hdr_hdrlen h < 16 \<Longrightarrow> elem (hdr_bytes h @ xs) 12 = Some (push_bit 4 (hdr_hdrlen h))"
  by (simp add: elem_def nth_append hdr_bytes_def be_bytes16_def be_bytes32_def)

lemma parse_segment_emitted:
  assumes "ip_header_for src dest iph" "concat (d # ds) = data" "length data < 65516" "hdr_hdrlen h < 16"
    and "5 \<le> hdr_hdrlen h" "4 * (unat (hdr_hdrlen h) - 5) \<le> length d" "hdr_flags h AND TCP_FLAGS = hdr_flags h"
    and "\<not> ip_addr_isbroadcast dest inp" "\<not> ip_addr_ismulticast dest"
  defines "h' \<equiv> with_chksum src dest data h" and "p \<equiv> drop (4 * (unat (hdr_hdrlen h) - 5)) d # ds"
  shows "parse_segment ((iph @ hdr_bytes h' @ d) # ds) inp = Some (Some \<lparr>rx_src = src, rx_dest = dest, rx_hdr = h',
    rx_opts = d, seqno = hdr_seqno h, ackno = hdr_ackno h, rx_flags = hdr_flags h,
    tcplen = tot_len p + (if has (hdr_flags h) TCP_FIN \<or> has (hdr_flags h) TCP_SYN then 1 else 0),
    inseg = \<lparr>seg_p = Some p, seg_len = tot_len p, seg_hdr = h'\<rparr>, recv_flags = 0, recv_data = None\<rparr>)"
proof -
  note i = ip_header_forD [OF assms(1)]
  have h': "hdr_hdrlen h' = hdr_hdrlen h" "hdr_flags h' = hdr_flags h" "hdr_seqno h' = hdr_seqno h" "hdr_ackno h' = hdr_ackno h"
    by (simp_all add: h'_def with_chksum_def Let_def)
  have hl: "4 * unat (drop_bit 4 (push_bit 4 (hdr_hdrlen h))) = 20 + 4 * (unat (hdr_hdrlen h) - 5)"
    using assms(4,5) drop_push_nibble by (simp add: word_le_nat_alt)
  have b: "drop (length iph) (iph @ hdr_bytes h' @ d) = hdr_bytes h' @ d" by simp
  have t: "unat (tot_len ((hdr_bytes h' @ d) # ds)) = 20 + length data"
    using assms(2,3) unfolding tot_len_def by (subst unat_of_nat_small) auto
  have ck: "NOT (rfc1071 (pseudo_header src dest IP_PROTO_TCP (tot_len ((hdr_bytes h' @ d) # ds)) @ concat ((hdr_bytes h' @ d) # ds))) = 0"
    using chksum_verifies [of src dest data h] assms(2) by (simp add: tot_len_def h'_def)
  show ?thesis
    unfolding parse_segment_def
    using i hl t ck b assms(6,8,9) get_hdr_bytes [of h' d] hdr_bytes_hdrlen [of h' d] h' assms(4,7)
    by (simp add: Let_def word_less_nat_alt TCP_HLEN_def p_def)
qed

text \<open>What \<^verbatim>\<open>tcp_output_segment\<close> hands to IP.\<close>

definition emitted_hdr :: "tcp_seg \<Rightarrow> tcp_pcb \<Rightarrow> tcp_hdr" where
  "emitted_hdr g pcb = (seg_hdr g)\<lparr>hdr_ackno := rcv_nxt pcb, hdr_wnd := rcv_ann_wnd pcb\<rparr>"

lemma tcp_output_segment_emits:
  assumes "tcp_output_segment g pcb s = (g', pcb', s')" "ip_route (remote_ip pcb) s = Some n"
    and "local_ip pcb \<noteq> 0 \<or> netif_ip_addr n \<noteq> 0"
  defines "src \<equiv> (if local_ip pcb = 0 then netif_ip_addr n else local_ip pcb)"
  shows "ip_out s' = ip_out s @ [\<lparr>d_src = src, d_dest = remote_ip pcb, d_ttl = ttl pcb, d_tos = tos pcb,
    d_hdr = with_chksum src (remote_ip pcb) (seg_data g) (emitted_hdr g pcb), d_data = seg_data g\<rparr>]"
  using assms
  by (auto simp: tcp_output_segment_def send_segment_def Let_def ip_output_def emitted_hdr_def seg_data_def
      split: if_splits prod.splits)

text \<open>
  The datagram \<^verbatim>\<open>tcp_output_segment\<close> hands to IP is read back by \<^verbatim>\<open>tcp_input\<close> of a receiver,
  however the network splits it into buffers behind the header: its checksum is accepted, and the receiver sees
  the sequence number, flags and data of the segment, the sender's \<^verbatim>\<open>rcv_nxt\<close> as acknowledgement and
  \<^verbatim>\<open>rcv_ann_wnd\<close> as window.
\<close>

theorem tcp_segment_roundtrip:
  assumes "tcp_output_segment g pcb s = (g', pcb', s')" "ip_route (remote_ip pcb) s = Some n" "local_ip pcb \<noteq> 0"
    and "ip_header_for (local_ip pcb) (remote_ip pcb) iph" "concat (d # ds) = seg_data g" "length (seg_data g) < 65516"
    and "hdr_hdrlen (seg_hdr g) = 5" "seg_flags g AND TCP_FLAGS = seg_flags g"
    and "\<not> ip_addr_isbroadcast (remote_ip pcb) inp" "\<not> ip_addr_ismulticast (remote_ip pcb)"
  shows "\<exists>dg r. ip_out s' = ip_out s @ [dg] \<and> parse_segment ((iph @ hdr_bytes (d_hdr dg) @ d) # ds) inp = Some (Some r)
    \<and> rx_src r = local_ip pcb \<and> rx_dest r = remote_ip pcb \<and> hdr_src (rx_hdr r) = hdr_src (seg_hdr g)
    \<and> hdr_dest (rx_hdr r) = hdr_dest (seg_hdr g) \<and> seqno r = seg_seqno g \<and> rx_flags r = seg_flags g
    \<and> ackno r = rcv_nxt pcb \<and> hdr_wnd (rx_hdr r) = rcv_ann_wnd pcb
    \<and> seg_data (inseg r) = seg_data g \<and> unat (seg_len (inseg r)) = length (seg_data g)"
proof -
  let ?h = "emitted_hdr g pcb"
  have e: "hdr_hdrlen ?h = 5" "hdr_flags ?h AND TCP_FLAGS = hdr_flags ?h" using assms(7,8) by (simp_all add: emitted_hdr_def)
  have p: "parse_segment ((iph @ hdr_bytes (with_chksum (local_ip pcb) (remote_ip pcb) (seg_data g) ?h) @ d) # ds) inp
    = Some (Some \<lparr>rx_src = local_ip pcb, rx_dest = remote_ip pcb, rx_hdr = with_chksum (local_ip pcb) (remote_ip pcb) (seg_data g) ?h,
    rx_opts = d, seqno = hdr_seqno ?h, ackno = hdr_ackno ?h, rx_flags = hdr_flags ?h,
    tcplen = tot_len (d # ds) + (if has (hdr_flags ?h) TCP_FIN \<or> has (hdr_flags ?h) TCP_SYN then 1 else 0),
    inseg = \<lparr>seg_p = Some (d # ds), seg_len = tot_len (d # ds), seg_hdr = with_chksum (local_ip pcb) (remote_ip pcb) (seg_data g) ?h\<rparr>,
    recv_flags = 0, recv_data = None\<rparr>)"
    using parse_segment_emitted [OF assms(4-6), of ?h inp] e assms(9,10) by simp
  have l: "unat (tot_len (d # ds)) = length (seg_data g)"
    using assms(5,6) by (simp add: tot_len_def unat_of_nat_small)
  have d: "seg_data \<lparr>seg_p = Some (d # ds), seg_len = k, seg_hdr = h\<rparr> = seg_data g" for k h
    using assms(5) by (simp add: seg_data_def)
  show ?thesis
    using tcp_output_segment_emits [OF assms(1,2)] assms(3) p l d
    by (simp add: emitted_hdr_def with_chksum_def Let_def)
qed

theorem tcp_segment_roundtrip_witness:
  "\<exists>dg r. ip_out (snd (snd (tcp_output_segment (sample_seg 100 0x18 [[1, 2], [3]]) (sample_pcb\<lparr>local_ip := 0x0100000a, remote_ip := 0x0200000a\<rparr>) send_tcp))) = [dg]
    \<and> parse_segment [[0x45, 0, 0, 43, 0, 0, 0, 0, 255, 6, 0, 0, 10, 0, 0, 1, 10, 0, 0, 2] @ hdr_bytes (d_hdr dg) @ [1], [2, 3]]
        \<lparr>netif_ip_addr = 0x0200000a, netif_netmask = 0xffffff, netif_flags = 3, netif_mtu = 1500, netif_gw = 0, netif_name = (0, 0), netif_num = 0\<rparr> = Some (Some r)
    \<and> seqno r = 100 \<and> rx_flags r = 0x18 \<and> seg_data (inseg r) = [1, 2, 3]"
proof -
  let ?g = "sample_seg 100 0x18 [[1, 2], [3]]" and ?p = "sample_pcb\<lparr>local_ip := 0x0100000a, remote_ip := 0x0200000a\<rparr>"
  obtain g' p' s' where o: "tcp_output_segment ?g ?p send_tcp = (g', p', s')" by (metis prod_cases3)
  show ?thesis
    using tcp_segment_roundtrip [OF o, of "\<lparr>netif_ip_addr = 9, netif_netmask = 255, netif_flags = 1, netif_mtu = 1500, netif_gw = 0, netif_name = (0, 0), netif_num = 0\<rparr>"
      "[0x45, 0, 0, 43, 0, 0, 0, 0, 255, 6, 0, 0, 10, 0, 0, 1, 10, 0, 0, 2]" "[1]" "[[2, 3]]"
      "\<lparr>netif_ip_addr = 0x0200000a, netif_netmask = 0xffffff, netif_flags = 3, netif_mtu = 1500, netif_gw = 0, netif_name = (0, 0), netif_num = 0\<rparr>"] o
    by (simp add: sample_defs send_tcp_def seg_data_def ip_route_def netif_is_up_def NETIF_FLAG_UP_def ip_header_for_def
      le_bytes32_def TCP_FLAGS_def ip_addr_isbroadcast_def ip_addr_ismulticast_def NETIF_FLAG_BROADCAST_def
      ntohl_def htonl_def) blast
qed

end
