(* ===== verification/Tcp_Options.thy ===== *)
theory Tcp_Options
  imports Tcp_Stream
begin

section \<open>TCP: options and ports\<close>

text \<open>
  When the loops of \<^verbatim>\<open>tcp_parseopt\<close> and \<^verbatim>\<open>tcp_new_port\<close> end, and what they compute; the option
  lengths and values that stop the stack.
\<close>

subsection \<open>Options\<close>

lemma elem_Some: "i < length xs \<Longrightarrow> elem xs i = Some (xs ! i)"
  by (simp add: elem_def)

lemma parseopt_loop_returns:
  assumes "limit \<le> 40" "limit + 3 \<le> length opts"
    and "\<forall>c<limit. opts ! c \<noteq> 0 \<longrightarrow> opts ! c \<noteq> 1 \<longrightarrow> c + unat (opts ! (c + 1)) < 256"
  shows "\<exists>m. parseopt_loop opts limit c pcb = Some (pcb\<lparr>mss := m\<rparr>) \<and> (m = mss pcb \<or> m \<le> TCP_MSS)"
proof (induction "limit - unat c" arbitrary: c rule: less_induct)
  case less
  show ?case
  proof (cases "unat c < limit")
    case True
    then have e: "elem opts (unat c) = Some (opts ! unat c)" "elem opts (unat c + 1) = Some (opts ! (unat c + 1))"
      "elem opts (unat c + 2) = Some (opts ! (unat c + 2))" "elem opts (unat c + 3) = Some (opts ! (unat c + 3))"
      using assms(2) by (simp_all add: elem_Some)
    let ?l = "opts ! (unat c + 1)"
    consider "opts ! unat c = 0" | (nop) "opts ! unat c = 1"
      | "opts ! unat c = 2" "?l = 4"
      | "opts ! unat c \<notin> {0, 1}" "\<not> (opts ! unat c = 2 \<and> ?l = 4)" "?l = 0"
      | (skip) "opts ! unat c \<notin> {0, 1}" "\<not> (opts ! unat c = 2 \<and> ?l = 4)" "?l \<noteq> 0" by blast
    then show ?thesis
    proof cases
      case 1
      then show ?thesis using True e by (intro exI [of _ "mss pcb"]) (subst parseopt_loop.simps, simp)
    next
      case nop
      have "unat (c + 1) = unat c + 1" using True assms(1) by (simp add: unat_add_small)
      then show ?thesis using less [of "c + 1"] True e nop by (subst parseopt_loop.simps) simp
    next
      case skip
      then have "unat c + unat ?l < 256" using assms(3) True by simp
      then have "unat (c + ?l) = unat c + unat ?l" by (simp add: unat_add_small)
      moreover have "0 < unat ?l" using skip by (simp add: unat_gt_0)
      ultimately show ?thesis using less [of "c + ?l"] True e skip by (subst parseopt_loop.simps) auto
    next
      case 3
      let ?m = "push_bit 8 (ucast (opts ! (unat c + 2))) OR ucast (opts ! (unat c + 3)) :: u16"
      from 3 show ?thesis using True e
        by (intro exI [of _ "if ?m > TCP_MSS then TCP_MSS else ?m"]) (subst parseopt_loop.simps, simp add: Let_def not_less)
    next
      case 4
      then show ?thesis using True e by (intro exI [of _ "mss pcb"]) (subst parseopt_loop.simps, simp)
    qed
  next
    case False
    then show ?thesis by (intro exI [of _ "mss pcb"]) (subst parseopt_loop.simps, simp)
  qed
qed

lemma parseopt_loop_spins:
  assumes "2 \<le> limit" "k \<notin> {0, 1}"
  shows "c \<in> {0, 1} \<Longrightarrow> parseopt_loop (1 # k # 255 # rest) limit c pcb = None"
proof -
  have "opts = 1 # k # 255 # rest \<longrightarrow> limit \<ge> 2 \<longrightarrow> c \<in> {0, 1} \<longrightarrow> False"
    if "parseopt_loop opts limit c pcb = Some y" for opts limit c pcb y
  proof (rule parseopt_loop.raw_induct [OF _ that], intro impI)
    fix self opts limit c pcb y
    assume IH: "\<And>opts limit c pcb y. self opts limit c pcb = Some y
        \<Longrightarrow> opts = 1 # k # 255 # rest \<longrightarrow> 2 \<le> limit \<longrightarrow> c \<in> {0, 1 :: u8} \<longrightarrow> False"
      and o: "opts = 1 # k # 255 # rest" "2 \<le> limit" "c \<in> {0, 1 :: u8}"
      and body: "(if unat c < limit then elem opts (unat c) \<bind> (\<lambda>opt. if opt = 0 then Some pcb
        else if opt = 1 then self opts limit (c + 1) pcb
        else elem opts (unat c + 1) \<bind> (\<lambda>l. if opt = 2 \<and> l = 4
          then elem opts (unat c + 2) \<bind> (\<lambda>b1. elem opts (unat c + 3) \<bind> (\<lambda>b2.
            let m = push_bit 8 (ucast b1) OR ucast b2 in Some (pcb\<lparr>mss := if TCP_MSS < m then TCP_MSS else m\<rparr>)))
          else if l = 0 then Some pcb else self opts limit (c + l) pcb)) else Some pcb) = Some y"
    have n: "self opts limit 0 pcb \<noteq> Some y" "self opts limit 1 pcb \<noteq> Some y"
      using IH [rule_format, OF _ o(1,2)] by auto
    have "(256 :: u8) = 0" by simp
    with n(1) have "self opts limit 256 pcb \<noteq> Some y" by metis
    with n show False
      using o body assms(2) by (auto simp: elem_def split: if_splits)
  qed
  then show "c \<in> {0, 1} \<Longrightarrow> ?thesis" using assms(1) by (metis not_None_eq)
qed

text \<open>
  Claim C31: when no option length takes the 8-bit position past 255 and the first buffer reaches three
  bytes beyond the options, \<^verbatim>\<open>tcp_parseopt\<close> returns and changes at most the segment size, to a value
  not above \<^verbatim>\<open>TCP_MSS\<close>.
\<close>

theorem tcp_parseopt_returns:
  assumes "hdr_hdrlen (rx_hdr r) \<le> 15" "n = 4 * (unat (hdr_hdrlen (rx_hdr r)) - 5)" "n + 3 \<le> length (rx_opts r)"
    and "\<forall>c<n. rx_opts r ! c \<noteq> 0 \<longrightarrow> rx_opts r ! c \<noteq> 1 \<longrightarrow> c + unat (rx_opts r ! (c + 1)) < 256"
  shows "\<exists>m. tcp_parseopt r pcb = Some (pcb\<lparr>mss := m\<rparr>) \<and> (m = mss pcb \<or> m \<le> TCP_MSS)"
proof (cases "hdr_hdrlen (rx_hdr r) > 5")
  case True
  have "n \<le> 40" using assms(1,2) by (simp add: word_le_nat_alt)
  then show ?thesis
    using parseopt_loop_returns [OF _ assms(3,4), of 0 pcb] True assms(2) by (simp add: tcp_parseopt_def)
next
  case False
  then show ?thesis by (intro exI [of _ "mss pcb"]) (simp add: tcp_parseopt_def)
qed

definition option_rx :: "u8 list \<Rightarrow> rx" where
  "option_rx opts = (sample_rx (sample_seg 100 2 []))\<lparr>rx_hdr := (sample_hdr 100 2)\<lparr>hdr_hdrlen := 6\<rparr>, rx_opts := opts\<rparr>"

theorem tcp_parseopt_returns_witness:
  "\<exists>m. tcp_parseopt (option_rx [2, 4, 5, 180, 0, 0, 0]) sample_pcb = Some (sample_pcb\<lparr>mss := m\<rparr>)
    \<and> (m = mss sample_pcb \<or> m \<le> TCP_MSS)"
proof (rule tcp_parseopt_returns [of _ 4])
  show "\<forall>c<4. rx_opts (option_rx [2, 4, 5, 180, 0, 0, 0]) ! c \<noteq> 0 \<longrightarrow> rx_opts (option_rx [2, 4, 5, 180, 0, 0, 0]) ! c \<noteq> 1
      \<longrightarrow> c + unat (rx_opts (option_rx [2, 4, 5, 180, 0, 0, 0]) ! (c + 1)) < 256"
  proof (intro allI impI)
    fix c :: nat
    assume "c < 4"
    then consider "c = 0" | "c = 1" | "c = 2" | "c = 3" by linarith
    then show "c + unat (rx_opts (option_rx [2, 4, 5, 180, 0, 0, 0]) ! (c + 1)) < 256"
      by cases (simp_all add: option_rx_def)
  qed
qed (simp_all add: option_rx_def sample_defs)

text \<open>
  Claim C36: a SYN whose options are a NOP followed by an option of length 255 keeps \<^verbatim>\<open>tcp_parseopt\<close>
  in its loop for ever, the 8-bit position wrapping from 256 to 0; so one such SYN for a listening port
  hangs \<^verbatim>\<open>tcp_listen_input\<close>.
\<close>

theorem tcp_listen_input_hangs:
  assumes "rx_opts r = 1 # k # 255 # rest" "k \<notin> {0, 1}" "hdr_hdrlen (rx_hdr r) > 5"
    and "has (rx_flags r) TCP_SYN" "\<not> has (rx_flags r) TCP_ACK" "fst (memp_malloc s) \<noteq> NULL"
  shows "tcp_listen_input app r lpcb s = None"
proof -
  have "2 \<le> 4 * (unat (hdr_hdrlen (rx_hdr r)) - 5)" using assms(3) by (simp add: word_less_nat_alt)
  then have "tcp_parseopt r pcb = None" for pcb
    using parseopt_loop_spins [OF _ assms(2), where c = 0] assms(1,3) by (simp add: tcp_parseopt_def)
  moreover obtain n s1 pcb s2 where "memp_malloc s = (n, s1)" "fresh_pcb n s1 = (pcb, s2)" by (metis surj_pair)
  then have "tcp_alloc app (prio lpcb) s = Some (n, put pcb s2)" "n \<noteq> NULL"
    using assms(6) by (auto simp: tcp_alloc_def)
  ultimately show ?thesis using assms(4,5) by (simp add: tcp_listen_input_def Let_def Option.bind_eq_None_conv)
qed

definition null_app :: app where
  "null_app = \<lparr>app_sent = (\<lambda>_ _ _ s. (ERR_OK, s)), app_recv = (\<lambda>_ _ _ _ s. (ERR_OK, s)),
     app_connected = (\<lambda>_ _ _ s. (ERR_OK, s)), app_accept = (\<lambda>_ _ _ s. (ERR_OK, s)),
     app_poll = (\<lambda>_ _ s. (ERR_OK, s)), app_err = (\<lambda>_ _ _ s. s)\<rparr>"

theorem tcp_listen_input_hangs_witness:
  "tcp_listen_input null_app (option_rx [1, 30, 255, 0]) sample_pcb (sample_tcp\<lparr>pcb_allocs := [32]\<rparr>) = None"
  using tcp_listen_input_hangs [of "option_rx [1, 30, 255, 0]" 30 "[0]" "sample_tcp\<lparr>pcb_allocs := [32]\<rparr>" null_app sample_pcb]
  by (simp add: option_rx_def sample_defs memp_malloc_def TCP_SYN_def TCP_ACK_def)

lemma open_cwnd_zero:
  "state pcb \<notin> {CLOSED, LISTEN, SYN_SENT, SYN_RCVD} \<Longrightarrow> cwnd pcb = 0 \<Longrightarrow> ssthresh pcb = 0 \<Longrightarrow> open_cwnd pcb = None"
  by (simp add: open_cwnd_def)

lemma receive_ack_divides_by_zero:
  assumes "state pcb \<notin> {CLOSED, LISTEN, SYN_SENT, SYN_RCVD}" "cwnd pcb = 0" "ssthresh pcb = 0" "ackno r \<noteq> lastack pcb"
    and "TCP_SEQ_BETWEEN (ackno r) (lastack pcb + 1) (snd_max pcb)"
  shows "receive_ack r pcb s = None"
proof -
  let ?pcb = "update_window r pcb"
  have u: "lastack ?pcb = lastack pcb" "snd_max ?pcb = snd_max pcb" "cwnd ?pcb = 0" "ssthresh ?pcb = 0" "state ?pcb = state pcb"
    using assms by (simp_all add: update_window_def Let_def)
  have "new_ack r ?pcb = None"
    using u assms(1) by (simp add: new_ack_def Let_def open_cwnd_zero)
  then show ?thesis using assms(4,5) u by (simp add: receive_ack_def)
qed

text \<open>A FIN that is queued behind nothing, and its transmission through a window of 0.\<close>

lemma enqueue_loop_empty:
  assumes "enqueue_loop pcb fl af None None 0 sq ql [] sl s = Inr (queue, sl', ql', s')"
  shows "\<exists>p. queue = [enqueue_seg pcb fl None sq 0 p] \<and> sl' = 0"
proof -
  have last: "enqueue_loop pcb fl af None None 0 sq ql [x] sl s = Inr ([x], sl, ql, s)" for sq ql sl s x
    by (subst enqueue_loop.simps) simp
  show ?thesis
    using assms by (subst (asm) enqueue_loop.simps) (auto simp: last split: prod.splits bool.splits option.splits if_splits)
qed

lemma send_fin:
  assumes "tcp_send_ctrl pcb TCP_FIN s = (ERR_OK, p1, s1)" "unsent pcb = []"
  shows "\<exists>p q. p1 = pcb\<lparr>unsent := [enqueue_seg pcb TCP_FIN None (snd_lbb pcb) 0 p], flags := flags pcb OR TF_FIN,
    snd_lbb := snd_lbb pcb + 1, snd_buf := snd_buf pcb - 1, snd_queuelen := q\<rparr>"
proof -
  obtain queue sl ql t where e: "enqueue_loop pcb TCP_FIN TCP_WRITE_FLAG_COPY None None 0 (snd_lbb pcb) (snd_queuelen pcb) [] 0 s = Inr (queue, sl, ql, t)"
    using assms(1) by (auto simp: tcp_send_ctrl_def tcp_enqueue_def Let_def split: if_splits sum.splits)
  have c: "\<not> (0 > snd_buf pcb \<or> snd_queuelen pcb \<ge> TCP_SND_QUEUELEN \<or> snd_queuelen pcb > TCP_SNDQUEUELEN_OVERFLOW)"
    using assms(1) by (auto simp: tcp_send_ctrl_def tcp_enqueue_def Let_def split: if_splits)
  obtain p where p: "queue = [enqueue_seg pcb TCP_FIN None (snd_lbb pcb) 0 p]" "sl = 0" using enqueue_loop_empty [OF e] by blast
  have "has TCP_FIN TCP_FIN" by (simp add: TCP_FIN_def)
  then have "tcp_send_ctrl pcb TCP_FIN s = (ERR_OK, pcb\<lparr>unsent := [enqueue_seg pcb TCP_FIN None (snd_lbb pcb) 0 p], flags := flags pcb OR TF_FIN,
    snd_lbb := snd_lbb pcb + 1, snd_buf := snd_buf pcb - 1, snd_queuelen := ql\<rparr>, t)"
    unfolding tcp_send_ctrl_def tcp_enqueue_def if_not_P [OF c] e using assms(2) c by (simp add: p join_queue_def set_psh_def)
  then have "p1 = pcb\<lparr>unsent := [enqueue_seg pcb TCP_FIN None (snd_lbb pcb) 0 p], flags := flags pcb OR TF_FIN,
    snd_lbb := snd_lbb pcb + 1, snd_buf := snd_buf pcb - 1, snd_queuelen := ql\<rparr>" using assms(1) by simp
  then show ?thesis by blast
qed

lemma tcp_output_segment_fields:
  assumes "tcp_output_segment g pcb s = (g', pcb', s')"
  shows "TCP_TCPLEN g' = TCP_TCPLEN g" "seg_seqno g' = seg_seqno g" "unsent pcb' = unsent pcb" "state pcb' = state pcb" "cwnd pcb' = cwnd pcb"
    "ssthresh pcb' = ssthresh pcb" "lastack pcb' = lastack pcb" "snd_max pcb' = snd_max pcb"
  using assms
  by (auto simp: tcp_output_segment_def send_segment_def Let_def with_chksum_def TCP_TCPLEN_def split: if_splits option.splits prod.splits)

lemma output_one_fin:
  assumes "output_one g [] pcb s = (p2, s2)" "seg_seqno g = lastack pcb" "TCP_TCPLEN g = 1" "snd_max pcb = lastack pcb"
  shows "unsent p2 = []" "state p2 = state pcb" "cwnd p2 = cwnd pcb" "ssthresh p2 = ssthresh pcb" "lastack p2 = lastack pcb" "snd_max p2 = lastack pcb + 1"
proof -
  let ?g = "if state pcb \<noteq> SYN_SENT then TCPH_SET_FLAG TCP_ACK g else g"
  let ?f = "if state pcb \<noteq> SYN_SENT then flags pcb AND NOT (TF_ACK_DELAY OR TF_ACK_NOW) else flags pcb"
  obtain h p t where o: "tcp_output_segment ?g (pcb\<lparr>unsent := [], flags := ?f\<rparr>) s = (h, p, t)" by (metis prod_cases3)
  have "TCP_TCPLEN ?g = TCP_TCPLEN g" by (simp add: TCP_TCPLEN_def TCPH_SET_FLAG_def TCP_ACK_def TCP_FIN_def TCP_SYN_def word_ao_dist)
  then have g: "TCP_TCPLEN ?g = 1" "seg_seqno ?g = lastack pcb" using assms(2,3) by (simp_all add: TCPH_SET_FLAG_def)
  note f = tcp_output_segment_fields [OF o]
  have h: "seg_seqno h = lastack pcb" "TCP_TCPLEN h = 1" using f(1,2) g by simp_all
  have l: "TCP_SEQ_LT (lastack pcb) (lastack pcb + 1)" by (simp add: TCP_SEQ_LT_def)
  have p2: "p2 = p\<lparr>snd_nxt := lastack pcb + 1, snd_max := lastack pcb + 1, unacked := queue_unacked h (unacked p)\<rparr>"
    using assms(1,4) o h l f(8) by (cases "state pcb = SYN_SENT") (auto simp: output_one_def Let_def)
  show "unsent p2 = []" "state p2 = state pcb" "cwnd p2 = cwnd pcb" "ssthresh p2 = ssthresh pcb" "lastack p2 = lastack pcb" "snd_max p2 = lastack pcb + 1"
    unfolding p2 using f(3-7) by simp_all
qed

lemma fin_passes_closed_window:
  assumes "unsent pcb = [g]" "seg_seqno g = lastack pcb" "seg_len g = 0" "has (seg_flags g) TCP_FIN" "snd_max pcb = lastack pcb"
    and "has (flags pcb) TF_FIN" "cwnd pcb = 0" "tcp_input_pcb s \<noteq> pcb_addr pcb" "tcp_output pcb s = (e, p2, s2)"
  shows "state p2 = state pcb \<and> cwnd p2 = 0 \<and> ssthresh p2 = ssthresh pcb \<and> lastack p2 = lastack pcb \<and> snd_max p2 = lastack pcb + 1"
proof -
  have i: "in_flight pcb g = 0" using assms(2,3) by (simp add: in_flight_def)
  have n: "has (flags pcb) (TF_NAGLEMEMERR OR TF_FIN)" using assms(6) by (metis word_ao_dist and_zero_eq or_eq_0_iff bit.conj_disj_distrib)
  obtain q t where o: "output_one g [] pcb s = (q, t)" by fastforce
  have "TCP_TCPLEN g = 1" using assms(3,4) by (simp add: TCP_TCPLEN_def)
  note q = output_one_fin [OF o assms(2) this assms(5)]
  have "p2 = q\<lparr>flags := flags q AND NOT TF_NAGLEMEMERR\<rparr>"
    using assms(1,7-9) i n o q(1) by (simp add: tcp_output_def Let_def)
  then show ?thesis using q assms(7) by simp
qed

lemma close_through_closed_window:
  assumes "pcbs t a = Some pcb" "state pcb = ESTABLISHED" "unsent pcb = []" "snd_lbb pcb = lastack pcb" "snd_max pcb = lastack pcb"
    and "cwnd pcb = 0" "ssthresh pcb = 0" "a = pcb_addr pcb" "tcp_input_pcb t \<noteq> a" "tcp_close a t = Some (ERR_OK, t')"
  shows "\<exists>p2. pcbs t' a = Some p2 \<and> state p2 = FIN_WAIT_1 \<and> cwnd p2 = 0 \<and> ssthresh p2 = 0 \<and> snd_max p2 = lastack p2 + 1"
proof -
  obtain e p1 t1 where c: "tcp_send_ctrl pcb TCP_FIN t = (e, p1, t1)" by (metis prod_cases3)
  then have ok: "e = ERR_OK" using assms(1,2,10) by (auto simp: tcp_close_def split: if_splits prod.splits)
  obtain p q where p1: "p1 = pcb\<lparr>unsent := [enqueue_seg pcb TCP_FIN None (snd_lbb pcb) 0 p], flags := flags pcb OR TF_FIN,
      snd_lbb := snd_lbb pcb + 1, snd_buf := snd_buf pcb - 1, snd_queuelen := q\<rparr>"
    using send_fin [OF c [unfolded ok] assms(3)] by blast
  obtain e2 p2 t2 where o: "tcp_output (p1\<lparr>state := FIN_WAIT_1\<rparr>) t1 = (e2, p2, t2)" by (metis prod_cases3)
  have t1: "tcp_input_pcb t1 = tcp_input_pcb t" using tcp_enqueue_frame [OF c [unfolded tcp_send_ctrl_def]] by (auto simp: quiet_def)
  have "state p2 = FIN_WAIT_1 \<and> cwnd p2 = 0 \<and> ssthresh p2 = 0 \<and> lastack p2 = lastack pcb \<and> snd_max p2 = lastack pcb + 1"
    using fin_passes_closed_window [OF _ _ _ _ _ _ _ _ o] assms(4-9) t1
    by (simp add: p1 enqueue_seg_def TCP_FIN_def TF_FIN_def word_ao_dist)
  moreover have "pcb_addr p2 = a" using tcp_output_frame [OF o] assms(8) by (simp add: kept_def p1)
  moreover have "t' = put p2 t2" using assms(1,2,10) c ok o by (simp add: tcp_close_def)
  ultimately show ?thesis by (simp add: put_def)
qed

lemma process_divides_by_zero:
  assumes "state pcb = FIN_WAIT_1" "cwnd pcb = 0" "ssthresh pcb = 0" "snd_max pcb = lastack pcb + 1"
    and "has (rx_flags r) TCP_ACK" "\<not> has (rx_flags r) TCP_RST" "ackno r = snd_max pcb"
  shows "tcp_process app r pcb s = None"
proof -
  let ?pcb = "pcb\<lparr>tmr := tcp_ticks s, keep_cnt_sent := 0\<rparr>"
  have "receive_ack r ?pcb s = None"
    by (rule receive_ack_divides_by_zero) (use assms in \<open>simp_all add: TCP_SEQ_BETWEEN_def TCP_SEQ_GEQ_def TCP_SEQ_LEQ_def\<close>)
  then show ?thesis using assms(1,5,6) by (simp add: tcp_process_def tcp_receive_def)
qed

lemma parseopt_mss_option:
  assumes "rx_opts r = 2 # 4 # a # b # rest" "hdr_hdrlen (rx_hdr r) > 5"
  shows "tcp_parseopt r pcb = Some (pcb\<lparr>mss := min TCP_MSS (push_bit 8 (ucast a) OR ucast b)\<rparr>)"
proof -
  have "0 < 4 * (unat (hdr_hdrlen (rx_hdr r)) - 5)" using assms(2) by (simp add: word_less_nat_alt)
  then show ?thesis
    using assms by (simp add: tcp_parseopt_def parseopt_loop.simps elem_def min_def Let_def not_less)
qed

text \<open>
  Claim C37: a SYN|ACK that announces a segment size of 0 leaves the new connection with a segment size and a congestion
  window of 0, through which no data goes.  The FIN that \<^verbatim>\<open>tcp_close\<close> sends for the application does go (the length of its
  segment is 0), and when the peer acknowledges it, \<^verbatim>\<open>tcp_process\<close> divides by the congestion window.
\<close>

theorem zero_mss_divides_by_zero:
  assumes "rx_opts r = 2 # 4 # 0 # 0 # rest" "hdr_hdrlen (rx_hdr r) > 5" "unacked pcb = [g]" "unsent pcb = []"
    and "has (rx_flags r) TCP_SYN" "has (rx_flags r) TCP_ACK" "ackno r = seg_seqno g + 1" "snd_lbb pcb = ackno r" "snd_max pcb = ackno r"
    and "cb_connected pcb = 0" "tcp_input_pcb s = pcb_addr pcb"
  shows "\<exists>pcb' s'. process_syn_sent app r pcb s = Some (r, pcb', s') \<and> state pcb' = ESTABLISHED \<and> mss pcb' = 0 \<and> cwnd pcb' = 0
    \<and> (\<forall>fl a t t'. pcbs t a = Some (pcb'\<lparr>flags := fl\<rparr>) \<and> a = pcb_addr pcb' \<and> tcp_input_pcb t \<noteq> a \<and> tcp_close a t = Some (ERR_OK, t')
      \<longrightarrow> (\<exists>p2. pcbs t' a = Some p2 \<and> state p2 = FIN_WAIT_1 \<and> snd_max p2 = lastack p2 + 1
        \<and> (\<forall>r2 t2. has (rx_flags r2) TCP_ACK \<and> \<not> has (rx_flags r2) TCP_RST \<and> ackno r2 = snd_max p2 \<longrightarrow> tcp_process app r2 p2 t2 = None)))"
proof -
  have p: "tcp_parseopt r pcb = Some (pcb\<lparr>mss := 0\<rparr>)" for pcb
    using parseopt_mss_option [OF assms(1,2), of pcb] by (simp add: min_def)
  have z: "tcp_eff_send_mss 0 d s = 0" for d
    by (simp add: tcp_eff_send_mss_def split: option.splits)
  define q where "q = pcb\<lparr>snd_buf := snd_buf pcb + 1, rcv_nxt := seqno r + 1, lastack := ackno r,
    snd_wnd := hdr_wnd (rx_hdr r), snd_wl1 := seqno r - 1, state := ESTABLISHED, mss := 0, ssthresh := 0, cwnd := 0,
    snd_queuelen := snd_queuelen pcb - 1, unacked := [], rtime := - 1, flags := flags pcb OR TF_ACK_NOW\<rparr>"
  have s: "process_syn_sent app r pcb s = Some (r, q, s)"
    using assms(3-11) p z by (simp add: q_def process_syn_sent_def tcp_ack_now_input Let_def)
  have q: "state q = ESTABLISHED" "mss q = 0" "cwnd q = 0" "ssthresh q = 0" "unsent q = []" "snd_lbb q = lastack q" "snd_max q = lastack q"
    using assms(4,8,9) by (simp_all add: q_def)
  have "\<exists>p2. pcbs t' a = Some p2 \<and> state p2 = FIN_WAIT_1 \<and> snd_max p2 = lastack p2 + 1
      \<and> (\<forall>r2 t2. has (rx_flags r2) TCP_ACK \<and> \<not> has (rx_flags r2) TCP_RST \<and> ackno r2 = snd_max p2 \<longrightarrow> tcp_process app r2 p2 t2 = None)"
    if c: "pcbs t a = Some (q\<lparr>flags := fl\<rparr>)" "a = pcb_addr q" "tcp_input_pcb t \<noteq> a" "tcp_close a t = Some (ERR_OK, t')" for fl a t t'
  proof -
    obtain p2 where "pcbs t' a = Some p2" "state p2 = FIN_WAIT_1" "cwnd p2 = 0" "ssthresh p2 = 0" "snd_max p2 = lastack p2 + 1"
      using close_through_closed_window [OF c(1) _ _ _ _ _ _ _ c(3,4)] q c(2) by auto
    then show ?thesis by (auto intro!: process_divides_by_zero)
  qed
  then show ?thesis using s q(1-3) by blast
qed

text \<open>The whole run: SYN|ACK without a segment size, the acknowledgement sent, \<^verbatim>\<open>tcp_close\<close>, the acknowledgement of the FIN.\<close>

definition syn_sent_pcb :: tcp_pcb where
  "syn_sent_pcb = (zero_pcb 16)\<lparr>state := SYN_SENT, snd_nxt := 101, snd_max := 101, snd_lbb := 101, lastack := 99, cwnd := 1,
     unacked := [sample_seg 100 2 []], snd_queuelen := 1, snd_buf := TCP_SND_BUF, local_ip := 0x0200000a, remote_ip := 0x0100000a\<rparr>"

definition no_mss_rx :: rx where
  "no_mss_rx = (option_rx [2, 4, 0, 0])\<lparr>rx_flags := 0x12, ackno := 101\<rparr>"

definition no_mss_pcb :: tcp_pcb where
  "no_mss_pcb = (case process_syn_sent null_app no_mss_rx syn_sent_pcb sample_tcp of Some (_, pcb, _) \<Rightarrow> pcb | None \<Rightarrow> syn_sent_pcb)"

definition no_mss_tcp :: tcp where
  "no_mss_tcp = sample_tcp\<lparr>tcp_input_pcb := NULL, mem := [True, True], pcbs := [16 \<mapsto> no_mss_pcb\<lparr>flags := 0\<rparr>],
     netif_list := [\<lparr>netif_ip_addr = 0x0200000a, netif_netmask = 0xffffff, netif_flags = 0x43, netif_mtu = 1500, netif_gw = 0,
       netif_name = (0, 0), netif_num = 0\<rparr>]\<rparr>"

definition no_mss_closed :: tcp where
  "no_mss_closed = (case tcp_close 16 no_mss_tcp of Some (_, t) \<Rightarrow> t | None \<Rightarrow> no_mss_tcp)"

theorem zero_mss_divides_by_zero_witness:
  "\<exists>s' p2. process_syn_sent null_app no_mss_rx syn_sent_pcb sample_tcp = Some (no_mss_rx, no_mss_pcb, s')
    \<and> tcp_close 16 no_mss_tcp = Some (ERR_OK, no_mss_closed) \<and> pcbs no_mss_closed 16 = Some p2
    \<and> tcp_process null_app (no_mss_rx\<lparr>rx_flags := 0x10, ackno := snd_max p2\<rparr>) p2 no_mss_closed = None"
proof -
  obtain pcb' s' where r: "process_syn_sent null_app no_mss_rx syn_sent_pcb sample_tcp = Some (no_mss_rx, pcb', s')"
    and c: "\<forall>fl a t t'. pcbs t a = Some (pcb'\<lparr>flags := fl\<rparr>) \<and> a = pcb_addr pcb' \<and> tcp_input_pcb t \<noteq> a \<and> tcp_close a t = Some (ERR_OK, t')
      \<longrightarrow> (\<exists>p2. pcbs t' a = Some p2 \<and> state p2 = FIN_WAIT_1 \<and> snd_max p2 = lastack p2 + 1
        \<and> (\<forall>r2 t2. has (rx_flags r2) TCP_ACK \<and> \<not> has (rx_flags r2) TCP_RST \<and> ackno r2 = snd_max p2 \<longrightarrow> tcp_process null_app r2 p2 t2 = None))"
    using zero_mss_divides_by_zero [of no_mss_rx "[]" syn_sent_pcb "sample_seg 100 2 []" sample_tcp null_app]
    by (simp add: no_mss_rx_def option_rx_def syn_sent_pcb_def sample_defs TCP_SYN_def TCP_ACK_def) metis
  have p: "pcb' = no_mss_pcb" using r by (simp add: no_mss_pcb_def)
  have e: "fst (tcp_send_ctrl (no_mss_pcb\<lparr>flags := 0\<rparr>) TCP_FIN no_mss_tcp) = ERR_OK" "state no_mss_pcb = ESTABLISHED" "pcb_addr no_mss_pcb = 16"
    by code_simp+
  have h: "pcbs no_mss_tcp 16 = Some (no_mss_pcb\<lparr>flags := 0\<rparr>)" "tcp_input_pcb no_mss_tcp \<noteq> 16" by (simp_all add: no_mss_tcp_def)
  have "\<exists>t. tcp_close 16 no_mss_tcp = Some (ERR_OK, t)" using h(1) e(1,2) by (auto simp: tcp_close_def split: prod.splits)
  then have t: "tcp_close 16 no_mss_tcp = Some (ERR_OK, no_mss_closed)" by (auto simp: no_mss_closed_def)
  obtain p2 where "pcbs no_mss_closed 16 = Some p2" "\<forall>r2 t2. has (rx_flags r2) TCP_ACK \<and> \<not> has (rx_flags r2) TCP_RST \<and> ackno r2 = snd_max p2
      \<longrightarrow> tcp_process null_app r2 p2 t2 = None"
    using c [rule_format, of no_mss_tcp 16 0 no_mss_closed] h t e(3) unfolding p by auto
  moreover have "has (0x10 :: u8) TCP_ACK" "\<not> has (0x10 :: u8) TCP_RST" by (simp_all add: TCP_ACK_def TCP_RST_def)
  ultimately show ?thesis using r t unfolding p by auto
qed

subsection \<open>Ports\<close>

abbreviation ephemeral :: "u16 \<Rightarrow> bool" where
  "ephemeral p \<equiv> TCP_LOCAL_PORT_RANGE_START \<le> p \<and> p \<le> TCP_LOCAL_PORT_RANGE_END"

lemma ephemeral_unat: "ephemeral p \<longleftrightarrow> 4096 \<le> unat p \<and> unat p \<le> 32767"
  by (simp add: TCP_LOCAL_PORT_RANGE_START_def TCP_LOCAL_PORT_RANGE_END_def word_le_nat_alt)

definition next_port :: "u16 \<Rightarrow> u16" where
  "next_port p = (if p + 1 > TCP_LOCAL_PORT_RANGE_END then TCP_LOCAL_PORT_RANGE_START else p + 1)"

lemma new_port_loop_step:
  "new_port_loop used p = (if next_port p \<in> set used then new_port_loop used (next_port p) else Some (next_port p))"
  by (subst new_port_loop.simps) (simp add: next_port_def Let_def)

lemma unat_next_port: "ephemeral p \<Longrightarrow> unat (next_port p) = (if unat p = 32767 then 4096 else unat p + 1)"
proof -
  assume "ephemeral p"
  then have "unat p \<le> 32767" by (simp add: ephemeral_unat)
  moreover from this have "unat (p + 1) = unat p + 1" by (simp add: unat_add_small)
  ultimately show ?thesis
    by (auto simp: next_port_def TCP_LOCAL_PORT_RANGE_START_def TCP_LOCAL_PORT_RANGE_END_def word_less_nat_alt)
qed

lemma ephemeral_next_port: "ephemeral p \<Longrightarrow> ephemeral (next_port p)"
  using unat_next_port [of p] unfolding ephemeral_unat by auto

lemma new_port_loop_free:
  assumes "ephemeral f" "f \<notin> set used" "ephemeral p"
  shows "\<exists>q. new_port_loop used p = Some q \<and> ephemeral q \<and> q \<notin> set used"
  using assms(3)
proof (induction "if unat p < unat f then unat f - unat p else unat f + 28672 - unat p" arbitrary: p rule: less_induct)
  case less
  show ?case
  proof (cases "next_port p \<in> set used")
    case True
    have "unat (next_port p) \<noteq> unat f" using True assms(2) by (metis word_unat_eq_iff)
    then have "(if unat (next_port p) < unat f then unat f - unat (next_port p) else unat f + 28672 - unat (next_port p))
        < (if unat p < unat f then unat f - unat p else unat f + 28672 - unat p)"
      using unat_next_port [OF less.prems] less.prems assms(1) unfolding ephemeral_unat by (simp split: if_splits) linarith
    with less.hyps [of "next_port p"] ephemeral_next_port [OF less.prems] True show ?thesis
      by (subst new_port_loop_step) simp
  next
    case False
    then show ?thesis using ephemeral_next_port [OF less.prems] by (subst new_port_loop_step) simp
  qed
qed

lemma new_port_loop_spins:
  assumes "\<forall>p. ephemeral p \<longrightarrow> p \<in> set used" "ephemeral p"
  shows "new_port_loop used p = None"
proof -
  have "(\<forall>p. ephemeral p \<longrightarrow> p \<in> set used) \<longrightarrow> ephemeral p \<longrightarrow> False"
    if "new_port_loop used p = Some y" for used p y
  proof (rule new_port_loop.raw_induct [OF _ that], intro impI)
    fix self used p y
    assume IH: "\<And>used p y. self used p = Some y \<Longrightarrow> (\<forall>p. ephemeral p \<longrightarrow> p \<in> set used) \<longrightarrow> ephemeral p \<longrightarrow> False"
      and body: "(let p = if TCP_LOCAL_PORT_RANGE_END < p + 1 then TCP_LOCAL_PORT_RANGE_START else p + 1
        in if p \<in> set used then self used p else Some p) = Some y"
      and all: "\<forall>p. ephemeral p \<longrightarrow> p \<in> set used" and p: "ephemeral p"
    have "self used (next_port p) = Some y"
      using body all ephemeral_next_port [OF p] by (simp add: next_port_def Let_def split: if_splits)
    then show False using IH all ephemeral_next_port [OF p] by blast
  qed
  then show ?thesis using assms by (metis not_None_eq)
qed

text \<open>
  When some port of the ephemeral range is not the local port of an active, TIME-WAIT or
  listening connection, \<^verbatim>\<open>tcp_new_port\<close> returns such a port and remembers it; when there is none it
  does not return.  (It never looks at the ports that are bound and not yet connected.)
\<close>

theorem tcp_new_port_free:
  assumes "ephemeral (tcp_port s)" "blocks (tcp_active_pcbs s) s = Some active" "blocks (tcp_tw_pcbs s) s = Some tw"
    and "blocks (tcp_listen_pcbs s) s = Some listen" "used = map local_port (active @ tw @ listen)"
  shows "if \<exists>f. ephemeral f \<and> f \<notin> set used
    then \<exists>p. tcp_new_port s = Some (p, s\<lparr>tcp_port := p\<rparr>) \<and> ephemeral p \<and> p \<notin> set used
    else tcp_new_port s = None"
proof (cases "\<exists>f. ephemeral f \<and> f \<notin> set used")
  case True
  then obtain p where "new_port_loop used (tcp_port s) = Some p" "ephemeral p" "p \<notin> set used"
    using new_port_loop_free assms(1) by blast
  then show ?thesis using True assms by (auto simp: tcp_new_port_def)
next
  case False
  then have "new_port_loop used (tcp_port s) = None" using new_port_loop_spins assms(1) by blast
  with False assms show ?thesis by (auto simp: tcp_new_port_def)
qed

theorem tcp_new_port_free_witness:
  "\<exists>p. tcp_new_port sample_tcp = Some (p, sample_tcp\<lparr>tcp_port := p\<rparr>) \<and> ephemeral p \<and> p \<notin> {0}"
proof -
  have e: "ephemeral 4096" by (simp add: TCP_LOCAL_PORT_RANGE_START_def TCP_LOCAL_PORT_RANGE_END_def)
  show ?thesis
    using tcp_new_port_free [of sample_tcp "[sample_pcb]" "[]" "[]" "[0]"] e
    by (auto simp: sample_defs blocks_def TCP_LOCAL_PORT_RANGE_START_def split: if_splits)
qed

subsection \<open>Binding\<close>

text \<open>
  The TIME-WAIT blocks are the last that \<^verbatim>\<open>tcp_bind\<close> compares with, by equality of the address only: the any address passes
  them, and \<^verbatim>\<open>NULL\<close>, which the other comparisons take for the any address, is dereferenced.
\<close>

lemma tcp_bind_over_time_wait:
  assumes "pcbs s a = Some pcb" "state pcb = CLOSED" "port \<noteq> 0" "blocks (tcp_active_pcbs s) s = Some active" "blocks (tcp_tw_pcbs s) s = Some tw"
    and "blocks (tcp_listen_pcbs s) s = Some listen" "blocks (tcp_bound_pcbs s) s = Some bound" "\<forall>c\<in>set (listen @ active @ bound). local_port c \<noteq> port"
    and "c \<in> set tw" "local_port c = port" "\<forall>c\<in>set tw. local_ip c \<noteq> 0"
  shows "tcp_bind a None port s = None" "\<exists>s'. tcp_bind a (Some 0) port s = Some (ERR_OK, s')"
  using assms by (auto simp: tcp_bind_def list_ex_iff in_use_def)

end
