(* ===== verification/Tcp_States.thy ===== *)
theory Tcp_States
  imports Tcp_Options
begin

section \<open>The state of a connection\<close>

text \<open>
  The states of a connection and the steps between them as a transition relation; \<^verbatim>\<open>tcp_process\<close> takes only
  steps of this relation.
\<close>

subsection \<open>Receiving\<close>

text \<open>
  What \<^verbatim>\<open>tcp_receive\<close> does to the state: a FIN that comes off the out-of-sequence queue moves an established
  connection to CLOSE-WAIT, and nothing else changes.
\<close>

definition advances :: "rx \<Rightarrow> tcp_pcb \<Rightarrow> rx \<Rightarrow> tcp_pcb \<Rightarrow> bool" where
  "advances r p r' p' \<longleftrightarrow> rx_flags r' = rx_flags r \<and> ackno r' = ackno r \<and> pcb_addr p' = pcb_addr p
     \<and> (recv_flags r' = recv_flags r \<or> recv_flags r' = TF_GOT_FIN)
     \<and> (state p' = state p \<or> state p = ESTABLISHED \<and> state p' = CLOSE_WAIT \<and> recv_flags r' = TF_GOT_FIN)"

lemma advances_kept:
  assumes "kept p' = kept p"
  shows "advances r p r p'"
  using keptD(1,2) [OF assms] by (simp add: advances_def)

lemma advances_refl [simp]: "advances r p r p"
  by (simp add: advances_def)

lemma advances_trans [trans]: "advances r p r1 p1 \<Longrightarrow> advances r1 p1 r2 p2 \<Longrightarrow> advances r p r2 p2"
  by (auto simp: advances_def)

lemma shrink_wnd_same [simp]: "state (shrink_wnd n p) = state p" "pcb_addr (shrink_wnd n p) = pcb_addr p"
  by (simp_all add: shrink_wnd_def Let_def)

lemma dequeue_advances: "dequeue_ooseq gs p r = Some (p', r') \<Longrightarrow> advances r p r' p'"
proof (induction gs p r rule: dequeue_ooseq.induct)
  case (1 p r)
  then show ?case by (auto simp: advances_def)
next
  case (2 g gs p r)
  show ?case
  proof (cases "seg_seqno g = rcv_nxt p")
    case True
    let ?p = "shrink_wnd (TCP_TCPLEN g) (p\<lparr>rcv_nxt := rcv_nxt p + TCP_TCPLEN g\<rparr>)"
    obtain d where d: "seg_p g = Some d" using True 2(2) by (auto simp: Let_def split: Option.bind_splits)
    let ?r = "if tot_len d > 0 then r\<lparr>seqno := seg_seqno g, recv_data := Some (case recv_data r of None \<Rightarrow> d | Some b \<Rightarrow> b @ d)\<rparr>
      else r\<lparr>seqno := seg_seqno g\<rparr>"
    let ?p2 = "if has (seg_flags g) TCP_FIN then if state ?p = ESTABLISHED then ?p\<lparr>state := CLOSE_WAIT\<rparr> else ?p else ?p"
    let ?r2 = "if has (seg_flags g) TCP_FIN then ?r\<lparr>recv_flags := TF_GOT_FIN\<rparr> else ?r"
    have "dequeue_ooseq gs ?p2 ?r2 = Some (p', r')" using 2(2) True d by (simp add: Let_def split: if_splits)
    then have "advances ?r2 ?p2 r' p'" using 2(1) True d by (simp add: Let_def split: if_splits)
    moreover have "advances r p ?r2 ?p2" by (simp add: advances_def)
    ultimately show ?thesis by (rule advances_trans [rotated])
  next
    case False
    then show ?thesis using 2 by (auto simp: advances_def)
  qed
qed

lemma accept_advances: "accept_inseg p r = Some (p', r') \<Longrightarrow> advances r p r' p'"
  by (auto simp: accept_inseg_def Let_def advances_def split: if_splits Option.bind_splits)

lemma trim_against_advances: "trim_against_ooseq p r = Some (p', r') \<Longrightarrow> advances r p r' p'"
  by (auto simp: trim_against_ooseq_def advances_def split: if_splits Option.bind_splits list.splits)

lemma tcp_seg_copy_quiet [frame]: "tcp_seg_copy g s = (c, s') \<Longrightarrow> quiet s s'"
  by (auto simp: tcp_seg_copy_def Let_def split: prod.splits dest: memory_left_quiet)

lemma ooseq_walk_quiet [frame]: "ooseq_walk sq pre gs i s = Some (q, s') \<Longrightarrow> quiet s s'"
proof (induction sq pre gs i s rule: ooseq_walk.induct)
  case (2 sq pre g gs i s)
  then show ?case
    by (auto split: if_splits prod.splits option.splits list.splits Option.bind_splits dest: tcp_seg_copy_quiet)
qed simp

lemma receive_inseq_advances:
  assumes "receive_inseq r p s = Some (r', p', s')"
  shows "advances r p r' p' \<and> quiet s s'"
proof -
  obtain p1 r1 p2 r2 p3 where "trim_against_ooseq p r = Some (p1, r1)" "accept_inseg p1 r1 = Some (p2, r2)"
    "dequeue_ooseq (ooseq p2) p2 r2 = Some (p3, r')" and a: "tcp_ack p3 s = (p', s')"
    using assms by (auto simp: receive_inseq_def split: Option.bind_splits)
  then have "advances r p r1 p1" "advances r1 p1 r2 p2" "advances r2 p2 r' p3"
    using trim_against_advances accept_advances dequeue_advances by blast+
  moreover have "advances r' p3 r' p'" "quiet s s'" using tcp_ack_frame [OF a] advances_kept by auto
  ultimately show ?thesis using advances_trans by blast
qed

lemma receive_ooseq_advances:
  assumes "receive_ooseq r p s = Some (p', s')"
  shows "advances r p r p' \<and> quiet s s'"
proof -
  obtain p1 s1 where a: "tcp_ack_now p s = (p1, s1)" by force
  then have "advances r p r p1" "quiet s s1" using tcp_ack_now_frame [OF a] advances_kept by auto
  moreover have "(\<exists>q. p' = p1\<lparr>ooseq := q\<rparr>) \<and> quiet s1 s'"
    using assms a by (auto simp: receive_ooseq_def split: if_splits prod.splits Option.bind_splits option.splits
      dest: tcp_seg_copy_quiet ooseq_walk_quiet)
  ultimately show ?thesis by (auto simp: advances_def intro: quiet_trans)
qed

lemma receive_data_cases:
  assumes "receive_data r p s = Some (acc, r', p', s')"
  obtains r1 p1 s1 where "advances r p r1 p1" "quiet s s1" "kept p1 = kept p"
    and "\<not> acc \<and> r' = r1 \<and> tcp_ack_now p1 s1 = (p', s') \<or> acc \<and> receive_inseq r1 p1 s1 = Some (r', p', s')
      \<or> \<not> acc \<and> r' = r1 \<and> receive_ooseq r1 p1 s1 = Some (p', s')"
proof -
  obtain r1 p1 s1 where 1: "(if TCP_SEQ_BETWEEN (rcv_nxt p) (seqno r + 1) (seqno r + ucast (tcplen r) - 1)
       then do { r \<leftarrow> trim_inseg p r; Some (r, p, s) }
       else if TCP_SEQ_LT (seqno r) (rcv_nxt p) then Some (r, tcp_ack_now p s) else Some (r, p, s)) = Some (r1, p1, s1)"
    and 2: "\<not> acc \<and> r' = r1 \<and> tcp_ack_now p1 s1 = (p', s') \<or> acc \<and> receive_inseq r1 p1 s1 = Some (r', p', s')
      \<or> \<not> acc \<and> r' = r1 \<and> receive_ooseq r1 p1 s1 = Some (p', s')"
    using assms unfolding receive_data_def
    by (auto elim!: Option.bind_eq_Some_conv [THEN iffD1, elim_format] split: if_splits prod.splits)
  have "advances r p r1 p1 \<and> quiet s s1 \<and> kept p1 = kept p"
    using 1 by (auto simp: trim_inseg_def Let_def dest!: tcp_ack_now_frame intro: advances_kept
      split: if_splits Option.bind_splits) (simp_all add: advances_def)
  with 2 show thesis using that by blast
qed

lemma ack_now_advances: "tcp_ack_now p s = (p', s') \<Longrightarrow> advances r p r p' \<and> quiet s s'"
  using tcp_ack_now_frame advances_kept by blast

lemma receive_data_advances:
  assumes "receive_data r p s = Some (acc, r', p', s')"
  shows "advances r p r' p' \<and> quiet s s'"
proof -
  obtain r1 p1 s1 where 1: "advances r p r1 p1" "quiet s s1"
    and 2: "\<not> acc \<and> r' = r1 \<and> tcp_ack_now p1 s1 = (p', s') \<or> acc \<and> receive_inseq r1 p1 s1 = Some (r', p', s')
      \<or> \<not> acc \<and> r' = r1 \<and> receive_ooseq r1 p1 s1 = Some (p', s')"
    using receive_data_cases [OF assms] by blast
  from 2 have "advances r1 p1 r' p' \<and> quiet s1 s'"
    using ack_now_advances receive_inseq_advances receive_ooseq_advances by (elim disjE conjE) auto
  with 1 show ?thesis using advances_trans quiet_trans by blast
qed

lemma tcp_receive_cases:
  assumes "tcp_receive r p s = Some (acc, r', p', s')"
  obtains p1 s1 where "kept p1 = kept p" "quiet s s1"
    and "\<not> acc \<and> r' = r \<and> (tcp_ack_now p1 s1 = (p', s') \<or> p' = p1 \<and> s' = s1) \<or> receive_data r p1 s1 = Some (acc, r', p', s')"
proof -
  obtain p1 s1 where 1: "(if has (rx_flags r) TCP_ACK then receive_ack r p s else Some (p, s)) = Some (p1, s1)"
    and 2: "\<not> acc \<and> r' = r \<and> (tcp_ack_now p1 s1 = (p', s') \<or> p' = p1 \<and> s' = s1) \<or> receive_data r p1 s1 = Some (acc, r', p', s')"
    using assms unfolding tcp_receive_def
    by (auto elim!: Option.bind_eq_Some_conv [THEN iffD1, elim_format] split: if_splits)
  have "kept p1 = kept p \<and> quiet s s1" using 1 by (auto dest!: receive_ack_frame split: if_splits)
  with 2 show thesis using that by blast
qed

lemma tcp_receive_advances:
  assumes "tcp_receive r p s = Some (acc, r', p', s')"
  shows "advances r p r' p' \<and> quiet s s'"
proof -
  obtain p1 s1 where 1: "kept p1 = kept p" "quiet s s1"
    and 2: "\<not> acc \<and> r' = r \<and> (tcp_ack_now p1 s1 = (p', s') \<or> p' = p1 \<and> s' = s1) \<or> receive_data r p1 s1 = Some (acc, r', p', s')"
    using tcp_receive_cases [OF assms] by blast
  have "advances r p1 r' p' \<and> quiet s1 s'" if d: "receive_data r p1 s1 = Some (acc, r', p', s')"
    using receive_data_advances [OF d] by blast
  then have "advances r p1 r' p' \<and> quiet s1 s'" using 2 ack_now_advances by (elim disjE conjE) auto
  then show ?thesis using advances_kept [OF 1(1)] 1(2) advances_trans quiet_trans by blast
qed

subsection \<open>Steps\<close>

text \<open>
  The steps a segment can cause (RFC 793, figure 6): \<^term>\<open>hs\<close> says that it completes the handshake,
  \<^term>\<open>fin\<close> that a FIN of the peer was taken in, \<^term>\<open>ack\<close> that it acknowledges all that was sent.
\<close>

inductive arrival :: "bool \<Rightarrow> bool \<Rightarrow> bool \<Rightarrow> tcp_state \<Rightarrow> tcp_state \<Rightarrow> bool" for hs fin ack where
  stays: "arrival hs fin ack x x"
| opens: "hs \<Longrightarrow> arrival hs fin ack SYN_SENT ESTABLISHED"
| accepted: "hs \<Longrightarrow> arrival hs fin ack SYN_RCVD ESTABLISHED"
| accepted_fin: "hs \<Longrightarrow> fin \<Longrightarrow> arrival hs fin ack SYN_RCVD CLOSE_WAIT"
| peer_closes: "fin \<Longrightarrow> arrival hs fin ack ESTABLISHED CLOSE_WAIT"
| fin_acked: "ack \<Longrightarrow> arrival hs fin ack FIN_WAIT_1 FIN_WAIT_2"
| both_close: "fin \<Longrightarrow> arrival hs fin ack FIN_WAIT_1 CLOSING"
| fin_fin_acked: "fin \<Longrightarrow> ack \<Longrightarrow> arrival hs fin ack FIN_WAIT_1 TIME_WAIT"
| peer_closes_second: "fin \<Longrightarrow> arrival hs fin ack FIN_WAIT_2 TIME_WAIT"
| closing_acked: "ack \<Longrightarrow> arrival hs fin ack CLOSING TIME_WAIT"

declare arrival.intros [intro]
inductive_cases arrival_cases: "arrival hs fin ack x y"
inductive_simps arrival_from_listen: "arrival hs fin ack LISTEN y"

text \<open>The steps of \<^verbatim>\<open>tcp_close\<close>.\<close>

inductive closing :: "tcp_state \<Rightarrow> tcp_state \<Rightarrow> bool" where
  "closing SYN_RCVD FIN_WAIT_1"
| "closing ESTABLISHED FIN_WAIT_1"
| "closing CLOSE_WAIT LAST_ACK"
| "x \<in> {FIN_WAIT_1, FIN_WAIT_2, CLOSING, LAST_ACK, TIME_WAIT} \<Longrightarrow> closing x x"

declare closing.intros [intro]
inductive_cases closing_cases: "closing x y"

definition completes_handshake :: "rx \<Rightarrow> tcp_pcb \<Rightarrow> bool" where
  "completes_handshake r p \<longleftrightarrow> \<not> has (rx_flags r) TCP_RST \<and> has (rx_flags r) TCP_ACK \<and>
     (if state p = SYN_SENT then has (rx_flags r) TCP_SYN \<and> unacked p \<noteq> [] \<and> ackno r = seg_seqno (hd (unacked p)) + 1
      else TCP_SEQ_BETWEEN (ackno r) (lastack p + 1) (snd_nxt p))"

definition fin_seen :: "rx \<Rightarrow> rx \<Rightarrow> bool" where
  "fin_seen r r' \<longleftrightarrow> has (rx_flags r) TCP_FIN \<or> recv_flags r' = TF_GOT_FIN"

text \<open>The application leaves the state of a connection alone in its accept and connected callbacks.\<close>

definition keeps_state :: "(addr \<Rightarrow> tcp \<Rightarrow> err \<times> tcp) \<Rightarrow> bool" where
  "keeps_state cb \<longleftrightarrow> (\<forall>a s p p'. pcbs s a = Some p \<longrightarrow> pcbs (snd (cb a s)) a = Some p'
     \<longrightarrow> state p' = state p \<and> pcb_addr p' = pcb_addr p \<and> tcp_input_pcb (snd (cb a s)) = tcp_input_pcb s)"

definition state_keeping :: "app \<Rightarrow> bool" where
  "state_keeping app \<longleftrightarrow> (\<forall>k e. keeps_state (\<lambda>a. app_accept app k a e) \<and> keeps_state (\<lambda>a. app_connected app k a e))"

lemma call_state:
  assumes "call cb p s = Some (e, p', s')" "keeps_state cb"
  shows "state p' = state p \<and> pcb_addr p' = pcb_addr p \<and> tcp_input_pcb s' = tcp_input_pcb s"
proof -
  have "pcbs (put p s) (pcb_addr p) = Some p" "tcp_input_pcb (put p s) = tcp_input_pcb s" by (simp_all add: put_def)
  moreover have "s' = snd (cb (pcb_addr p) (put p s))" "pcbs s' (pcb_addr p) = Some p'"
    using assms(1) by (auto simp: call_def Let_def split: prod.splits Option.bind_splits)
  ultimately show ?thesis using assms(2) unfolding keeps_state_def by metis
qed

lemma event_accept_state:
  assumes "tcp_event_accept app p s = Some (e, p', s')" "state_keeping app"
  shows "state p' = state p \<and> pcb_addr p' = pcb_addr p \<and> tcp_input_pcb s' = tcp_input_pcb s"
  using assms call_state by (fastforce simp: tcp_event_accept_def state_keeping_def split: if_splits)

lemma connected_state:
  assumes "(if cb_connected p \<noteq> 0 then call (\<lambda>a. app_connected app (cb_connected p) a ERR_OK) p s
    else Some (ERR_OK, p, s)) = Some (e, p', s')" "state_keeping app"
  shows "state p' = state p"
  using assms call_state [of _ p s e p' s'] by (auto simp: state_keeping_def split: if_splits)

lemma passive_close_state:
  assumes "passive_close acc r p s = (p', s')" "input_for p s"
  shows "state p' = state p \<or> has (rx_flags r) TCP_FIN \<and> state p' = CLOSE_WAIT"
  using assms by (auto simp: passive_close_def tcp_ack_now_input split: if_splits)

lemma time_wait_state:
  assumes "enter_time_wait p s = (p', s')" "input_for p s"
  shows "state p' = TIME_WAIT" "snd_nxt p' = snd_nxt p"
  using assms by (auto simp: enter_time_wait_def tcp_ack_now_input tcp_pcb_purge_def Let_def)

lemma fin_wait_1_state:
  assumes "process_fin_wait_1 r p s = (p', s')" "input_for p s" "state p = FIN_WAIT_1"
  shows "arrival hs (fin \<or> has (rx_flags r) TCP_FIN) (fin_acked r p') FIN_WAIT_1 (state p')"
proof (cases "has (rx_flags r) TCP_FIN \<and> fin_acked r p")
  case True
  then have "enter_time_wait p s = (p', s')" using assms(1) by (simp add: process_fin_wait_1_def)
  from time_wait_state [OF this assms(2)] True show ?thesis by (auto simp: fin_acked_def)
next
  case False
  then show ?thesis using assms
    by (auto simp: process_fin_wait_1_def tcp_ack_now_input fin_acked_def split: if_splits)
qed

lemma parseopt_loop_mss:
  assumes "parseopt_loop opts n c p = Some p'"
  shows "p'\<lparr>mss := 0\<rparr> = p\<lparr>mss := 0\<rparr>"
proof (rule parseopt_loop.raw_induct [OF _ assms], goal_cases)
  case (1 self opts n c p y)
  then show ?case by (auto simp: Let_def split: if_splits Option.bind_splits)
qed

lemma parseopt_mss: "tcp_parseopt r p = Some p' \<Longrightarrow> p'\<lparr>mss := 0\<rparr> = p\<lparr>mss := 0\<rparr>"
  using parseopt_loop_mss by (auto simp: tcp_parseopt_def split: if_splits)

lemma parseopt_state:
  assumes "tcp_parseopt r p = Some p'"
  shows "state p' = state p" "pcb_addr p' = pcb_addr p"
  using arg_cong [OF parseopt_mss [OF assms], of state] arg_cong [OF parseopt_mss [OF assms], of pcb_addr] by simp_all

lemma syn_sent_state:
  assumes "process_syn_sent app r p s = Some (r', p', s')" "state_keeping app" "state p = SYN_SENT" "\<not> has (rx_flags r) TCP_RST"
  shows "state p' = SYN_SENT \<or> state p' = ESTABLISHED \<and> completes_handshake r p"
proof -
  obtain x where x: "(if has (rx_flags r) TCP_ACK \<and> has (rx_flags r) TCP_SYN
       then (case unacked p of [] \<Rightarrow> None | g # _ \<Rightarrow> Some (ackno r = seg_seqno g + 1)) else Some False) = Some x"
    using assms(1) by (auto simp: process_syn_sent_def split: Option.bind_splits)
  show ?thesis
  proof (cases x)
    case True
    then have "completes_handshake r p"
      using x assms(3,4) by (auto simp: completes_handshake_def split: if_splits list.splits)
    moreover have "state p' = ESTABLISHED"
    proof -
      let ?p = "p\<lparr>snd_buf := snd_buf p + 1, rcv_nxt := seqno r + 1, lastack := ackno r,
         snd_wnd := hdr_wnd (rx_hdr r), snd_wl1 := seqno r - 1, state := ESTABLISHED\<rparr>"
      obtain p1 where p1: "tcp_parseopt r ?p = Some p1"
        using assms(1) x True by (auto simp: process_syn_sent_def Let_def split: Option.bind_splits)
      let ?q = "p1\<lparr>mss := tcp_eff_send_mss (mss p1) (remote_ip p1) s\<rparr>"
      let ?q1 = "?q\<lparr>ssthresh := mss ?q * 10, cwnd := (if cwnd ?q = 1 then mss ?q * 2 else mss ?q),
         snd_queuelen := snd_queuelen ?q - 1, unacked := tl (unacked ?q)\<rparr>"
      let ?q2 = "if unacked ?q1 = [] then ?q1\<lparr>rtime := - 1\<rparr> else ?q1\<lparr>rtime := 0, nrtx := 0\<rparr>"
      obtain e3 p3 s3 where c: "(if cb_connected ?q2 \<noteq> 0 then call (\<lambda>a. app_connected app (cb_connected ?q2) a ERR_OK) ?q2 s
           else Some (ERR_OK, ?q2, s)) = Some (e3, p3, s3)" and a: "tcp_ack_now p3 s3 = (p', s')"
        using assms(1) True unfolding process_syn_sent_def x bind.bind_lunit if_P [OF True] Let_def p1
        by (auto elim!: Option.bind_eq_Some_conv [THEN iffD1, elim_format])
      have "state ?q2 = ESTABLISHED" using parseopt_state [OF p1] by simp
      then have "state p3 = ESTABLISHED" using connected_state [OF c assms(2)] by simp
      then show ?thesis using keptD(2) tcp_ack_now_frame [OF a] by metis
    qed
    ultimately show ?thesis by blast
  next
    case False
    then show ?thesis using assms(1,3) x by (auto simp: process_syn_sent_def)
  qed
qed

lemma syn_rcvd_state:
  assumes "process_syn_rcvd app r p s = Some (e, r', p', s')" "state_keeping app" "state p = SYN_RCVD" "input_for p s"
    and "\<not> has (rx_flags r) TCP_RST" "e \<noteq> ERR_ABRT"
  shows "state p' = SYN_RCVD \<or> completes_handshake r p
    \<and> (state p' = ESTABLISHED \<or> state p' = CLOSE_WAIT \<and> fin_seen r r')"
proof (cases "completes_handshake r p")
  case False
  then show ?thesis
    using assms by (auto simp: process_syn_rcvd_def completes_handshake_def split: if_splits)
next
  case True
  then have hs: "has (rx_flags r) TCP_ACK \<and> \<not> has (rx_flags r) TCP_RST" "TCP_SEQ_BETWEEN (ackno r) (lastack p + 1) (snd_nxt p)"
    using assms(3) by (auto simp: completes_handshake_def)
  obtain e1 p1 s1 where a: "tcp_event_accept app (p\<lparr>state := ESTABLISHED\<rparr>) s = Some (e1, p1, s1)"
    using assms(1) hs by (auto simp: process_syn_rcvd_def split: Option.bind_splits)
  have p1: "state p1 = ESTABLISHED" "input_for p1 s1" using event_accept_state [OF a assms(2)] assms(4) by auto
  have "e1 = ERR_OK" using assms(1,6) hs a by (auto simp: process_syn_rcvd_def split: Option.bind_splits if_splits)
  then obtain acc r2 p2 s2 where t: "tcp_receive r p1 s1 = Some (acc, r2, p2, s2)"
    and c: "passive_close acc r2 (p2\<lparr>cwnd := (if cwnd p1 = 1 then mss p2 * 2 else mss p2)\<rparr>) s2 = (p', s')" and r2: "r2 = r'"
    using assms(1) hs a unfolding process_syn_rcvd_def by (auto simp: Let_def split: Option.bind_splits)
  have adv: "advances r p1 r2 p2" "quiet s1 s2" using tcp_receive_advances [OF t] by auto
  then have "input_for p2 s2" using p1(2) quietD(7) by (simp add: advances_def)
  then have "state p' = state p2 \<or> has (rx_flags r2) TCP_FIN \<and> state p' = CLOSE_WAIT"
    using passive_close_state [OF c] by simp
  then show ?thesis using True adv p1 r2 by (auto simp: advances_def fin_seen_def)
qed

text \<open>The states whose segments go through \<^verbatim>\<open>tcp_receive\<close>, and what is done with its result.\<close>

definition after_receive :: "bool \<Rightarrow> rx \<Rightarrow> tcp_pcb \<Rightarrow> tcp \<Rightarrow> tcp_state \<Rightarrow> tcp_pcb \<times> tcp" where
  "after_receive acc r p s st = (case st of
      ESTABLISHED \<Rightarrow> passive_close acc r p s
    | CLOSE_WAIT \<Rightarrow> passive_close acc r p s
    | FIN_WAIT_1 \<Rightarrow> process_fin_wait_1 r p s
    | FIN_WAIT_2 \<Rightarrow> if has (rx_flags r) TCP_FIN then enter_time_wait p s else (p, s)
    | CLOSING \<Rightarrow> if fin_acked r p then enter_time_wait p s else (p, s)
    | _ \<Rightarrow> (p, s))"

lemma tcp_process_receives:
  assumes "tcp_process app r p s = Some (e, r', p', s')" "\<not> has (rx_flags r) TCP_RST"
    and st: "state p \<in> {ESTABLISHED, CLOSE_WAIT, FIN_WAIT_1, FIN_WAIT_2, CLOSING, LAST_ACK}"
  obtains acc r1 p1 s1 where "tcp_receive r (p\<lparr>tmr := tcp_ticks s, keep_cnt_sent := 0\<rparr>) s = Some (acc, r1, p1, s1)"
    "after_receive acc r1 p1 s1 (state p) = (p', s')" "e = ERR_OK"
    "r' = (if state p = LAST_ACK \<and> fin_acked r1 p1 then r1\<lparr>recv_flags := TF_CLOSED\<rparr> else r1)"
proof (cases "tcp_receive r (p\<lparr>tmr := tcp_ticks s, keep_cnt_sent := 0\<rparr>) s")
  case None
  then have "tcp_process app r p s = None" using assms(2) st by (auto simp: tcp_process_def Let_def)
  with assms(1) show thesis by simp
next
  case (Some t)
  obtain acc r1 p1 s1 where t: "t = (acc, r1, p1, s1)" by (metis prod_cases4)
  let ?r = "if state p = LAST_ACK \<and> fin_acked r1 p1 then r1\<lparr>recv_flags := TF_CLOSED\<rparr> else r1"
  have "tcp_process app r p s = Some (ERR_OK, ?r, after_receive acc r1 p1 s1 (state p))"
    using assms(2) st Some t by (auto simp: tcp_process_def Let_def after_receive_def)
  then show thesis using assms(1) that [OF Some [unfolded t]] by simp
qed

lemma after_receive_steps:
  assumes "after_receive acc r p s (state p) = (p', s')" "input_for p s"
  shows "arrival hs (fin \<or> has (rx_flags r) TCP_FIN) (fin_acked r p') (state p) (state p')"
proof (cases "state p")
  case FIN_WAIT_1
  then show ?thesis using assms fin_wait_1_state [OF _ assms(2)] by (auto simp: after_receive_def)
next
  case FIN_WAIT_2
  then show ?thesis using assms time_wait_state(1) by (auto simp: after_receive_def split: if_splits)
next
  case CLOSING
  then show ?thesis using assms time_wait_state [OF _ assms(2)]
    by (auto simp: after_receive_def fin_acked_def split: if_splits)
next
  case ESTABLISHED
  then have "passive_close acc r p s = (p', s')" using assms(1) by (simp add: after_receive_def)
  from passive_close_state [OF this assms(2)] show ?thesis using ESTABLISHED by auto
next
  case CLOSE_WAIT
  then have "passive_close acc r p s = (p', s')" using assms(1) by (simp add: after_receive_def)
  from passive_close_state [OF this assms(2)] show ?thesis using CLOSE_WAIT by auto
qed (use assms in \<open>auto simp: after_receive_def\<close>)

subsection \<open>The life of a connection\<close>

lemma tcp_close_steps:
  assumes "tcp_close a s = Some (e, s')" "pcbs s a = Some p" "pcb_addr p = a" "pcbs s' a = Some p'"
  shows "if e = ERR_OK then closing (state p) (state p') else state p' = state p"
proof -
  have fin: "\<exists>q. pcbs t a = Some q \<and> state q = (if e = ERR_OK then st else state p)"
    if "(let (e, p, s) = tcp_send_ctrl p TCP_FIN s
       in if e = ERR_OK then let (_, p, s) = tcp_output (p\<lparr>state := st\<rparr>) s in (e, put p s) else (e, put p s)) = (e, t)" for st t
  proof -
    obtain e1 p1 s1 where c: "tcp_send_ctrl p TCP_FIN s = (e1, p1, s1)" by (metis prod_cases3)
    then have k: "state p1 = state p" "pcb_addr p1 = a"
      using keptD(1,2) tcp_enqueue_frame assms(3) unfolding tcp_send_ctrl_def by metis+
    obtain e2 p2 s2 where o: "tcp_output (p1\<lparr>state := st\<rparr>) s1 = (e2, p2, s2)" by (metis prod_cases3)
    have "state p2 = st" "pcb_addr p2 = a" using keptD(1,2) [OF conjunct1 [OF tcp_output_frame [OF o]]] k by simp_all
    then show ?thesis using that c o k by (auto simp: put_def split: if_splits)
  qed
  show ?thesis
    using assms fin [of FIN_WAIT_1 s'] fin [of LAST_ACK s']
    by (cases "state p") (auto simp: tcp_close_def Let_def free_pcb_def split: if_splits)
qed

text \<open>
  The life of a connection: segments, calls of \<^verbatim>\<open>tcp_close\<close> and operations that leave the state alone; the
  two booleans record that the application has closed and that a FIN of the peer was seen.
\<close>

inductive connection :: "app \<Rightarrow> tcp_pcb \<Rightarrow> bool \<Rightarrow> bool \<Rightarrow> bool" for app where
  opened: "state p \<in> {SYN_SENT, SYN_RCVD} \<Longrightarrow> connection app p False False"
| segment: "connection app p c f \<Longrightarrow> tcp_process app r p s = Some (e, r', p', s') \<Longrightarrow> e \<noteq> ERR_ABRT
    \<Longrightarrow> tcp_input_pcb s = pcb_addr p \<Longrightarrow> connection app p' c (f \<or> fin_seen r r')"
| closed: "connection app p c f \<Longrightarrow> pcbs s (pcb_addr p) = Some p \<Longrightarrow> tcp_close (pcb_addr p) s = Some (ERR_OK, s')
    \<Longrightarrow> pcbs s' (pcb_addr p) = Some p' \<Longrightarrow> connection app p' True f"
| other: "connection app p c f \<Longrightarrow> state p' = state p \<Longrightarrow> connection app p' c f"

lemma tcp_process_arrival:
  assumes "tcp_process app r p s = Some (e, r', p', s')" "e \<noteq> ERR_ABRT" "state_keeping app" "tcp_input_pcb s = pcb_addr p"
  shows "arrival (completes_handshake r p) (fin_seen r r') (fin_acked r p') (state p) (state p')
    \<and> (has (rx_flags r) TCP_RST \<longrightarrow> state p' = state p)"
proof (cases "has (rx_flags r) TCP_RST")
  case True
  then have "state p' = state p" using assms(1) by (auto simp: tcp_process_def process_reset_def Let_def split: if_splits)
  then show ?thesis by auto
next
  case False
  let ?p = "p\<lparr>tmr := tcp_ticks s, keep_cnt_sent := 0\<rparr>"
  have ch: "completes_handshake r ?p = completes_handshake r p" by (simp add: completes_handshake_def)
  have "arrival (completes_handshake r p) (fin_seen r r') (fin_acked r p') (state p) (state p')"
  proof (cases "state p \<in> {ESTABLISHED, CLOSE_WAIT, FIN_WAIT_1, FIN_WAIT_2, CLOSING, LAST_ACK}")
    case True
    then obtain acc r1 p1 s1 where t: "tcp_receive r ?p s = Some (acc, r1, p1, s1)"
      and a: "after_receive acc r1 p1 s1 (state p) = (p', s')"
      and r': "r' = (if state p = LAST_ACK \<and> fin_acked r1 p1 then r1\<lparr>recv_flags := TF_CLOSED\<rparr> else r1)"
      using tcp_process_receives [OF assms(1) False] by metis
    have adv: "rx_flags r1 = rx_flags r" "ackno r1 = ackno r" "input_for p1 s1"
      "state p1 = state p \<or> state p = ESTABLISHED \<and> state p1 = CLOSE_WAIT \<and> recv_flags r1 = TF_GOT_FIN"
      using tcp_receive_advances [OF t] assms(4) quietD(7) by (auto simp: advances_def)
    show ?thesis
    proof (cases "state p1 = state p")
      case True
      then show ?thesis
        using after_receive_steps [of acc r1 p1 s1 p' s' "completes_handshake r p" "recv_flags r' = TF_GOT_FIN"] a adv
        by (simp add: fin_seen_def fin_acked_def disj_commute)
    next
      case False
      then have "state p' = CLOSE_WAIT" "fin_seen r r'"
        using adv a r' passive_close_state [OF _ adv(3)] by (auto simp: after_receive_def fin_seen_def)
      then show ?thesis using False adv(4) by auto
    qed
  next
    case other: False
    show ?thesis
    proof (cases "state p")
      case SYN_SENT
      then have "process_syn_sent app r ?p s = Some (r', p', s')"
        using assms(1) False by (auto simp: tcp_process_def Let_def split: Option.bind_splits)
      from syn_sent_state [OF this assms(3)] show ?thesis using SYN_SENT False ch by auto
    next
      case SYN_RCVD
      then have "process_syn_rcvd app r ?p s = Some (e, r', p', s')"
        using assms(1) False by (auto simp: tcp_process_def Let_def)
      from syn_rcvd_state [OF this assms(3)] show ?thesis using SYN_RCVD assms(2,4) False ch by auto
    qed (use other assms(1) False in \<open>auto simp: tcp_process_def Let_def\<close>)
  qed
  then show ?thesis using False by blast
qed

lemma connection_states:
  assumes "connection app p c f" "state_keeping app"
  shows "state p \<notin> {CLOSED, LISTEN} \<and> (c \<longleftrightarrow> state p \<in> {FIN_WAIT_1, FIN_WAIT_2, CLOSING, LAST_ACK, TIME_WAIT})
    \<and> (state p \<in> {CLOSE_WAIT, CLOSING, LAST_ACK, TIME_WAIT} \<longrightarrow> f)"
  using assms
proof (induction rule: connection.induct)
  case (segment p c f r s e r' p' s')
  have "arrival (completes_handshake r p) (fin_seen r r') (fin_acked r p') (state p) (state p')"
    using tcp_process_arrival [OF segment(2,3) _ segment(4)] segment.prems by blast
  then show ?case using segment by cases auto
next
  case (closed p c f s s' p')
  have "closing (state p) (state p')" using tcp_close_steps [OF closed(3,2) refl closed(4)] by simp
  then show ?case using closed by cases auto
qed auto

text \<open>
  Claim C6: a segment takes a connection only along the arrows of RFC 793: for every state,
  \<^verbatim>\<open>tcp_process\<close> either leaves the state alone or makes one of the steps of \<^verbatim>\<open>arrival\<close>, and a segment
  with RST leaves it alone (the connection is removed, when the RST is acceptable, by \<^verbatim>\<open>tcp_input\<close>).
\<close>

theorem tcp_process_steps:
  assumes "tcp_process app r p s = Some (e, r', p', s')" "e \<noteq> ERR_ABRT" "state_keeping app" "tcp_input_pcb s = pcb_addr p"
  shows "arrival (completes_handshake r p) (fin_seen r r') (fin_acked r p') (state p) (state p')
    \<and> (has (rx_flags r) TCP_RST \<longrightarrow> state p' = state p)"
  using assms by (rule tcp_process_arrival)

text \<open>
  Claim C10: over the life of a connection, from the handshake on and through any sequence of segments, closes and operations
  that leave its state alone: it is in FIN-WAIT-1, FIN-WAIT-2, CLOSING, LAST-ACK or TIME-WAIT if and only if the application has
  closed it; and whenever it is in CLOSE-WAIT, CLOSING, LAST-ACK or TIME-WAIT, a FIN of the peer was seen before (FIN-WAIT-1 and
  FIN-WAIT-2 need none).  So TIME-WAIT is entered only after both sides have closed.
\<close>

theorem connection_closes_both_ways:
  assumes "connection app p c f" "state_keeping app"
  shows "(c \<longleftrightarrow> state p \<in> {FIN_WAIT_1, FIN_WAIT_2, CLOSING, LAST_ACK, TIME_WAIT})
    \<and> (state p \<in> {CLOSE_WAIT, CLOSING, LAST_ACK, TIME_WAIT} \<longrightarrow> f)"
  using connection_states [OF assms] by blast

text \<open>
  \<^verbatim>\<open>tcp_process\<close> does not look at what \<^verbatim>\<open>tcp_receive\<close> made of a segment in FIN-WAIT-2: a segment with
  FIN that starts beyond the receive window, so that none of it is taken in, still moves the connection to
  TIME-WAIT; \<^verbatim>\<open>rcv_nxt\<close> stays, nothing is delivered and what is queued out of sequence is dropped.
\<close>

theorem fin_wait_2_takes_any_fin:
  assumes "state p = FIN_WAIT_2" "has (rx_flags r) TCP_FIN" "\<not> has (rx_flags r) TCP_RST" "\<not> has (rx_flags r) TCP_ACK"
    and "tcplen r > 0" "\<not> TCP_SEQ_BETWEEN (rcv_nxt p) (seqno r + 1) (seqno r + ucast (tcplen r) - 1)"
    and "\<not> TCP_SEQ_LT (seqno r) (rcv_nxt p)"
    and "\<not> TCP_SEQ_BETWEEN (seqno r) (rcv_nxt p) (rcv_nxt p + ucast (rcv_ann_wnd p) - 1)"
    and "tcp_input_pcb s = pcb_addr p"
  shows "\<exists>p' s'. tcp_process app r p s = Some (ERR_OK, r, p', s') \<and> state p' = TIME_WAIT
    \<and> rcv_nxt p' = rcv_nxt p \<and> ooseq p' = []"
proof -
  let ?p = "p\<lparr>tmr := tcp_ticks s, keep_cnt_sent := 0\<rparr>"
  let ?q = "?p\<lparr>flags := flags p OR TF_ACK_NOW\<rparr>"
  have "tcp_receive r ?p s = Some (False, r, ?q, s)"
    using assms by (simp add: tcp_receive_def receive_data_def tcp_ack_now_input)
  then have "tcp_process app r p s = Some (ERR_OK, r, enter_time_wait ?q s)"
    using assms(1-3) by (simp add: tcp_process_def Let_def)
  then show ?thesis
    using assms(1,9) by (auto simp: enter_time_wait_def tcp_ack_now_input tcp_pcb_purge_def Let_def)
qed

lemma null_app_keeps_state: "state_keeping null_app"
  by (simp add: state_keeping_def keeps_state_def null_app_def)

definition fin_rx :: rx where
  "fin_rx = sample_rx (sample_seg 0xfffffffe 1 [[254]])"

definition fin_pcb :: tcp_pcb where
  "fin_pcb = sample_pcb\<lparr>state := FIN_WAIT_2, ooseq := []\<rparr>"

theorem tcp_process_steps_witness:
  "\<exists>r' p' s'. tcp_process null_app fin_rx fin_pcb sample_tcp = Some (ERR_OK, r', p', s')
    \<and> arrival (completes_handshake fin_rx fin_pcb) (fin_seen fin_rx r') (fin_acked fin_rx p') FIN_WAIT_2 TIME_WAIT"
proof -
  have "map_option (\<lambda>(e, r', p', s'). (e, state p')) (tcp_process null_app fin_rx fin_pcb sample_tcp) = Some (ERR_OK, TIME_WAIT)"
    by code_simp
  then obtain r' p' s' where t: "tcp_process null_app fin_rx fin_pcb sample_tcp = Some (ERR_OK, r', p', s')" "state p' = TIME_WAIT"
    by auto
  have "state fin_pcb = FIN_WAIT_2" "tcp_input_pcb sample_tcp = pcb_addr fin_pcb" by (simp_all add: fin_pcb_def sample_defs)
  then show ?thesis using tcp_process_steps [OF t(1) _ null_app_keeps_state] t by auto
qed

definition accepted_pcb :: tcp_pcb where
  "accepted_pcb = sample_pcb\<lparr>state := SYN_RCVD, snd_buf := 100\<rparr>"

text \<open>A connection that is closed before it is established, and then receives the FIN of the peer.\<close>

definition fin_wait_pcb :: tcp_pcb where
  "fin_wait_pcb = fin_pcb\<lparr>state := FIN_WAIT_1\<rparr>"

theorem connection_closes_both_ways_witness:
  "(\<exists>p. connection null_app p True False \<and> state p \<in> {FIN_WAIT_1, FIN_WAIT_2})
    \<and> (\<exists>p. connection null_app p True True \<and> state p \<in> {CLOSING, LAST_ACK, TIME_WAIT})"
proof -
  let ?s = "put accepted_pcb sample_tcp"
  have "map_option (\<lambda>(e, s'). (e, map_option state (pcbs s' 16))) (tcp_close 16 ?s) = Some (ERR_OK, Some FIN_WAIT_1)"
    by code_simp
  then obtain s' p' where c: "tcp_close 16 ?s = Some (ERR_OK, s')" "pcbs s' 16 = Some p'" "state p' = FIN_WAIT_1" by auto
  have a: "pcb_addr accepted_pcb = 16" by (simp add: accepted_pcb_def sample_defs)
  have "connection null_app accepted_pcb False False"
    by (rule connection.opened) (simp add: accepted_pcb_def)
  from connection.closed [OF this _ c(1) [folded a] c(2) [folded a]]
  have w: "connection null_app p' True False" by (simp add: put_def)
  have "connection null_app fin_wait_pcb True False" by (rule connection.other [OF w]) (simp add: fin_wait_pcb_def c(3))
  moreover have "map_option (\<lambda>(e, r', p', s'). (e, state p')) (tcp_process null_app fin_rx fin_wait_pcb sample_tcp) \<in> {Some (ERR_OK, CLOSING), Some (ERR_OK, TIME_WAIT)}"
    by code_simp
  then obtain r2 p2 s2 where t: "tcp_process null_app fin_rx fin_wait_pcb sample_tcp = Some (ERR_OK, r2, p2, s2)"
    and st: "state p2 \<in> {CLOSING, TIME_WAIT}" by auto
  moreover have "fin_seen fin_rx r2" by (simp add: fin_seen_def fin_rx_def sample_defs TCP_FIN_def)
  moreover have "tcp_input_pcb sample_tcp = pcb_addr fin_wait_pcb" by (simp add: fin_wait_pcb_def fin_pcb_def sample_defs)
  ultimately have "connection null_app p2 True True" using connection.segment [of null_app fin_wait_pcb True False fin_rx sample_tcp ERR_OK r2 p2 s2] by simp
  then show ?thesis using connection_closes_both_ways [OF _ null_app_keeps_state] w st c(3) by blast
qed

theorem fin_wait_2_takes_any_fin_witness:
  "\<exists>p' s'. tcp_process null_app (sample_rx (sample_seg 100000 1 [[1]])) fin_pcb sample_tcp
      = Some (ERR_OK, sample_rx (sample_seg 100000 1 [[1]]), p', s') \<and> state p' = TIME_WAIT
    \<and> rcv_nxt p' = 0xfffffffe \<and> ooseq p' = []"
  using fin_wait_2_takes_any_fin [of fin_pcb "sample_rx (sample_seg 100000 1 [[1]])" sample_tcp null_app]
  by (simp add: fin_pcb_def sample_defs TCP_SEQ_BETWEEN_def TCP_SEQ_GEQ_def TCP_SEQ_LEQ_def TCP_SEQ_LT_def tot_len_def
    TCP_TCPLEN_def TCP_FIN_def TCP_RST_def TCP_ACK_def)

end
