(* ===== verification/Tcp_Invariant.thy ===== *)
theory Tcp_Invariant
  imports Tcp_States
begin

section \<open>Invariants of the control blocks\<close>

text \<open>
  A property of single control blocks that holds of new blocks and survives the few changes TCP makes to the
  receive windows and the segment size holds of every block in every reachable state of TCP.  The locale
  \<^verbatim>\<open>pcb_invariant\<close> states these laws; it is interpreted for the receive windows and for the segment size.
\<close>

definition windows where
  "windows pcb = (rcv_wnd pcb, rcv_ann_wnd pcb, mss pcb, state pcb = LISTEN)"

lemma kept_windows: "kept p = kept q \<Longrightarrow> windows p = windows q"
  by (simp add: kept_def windows_def)

definition all_blocks :: "(tcp_pcb \<Rightarrow> bool) \<Rightarrow> tcp \<Rightarrow> bool" where
  "all_blocks good s \<longleftrightarrow> (\<forall>a p. pcbs s a = Some p \<longrightarrow> good p)"

text \<open>
  The application keeps a property of the state: each of its callbacks does, and the accept callback does not
  turn the block it is given into a listening one.
\<close>

definition app_keeps :: "(tcp \<Rightarrow> bool) \<Rightarrow> app \<Rightarrow> bool" where
  "app_keeps I app \<longleftrightarrow> (\<forall>k a s. I s \<longrightarrow>
     (\<forall>n. I (snd (app_sent app k a n s))) \<and> (\<forall>p e. I (snd (app_recv app k a p e s)))
     \<and> (\<forall>e. I (snd (app_connected app k a e s))) \<and> (\<forall>e. I (snd (app_accept app k a e s)))
     \<and> I (snd (app_poll app k a s)) \<and> (\<forall>e. I (app_err app k a e s)))
     \<and> (\<forall>k a e s p p'. pcbs s a = Some p \<longrightarrow> state p \<noteq> LISTEN
         \<longrightarrow> pcbs (snd (app_accept app k a e s)) a = Some p' \<longrightarrow> state p' \<noteq> LISTEN)"

lemma app_keepsD:
  assumes "app_keeps I app" "I s"
  shows "I (snd (app_sent app k a n s))" "I (snd (app_recv app k a p e s))" "I (snd (app_connected app k a e s))"
    "I (snd (app_accept app k a e s))" "I (snd (app_poll app k a s))" "I (app_err app k a e s)"
  using assms by (auto simp: app_keeps_def)

text \<open>The window \<^verbatim>\<open>tcp_recved\<close> opens.\<close>

definition widened :: "u16 \<Rightarrow> tcp_pcb \<Rightarrow> tcp_pcb" where
  "widened len pcb = (if unat (rcv_wnd pcb) + unat len > unat TCP_WND
     then pcb\<lparr>rcv_wnd := TCP_WND, rcv_ann_wnd := TCP_WND\<rparr>
     else let pcb = pcb\<lparr>rcv_wnd := rcv_wnd pcb + len\<rparr>
       in if rcv_wnd pcb \<ge> mss pcb then pcb\<lparr>rcv_ann_wnd := rcv_wnd pcb\<rparr> else pcb)"

text \<open>What can happen to TCP: a packet arrives, the timer runs, or the application calls it.\<close>

inductive tcp_step :: "app \<Rightarrow> tcp \<Rightarrow> tcp \<Rightarrow> bool" for app where
  input: "tcp_input app d inp s = Some s' \<Longrightarrow> tcp_step app s s'"
| timer: "tcp_tmr app s = Some s' \<Longrightarrow> tcp_step app s s'"
| creates: "tcp_new app s = Some (a, s') \<Longrightarrow> tcp_step app s s'"
| binds: "tcp_bind a ip port s = Some (e, s') \<Longrightarrow> tcp_step app s s'"
| listens: "tcp_listen_with_backlog junk a s = Some (l, s') \<Longrightarrow> tcp_step app s s'"
| connects: "tcp_connect a ip port k s = Some (e, s') \<Longrightarrow> tcp_step app s s'"
| closes: "tcp_close a s = Some (e, s') \<Longrightarrow> tcp_step app s s'"
| aborts: "tcp_abort app a s = Some s' \<Longrightarrow> tcp_step app s s'"
| reads: "tcp_recved a len s = Some s' \<Longrightarrow> tcp_step app s s'"
| writes: "pcbs s a = Some p \<Longrightarrow> tcp_write p data len fl s = (e, p', s') \<Longrightarrow> tcp_step app s (put p' s')"
| sends: "pcbs s a = Some p \<Longrightarrow> tcp_output p s = (e, p', s') \<Longrightarrow> tcp_step app s (put p' s')"
| registers: "tcp_setprio a q s = Some s' \<or> tcp_arg a v s = Some s' \<or> tcp_recv a k s = Some s' \<or> tcp_sent a k s = Some s'
    \<or> tcp_err a k s = Some s' \<or> tcp_accept a k s = Some s' \<or> tcp_poll a k q s = Some s' \<Longrightarrow> tcp_step app s s'"

inductive tcp_reachable :: "app \<Rightarrow> tcp \<Rightarrow> bool" for app where
  initially: "pcbs s = Map.empty \<Longrightarrow> tcp_reachable app s"
| steps: "tcp_reachable app s \<Longrightarrow> tcp_step app s s' \<Longrightarrow> tcp_reachable app s'"

lemma tcp_recved_widened:
  "tcp_recved a len s = do {
     pcb \<leftarrow> pcbs s a;
     let pcb = widened len pcb;
     let (pcb, s) = (if \<not> has (flags pcb) TF_ACK_DELAY \<and> \<not> has (flags pcb) TF_ACK_NOW then tcp_ack pcb s
       else if has (flags pcb) TF_ACK_DELAY \<and> rcv_wnd pcb \<ge> TCP_WND div 2 then tcp_ack_now pcb s
       else (pcb, s));
     Some (put pcb s)
   }"
  by (simp only: tcp_recved_def widened_def)

lemma rto_expired_kept [simp]: "kept (rto_expired b p) = kept p"
  by (simp add: rto_expired_def Let_def)

lemma slowtmr_rexmit_frame [frame]: "slowtmr_rexmit p s = Some (p', s') \<Longrightarrow> kept p' = kept p \<and> quiet s s'"
  by (auto simp: slowtmr_rexmit_def Let_def split: if_splits Option.bind_splits
    dest!: tcp_rexmit_rto_frame tcp_zero_window_probe_quiet)

locale pcb_invariant =
  fixes good :: "tcp_pcb \<Rightarrow> bool"
  assumes same: "windows p = windows q \<Longrightarrow> good p = good q"
    and listening: "state p = LISTEN \<Longrightarrow> good p"
    and opened: "m \<le> TCP_MSS \<Longrightarrow> good (p\<lparr>rcv_wnd := TCP_WND, rcv_ann_wnd := TCP_WND, mss := m\<rparr>)"
    and smaller: "good p \<Longrightarrow> m \<le> mss p \<or> m \<le> TCP_MSS \<Longrightarrow> good (p\<lparr>mss := m\<rparr>)"
    and shrunk: "good p \<Longrightarrow> good (shrink_wnd n p)"
    and widens: "good p \<Longrightarrow> good (widened len p)"
begin

lemma kept_inv: "kept p = kept q \<Longrightarrow> good p = good q"
  by (rule same) (rule kept_windows)

lemma inv_update [simp]:
  "good (p\<lparr>rcv_nxt := x1\<rparr>) = good p" "good (p\<lparr>ooseq := x2\<rparr>) = good p" "good (p\<lparr>refused_data := x3\<rparr>) = good p"
  "good (p\<lparr>remote_ip := x4\<rparr>) = good p" "good (p\<lparr>local_port := x5\<rparr>) = good p" "good (p\<lparr>remote_port := x6\<rparr>) = good p"
  "good (p\<lparr>cb_sent := x7\<rparr>) = good p" "good (p\<lparr>cb_recv := x8\<rparr>) = good p" "good (p\<lparr>cb_connected := x9\<rparr>) = good p"
  "good (p\<lparr>cb_accept := x10\<rparr>) = good p" "good (p\<lparr>cb_poll := x11\<rparr>) = good p" "good (p\<lparr>cb_errf := x12\<rparr>) = good p"
  by (rule same, simp add: windows_def)+

lemma inv_kept_update [simp]:
  "good (p\<lparr>local_ip := x1\<rparr>) = good p" "good (p\<lparr>prio := x2\<rparr>) = good p" "good (p\<lparr>callback_arg := x3\<rparr>) = good p"
  "good (p\<lparr>flags := x4\<rparr>) = good p" "good (p\<lparr>tmr := x5\<rparr>) = good p" "good (p\<lparr>polltmr := x6\<rparr>) = good p"
  "good (p\<lparr>pollinterval := x7\<rparr>) = good p" "good (p\<lparr>rtime := x8\<rparr>) = good p" "good (p\<lparr>rto := x9\<rparr>) = good p"
  "good (p\<lparr>nrtx := x10\<rparr>) = good p" "good (p\<lparr>lastack := x11\<rparr>) = good p" "good (p\<lparr>cwnd := x12\<rparr>) = good p"
  "good (p\<lparr>ssthresh := x13\<rparr>) = good p" "good (p\<lparr>snd_nxt := x14\<rparr>) = good p" "good (p\<lparr>snd_wnd := x15\<rparr>) = good p"
  "good (p\<lparr>snd_wl1 := x16\<rparr>) = good p" "good (p\<lparr>snd_lbb := x17\<rparr>) = good p" "good (p\<lparr>snd_buf := x18\<rparr>) = good p"
  "good (p\<lparr>snd_queuelen := x19\<rparr>) = good p" "good (p\<lparr>unsent := x20\<rparr>) = good p" "good (p\<lparr>unacked := x21\<rparr>) = good p"
  "good (p\<lparr>persist_cnt := x22\<rparr>) = good p" "good (p\<lparr>persist_backoff := x23\<rparr>) = good p" "good (p\<lparr>keep_cnt_sent := x24\<rparr>) = good p"
  "good (p\<lparr>so_options := x25\<rparr>) = good p"
  by (rule kept_inv, simp)+

lemma inv_state [simp]: "state p \<noteq> LISTEN \<Longrightarrow> x \<noteq> LISTEN \<Longrightarrow> good (p\<lparr>state := x\<rparr>) = good p"
  by (rule same) (simp add: windows_def)

lemma inv_state_free [intro]: "good p \<Longrightarrow> state p \<noteq> LISTEN \<Longrightarrow> good (p\<lparr>state := x\<rparr>)"
  using listening [of "p\<lparr>state := LISTEN\<rparr>"] by (cases "x = LISTEN") simp_all

subsection \<open>The store\<close>

abbreviation ok :: "tcp \<Rightarrow> bool" where "ok s \<equiv> all_blocks good s"

lemma ok_get: "ok s \<Longrightarrow> pcbs s a = Some p \<Longrightarrow> good p"
  by (auto simp: all_blocks_def)

lemma ok_fields [simp]: "ok (s\<lparr>tcp_input_pcb := x1\<rparr>) = ok s" "ok (s\<lparr>tcp_ticks := x2\<rparr>) = ok s"
  "ok (s\<lparr>tcp_timer := x3\<rparr>) = ok s" "ok (s\<lparr>tcp_port := x4\<rparr>) = ok s" "ok (s\<lparr>tcp_iss := x5\<rparr>) = ok s"
  "ok (s\<lparr>tcp_active_pcbs := x6\<rparr>) = ok s" "ok (s\<lparr>tcp_listen_pcbs := x7\<rparr>) = ok s" "ok (s\<lparr>pcb_allocs := x8\<rparr>) = ok s"
  by (simp_all add: all_blocks_def)

lemma ok_quiet: "quiet s s' \<Longrightarrow> ok s' = ok s"
  unfolding all_blocks_def by (simp only: quietD(1))

lemma ok_put: "ok s \<Longrightarrow> good p \<Longrightarrow> ok (put p s)"
  by (auto simp: all_blocks_def put_def)

lemma ok_free: "ok s \<Longrightarrow> ok (free_pcb a s)"
  by (auto simp: all_blocks_def free_pcb_def)

lemma ok_lists [simp]: "ok (REG_bound a s) = ok s" "ok (REG_listen a s) = ok s" "ok (REG_active a s) = ok s"
  "ok (REG_tw a s) = ok s" "ok (RMV_bound a s) = ok s" "ok (RMV_listen a s) = ok s" "ok (RMV_active a s) = ok s"
  "ok (RMV_tw a s) = ok s"
  by (simp_all add: pcb_list_defs all_blocks_def)

lemma ok_call:
  assumes "call cb p s = Some (e, p', s')" "ok s" "good p" "\<And>s. ok s \<Longrightarrow> ok (snd (cb (pcb_addr p) s))"
  shows "good p' \<and> ok s'"
proof -
  have "s' = snd (cb (pcb_addr p) (put p s))"
    using assms(1) by (auto simp: call_def Let_def split: prod.splits Option.bind_splits)
  then have "ok s'" using assms(4) ok_put [OF assms(2,3)] by simp
  moreover have "pcbs s' (pcb_addr p) = Some p'"
    using assms(1) by (auto simp: call_def Let_def split: prod.splits Option.bind_splits)
  ultimately show ?thesis using ok_get by blast
qed

lemma framed: "kept p' = kept p \<and> quiet s s' \<Longrightarrow> good p \<Longrightarrow> ok s \<Longrightarrow> good p' \<and> ok s'"
  using kept_inv ok_quiet by blast

lemmas framed_output = framed [OF tcp_output_frame] framed [OF tcp_output_snd_frame] framed [OF tcp_ack_now_frame]
  framed [OF tcp_ack_frame] framed [OF tcp_enqueue_frame] framed [OF tcp_rexmit_rto_frame] framed [OF receive_ack_frame]

subsection \<open>Aborting and closing\<close>

lemma good_purge [simp]: "good (tcp_pcb_purge p) = good p"
  by (simp add: tcp_pcb_purge_def)

lemma ok_remove:
  assumes "\<And>a s. ok (rmv a s) = ok s"
  shows "ok (snd (tcp_pcb_remove rmv p s)) = ok s"
proof -
  let ?p = "(tcp_pcb_purge p)\<lparr>flags := flags (tcp_pcb_purge p) OR TF_ACK_NOW\<rparr>" and ?s = "rmv (pcb_addr p) s"
  have "quiet ?s (snd (snd (tcp_output ?p ?s)))" using tcp_output_snd_frame [of ?p ?s] by (metis prod.collapse)
  then show ?thesis
    using assms ok_quiet by (auto simp: tcp_pcb_remove_def Let_def split: prod.splits)
qed

lemma ok_event_err: "app_keeps ok app \<Longrightarrow> ok s \<Longrightarrow> ok (tcp_event_err app cb arg e s)"
  by (simp add: tcp_event_err_def app_keepsD)

lemma ok_abort: "tcp_abort app a s = Some s' \<Longrightarrow> app_keeps ok app \<Longrightarrow> ok s \<Longrightarrow> ok s'"
  by (auto simp: tcp_abort_def Let_def ok_remove ok_free ok_event_err ok_quiet [OF tcp_rst_quiet]
    split: Option.bind_splits if_splits)

lemma ok_close:
  assumes "tcp_close a s = Some (e, s')" "ok s"
  shows "ok s'"
proof -
  obtain p where p: "pcbs s a = Some p" "good p" using assms ok_get by (auto simp: tcp_close_def split: Option.bind_splits)
  have fin: "ok (snd (let (e, p, s) = tcp_send_ctrl p TCP_FIN s
       in if e = ERR_OK then let (_, p, s) = tcp_output (p\<lparr>state := st\<rparr>) s in (e, put p s) else (e, put p s)))"
    if st: "state p \<noteq> LISTEN" for st
  proof -
    obtain e1 p1 s1 where c: "tcp_send_ctrl p TCP_FIN s = (e1, p1, s1)" by (metis prod_cases3)
    then have k: "kept p1 = kept p \<and> quiet s s1" unfolding tcp_send_ctrl_def by (rule tcp_enqueue_frame)
    then have g: "good p1 \<and> ok s1" "state p1 = state p" using framed p(2) assms(2) keptD(2) by blast+
    obtain e2 p2 s2 where o: "tcp_output (p1\<lparr>state := st\<rparr>) s1 = (e2, p2, s2)" by (metis prod_cases3)
    have "good (p1\<lparr>state := st\<rparr>)" using g st by (intro inv_state_free) auto
    then have "good p2 \<and> ok s2" using framed [OF tcp_output_frame [OF o]] g by blast
    then show ?thesis using c o g(1) by (simp add: ok_put)
  qed
  have "ok (snd (the (tcp_close a s)))"
    using assms(2) p fin [of FIN_WAIT_1] fin [of LAST_ACK]
    by (cases "state p") (simp_all add: tcp_close_def Let_def ok_free ok_remove)
  then show ?thesis using assms(1) by simp
qed

lemma ok_recv_null:
  assumes "tcp_recv_null p d e s = Some (e', p', s')" "good p" "ok s"
  shows "good p' \<and> ok s'"
proof (cases "d = None \<and> e = ERR_OK")
  case True
  then have "tcp_close (pcb_addr p) (put p s) = Some (e', s')" "pcbs s' (pcb_addr p) = Some p'"
    using assms(1) by (auto simp: tcp_recv_null_def split: Option.bind_splits)
  then show ?thesis using ok_close ok_put [OF assms(3,2)] ok_get by blast
qed (use assms in \<open>auto simp: tcp_recv_null_def split: if_splits\<close>)

lemma ok_event_recv:
  assumes "tcp_event_recv app p d e s = Some (e', p', s')" "app_keeps ok app" "good p" "ok s"
  shows "good p' \<and> ok s'"
proof (cases "cb_recv p = 0 \<or> cb_recv p = 1")
  case True
  then show ?thesis using assms ok_recv_null by (auto simp: tcp_event_recv_def split: if_splits)
next
  case False
  then have "call (\<lambda>a. app_recv app (cb_recv p) a d e) p s = Some (e', p', s')"
    using assms(1) by (auto simp: tcp_event_recv_def)
  then show ?thesis using ok_call assms(3,4) app_keepsD(2) [OF assms(2)] by blast
qed

subsection \<open>Allocation, listening, connecting\<close>

lemma ok_malloc: "memp_malloc s = (a, s') \<Longrightarrow> ok s \<Longrightarrow> ok s'"
  by (auto simp: memp_malloc_def split: list.splits)

lemma ok_new_port: "tcp_new_port s = Some (p, s') \<Longrightarrow> ok s \<Longrightarrow> ok s'"
  by (auto simp: tcp_new_port_def split: Option.bind_splits)

lemma ok_kills: "app_keeps ok app \<Longrightarrow> ok s \<Longrightarrow> tcp_kill_timewait app s = Some s' \<Longrightarrow> ok s'"
  "app_keeps ok app \<Longrightarrow> ok s \<Longrightarrow> tcp_kill_prio app q s = Some s' \<Longrightarrow> ok s'"
  by (auto simp: tcp_kill_timewait_def tcp_kill_prio_def Let_def dest: ok_abort split: Option.bind_splits if_splits)

lemma good_opened: "rcv_wnd p = TCP_WND \<Longrightarrow> rcv_ann_wnd p = TCP_WND \<Longrightarrow> mss p \<le> TCP_MSS \<Longrightarrow> good p"
  using opened [of "mss p" p] same [of p "p\<lparr>rcv_wnd := TCP_WND, rcv_ann_wnd := TCP_WND, mss := mss p\<rparr>"]
  by (simp add: windows_def)

lemma good_fresh: "fresh_pcb a s = (p, s') \<Longrightarrow> good p \<and> state p = CLOSED \<and> pcb_addr p = a \<and> ok s' = ok s"
  by (intro conjI good_opened) (auto simp: fresh_pcb_def tcp_next_iss_def Let_def zero_pcb_def)

lemma ok_alloc:
  assumes "tcp_alloc app q s = Some (a, s')" "app_keeps ok app" "ok s"
  shows "ok s' \<and> (a \<noteq> NULL \<longrightarrow> (\<exists>p. pcbs s' a = Some p \<and> good p \<and> state p = CLOSED))"
proof -
  let ?m = "memp_malloc s"
  have 1: "ok (snd ?m)" using ok_malloc [of s] assms(3) by (cases ?m) auto
  obtain t where t: "ok t" "if a \<noteq> NULL then s' = (let (p, s) = fresh_pcb a t in put p s) else s' = t"
  proof (cases "fst ?m = NULL")
    case False
    then show thesis using that [of "snd ?m"] 1 assms(1)
      by (auto simp: tcp_alloc_def Let_def split: if_splits prod.splits)
  next
    case True
    then obtain s1 where k: "tcp_kill_timewait app (snd ?m) = Some s1" using assms(1)
      by (auto simp: tcp_alloc_def Let_def split: Option.bind_splits prod.splits)
    then have 2: "ok s1" using ok_kills(1) assms(2) 1 by blast
    let ?n = "memp_malloc s1"
    have 3: "ok (snd ?n)" using ok_malloc [of s1] 2 by (cases ?n) auto
    show thesis
    proof (cases "fst ?n = NULL")
      case False
      then show thesis using that [of "snd ?n"] 3 k True assms(1)
        by (auto simp: tcp_alloc_def Let_def split: if_splits prod.splits)
    next
      case inner: True
      then obtain s2 where k2: "tcp_kill_prio app q (snd ?n) = Some s2" using assms(1) k True
        by (auto simp: tcp_alloc_def Let_def split: Option.bind_splits prod.splits)
      then have "ok (snd (memp_malloc s2))"
        using ok_kills(2) [OF assms(2) 3] ok_malloc [of s2] by (cases "memp_malloc s2") auto
      then show thesis using that [of "snd (memp_malloc s2)"] k2 k True inner assms(1)
        by (auto simp: tcp_alloc_def Let_def split: if_splits prod.splits)
    qed
  qed
  show ?thesis
  proof (cases "a = NULL")
    case False
    obtain p u where f: "fresh_pcb a t = (p, u)" by force
    then show ?thesis using good_fresh [OF f] t False ok_put [of u p] by (auto simp: put_def)
  qed (use t in simp)
qed

lemma good_eff_mss: "good p \<Longrightarrow> good (p\<lparr>mss := tcp_eff_send_mss (mss p) ip s\<rparr>)"
  by (rule smaller) (auto simp: tcp_eff_send_mss_def split: option.splits)

lemma ok_listen:
  assumes "tcp_listen_with_backlog junk a s = Some (l, s')" "ok s"
  shows "ok s'"
proof -
  obtain l' t where m: "memp_malloc s = (l', t)" by force
  then have "ok t" using ok_malloc assms(2) by blast
  then show ?thesis
    using assms m by (auto simp: tcp_listen_with_backlog_def Let_def intro!: ok_put ok_free listening
      split: Option.bind_splits if_splits)
qed

lemma ok_recved:
  assumes "tcp_recved a len s = Some s'" "ok s"
  shows "ok s'"
proof -
  obtain p where p: "pcbs s a = Some p" "good p" using assms ok_get by (auto simp: tcp_recved_def split: Option.bind_splits)
  then have "good (widened len p)" by (intro widens)
  then show ?thesis
    using assms p(1) unfolding tcp_recved_widened
    by (auto simp: Let_def dest!: framed_output(3,4) intro: ok_put split: if_splits prod.splits)
qed

lemma eff_mss_le: "m \<le> TCP_MSS \<Longrightarrow> tcp_eff_send_mss m d s \<le> TCP_MSS"
  by (auto simp: tcp_eff_send_mss_def min_def split: option.splits)

lemma ok_connect:
  assumes "tcp_connect a ip port cb s = Some (e, s')" "ok s"
  shows "ok s'"
proof -
  obtain p where p: "pcbs s a = Some p" "good p" using assms ok_get by (auto simp: tcp_connect_def split: Option.bind_splits)
  show ?thesis
  proof (cases "state p \<noteq> CLOSED \<or> ip = None")
    case True
    then show ?thesis using assms p by (auto simp: tcp_connect_def split: if_splits)
  next
    case False
    then obtain dest where d: "ip = Some dest" "state p = CLOSED" by auto
    let ?p = "p\<lparr>remote_ip := dest, remote_port := port\<rparr>"
    have np: "tcp_new_port s \<noteq> None" if "local_port p = 0"
    proof
      assume "tcp_new_port s = None"
      with that have "tcp_connect a ip port cb s = None" using p(1) d by (simp add: tcp_connect_def Let_def)
      with assms(1) show False by simp
    qed
    obtain lp p1 s1 where p1: "local_port p = 0 \<and> tcp_new_port s = Some (lp, s1) \<and> p1 = ?p\<lparr>local_port := lp\<rparr>
        \<or> local_port p \<noteq> 0 \<and> p1 = ?p \<and> s1 = s"
      using np by (cases "local_port p = 0") auto
    then have s1: "ok s1" using assms(2) ok_new_port by blast
    obtain iss s2 where i: "tcp_next_iss s1 = (iss, s2)" by force
    then have s2: "ok s2" using s1 by (auto simp: tcp_next_iss_def Let_def)
    let ?m = "tcp_eff_send_mss (if TCP_MSS > 536 then 536 else TCP_MSS) dest s2"
    let ?q = "p1\<lparr>rcv_nxt := 0, snd_nxt := iss, lastack := iss - 1, snd_lbb := iss - 1, rcv_wnd := TCP_WND,
      rcv_ann_wnd := TCP_WND, snd_wnd := TCP_WND, mss := ?m, cwnd := 1, ssthresh := ?m * 10, state := SYN_SENT, cb_connected := cb\<rparr>"
    have q: "good ?q" using eff_mss_le [of "if TCP_MSS > 536 then 536 else TCP_MSS"] by (intro good_opened) auto
    obtain e1 p2 s3 where n: "tcp_enqueue ?q None 0 TCP_SYN 0 (Some TCP_BUILD_MSS_OPTION) (REG_active a (RMV_bound a s2)) = (e1, p2, s3)"
      by (metis prod_cases3)
    then have 3: "good p2 \<and> ok s3" using framed [OF tcp_enqueue_frame [OF n] q] s2 by simp
    obtain e2 p3 s4 where o: "tcp_output p2 s3 = (e2, p3, s4)" by (metis prod_cases3)
    then have 4: "good p3 \<and> ok s4" using framed [OF tcp_output_frame [OF o]] 3 by blast
    have "s' = (if e1 = ERR_OK then put p3 s4 else put p2 s3)"
      using p1 assms(1) d n o i p(1) by (elim disjE conjE) (simp_all add: tcp_connect_def Let_def split: if_splits)
    then show ?thesis using 3 4 by (simp add: ok_put)
  qed
qed

lemma ok_bind:
  assumes "tcp_bind a ip port s = Some (e, s')" "ok s"
  shows "ok s'"
proof -
  obtain p where p: "pcbs s a = Some p" "good p" using assms ok_get by (auto simp: tcp_bind_def split: Option.bind_splits)
  show ?thesis
  proof (cases "state p = CLOSED")
    case True
    then obtain n t where t: "(if port = 0 then tcp_new_port s else Some (port, s)) = Some (n, t)"
      using assms(1) p by (auto simp: tcp_bind_def split: Option.bind_splits)
    then have "ok t" using assms(2) ok_new_port by (auto split: if_splits)
    then show ?thesis
      using assms(1) p True unfolding tcp_bind_def p(1) bind.bind_lunit t
      by (auto simp: Let_def intro!: ok_put split: Option.bind_splits if_splits)
  qed (use assms p in \<open>auto simp: tcp_bind_def\<close>)
qed

lemma ok_registration:
  assumes "ok s"
  shows "tcp_setprio a q s = Some s' \<Longrightarrow> ok s'" "tcp_arg a v s = Some s' \<Longrightarrow> ok s'" "tcp_recv a cb s = Some s' \<Longrightarrow> ok s'"
    "tcp_sent a cb s = Some s' \<Longrightarrow> ok s'" "tcp_err a cb s = Some s' \<Longrightarrow> ok s'" "tcp_accept a cb s = Some s' \<Longrightarrow> ok s'"
    "tcp_poll a cb i s = Some s' \<Longrightarrow> ok s'"
  using assms
  by (auto simp: tcp_setprio_def tcp_arg_def tcp_recv_def tcp_sent_def tcp_err_def tcp_accept_def tcp_poll_def
    intro!: ok_put dest: ok_get split: Option.bind_splits)

subsection \<open>Timers\<close>

lemma ok_keepalive:
  assumes "slowtmr_keepalive app p s = Some (p', s')" "app_keeps ok app" "good p" "ok s"
  shows "good p' \<and> ok s'"
proof -
  have "good p' \<and> ok s'" if "tcp_abort app (pcb_addr p) (put p s) = Some s'" "pcbs s' (pcb_addr p) = Some p'"
    using ok_abort [OF that(1) assms(2)] ok_put [OF assms(4,3)] ok_get that(2) by blast
  moreover have "ok (tcp_keepalive p s)" using ok_quiet [OF tcp_keepalive_quiet] assms(4) by blast
  ultimately show ?thesis
    using assms by (auto simp: slowtmr_keepalive_def Let_def split: if_splits Option.bind_splits)
qed

lemma ok_check:
  assumes "slowtmr_check app p s = Some (remove, p', s')" "app_keeps ok app" "good p" "ok s"
  shows "good p' \<and> ok s'"
proof -
  let ?x = "state p = SYN_SENT \<and> nrtx p = TCP_SYNMAXRTX \<or> nrtx p = TCP_MAXRTX"
  obtain p1 s1 where 1: "(if ?x then Some (p, s) else slowtmr_rexmit p s) = Some (p1, s1)"
    and 2: "\<exists>p2. slowtmr_keepalive app p1 s1 = Some (p2, s') \<and> good p' = good p2"
    using assms(1) by (auto simp: slowtmr_check_def Let_def split: Option.bind_splits)
  have "good p1 \<and> ok s1" using 1 framed [OF slowtmr_rexmit_frame] assms(3,4) by (auto split: if_splits)
  then show ?thesis using 2 ok_keepalive assms(2) by blast
qed

lemma ok_poll:
  assumes "slowtmr_poll app e p s = Some (e', p', s')" "app_keeps ok app" "good p" "ok s"
  shows "good p' \<and> ok s'"
proof -
  let ?p = "p\<lparr>polltmr := 0\<rparr>"
  have call: "good p1 \<and> ok s1"
    if "(if cb_poll p \<noteq> 0 then call (app_poll app (cb_poll p)) ?p s else Some (e, ?p, s)) = Some (e1, p1, s1)" for e1 p1 s1
    using that assms ok_call [of _ ?p s e1 p1 s1] app_keepsD(5) [OF assms(2)] by (auto split: if_splits)
  show ?thesis
  proof (cases "polltmr p + 1 \<ge> pollinterval p")
    case True
    then obtain e1 p1 s1 where 1: "(if cb_poll p \<noteq> 0 then call (app_poll app (cb_poll p)) ?p s else Some (e, ?p, s)) = Some (e1, p1, s1)"
      and 2: "(p', s') = (if e1 = ERR_OK then snd (tcp_output p1 s1) else (p1, s1))"
      using assms(1) by (auto simp: slowtmr_poll_def Let_def split: Option.bind_splits if_splits prod.splits)
    show ?thesis using 2 call [OF 1] framed [OF tcp_output_snd_frame [OF sym]] by (auto split: if_splits)
  next
    case False
    then show ?thesis using assms by (auto simp: slowtmr_poll_def Let_def)
  qed
qed

lemma ok_slowtmr_active:
  assumes "app_keeps ok app" "ok s" "slowtmr_active app a e s = Some s'"
  shows "ok s'"
proof -
  have "app_keeps ok app \<longrightarrow> ok s \<longrightarrow> ok s'"
  proof (rule slowtmr_active.raw_induct [OF _ assms(3)], intro impI, goal_cases)
    case (1 self app a e s y)
    show ?case
    proof (cases "a = NULL")
      case False
      then obtain p r p1 s1 where c: "pcbs s a = Some p" "slowtmr_check app p s = Some (r, p1, s1)"
        using 1(2) by (auto split: Option.bind_splits)
      then have g: "good p1 \<and> ok s1" using ok_check ok_get 1(3,4) by blast
      show ?thesis
      proof (cases r)
        case True
        let ?s = "tcp_event_err app (cb_errf (tcp_pcb_purge p1)) (callback_arg (tcp_pcb_purge p1)) ERR_ABRT
          (RMV_active a (put (tcp_pcb_purge p1) s1))"
        have "self app (next_pcb (tcp_active_pcbs s1) a) e (free_pcb a ?s) = Some y"
          using 1(2) False c True by (simp add: Let_def)
        moreover have "ok (free_pcb a ?s)" using g 1(3) by (intro ok_free ok_event_err) (simp_all add: ok_put)
        ultimately show ?thesis using 1(1,3) by blast
      next
        case nr: False
        then obtain e2 p2 s2 where q: "slowtmr_poll app e p1 s1 = Some (e2, p2, s2)"
          using 1(2) False c by (auto split: Option.bind_splits)
        then have "self app (next_pcb (tcp_active_pcbs s2) a) e2 (put p2 s2) = Some y"
          using 1(2) False c nr by simp
        moreover have "ok (put p2 s2)" using ok_poll [OF q 1(3)] g by (simp add: ok_put)
        ultimately show ?thesis using 1(1,3) by blast
      qed
    qed (use 1 in simp)
  qed
  then show ?thesis using assms by blast
qed

lemma ok_slowtmr_tw: "slowtmr_tw as s = Some s' \<Longrightarrow> ok s \<Longrightarrow> ok s'"
  by (induction as s rule: slowtmr_tw.induct) (auto split: Option.bind_splits if_splits simp: ok_free)

lemma ok_slowtmr:
  assumes "app_keeps ok app" "ok s" "tcp_slowtmr app s = Some s'"
  shows "ok s'"
proof -
  let ?s = "s\<lparr>tcp_ticks := tcp_ticks s + 1\<rparr>"
  obtain s1 where a: "slowtmr_active app (case tcp_active_pcbs ?s of [] \<Rightarrow> NULL | a # _ \<Rightarrow> a) ERR_OK ?s = Some s1"
    and t: "slowtmr_tw (tcp_tw_pcbs s1) s1 = Some s'"
    using assms(3) by (auto simp: tcp_slowtmr_def Let_def split: Option.bind_splits)
  have "ok s1" using ok_slowtmr_active [OF assms(1) _ a] assms(2) by simp
  with t show ?thesis by (rule ok_slowtmr_tw)
qed

lemma ok_fasttmr_one:
  assumes "fasttmr_one app p s = Some (p', s')" "app_keeps ok app" "good p" "ok s"
  shows "good p' \<and> ok s'"
proof -
  obtain p1 s1 where 1: "(if refused_data p \<noteq> None then do {
         (e, p, s) \<leftarrow> tcp_event_recv app p (refused_data p) ERR_OK s;
         Some (if e = ERR_OK then p\<lparr>refused_data := None\<rparr> else p, s) } else Some (p, s)) = Some (p1, s1)"
    and 2: "(if has (flags p1) TF_ACK_DELAY then let (p, s) = tcp_ack_now p1 s1
       in Some (p\<lparr>flags := flags p AND NOT (TF_ACK_DELAY OR TF_ACK_NOW)\<rparr>, s) else Some (p1, s1)) = Some (p', s')"
    using assms(1) unfolding fasttmr_one_def by (auto elim!: Option.bind_eq_Some_conv [THEN iffD1, elim_format])
  have "good p1 \<and> ok s1"
    using 1 assms(3,4) by (auto dest!: ok_event_recv [OF _ assms(2)] split: if_splits Option.bind_splits)
  then show ?thesis using 2 by (auto dest!: framed_output(3) split: if_splits prod.splits)
qed

lemma ok_fasttmr_loop:
  assumes "app_keeps ok app" "ok s" "fasttmr_loop app a s = Some s'"
  shows "ok s'"
proof -
  have "app_keeps ok app \<longrightarrow> ok s \<longrightarrow> ok s'"
  proof (rule fasttmr_loop.raw_induct [OF _ assms(3)], intro impI, goal_cases)
    case (1 self app a s y)
    show ?case
    proof (cases "a = NULL")
      case False
      then obtain p p1 s1 where c: "pcbs s a = Some p" "fasttmr_one app p s = Some (p1, s1)"
        using 1(2) by (auto split: Option.bind_splits)
      then have "self app (next_pcb (tcp_active_pcbs s1) a) (put p1 s1) = Some y" using 1(2) False by simp
      moreover have "ok (put p1 s1)" using ok_fasttmr_one [OF c(2) 1(3)] ok_get [OF 1(4) c(1)] 1(4) by (simp add: ok_put)
      ultimately show ?thesis using 1(1,3) by blast
    qed (use 1 in simp)
  qed
  then show ?thesis using assms by blast
qed

lemma ok_tmr:
  assumes "app_keeps ok app" "ok s" "tcp_tmr app s = Some s'"
  shows "ok s'"
proof -
  obtain s1 where f: "tcp_fasttmr app s = Some s1"
    and t: "s' = s1\<lparr>tcp_timer := tcp_timer s1 + 1\<rparr> \<or> tcp_slowtmr app (s1\<lparr>tcp_timer := tcp_timer s1 + 1\<rparr>) = Some s'"
    using assms(3) by (auto simp: tcp_tmr_def Let_def split: Option.bind_splits if_splits)
  have "ok s1" using ok_fasttmr_loop [OF assms(1,2)] f unfolding tcp_fasttmr_def by blast
  then show ?thesis using t ok_slowtmr [OF assms(1), of "s1\<lparr>tcp_timer := tcp_timer s1 + 1\<rparr>"] by auto
qed

subsection \<open>Input\<close>

lemma good_parseopt_loop:
  assumes "parseopt_loop opts n c p = Some p'" "good p"
  shows "good p'"
proof -
  have "good p \<longrightarrow> good p'"
  proof (rule parseopt_loop.raw_induct [OF _ assms(1)], intro impI, goal_cases)
    case (1 self opts n c p y)
    have "good (p\<lparr>mss := m\<rparr>)" if "m \<le> TCP_MSS" for m using 1(3) that by (intro smaller) auto
    then show ?case using 1 by (auto simp: Let_def split: if_splits Option.bind_splits)
  qed
  then show ?thesis using assms(2) by blast
qed

lemma good_parseopt: "tcp_parseopt r p = Some p' \<Longrightarrow> good p \<Longrightarrow> good p'"
  by (auto simp: tcp_parseopt_def dest: good_parseopt_loop split: if_splits)

lemma good_dequeue: "dequeue_ooseq gs p r = Some (p', r') \<Longrightarrow> good p \<Longrightarrow> good p'"
proof (induction gs p r rule: dequeue_ooseq.induct)
  case (2 g gs p r)
  let ?p = "shrink_wnd (TCP_TCPLEN g) (p\<lparr>rcv_nxt := rcv_nxt p + TCP_TCPLEN g\<rparr>)"
  have "good ?p" using 2(3) by (intro shrunk) simp
  moreover have "state ?p = state p" by (simp add: shrink_wnd_def Let_def)
  ultimately have "good (if state ?p = ESTABLISHED then ?p\<lparr>state := CLOSE_WAIT\<rparr> else ?p)" "good ?p" by auto
  then show ?case using 2 by (auto simp: Let_def split: if_splits Option.bind_splits)
qed auto

lemma good_accept: "accept_inseg p r = Some (p', r') \<Longrightarrow> good p \<Longrightarrow> good p'"
  by (auto simp: accept_inseg_def Let_def split: if_splits Option.bind_splits intro!: shrunk)

lemma good_trim_against: "trim_against_ooseq p r = Some (p', r') \<Longrightarrow> good p \<Longrightarrow> good p'"
  by (auto simp: trim_against_ooseq_def split: if_splits Option.bind_splits list.splits)

lemma good_inseq:
  assumes "receive_inseq r p s = Some (r', p', s')" "good p" "ok s"
  shows "good p' \<and> ok s'"
  using assms
  by (auto simp: receive_inseq_def split: Option.bind_splits
    dest!: good_trim_against good_accept good_dequeue framed_output(4))

lemma good_ooseq:
  assumes "receive_ooseq r p s = Some (p', s')" "good p" "ok s"
  shows "good p' \<and> ok s'"
proof -
  obtain p1 s1 where a: "tcp_ack_now p s = (p1, s1)" by force
  then have "good p1 \<and> ok s1" using framed_output(3) assms(2,3) by blast
  then show ?thesis
    using assms(1) a ok_quiet [OF tcp_seg_copy_quiet] ok_quiet [OF ooseq_walk_quiet]
    by (auto simp: receive_ooseq_def split: if_splits prod.splits Option.bind_splits option.splits)
qed

lemma good_receive_data:
  assumes "receive_data r p s = Some (acc, r', p', s')" "good p" "ok s"
  shows "good p' \<and> ok s'"
proof -
  obtain r1 p1 s1 where 1: "(if TCP_SEQ_BETWEEN (rcv_nxt p) (seqno r + 1) (seqno r + ucast (tcplen r) - 1)
       then do { r \<leftarrow> trim_inseg p r; Some (r, p, s) }
       else if TCP_SEQ_LT (seqno r) (rcv_nxt p) then Some (r, tcp_ack_now p s) else Some (r, p, s)) = Some (r1, p1, s1)"
    and 2: "(p', s') = tcp_ack_now p1 s1 \<or> receive_inseq r1 p1 s1 = Some (r', p', s') \<or> receive_ooseq r1 p1 s1 = Some (p', s')"
    using assms(1) unfolding receive_data_def
    by (auto elim!: Option.bind_eq_Some_conv [THEN iffD1, elim_format] split: if_splits prod.splits)
  have g: "good p1" "ok s1"
    using 1 assms(2,3) by (auto dest!: framed_output(3) split: if_splits Option.bind_splits)
  show ?thesis using 2 g good_inseq good_ooseq framed_output(3) [OF sym] by blast
qed

lemma good_receive:
  assumes "tcp_receive r p s = Some (acc, r', p', s')" "good p" "ok s"
  shows "good p' \<and> ok s'"
proof -
  obtain p1 s1 where 1: "(if has (rx_flags r) TCP_ACK then receive_ack r p s else Some (p, s)) = Some (p1, s1)"
    and 2: "(p', s') = tcp_ack_now p1 s1 \<or> (p', s') = (p1, s1) \<or> receive_data r p1 s1 = Some (acc, r', p', s')"
    using assms(1) unfolding tcp_receive_def
    by (auto elim!: Option.bind_eq_Some_conv [THEN iffD1, elim_format] split: if_splits)
  have g: "good p1" "ok s1" using 1 assms(2,3) by (auto dest!: framed_output(7) split: if_splits)
  show ?thesis using 2 g good_receive_data framed_output(3) [OF sym] by blast
qed

lemma good_connected:
  assumes "(if cb_connected p \<noteq> 0 then call (\<lambda>a. app_connected app (cb_connected p) a ERR_OK) p s
    else Some (ERR_OK, p, s)) = Some (e, p', s')" "app_keeps ok app" "good p" "ok s"
  shows "good p' \<and> ok s'"
  using assms ok_call [of _ p s e p' s'] app_keepsD(3) [OF assms(2)] by (auto split: if_splits)

lemma good_event_accept:
  assumes "tcp_event_accept app p s = Some (e, p', s')" "app_keeps ok app" "good p" "ok s" "state p \<noteq> LISTEN"
  shows "good p' \<and> ok s' \<and> state p' \<noteq> LISTEN"
proof (cases "cb_accept p = 0 \<or> cb_accept p = 1")
  case False
  then have c: "call (\<lambda>a. app_accept app (cb_accept p) a ERR_OK) p s = Some (e, p', s')"
    using assms(1) by (auto simp: tcp_event_accept_def)
  have "pcbs (snd (app_accept app (cb_accept p) (pcb_addr p) ERR_OK (put p s))) (pcb_addr p) = Some p'"
    using c by (auto simp: call_def Let_def split: prod.splits Option.bind_splits)
  moreover have "pcbs (put p s) (pcb_addr p) = Some p" by (simp add: put_def)
  ultimately have "state p' \<noteq> LISTEN" using assms(2,5) unfolding app_keeps_def by blast
  then show ?thesis using ok_call [OF c assms(4,3)] app_keepsD(4) [OF assms(2)] by blast
qed (use assms in \<open>auto simp: tcp_event_accept_def split: if_splits\<close>)

lemma good_passive_close:
  assumes "passive_close acc r p s = (p', s')" "good p" "ok s" "state p \<noteq> LISTEN"
  shows "good p' \<and> ok s'"
proof -
  obtain p1 s1 where a: "tcp_ack_now p s = (p1, s1)" by force
  then have "good p1 \<and> ok s1" "state p1 = state p" using framed_output(3) tcp_ack_now_frame keptD(2) assms(2,3) by blast+
  then show ?thesis using assms a by (auto simp: passive_close_def split: if_splits)
qed

lemma good_time_wait:
  assumes "enter_time_wait p s = (p', s')" "good p" "ok s" "state p \<noteq> LISTEN"
  shows "good p' \<and> ok s'"
proof -
  obtain p1 s1 where a: "tcp_ack_now p s = (p1, s1)" by force
  then have g: "good p1 \<and> ok s1" "state p1 = state p" using framed_output(3) tcp_ack_now_frame keptD(2) assms(2,3) by blast+
  moreover have "state (tcp_pcb_purge p1) = state p1" by (simp add: tcp_pcb_purge_def)
  ultimately show ?thesis using assms(1,4) a by (auto simp: enter_time_wait_def Let_def)
qed

lemma good_fin_wait_1:
  assumes "process_fin_wait_1 r p s = (p', s')" "good p" "ok s" "state p \<noteq> LISTEN"
  shows "good p' \<and> ok s'"
proof -
  obtain p1 s1 where a: "tcp_ack_now p s = (p1, s1)" by force
  then have g: "good p1 \<and> ok s1" "state p1 = state p" using framed_output(3) tcp_ack_now_frame keptD(2) assms(2,3) by blast+
  show ?thesis
    using assms a g good_time_wait [of p s p' s'] by (auto simp: process_fin_wait_1_def split: if_splits)
qed

lemma good_syn_sent:
  assumes "process_syn_sent app r p s = Some (r', p', s')" "app_keeps ok app" "good p" "ok s" "state p \<noteq> LISTEN"
  shows "good p' \<and> ok s'"
proof -
  obtain x where x: "(if has (rx_flags r) TCP_ACK \<and> has (rx_flags r) TCP_SYN
       then (case unacked p of [] \<Rightarrow> None | g # _ \<Rightarrow> Some (ackno r = seg_seqno g + 1)) else Some False) = Some x"
    using assms(1) by (auto simp: process_syn_sent_def split: Option.bind_splits)
  show ?thesis
  proof (cases x)
    case True
    let ?p = "p\<lparr>snd_buf := snd_buf p + 1, rcv_nxt := seqno r + 1, lastack := ackno r,
       snd_wnd := hdr_wnd (rx_hdr r), snd_wl1 := seqno r - 1, state := ESTABLISHED\<rparr>"
    obtain p1 where p1: "tcp_parseopt r ?p = Some p1"
      using assms(1) x True by (auto simp: process_syn_sent_def Let_def split: Option.bind_splits)
    let ?q = "p1\<lparr>mss := tcp_eff_send_mss (mss p1) (remote_ip p1) s\<rparr>"
    let ?q1 = "?q\<lparr>ssthresh := mss ?q * 10, cwnd := (if cwnd ?q = 1 then mss ?q * 2 else mss ?q),
       snd_queuelen := snd_queuelen ?q - 1, unacked := tl (unacked ?q)\<rparr>"
    let ?q2 = "if unacked ?q1 = [] then ?q1\<lparr>rtime := - 1\<rparr> else ?q1\<lparr>rtime := 0, nrtx := 0\<rparr>"
    obtain e3 p3 s3 where c: "(if cb_connected ?q2 \<noteq> 0 then call (\<lambda>a. app_connected app (cb_connected ?q2) a ERR_OK) ?q2 s
         else Some (ERR_OK, ?q2, s)) = Some (e3, p3, s3)" and a: "tcp_ack_now p3 s3 = (p', s')"
      using assms(1) True unfolding process_syn_sent_def x bind.bind_lunit if_P [OF True] Let_def p1
      by (auto elim!: Option.bind_eq_Some_conv [THEN iffD1, elim_format])
    have "good p1" using good_parseopt [OF p1] assms(3,5) by simp
    then have "good ?q2" using good_eff_mss [of p1 "remote_ip p1" s] by simp
    then have "good p3 \<and> ok s3" using good_connected [OF c assms(2)] assms(4) by blast
    then show ?thesis using framed_output(3) [OF a] by blast
  next
    case False
    have "ok (if has (rx_flags r) TCP_ACK then reply_rst r s else s)"
      using ok_quiet [OF tcp_rst_quiet] assms(4) by (simp add: reply_rst_def)
    then show ?thesis using assms(1,3) x False by (auto simp: process_syn_sent_def)
  qed
qed

lemma good_syn_rcvd:
  assumes "process_syn_rcvd app r p s = Some (e, r', p', s')" "app_keeps ok app" "good p" "ok s" "state p \<noteq> LISTEN"
  shows "good p' \<and> ok s'"
proof (cases "has (rx_flags r) TCP_ACK \<and> \<not> has (rx_flags r) TCP_RST
    \<and> TCP_SEQ_BETWEEN (ackno r) (lastack p + 1) (snd_nxt p)")
  case False
  have "ok (reply_rst r s)" using ok_quiet [OF tcp_rst_quiet] assms(4) by (simp add: reply_rst_def)
  then show ?thesis using assms False by (auto simp: process_syn_rcvd_def split: if_splits)
next
  case True
  obtain e1 p1 s1 where a: "tcp_event_accept app (p\<lparr>state := ESTABLISHED\<rparr>) s = Some (e1, p1, s1)"
    using assms(1) True by (auto simp: process_syn_rcvd_def split: Option.bind_splits)
  have "good (p\<lparr>state := ESTABLISHED\<rparr>)" using assms(3,5) by auto
  then have p1: "good p1 \<and> ok s1 \<and> state p1 \<noteq> LISTEN" using good_event_accept [OF a assms(2)] assms(4) by simp
  show ?thesis
  proof (cases "e1 = ERR_OK")
    case False
    then have "tcp_abort app (pcb_addr p1) (put p1 s1) = Some s'" "p' = p1"
      using assms(1) True a by (auto simp: process_syn_rcvd_def split: Option.bind_splits)
    then show ?thesis using ok_abort assms(2) p1 ok_put by blast
  next
    case ok: True
    then obtain acc r2 p2 s2 where t: "tcp_receive r p1 s1 = Some (acc, r2, p2, s2)"
      and c: "passive_close acc r2 (p2\<lparr>cwnd := (if cwnd p1 = 1 then mss p2 * 2 else mss p2)\<rparr>) s2 = (p', s')"
      using assms(1) True a unfolding process_syn_rcvd_def by (auto simp: Let_def split: Option.bind_splits)
    have "good p2 \<and> ok s2" "state p2 \<noteq> LISTEN"
      using good_receive [OF t] tcp_receive_advances [OF t] p1 by (auto simp: advances_def)
    then show ?thesis using good_passive_close [OF c] by simp
  qed
qed

lemma good_after_receive:
  assumes "after_receive acc r p s st = (p', s')" "good p" "ok s" "state p \<noteq> LISTEN"
  shows "good p' \<and> ok s'"
  using assms good_passive_close [of acc r p s p' s'] good_fin_wait_1 [of r p s p' s'] good_time_wait [of p s p' s']
  by (auto simp: after_receive_def split: tcp_state.splits if_splits)

lemma good_process:
  assumes "tcp_process app r p s = Some (e, r', p', s')" "app_keeps ok app" "good p" "ok s"
  shows "good p' \<and> ok s'"
proof (cases "has (rx_flags r) TCP_RST")
  case True
  then show ?thesis using assms by (auto simp: tcp_process_def process_reset_def Let_def split: if_splits)
next
  case False
  let ?p = "p\<lparr>tmr := tcp_ticks s, keep_cnt_sent := 0\<rparr>"
  show ?thesis
  proof (cases "state p \<in> {ESTABLISHED, CLOSE_WAIT, FIN_WAIT_1, FIN_WAIT_2, CLOSING, LAST_ACK}")
    case True
    then obtain acc r1 p1 s1 where t: "tcp_receive r ?p s = Some (acc, r1, p1, s1)"
      and a: "after_receive acc r1 p1 s1 (state p) = (p', s')"
      using tcp_process_receives [OF assms(1) False] by metis
    have "good p1 \<and> ok s1" using good_receive [OF t] assms(3,4) by simp
    moreover have "state p1 \<noteq> LISTEN" using tcp_receive_advances [OF t] True by (auto simp: advances_def)
    ultimately show ?thesis using good_after_receive [OF a] by blast
  next
    case other: False
    show ?thesis
    proof (cases "state p")
      case SYN_SENT
      then have "process_syn_sent app r ?p s = Some (r', p', s')"
        using assms(1) False by (auto simp: tcp_process_def Let_def split: Option.bind_splits)
      from good_syn_sent [OF this assms(2)] show ?thesis using assms(3,4) SYN_SENT by simp
    next
      case SYN_RCVD
      then have "process_syn_rcvd app r ?p s = Some (e, r', p', s')"
        using assms(1) False by (auto simp: tcp_process_def Let_def)
      from good_syn_rcvd [OF this assms(2)] show ?thesis using assms(3,4) SYN_RCVD by simp
    qed (use other assms False in \<open>auto simp: tcp_process_def Let_def\<close>)
  qed
qed

lemma ok_deliver:
  assumes "deliver app r p s = Some s'" "app_keeps ok app" "good p" "ok s"
  shows "ok s'"
proof -
  obtain e1 p1 s1 where 1: "(if acked p > 0 \<and> cb_sent p \<noteq> 0
       then call (\<lambda>a. app_sent app (cb_sent p) a (acked p)) p s else Some (ERR_OK, p, s)) = Some (e1, p1, s1)"
    using assms(1) by (auto simp: deliver_def split: Option.bind_splits if_splits)
  have g1: "good p1 \<and> ok s1"
    using 1 assms ok_call [of _ p s e1 p1 s1] app_keepsD(1) [OF assms(2)] by (auto split: if_splits)
  obtain e2 p2 s2 where 2: "(if recv_data r \<noteq> None then do {
         (e, pcb, s) \<leftarrow> tcp_event_recv app p1 (recv_data r) ERR_OK s1;
         Some (e, if e \<noteq> ERR_OK then pcb\<lparr>refused_data := recv_data r\<rparr> else pcb, s) }
       else Some (e1, p1, s1)) = Some (e2, p2, s2)"
    using assms(1) unfolding deliver_def 1 bind.bind_lunit prod.case
    by (auto elim!: Option.bind_eq_Some_conv [THEN iffD1, elim_format])
  have g2: "good p2 \<and> ok s2"
    using 2 g1 by (auto split: if_splits Option.bind_splits dest!: ok_event_recv [OF _ assms(2)])
  obtain e3 p3 s3 where 3: "(if has (recv_flags r) TF_GOT_FIN then tcp_event_recv app p2 None ERR_OK s2
       else Some (e2, p2, s2)) = Some (e3, p3, s3)"
    and 4: "s' = (let (p, s) = (if e3 = ERR_OK then snd (tcp_output p3 s3) else (p3, s3)) in put p s)"
    using assms(1) unfolding deliver_def 1 bind.bind_lunit prod.case 2
    by (auto elim!: Option.bind_eq_Some_conv [THEN iffD1, elim_format] split: prod.splits)
  have g3: "good p3 \<and> ok s3" using 3 g2 by (auto split: if_splits dest!: ok_event_recv [OF _ assms(2)])
  then show ?thesis
    using 4 framed_output(2) [of p3 s3] by (auto intro: ok_put split: prod.splits if_splits)
qed

lemma ok_input_active:
  assumes "input_active app r p s = Some s'" "app_keeps ok app" "good p" "ok s"
  shows "ok s'"
proof -
  obtain e1 p1 s1 where 1: "(if refused_data p \<noteq> None then do {
         (e, pcb, s) \<leftarrow> tcp_event_recv app p (refused_data p) ERR_OK s;
         Some (e, if e = ERR_OK then pcb\<lparr>refused_data := None\<rparr> else pcb, s) }
       else Some (ERR_OK, p, s)) = Some (e1, p1, s1)"
    using assms(1) unfolding input_active_def by (auto elim!: Option.bind_eq_Some_conv [THEN iffD1, elim_format])
  have g1: "good p1 \<and> ok s1"
    using 1 assms(3,4) by (auto split: if_splits Option.bind_splits dest!: ok_event_recv [OF _ assms(2)])
  show ?thesis
  proof (cases "e1 = ERR_OK")
    case False
    then show ?thesis using assms(1) g1 unfolding input_active_def 1 by (auto intro: ok_put)
  next
    case True
    then obtain e r2 p2 s2 where 2: "tcp_process app r p1 (s1\<lparr>tcp_input_pcb := pcb_addr p1\<rparr>) = Some (e, r2, p2, s2)"
      using assms(1) unfolding input_active_def 1 by (auto split: Option.bind_splits)
    then have g2: "good p2 \<and> ok s2" using good_process [OF 2 assms(2)] g1 by simp
    let ?s = "s2\<lparr>tcp_input_pcb := NULL\<rparr>"
    have s': "(if e = ERR_ABRT then Some ?s
       else if has (recv_flags r2) TF_RESET
       then do {
         let s = tcp_event_err app (cb_errf p2) (callback_arg p2) ERR_RST (put p2 ?s);
         pcb \<leftarrow> pcbs s (pcb_addr p2);
         Some (free_pcb (pcb_addr pcb) (snd (tcp_pcb_remove RMV_active pcb s)))
       }
       else if has (recv_flags r2) TF_CLOSED
       then Some (free_pcb (pcb_addr p2) (snd (tcp_pcb_remove RMV_active p2 ?s)))
       else deliver app r2 p2 ?s) = Some s'"
      using assms(1) True 2 unfolding input_active_def 1 by (simp add: Let_def)
    have "ok (tcp_event_err app (cb_errf p2) (callback_arg p2) ERR_RST (put p2 ?s))"
      using g2 by (intro ok_event_err assms(2) ok_put) simp_all
    then show ?thesis
      using s' g2 ok_deliver [OF _ assms(2)]
      by (auto simp: Let_def ok_remove ok_free split: if_splits Option.bind_splits)
  qed
qed

lemma ok_timewait_input:
  assumes "tcp_timewait_input r p s = (e, p', s')" "good p" "ok s"
  shows "good p' \<and> ok s'"
proof -
  let ?p = "if TCP_SEQ_GT (seqno r + ucast (tcplen r)) (rcv_nxt p) then p\<lparr>rcv_nxt := seqno r + ucast (tcplen r)\<rparr> else p"
  obtain p1 s1 where 1: "(if tcplen r > 0 then tcp_ack_now ?p s else (?p, s)) = (p1, s1)" by force
  have "good p1 \<and> ok s1" using 1 assms(2,3) framed_output(3) [of ?p s p1 s1] by (auto split: if_splits)
  moreover have "tcp_output p1 s1 = (e, p', s')" using assms(1) unfolding tcp_timewait_input_def Let_def 1 by simp
  ultimately show ?thesis using framed_output(1) by blast
qed

lemma ok_listen_input:
  assumes "tcp_listen_input app r l s = Some (e, s')" "app_keeps ok app" "ok s"
  shows "ok s'"
proof -
  consider (ack) "has (rx_flags r) TCP_ACK" | (syn) "\<not> has (rx_flags r) TCP_ACK" "has (rx_flags r) TCP_SYN"
    | (none) "\<not> has (rx_flags r) TCP_ACK" "\<not> has (rx_flags r) TCP_SYN" by blast
  then show ?thesis
  proof cases
    case ack
    then show ?thesis using assms ok_quiet [OF tcp_rst_quiet] by (auto simp: tcp_listen_input_def)
  next
    case none
    then show ?thesis using assms by (auto simp: tcp_listen_input_def)
  next
    case syn
    obtain n s1 where a: "tcp_alloc app (prio l) s = Some (n, s1)"
      using assms(1) syn by (auto simp: tcp_listen_input_def split: Option.bind_splits)
    note g = ok_alloc [OF a assms(2,3)]
    show ?thesis
    proof (cases "n = NULL")
      case True
      then show ?thesis using assms(1) syn a g by (auto simp: tcp_listen_input_def)
    next
      case False
      then obtain p where p: "pcbs s1 n = Some p" "good p" "state p = CLOSED" using g by blast
      let ?p = "p\<lparr>local_ip := rx_dest r, local_port := local_port l, remote_ip := rx_src r,
            remote_port := hdr_src (rx_hdr r), state := SYN_RCVD, rcv_nxt := seqno r + 1,
            snd_wnd := hdr_wnd (rx_hdr r), ssthresh := hdr_wnd (rx_hdr r), snd_wl1 := seqno r - 1,
            callback_arg := callback_arg l, cb_accept := cb_accept l,
            so_options := so_options l AND INHERITED_OPTIONS\<rparr>"
      obtain p1 where p1: "tcp_parseopt r ?p = Some p1"
        using assms(1) syn a False p(1) by (auto simp: tcp_listen_input_def Let_def split: Option.bind_splits)
      let ?q = "p1\<lparr>mss := tcp_eff_send_mss (mss p1) (remote_ip p1) (REG_active n s1)\<rparr>"
      have q: "good ?q" using good_parseopt [OF p1] p(2,3) good_eff_mss by simp
      obtain e2 p2 s2 where 2: "tcp_enqueue ?q None 0 (TCP_SYN OR TCP_ACK) 0 (Some TCP_BUILD_MSS_OPTION) (REG_active n s1) = (e2, p2, s2)"
        by (metis prod_cases3)
      have g2: "good p2 \<and> ok s2" using framed_output(5) [OF 2 q] g by simp
      obtain e3 p3 s3 where 3: "tcp_output p2 s2 = (e3, p3, s3)" by (metis prod_cases3)
      have g3: "good p3 \<and> ok s3" using framed_output(1) [OF 3] g2 by simp
      have "s' = put p3 s3"
        using assms(1) syn False 2 3 unfolding tcp_listen_input_def a bind.bind_lunit prod.case p(1) Let_def p1 by simp
      then show ?thesis using g3 by (simp add: ok_put)
    qed
  qed
qed

lemma ok_blocks: "blocks as s = Some ps \<Longrightarrow> ok s \<Longrightarrow> p \<in> set ps \<Longrightarrow> good p"
proof (induction as arbitrary: ps)
  case (Cons a as)
  then obtain q qs where "pcbs s a = Some q" "blocks as s = Some qs" "ps = q # qs"
    by (auto simp: blocks_def split: option.splits)
  then show ?case using Cons ok_get by auto
qed (simp add: blocks_def)

lemma find_in: "List.find f xs = Some x \<Longrightarrow> x \<in> set xs"
  by (auto simp: find_Some_iff)

lemma ok_input:
  assumes "tcp_input app d inp s = Some s'" "app_keeps ok app" "ok s"
  shows "ok s'"
proof -
  obtain parsed where pr: "parse_segment d inp = Some parsed"
    using assms(1) by (auto simp: tcp_input_def split: Option.bind_splits)
  show ?thesis
  proof (cases parsed)
    case None
    then show ?thesis using assms pr by (simp add: tcp_input_def)
  next
    case (Some r)
    obtain active where act: "blocks (tcp_active_pcbs s) s = Some active"
      using assms(1) pr Some by (cases "blocks (tcp_active_pcbs s) s") (simp_all add: tcp_input_def)
    show ?thesis
    proof (cases "List.find (connection_of r) active")
      case (Some p)
      then have "good p" by (rule ok_blocks [OF act assms(3) find_in])
      moreover have "input_active app r p (s\<lparr>tcp_active_pcbs := pcb_addr p # remove1 (pcb_addr p) (tcp_active_pcbs s)\<rparr>) = Some s'"
        using assms(1) pr \<open>parsed = Some r\<close> act Some by (simp add: tcp_input_def)
      ultimately show ?thesis using ok_input_active assms(2,3) by fastforce
    next
      case None
      note base = pr \<open>parsed = Some r\<close> act None
      obtain tw where tw: "blocks (tcp_tw_pcbs s) s = Some tw"
        using assms(1) base by (cases "blocks (tcp_tw_pcbs s) s") (simp_all add: tcp_input_def)
      show ?thesis
      proof (cases "List.find (connection_of r) tw")
        case (Some p)
        then have p: "good p" by (rule ok_blocks [OF tw assms(3) find_in])
        obtain e p' t where t: "tcp_timewait_input r p s = (e, p', t)" by (metis prod_cases3)
        have "s' = put p' t" using assms(1) base tw Some t by (simp add: tcp_input_def)
        then show ?thesis using ok_timewait_input [OF t p assms(3)] by (simp add: ok_put)
      next
        case None
        obtain ls where ls: "blocks (tcp_listen_pcbs s) s = Some ls"
          using assms(1) base tw None by (cases "blocks (tcp_listen_pcbs s) s") (simp_all add: tcp_input_def)
        show ?thesis
        proof (cases "List.find (listener_of r) ls")
          case (Some l)
          then obtain e where "tcp_listen_input app r l
              (s\<lparr>tcp_listen_pcbs := pcb_addr l # remove1 (pcb_addr l) (tcp_listen_pcbs s)\<rparr>) = Some (e, s')"
            using assms(1) base tw None ls by (auto simp: tcp_input_def split: Option.bind_splits)
          then show ?thesis using ok_listen_input assms(2,3) by fastforce
        next
          case no_listener: None
          then have "s' = (if \<not> has (rx_flags r) TCP_RST then reply_rst r s else s)"
            using assms(1) base tw None ls by (simp add: tcp_input_def)
          then show ?thesis using assms(3) ok_quiet [OF tcp_rst_quiet] by (simp add: reply_rst_def)
        qed
      qed
    qed
  qed
qed

subsection \<open>Reachable states\<close>

lemma ok_write:
  assumes "tcp_write p d len fl s = (e, p', s')" "good p" "ok s"
  shows "good p' \<and> ok s'"
  using assms framed_output(5) [of p "Some d" len 0 fl None s e p' s']
  by (auto simp: tcp_write_def split: if_splits)

lemma ok_step:
  assumes "tcp_step app s s'" "app_keeps ok app" "ok s"
  shows "ok s'"
  using assms(1)
proof cases
  case (creates a)
  then show ?thesis using ok_alloc assms(2,3) unfolding tcp_new_def by blast
next
  case (writes a p data len fl e p' t)
  then show ?thesis using ok_write ok_get ok_put assms(3) by metis
next
  case (sends a p e p' t)
  then show ?thesis using framed_output(1) ok_get ok_put assms(3) by metis
next
  case (registers a q v k)
  then show ?thesis using ok_registration [OF assms(3)] by (elim disjE) auto
next
  case input
  then show ?thesis using ok_input assms(2,3) by blast
next
  case timer
  then show ?thesis using ok_tmr assms(2,3) by blast
next
  case binds
  then show ?thesis using ok_bind assms(3) by blast
next
  case listens
  then show ?thesis using ok_listen assms(3) by blast
next
  case connects
  then show ?thesis using ok_connect assms(3) by blast
next
  case closes
  then show ?thesis using ok_close assms(3) by blast
next
  case aborts
  then show ?thesis using ok_abort assms(2,3) by blast
next
  case reads
  then show ?thesis using ok_recved assms(3) by blast
qed

lemma ok_reachable:
  assumes "tcp_reachable app s" "app_keeps ok app"
  shows "ok s"
  using assms
proof (induction rule: tcp_reachable.induct)
  case (initially s)
  then show ?case by (simp add: all_blocks_def)
next
  case (steps s s')
  then show ?case using ok_step by blast
qed

end

subsection \<open>Receive windows and segment size\<close>

definition window_ok :: "tcp_pcb \<Rightarrow> bool" where
  "window_ok p \<longleftrightarrow> state p = LISTEN \<or> rcv_ann_wnd p \<le> rcv_wnd p \<and> rcv_wnd p \<le> TCP_WND"

definition mss_ok :: "tcp_pcb \<Rightarrow> bool" where
  "mss_ok p \<longleftrightarrow> state p = LISTEN \<or> mss p \<le> TCP_MSS"

lemma unat_shrunk: "unat (if ucast w < n then 0 else w - ucast n :: u16) = unat w - unat (n :: u32)"
proof (cases "ucast w < n")
  case False
  then have n: "unat n \<le> unat w" by (simp add: word_less_nat_alt unat_ucast_half)
  then have "unat (ucast n :: u16) = unat n" using unat_half [of w] by (simp add: unat_ucast_mod)
  then show ?thesis using False n by (simp add: unat_sub word_le_nat_alt)
qed (simp add: word_less_nat_alt unat_ucast_half)

lemma shrink_wnd_sel: "rcv_wnd (shrink_wnd n p) = (if ucast (rcv_wnd p) < n then 0 else rcv_wnd p - ucast n)"
  "rcv_ann_wnd (shrink_wnd n p) = (if ucast (rcv_ann_wnd p) < n then 0 else rcv_ann_wnd p - ucast n)"
  by (simp_all add: shrink_wnd_def Let_def)

lemma unat_shrink_wnd: "unat (rcv_wnd (shrink_wnd n p)) = unat (rcv_wnd p) - unat n"
  "unat (rcv_ann_wnd (shrink_wnd n p)) = unat (rcv_ann_wnd p) - unat n"
  by (simp_all only: shrink_wnd_sel unat_shrunk)

lemma shrink_wnd_ok: "window_ok p \<Longrightarrow> window_ok (shrink_wnd n p)"
  by (auto simp: window_ok_def word_le_nat_alt unat_shrink_wnd)

lemma widened_ok: "window_ok p \<Longrightarrow> window_ok (widened len p)"
proof -
  assume "window_ok p"
  moreover have "unat (rcv_wnd p + len) = unat (rcv_wnd p) + unat len" if "unat (rcv_wnd p) + unat len \<le> unat TCP_WND"
    using that unat_half [of TCP_WND] by (intro unat_add_small) simp
  ultimately show ?thesis
    by (auto simp: window_ok_def widened_def Let_def word_le_nat_alt not_less)
qed

interpretation window: pcb_invariant window_ok
proof
  show "window_ok p = window_ok q" if "windows p = windows q" for p q
    using that by (simp add: windows_def window_ok_def)
qed (auto simp: window_ok_def [of "_\<lparr>mss := _\<rparr>"] shrink_wnd_ok widened_ok, (simp add: window_ok_def)+)

interpretation segment_size: pcb_invariant mss_ok
proof
  show "mss_ok p = mss_ok q" if "windows p = windows q" for p q
    using that by (simp add: windows_def mss_ok_def)
qed (auto simp: mss_ok_def shrink_wnd_def widened_def Let_def)

text \<open>
  Claim C5: in every reachable state of TCP, whatever packets arrive and whatever the application does through
  callbacks that keep the invariant, the window a connection announces is at most the window it has, which is
  at most \<^verbatim>\<open>TCP_WND\<close>.
\<close>

theorem reachable_windows:
  assumes "tcp_reachable app s" "app_keeps (all_blocks window_ok) app" "pcbs s a = Some p" "state p \<noteq> LISTEN"
  shows "rcv_ann_wnd p \<le> rcv_wnd p \<and> rcv_wnd p \<le> TCP_WND"
  using window.ok_get [OF window.ok_reachable [OF assms(1,2)] assms(3)] assms(4) by (simp add: window_ok_def)

text \<open>
  In every reachable state of TCP the segment size of a connection is at most \<^verbatim>\<open>TCP_MSS\<close>, whatever
  size the peer asks for.
\<close>

theorem reachable_segment_size:
  assumes "tcp_reachable app s" "app_keeps (all_blocks mss_ok) app" "pcbs s a = Some p" "state p \<noteq> LISTEN"
  shows "mss p \<le> TCP_MSS"
  using segment_size.ok_get [OF segment_size.ok_reachable [OF assms(1,2)] assms(3)] assms(4) by (simp add: mss_ok_def)

definition empty_tcp :: tcp where
  "empty_tcp = sample_tcp\<lparr>tcp_active_pcbs := [], pcbs := Map.empty, pcb_allocs := [16]\<rparr>"

lemma null_app_keeps: "app_keeps I null_app"
  by (simp add: app_keeps_def null_app_def)

lemma reachable_new: "\<exists>s p. tcp_reachable null_app s \<and> pcbs s 16 = Some p \<and> state p = CLOSED"
proof -
  have "map_option (\<lambda>(a, s). map_option state (pcbs s 16)) (tcp_new null_app empty_tcp) = Some (Some CLOSED)"
    by code_simp
  then obtain a s p where s: "tcp_new null_app empty_tcp = Some (a, s)" "pcbs s 16 = Some p" "state p = CLOSED" by auto
  have "tcp_reachable null_app empty_tcp" by (rule tcp_reachable.initially) (simp add: empty_tcp_def)
  then have "tcp_reachable null_app s" using s(1) by (blast intro: tcp_reachable.steps tcp_step.creates)
  then show ?thesis using s by blast
qed

theorem reachable_windows_witness:
  "\<exists>s p. tcp_reachable null_app s \<and> pcbs s 16 = Some p \<and> rcv_ann_wnd p \<le> rcv_wnd p \<and> rcv_wnd p \<le> TCP_WND"
  using reachable_new reachable_windows [OF _ null_app_keeps] by (metis tcp_state.distinct(1))

theorem reachable_segment_size_witness:
  "\<exists>s p. tcp_reachable null_app s \<and> pcbs s 16 = Some p \<and> mss p \<le> TCP_MSS"
  using reachable_new reachable_segment_size [OF _ null_app_keeps] by (metis tcp_state.distinct(1))

end
