(* ===== verification/Linked.thy ===== *)
theory Linked
  imports Pbuf
begin

section \<open>Linked lists in a store\<close>

text \<open>
  lwIP keeps control blocks, groups and unfinished datagrams in lists linked through a field \<^verbatim>\<open>next\<close>.  A store maps addresses to
  cells; \<^term>\<open>linked nxt m p xs\<close> says that the list that starts at \<^term>\<open>p\<close> visits exactly the cells \<^term>\<open>xs\<close>.  The
  walks that several components write out are defined here once, over the reading and the writing of the field; their
  laws are proved in the locale \<^verbatim>\<open>linked_list\<close>.
\<close>

fun linked :: "('a \<Rightarrow> addr) \<Rightarrow> (addr \<rightharpoonup> 'a) \<Rightarrow> addr \<Rightarrow> addr list \<Rightarrow> bool" where
  "linked nxt m p [] \<longleftrightarrow> p = NULL"
| "linked nxt m p (x # xs) \<longleftrightarrow> p = x \<and> x \<noteq> NULL \<and> (\<exists>n. m x = Some n \<and> linked nxt m (nxt n) xs)"

lemma linked_NULL [simp]: "linked nxt m NULL xs \<longleftrightarrow> xs = []"
  by (cases xs) auto

lemma linked_ConsI: "m x = Some n \<Longrightarrow> x \<noteq> NULL \<Longrightarrow> linked nxt m (nxt n) xs \<Longrightarrow> linked nxt m x (x # xs)"
  by simp

lemma linked_head: "linked nxt m p xs \<Longrightarrow> p \<noteq> NULL \<Longrightarrow> \<exists>n ys. xs = p # ys \<and> m p = Some n \<and> linked nxt m (nxt n) ys"
  by (cases xs) auto

lemma linked_hd: "linked nxt m p xs \<Longrightarrow> p = (case xs of [] \<Rightarrow> NULL | x # _ \<Rightarrow> x)"
  by (cases xs) auto

lemma linked_unique: "linked nxt m p xs \<Longrightarrow> linked nxt m p ys \<Longrightarrow> xs = ys"
  by (induction xs arbitrary: p ys) (auto dest: linked_head)

lemma linked_in_store: "linked nxt m p xs \<Longrightarrow> x \<in> set xs \<Longrightarrow> x \<noteq> NULL \<and> (\<exists>n. m x = Some n)"
  by (induction xs arbitrary: p) auto

lemma linked_from: "linked nxt m p (xs @ x # ys) \<Longrightarrow> linked nxt m x (x # ys)"
  by (induction xs arbitrary: p) auto

lemma linked_not_in_tail: "linked nxt m p (x # xs) \<Longrightarrow> x \<notin> set xs"
proof
  assume l: "linked nxt m p (x # xs)" and "x \<in> set xs"
  then obtain as bs where xs: "xs = as @ x # bs" by (meson split_list)
  have "linked nxt m x (x # bs)" using linked_from [of nxt m p "x # as" x bs] l unfolding xs by simp
  then have "bs = xs" using l linked_unique [of nxt m x "x # bs" "x # xs"] by auto
  then show False using arg_cong [OF xs, of length] by simp
qed

lemma linked_distinct: "linked nxt m p xs \<Longrightarrow> distinct xs"
proof (induction xs arbitrary: p)
  case (Cons x xs)
  then show ?case using linked_not_in_tail [OF Cons.prems] by auto
qed simp

lemma linked_cong: "(\<And>x. x \<in> set xs \<Longrightarrow> map_option nxt (m x) = map_option nxt (m' x)) \<Longrightarrow> linked nxt m p xs \<longleftrightarrow> linked nxt m' p xs"
proof (induction xs arbitrary: p)
  case (Cons x xs)
  from Cons.prems [of x] have "map_option nxt (m x) = map_option nxt (m' x)" by simp
  moreover have "linked nxt m q xs \<longleftrightarrow> linked nxt m' q xs" for q using Cons.prems by (intro Cons.IH) simp
  ultimately show ?case by (cases "m x"; cases "m' x") auto
qed simp

lemma linked_upd [simp]: "x \<notin> set xs \<Longrightarrow> linked nxt (m(x := n)) p xs \<longleftrightarrow> linked nxt m p xs"
  by (rule linked_cong) auto

lemma linked_same_next: "m x = Some n \<Longrightarrow> nxt n' = nxt n \<Longrightarrow> linked nxt (m(x \<mapsto> n')) p xs \<longleftrightarrow> linked nxt m p xs"
  by (rule linked_cong) auto

lemma linked_push: "linked nxt m p xs \<Longrightarrow> x \<notin> set xs \<Longrightarrow> x \<noteq> NULL \<Longrightarrow> nxt n = p \<Longrightarrow> linked nxt (m(x \<mapsto> n)) x (x # xs)"
  by simp

subsection \<open>Walks\<close>

text \<open>Is a cell on the list?\<close>

partial_function (option) on_list :: "('a \<Rightarrow> addr) \<Rightarrow> addr \<Rightarrow> addr \<Rightarrow> (addr \<rightharpoonup> 'a) \<Rightarrow> bool option" where [code]:
  "on_list nxt a p m =
     (if p = NULL then Some False
      else if p = a then Some True
      else do { c \<leftarrow> m p; on_list nxt a (nxt c) m })"

lemma on_list_linked: "linked nxt m p xs \<Longrightarrow> on_list nxt a p m = Some (a \<in> set xs)"
  by (induction xs arbitrary: p) (auto simp: on_list.simps)

text \<open>Unlinking a cell that is not the first: the loop goes on to the end of the list.\<close>

partial_function (option) unlink_next :: "('a \<Rightarrow> addr) \<Rightarrow> (addr \<Rightarrow> 'a \<Rightarrow> 'a) \<Rightarrow> addr \<Rightarrow> addr \<Rightarrow> (addr \<rightharpoonup> 'a) \<Rightarrow> (addr \<rightharpoonup> 'a) option" where [code]:
  "unlink_next nxt set_nxt a p m =
     (if p = NULL then Some m
      else do {
        c \<leftarrow> m p;
        m \<leftarrow> (if nxt c \<noteq> NULL \<and> nxt c = a then do { d \<leftarrow> m a; Some (m(p \<mapsto> set_nxt (nxt d) c)) } else Some m);
        c \<leftarrow> m p;
        unlink_next nxt set_nxt a (nxt c) m
      })"

text \<open>Taking the cell behind \<^verbatim>\<open>prev\<close> to the front of the list.\<close>

definition to_front :: "('a \<Rightarrow> addr) \<Rightarrow> (addr \<Rightarrow> 'a \<Rightarrow> 'a) \<Rightarrow> addr \<Rightarrow> addr \<Rightarrow> addr \<Rightarrow> (addr \<rightharpoonup> 'a) \<Rightarrow> (addr \<times> (addr \<rightharpoonup> 'a)) option" where
  "to_front nxt set_nxt a prev front m =
     (if prev = NULL then Some (front, m)
      else do {
        c \<leftarrow> m a;
        d \<leftarrow> m prev;
        let m = m(prev \<mapsto> set_nxt (nxt c) d);
        c \<leftarrow> m a;
        Some (a, m(a \<mapsto> set_nxt front c))
      })"

locale linked_list =
  fixes nxt :: "'a \<Rightarrow> addr" and set_nxt :: "addr \<Rightarrow> 'a \<Rightarrow> 'a"
  assumes nxt_set [simp]: "nxt (set_nxt a n) = a"
begin

lemma unlinked:
  assumes "linked nxt m p (as @ y # x # bs)" "m y = Some cy" "m x = Some cx"
  shows "linked nxt (m(y \<mapsto> set_nxt (nxt cx) cy)) p (as @ y # bs)"
  using assms
proof (induction as arbitrary: p)
  case Nil
  have d: "distinct (y # x # bs)" using linked_distinct [OF Nil.prems(1)] by simp
  have "p = y" "y \<noteq> NULL" "linked nxt m (nxt cx) bs" using Nil by auto
  moreover from this have "linked nxt (m(y \<mapsto> set_nxt (nxt cx) cy)) (nxt cx) bs" using d by simp
  ultimately show ?case unfolding append_Nil by (metis linked_ConsI fun_upd_same nxt_set)
next
  case (Cons z as)
  have z: "z \<noteq> y" using linked_distinct [OF Cons.prems(1)] by auto
  obtain c where c: "m z = Some c" "linked nxt m (nxt c) (as @ y # x # bs)" "p = z" "z \<noteq> NULL" using Cons.prems(1) by auto
  have "linked nxt (m(y \<mapsto> set_nxt (nxt cx) cy)) (nxt c) (as @ y # bs)" by (rule Cons.IH [OF c(2) Cons.prems(2,3)])
  moreover have "(m(y \<mapsto> set_nxt (nxt cx) cy)) z = Some c" using c(1) z by simp
  ultimately show ?case unfolding append_Cons c(3) using c(4) by (metis linked_ConsI)
qed

lemma to_front_linked:
  assumes "linked nxt m p (as @ y # x # bs)"
  shows "\<exists>m'. to_front nxt set_nxt x y p m = Some (x, m') \<and> linked nxt m' x (x # as @ y # bs)
    \<and> (\<forall>z. z \<notin> {x, y} \<longrightarrow> m' z = m z) \<and> (\<exists>c. m x = Some c \<and> m' x = Some (set_nxt p c)) \<and> (\<exists>c q. m y = Some c \<and> m' y = Some (set_nxt q c))"
proof -
  obtain cx cy where c: "m x = Some cx" "m y = Some cy" "y \<noteq> NULL" "x \<noteq> NULL"
    using linked_in_store [OF assms, of x] linked_in_store [OF assms, of y] by auto
  have d: "distinct (as @ y # x # bs)" by (rule linked_distinct [OF assms])
  have "linked nxt (m(y \<mapsto> set_nxt (nxt cx) cy)) p (as @ y # bs)" by (rule unlinked [OF assms c(2,1)])
  then have "linked nxt (m(y \<mapsto> set_nxt (nxt cx) cy, x \<mapsto> set_nxt p cx)) x (x # as @ y # bs)"
    using d c(4) by (intro linked_push) auto
  then show ?thesis using c d by (simp add: to_front_def) blast
qed

lemma unlink_next_absent:
  assumes "linked nxt m p xs" "a \<notin> set (List.tl xs)"
  shows "unlink_next nxt set_nxt a p m = Some m"
  using assms
proof (induction xs arbitrary: p)
  case (Cons x xs)
  then obtain c where c: "m x = Some c" "linked nxt m (nxt c) xs" "p = x" "x \<noteq> NULL" by auto
  have "\<not> (nxt c \<noteq> NULL \<and> nxt c = a)" using linked_head [OF c(2)] Cons.prems(2) by auto
  moreover have "a \<notin> set (List.tl xs)" using Cons.prems(2) by (cases xs) auto
  ultimately show ?case using Cons.IH [OF c(2)] c by (subst unlink_next.simps) auto
qed (simp add: unlink_next.simps)

lemma unlink_next_linked:
  assumes "linked nxt m p (as @ y # x # bs)"
  shows "\<exists>m'. unlink_next nxt set_nxt x p m = Some m' \<and> linked nxt m' p (as @ y # bs)
    \<and> (\<forall>z. z \<noteq> y \<longrightarrow> m' z = m z) \<and> (\<exists>c q. m y = Some c \<and> m' y = Some (set_nxt q c))"
  using assms
proof (induction as arbitrary: p)
  case Nil
  then obtain cy cx where c: "m y = Some cy" "nxt cy = x" "m x = Some cx" "x \<noteq> NULL" "p = y" "y \<noteq> NULL" "linked nxt m (nxt cx) bs" by auto
  have d: "distinct (y # x # bs)" using linked_distinct [OF Nil] by simp
  let ?m = "m(y \<mapsto> set_nxt (nxt cx) cy)"
  have l: "linked nxt ?m (nxt cx) bs" using c(7) d by simp
  have y: "?m y = Some (set_nxt (nxt cx) cy)" by simp
  have "x \<notin> set (List.tl bs)" using d by (cases bs) auto
  then have "unlink_next nxt set_nxt x (nxt cx) ?m = Some ?m" by (rule unlink_next_absent [OF l])
  then have "unlink_next nxt set_nxt x p m = Some ?m" using c d by (subst unlink_next.simps) simp
  moreover have "linked nxt ?m p (y # bs)" unfolding c(5) using y c(6) l by (metis linked_ConsI nxt_set)
  moreover have "\<forall>z. z \<noteq> y \<longrightarrow> ?m z = m z" by simp
  ultimately show ?case using c(1) y unfolding append_Nil by blast
next
  case (Cons z as)
  then obtain c where c: "m z = Some c" "linked nxt m (nxt c) (as @ y # x # bs)" "p = z" "z \<noteq> NULL" by auto
  have d: "distinct (z # as @ y # x # bs)" using linked_distinct [OF Cons.prems] by simp
  have "nxt c \<noteq> x" using linked_hd [OF c(2)] d by (cases as) auto
  moreover obtain m' where m': "unlink_next nxt set_nxt x (nxt c) m = Some m'" "linked nxt m' (nxt c) (as @ y # bs)"
    "\<forall>z. z \<noteq> y \<longrightarrow> m' z = m z" "\<exists>c q. m y = Some c \<and> m' y = Some (set_nxt q c)"
    using Cons.IH [OF c(2)] by blast
  ultimately show ?case using c d by (intro exI [of _ m']) (auto simp: unlink_next.simps [of nxt set_nxt x z])
qed

end

end
