(* ===== verification/Ip.thy ===== *)
theory Ip
  imports Tcp_Wire Linked
begin

section \<open>IP: headers, routing, output and fragmentation\<close>

text \<open>
  \<^verbatim>\<open>core/ipv4/ip.c\<close> and the sending half of \<^verbatim>\<open>core/ipv4/ip_frag.c\<close>.  Packets are lists of the payloads of
  their buffers, as in TCP; \<^verbatim>\<open>room\<close> is the number of bytes in front of the payload of the first buffer that
  \<^verbatim>\<open>pbuf_header\<close> can uncover.  An interface is an address in a store.  The network driver is outside the
  sources: a call of \<^verbatim>\<open>netif->output\<close> is recorded and its answer is given by a function in the state.  An
  allocation takes the next element of a list, which says whether it succeeds and what the fresh memory
  holds.  \<^const>\<open>None\<close> is an access outside a buffer, a \<^verbatim>\<open>NULL\<close> or freed pointer that is followed, or a loop
  that does not end.  Received packets lie in buffers of the kinds \<^verbatim>\<open>PBUF_RAM\<close> and \<^verbatim>\<open>PBUF_POOL\<close>, in which
  \<^verbatim>\<open>pbuf_header\<close> can uncover a header again.
\<close>

subsection \<open>Data\<close>

definition IP_DF :: u16 where "IP_DF = 0x4000"
definition IP_MF :: u16 where "IP_MF = 0x2000"
definition IP_OFFMASK :: u16 where "IP_OFFMASK = 0x1fff"
definition IP_PROTO_ICMP :: u8 where "IP_PROTO_ICMP = 1"
definition IP_PROTO_IGMP :: u8 where "IP_PROTO_IGMP = 2"
definition IP_PROTO_UDP :: u8 where "IP_PROTO_UDP = 17"
definition IP_FRAG_MAX_MTU :: nat where "IP_FRAG_MAX_MTU = 1500"
definition NETIF_FLAG_IGMP :: u8 where "NETIF_FLAG_IGMP = 0x40"

record ip_hdr =
  iph_vhl :: u8
  iph_tos :: u8
  iph_len :: u16
  iph_id :: u16
  iph_offset :: u16
  iph_ttl :: u8
  iph_proto :: u8
  iph_chksum :: u16
  iph_src :: u32
  iph_dest :: u32

definition IPH_V :: "ip_hdr \<Rightarrow> u8" where "IPH_V h = drop_bit 4 (iph_vhl h)"
definition IPH_HL :: "ip_hdr \<Rightarrow> nat" where "IPH_HL h = unat (iph_vhl h AND 0x0f)"

record frag =
  fr_start :: u16
  fr_end :: u16
  fr_p :: bufs
  fr_room :: nat

record ip_reassdata =
  rd_next :: addr
  rd_p :: "frag list"
  rd_iphdr :: ip_hdr
  rd_datagram_len :: u16
  rd_flags :: u8
  rd_timer :: u8

record raw_pcb =
  raw_next :: addr
  raw_local_ip :: u32
  raw_remote_ip :: u32
  raw_tos :: u8
  raw_ttl :: u8
  raw_protocol :: u8
  raw_recv_cb :: nat
  raw_recv_arg :: addr

record udp_pcb =
  udp_next :: addr
  udp_local_ip :: u32
  udp_remote_ip :: u32
  udp_tos :: u8
  udp_ttl :: u8
  udp_flags :: u8
  udp_local_port :: u16
  udp_remote_port :: u16
  udp_multicast_ip :: u32
  udp_recv_cb :: nat
  udp_recv_arg :: addr

record igmp_group =
  ig_next :: addr
  ig_interface :: addr
  ig_address :: u32
  ig_last_reporter :: u8
  ig_state :: u8
  ig_timer :: u16
  ig_use :: u8

record ip =
  netifs :: "addr \<rightharpoonup> netif"
  ip_netif_list :: "addr list"
  ip_netif_default :: addr
  ip_id :: u16
  ip_allocs :: "u8 list option list"
  frag_buf :: "u8 list"
  reassdatagrams :: addr
  reass_mem :: "addr \<rightharpoonup> ip_reassdata"
  reass_avail :: "addr list"
  ip_reass_pbufcount :: u16
  igmp_group_list :: addr
  igmp_mem :: "addr \<rightharpoonup> igmp_group"
  igmp_avail :: "addr list"
  igmp_ip_id :: u16
  raw_pcbs :: addr
  raw_mem :: "addr \<rightharpoonup> raw_pcb"
  raw_avail :: "addr list"
  udp_pcbs :: addr
  udp_mem :: "addr \<rightharpoonup> udp_pcb"
  udp_avail :: "addr list"
  mac_filtered :: "addr list"
  mac_filters :: "(addr \<times> u32 \<times> u8) list"
  netif_answer :: "addr \<Rightarrow> bufs \<Rightarrow> u32 \<Rightarrow> err"
  wire :: "(addr \<times> bufs \<times> u32) list"

subsection \<open>Headers in memory\<close>

text \<open>
  Length, identification and offset are kept in host byte order; the checksum and the addresses as the
  little endian host reads them.
\<close>

definition ip_hdr_bytes :: "ip_hdr \<Rightarrow> u8 list" where
  "ip_hdr_bytes h = [iph_vhl h, iph_tos h] @ be_bytes16 (iph_len h) @ be_bytes16 (iph_id h)
     @ be_bytes16 (iph_offset h) @ [iph_ttl h, iph_proto h]
     @ [ucast (iph_chksum h), ucast (drop_bit 8 (iph_chksum h))] @ le_bytes32 (iph_src h) @ le_bytes32 (iph_dest h)"

definition get_ip_hdr :: "u8 list \<Rightarrow> ip_hdr option" where
  "get_ip_hdr b = do {
     vhl \<leftarrow> elem b 0; ts \<leftarrow> elem b 1; len \<leftarrow> get16 b 2; i \<leftarrow> get16 b 4; ofs \<leftarrow> get16 b 6;
     life \<leftarrow> elem b 8; pr \<leftarrow> elem b 9; ck \<leftarrow> get16 b 10; src \<leftarrow> get_addr b 12; dest \<leftarrow> get_addr b 16;
     Some \<lparr>iph_vhl = vhl, iph_tos = ts, iph_len = len, iph_id = i, iph_offset = ofs, iph_ttl = life,
       iph_proto = pr, iph_chksum = htons ck, iph_src = src, iph_dest = dest\<rparr>
   }"

definition ip_hdr_of :: "bufs \<Rightarrow> ip_hdr option" where
  "ip_hdr_of p = (case p of [] \<Rightarrow> None | b # bs \<Rightarrow> get_ip_hdr b)"

text \<open>Storing a header over the first bytes of a packet.\<close>

definition put_ip_hdr :: "ip_hdr \<Rightarrow> bufs \<Rightarrow> bufs" where
  "put_ip_hdr h p = (case p of [] \<Rightarrow> [] | b # bs \<Rightarrow> (ip_hdr_bytes h @ drop 20 b) # bs)"

definition chksum :: "u8 list \<Rightarrow> u16" where
  "chksum bs = NOT (rfc1071 bs)"

definition set_ip_chksum :: "ip_hdr \<Rightarrow> ip_hdr" where
  "set_ip_chksum h = (let h = h\<lparr>iph_chksum := 0\<rparr> in h\<lparr>iph_chksum := chksum (ip_hdr_bytes h)\<rparr>)"

subsection \<open>Interfaces and routing\<close>

definition netif_output :: "addr \<Rightarrow> bufs \<Rightarrow> u32 \<Rightarrow> ip \<Rightarrow> err \<times> ip" where
  "netif_output n p dest s = (netif_answer s n p dest, s\<lparr>wire := wire s @ [(n, p, dest)]\<rparr>)"

definition ip_alloc :: "nat \<Rightarrow> ip \<Rightarrow> u8 list option \<times> ip" where
  "ip_alloc n s = (case ip_allocs s of
     [] \<Rightarrow> (None, s)
   | None # as \<Rightarrow> (None, s\<lparr>ip_allocs := as\<rparr>)
   | Some junk # as \<Rightarrow> (Some (take n (junk @ replicate n 0)), s\<lparr>ip_allocs := as\<rparr>))"

fun route_loop :: "u32 \<Rightarrow> addr list \<Rightarrow> ip \<Rightarrow> addr option" where
  "route_loop dest [] s =
     (if ip_netif_default s = NULL then Some NULL
      else do {
        d \<leftarrow> netifs s (ip_netif_default s);
        Some (if netif_is_up d then ip_netif_default s else NULL)
      })"
| "route_loop dest (a # as) s = do {
     n \<leftarrow> netifs s a;
     if netif_is_up n \<and> ip_addr_netcmp dest (netif_ip_addr n) (netif_netmask n) then Some a
     else route_loop dest as s
   }"

definition ip_route_netif :: "u32 \<Rightarrow> ip \<Rightarrow> addr option" where
  "ip_route_netif dest s = route_loop dest (ip_netif_list s) s"

subsection \<open>Fragmentation\<close>

text \<open>
  One turn of the loop of \<^verbatim>\<open>ip_frag\<close> fills the static buffer and hands it to the driver behind an empty
  buffer for the link header.  The arithmetic on \<^verbatim>\<open>mtu - IP_HLEN\<close> is that of \<^verbatim>\<open>int\<close>.  \<^const>\<open>None\<close> stands for two faults:
  the copy runs over the end of the buffer, before the empty buffer is allocated; or, after that, the driver is handed a length
  beyond the end of the buffer.
\<close>

definition frag_nfb :: "u16 \<Rightarrow> u16" where
  "frag_nfb mtu = word_of_int ((uint mtu - 20) sdiv 8)"

definition frag_last :: "u16 \<Rightarrow> u16 \<Rightarrow> bool" where
  "frag_last mtu left \<longleftrightarrow> uint left \<le> uint mtu - 20"

definition frag_cop :: "u16 \<Rightarrow> u16 \<Rightarrow> u16" where
  "frag_cop mtu left = (if frag_last mtu left then left else frag_nfb mtu * 8)"

definition frag_hdr :: "ip_hdr \<Rightarrow> u16 \<Rightarrow> u16 \<Rightarrow> u16 \<Rightarrow> u16 \<Rightarrow> ip_hdr" where
  "frag_hdr h mtu left ofo omf =
     (let tmp = omf OR (IP_OFFMASK AND ofo);
          tmp = (if frag_last mtu left then tmp else tmp OR IP_MF)
      in set_ip_chksum (h\<lparr>iph_offset := tmp, iph_len := frag_cop mtu left + IP_HLEN\<rparr>))"

partial_function (option) frag_loop :: "ip_hdr \<Rightarrow> u16 \<Rightarrow> u8 list \<Rightarrow> u16 \<Rightarrow> u16 \<Rightarrow> u16 \<Rightarrow> u16 \<Rightarrow> addr \<Rightarrow> u32 \<Rightarrow> ip \<Rightarrow> (err \<times> ip) option" where [code]:
  "frag_loop h mtu d left poff ofo omf n dest s =
     (if left = 0 then Some (ERR_OK, s)
      else do {
        let last = frag_last mtu left;
        let cop = frag_cop mtu left;
        let chunk = take (unat cop) (drop (unat poff) d);
        let len = (if last then unat left + 20 else unat mtu);
        if 20 + length chunk > IP_FRAG_MAX_MTU then None
        else do {
          let poff = poff + word_of_nat (length chunk);
          let s = s\<lparr>frag_buf := ip_hdr_bytes (frag_hdr h mtu left ofo omf) @ chunk @ drop (20 + length chunk) (frag_buf s)\<rparr>;
          case ip_alloc 0 s of
            (None, s) \<Rightarrow> Some (ERR_MEM, s)
          | (Some header, s) \<Rightarrow>
              if len > IP_FRAG_MAX_MTU then None
              else do {
                let (_, s) = netif_output n [header, take len (frag_buf s)] dest s;
                frag_loop h mtu d (left - cop) poff (ofo + frag_nfb mtu) omf n dest s
              }
        }
      })"

definition ip_frag :: "bufs \<Rightarrow> addr \<Rightarrow> u32 \<Rightarrow> ip \<Rightarrow> (err \<times> ip) option" where
  "ip_frag p n dest s = do {
     nif \<leftarrow> netifs s n;
     case ip_alloc 0 s of
       (None, s) \<Rightarrow> Some (ERR_MEM, s)
     | (Some _, s) \<Rightarrow> do {
         h \<leftarrow> ip_hdr_of p;
         frag_loop h (netif_mtu nif) (concat p) (tot_len p - IP_HLEN) IP_HLEN
           (iph_offset h AND IP_OFFMASK) (iph_offset h AND IP_MF) n dest s
       }
   }"

subsection \<open>Output\<close>

text \<open>The source address 0 stands for \<^verbatim>\<open>NULL\<close> and \<^verbatim>\<open>IP_ADDR_ANY\<close>, the destination \<^const>\<open>None\<close> for \<^verbatim>\<open>IP_HDRINCL\<close>.\<close>

definition build_ip_hdr :: "u16 \<Rightarrow> u16 \<Rightarrow> u32 \<Rightarrow> u32 \<Rightarrow> u8 \<Rightarrow> u8 \<Rightarrow> u8 \<Rightarrow> netif \<Rightarrow> ip_hdr" where
  "build_ip_hdr len i src dest life ts proto nif =
     set_ip_chksum \<lparr>iph_vhl = 0x45, iph_tos = ts, iph_len = len, iph_id = i, iph_offset = 0, iph_ttl = life,
       iph_proto = proto, iph_chksum = 0, iph_src = (if src = 0 then netif_ip_addr nif else src), iph_dest = dest\<rparr>"

definition ip_output_if :: "bufs \<Rightarrow> nat \<Rightarrow> u32 \<Rightarrow> u32 option \<Rightarrow> u8 \<Rightarrow> u8 \<Rightarrow> u8 \<Rightarrow> addr \<Rightarrow> ip \<Rightarrow> (err \<times> ip) option" where
  "ip_output_if p room src dest life ts proto n s = do {
     nif \<leftarrow> netifs s n;
     let send = (\<lambda>p dest s. if netif_mtu nif \<noteq> 0 \<and> tot_len p > netif_mtu nif then ip_frag p n dest s
                            else Some (netif_output n p dest s));
     case dest of
       Some dest \<Rightarrow>
         if room < 20 then Some (ERR_BUF, s)
         else (case p of
             [] \<Rightarrow> None
           | b # bs \<Rightarrow>
               let h = build_ip_hdr (tot_len p + IP_HLEN) (ip_id s) src dest life ts proto nif
               in send ((ip_hdr_bytes h @ b) # bs) dest (s\<lparr>ip_id := ip_id s + 1\<rparr>))
     | None \<Rightarrow> do { h \<leftarrow> ip_hdr_of p; send p (iph_dest h) s }
   }"

definition ip_output_pbuf :: "bufs \<Rightarrow> nat \<Rightarrow> u32 \<Rightarrow> u32 \<Rightarrow> u8 \<Rightarrow> u8 \<Rightarrow> u8 \<Rightarrow> ip \<Rightarrow> (err \<times> ip) option" where
  "ip_output_pbuf p room src dest life ts proto s = do {
     n \<leftarrow> ip_route_netif dest s;
     if n = NULL then Some (ERR_RTE, s)
     else ip_output_if p room src (Some dest) life ts proto n s
   }"

end
