(* ===== verification/Icmp.thy ===== *)
theory Icmp
  imports Ip
begin

section \<open>ICMP\<close>

text \<open>
  \<^verbatim>\<open>core/ipv4/icmp.c\<close>: the echo reply and the two error messages.
\<close>

definition ICMP_ER :: u8 where "ICMP_ER = 0"
definition ICMP_DUR :: u8 where "ICMP_DUR = 3"
definition ICMP_ECHO :: u8 where "ICMP_ECHO = 8"
definition ICMP_TE :: u8 where "ICMP_TE = 11"
definition ICMP_DUR_PROTO :: u8 where "ICMP_DUR_PROTO = 2"
definition ICMP_TE_TTL :: u8 where "ICMP_TE_TTL = 0"
definition ICMP_TE_FRAG :: u8 where "ICMP_TE_FRAG = 1"
definition ICMP_TTL :: u8 where "ICMP_TTL = 255"

text \<open>
  \<^verbatim>\<open>inet_chksum_pbuf\<close> on the buffers of a packet: each buffer is summed from an even position, and the sum is
  swapped in the end when the number of buffers of odd length is odd.
\<close>

definition chksum_pbuf :: "bufs \<Rightarrow> u16" where
  "chksum_pbuf p = (let acc = word_of_nat (ones_complement (sum_list (map le_sum p)))
     in NOT (if odd (length (filter (\<lambda>b. odd (length b)) p)) then htons acc else acc))"

text \<open>A 16-bit number of the little endian host in memory.\<close>

definition le_get16 :: "u8 list \<Rightarrow> nat \<Rightarrow> u16 option" where
  "le_get16 b i = map_option htons (get16 b i)"

definition le_put16 :: "nat \<Rightarrow> u16 \<Rightarrow> u8 list \<Rightarrow> u8 list" where
  "le_put16 i w b = b[i := ucast w, Suc i := ucast (drop_bit 8 w)]"

subsection \<open>Error messages\<close>

text \<open>
  The message holds the header of the packet and the 8 bytes behind it, read from its first buffer; the four
  bytes of the field \<^verbatim>\<open>unused\<close> are not written.
\<close>

definition icmp_message :: "u8 \<Rightarrow> u8 \<Rightarrow> u8 list \<Rightarrow> u8 list \<Rightarrow> u8 list" where
  "icmp_message ty code fresh orig =
     (let m = [ty, code, 0, 0] @ take 4 (drop 4 fresh) @ take 28 orig
      in le_put16 2 (chksum m) m)"

definition icmp_error :: "u8 \<Rightarrow> u8 \<Rightarrow> bufs \<Rightarrow> ip \<Rightarrow> ip option" where
  "icmp_error ty code p s = (case ip_alloc 36 s of
     (None, s) \<Rightarrow> Some s
   | (Some fresh, s) \<Rightarrow> do {
       h \<leftarrow> ip_hdr_of p;
       if length (hd p) < 28 then None
       else do {
         (_, s) \<leftarrow> ip_output_pbuf [icmp_message ty code fresh (hd p)] 34 0 (iph_src h) ICMP_TTL 0 IP_PROTO_ICMP s;
         Some s
       }
     })"

definition icmp_dest_unreach :: "bufs \<Rightarrow> u8 \<Rightarrow> ip \<Rightarrow> ip option" where
  "icmp_dest_unreach p t s = icmp_error ICMP_DUR t p s"

definition icmp_time_exceeded :: "bufs \<Rightarrow> u8 \<Rightarrow> ip \<Rightarrow> ip option" where
  "icmp_time_exceeded p t s = icmp_error ICMP_TE t p s"

subsection \<open>Echo\<close>

text \<open>
  The reply is written over the request, field by field in the order of the code: the addresses, the ICMP type
  and checksum, the time to live and the checksum of the first 20 bytes.
\<close>

definition echo_chksum :: "u16 \<Rightarrow> u16" where
  "echo_chksum c = (if c \<ge> htons (0xffff - 0x800) then c + (htons 0x800 + 1) else c + htons 0x800)"

definition echo_reply :: "nat \<Rightarrow> u8 list \<Rightarrow> u8 list option" where
  "echo_reply hlen b = do {
     h \<leftarrow> get_ip_hdr b;
     let b = ip_hdr_bytes (h\<lparr>iph_src := iph_dest h, iph_dest := iph_src h\<rparr>) @ drop 20 b;
     c \<leftarrow> le_get16 b (hlen + 2);
     let b = b[hlen := ICMP_ER];
     let b = le_put16 (hlen + 2) (echo_chksum c) b;
     h \<leftarrow> get_ip_hdr b;
     Some (ip_hdr_bytes (set_ip_chksum (h\<lparr>iph_ttl := ICMP_TTL\<rparr>)) @ drop 20 b)
   }"

text \<open>
  A request without room for the link and IP headers in front of it is copied to one new buffer; \<^verbatim>\<open>pbuf_copy\<close>
  follows \<^verbatim>\<open>NULL\<close> when the packet ends in an empty buffer.
\<close>

definition echo_packet :: "bufs \<Rightarrow> nat \<Rightarrow> nat \<Rightarrow> ip \<Rightarrow> (bufs option \<times> ip) option" where
  "echo_packet p hlen room s =
     (if room + hlen \<ge> 34 then Some (Some p, s)
      else case ip_alloc (length (concat p)) s of
        (None, s) \<Rightarrow> Some (None, s)
      | (Some _, s) \<Rightarrow> if last p = [] then None else Some (Some [concat p], s))"

definition icmp_input :: "bufs \<Rightarrow> nat \<Rightarrow> addr \<Rightarrow> ip \<Rightarrow> ip option" where
  "icmp_input p room inp s = (case p of
     [] \<Rightarrow> None
   | b # bs \<Rightarrow> do {
       nif \<leftarrow> netifs s inp;
       h \<leftarrow> get_ip_hdr b;
       let hlen = 4 * IPH_HL h;
       let q = drop hlen b # bs;
       if hlen > length b \<or> tot_len q < 4 then Some s
       else do {
         ty \<leftarrow> elem (drop hlen b) 0;
         if ty \<noteq> ICMP_ECHO then Some s
         else if ip_addr_isbroadcast (iph_dest h) nif \<or> ip_addr_ismulticast (iph_dest h) then Some s
         else if tot_len q < 8 then Some s
         else if chksum_pbuf q \<noteq> 0 then Some s
         else do {
           (r, s) \<leftarrow> echo_packet p hlen room s;
           case r of
             None \<Rightarrow> Some s
           | Some r \<Rightarrow> do {
               b \<leftarrow> echo_reply hlen (hd r);
               (_, s) \<leftarrow> ip_output_if (b # List.tl r) 0 (iph_dest h) None ICMP_TTL 0 IP_PROTO_ICMP inp s;
               Some s
             }
         }
       }
     })"

end
