(* ===== verification/Ip_Reass.thy ===== *)
theory Ip_Reass
  imports Icmp
begin

section \<open>IP: reassembly\<close>

text \<open>
  The receiving half of \<^verbatim>\<open>core/ipv4/ip_frag.c\<close>.  The datagrams in reassembly are linked through \<^verbatim>\<open>next\<close> in a store
  of entries taken from a pool; the fragments of a datagram, linked through \<^verbatim>\<open>next_pbuf\<close> in a structure written
  over their IP headers, are a list in the order of that chain.
\<close>

definition IP_REASS_FLAG_LASTFRAG :: u8 where "IP_REASS_FLAG_LASTFRAG = 1"
definition IP_REASS_MAX_PBUFS :: nat where "IP_REASS_MAX_PBUFS = 10"
definition IP_REASS_MAXAGE :: u8 where "IP_REASS_MAXAGE = 3"
definition MEMP_NUM_REASSDATA :: nat where "MEMP_NUM_REASSDATA = 5"

abbreviation pbuf_count :: "bufs \<Rightarrow> nat" where "pbuf_count p \<equiv> unat (clen (Some p))"

definition set_reass :: "addr \<Rightarrow> ip_reassdata \<Rightarrow> ip \<Rightarrow> ip" where
  "set_reass a d s = s\<lparr>reass_mem := (reass_mem s)(a \<mapsto> d)\<rparr>"

definition IP_ADDRESSES_AND_ID_MATCH :: "ip_hdr \<Rightarrow> ip_hdr \<Rightarrow> bool" where
  "IP_ADDRESSES_AND_ID_MATCH a b \<longleftrightarrow> iph_src a = iph_src b \<and> iph_dest a = iph_dest b \<and> iph_id a = iph_id b"

definition frag_offset :: "ip_hdr \<Rightarrow> u16" where
  "frag_offset h = (iph_offset h AND IP_OFFMASK) * 8"

definition frag_len :: "ip_hdr \<Rightarrow> u16" where
  "frag_len h = iph_len h - word_of_nat (IPH_HL h * 4)"

subsection \<open>Releasing a datagram\<close>

definition ip_reass_dequeue_datagram :: "addr \<Rightarrow> addr \<Rightarrow> ip \<Rightarrow> ip option" where
  "ip_reass_dequeue_datagram ipr prev s = do {
     d \<leftarrow> reass_mem s ipr;
     s \<leftarrow> (if reassdatagrams s = ipr then Some (s\<lparr>reassdatagrams := rd_next d\<rparr>)
           else do { e \<leftarrow> reass_mem s prev; Some (set_reass prev (e\<lparr>rd_next := rd_next d\<rparr>) s) });
     Some (s\<lparr>reass_mem := (reass_mem s)(ipr := None), reass_avail := ipr # reass_avail s\<rparr>)
   }"

text \<open>When the first fragment has arrived, its sender is told with the header of the datagram in front of it.\<close>

definition ip_reass_free_complete_datagram :: "addr \<Rightarrow> addr \<Rightarrow> ip \<Rightarrow> (nat \<times> ip) option" where
  "ip_reass_free_complete_datagram ipr prev s = do {
     d \<leftarrow> reass_mem s ipr;
     case rd_p d of
       [] \<Rightarrow> None
     | f # fs \<Rightarrow> do {
         s \<leftarrow> (if fr_start f = 0
           then icmp_time_exceeded (put_ip_hdr (rd_iphdr d) (fr_p f)) ICMP_TE_FRAG (set_reass ipr (d\<lparr>rd_p := fs\<rparr>) s)
           else Some s);
         let freed = (\<Sum>g\<leftarrow>f # fs. pbuf_count (fr_p g));
         s \<leftarrow> ip_reass_dequeue_datagram ipr prev s;
         Some (freed, s\<lparr>ip_reass_pbufcount := ip_reass_pbufcount s - word_of_nat freed\<rparr>)
       }
   }"

partial_function (option) reass_tmr_loop :: "addr \<Rightarrow> addr \<Rightarrow> ip \<Rightarrow> ip option" where [code]:
  "reass_tmr_loop r prev s =
     (if r = NULL then Some s
      else do {
        d \<leftarrow> reass_mem s r;
        if rd_timer d > 0 then reass_tmr_loop (rd_next d) r (set_reass r (d\<lparr>rd_timer := rd_timer d - 1\<rparr>) s)
        else do {
          (_, s) \<leftarrow> ip_reass_free_complete_datagram r prev s;
          reass_tmr_loop (rd_next d) prev s
        }
      })"

definition ip_reass_tmr :: "ip \<Rightarrow> ip option" where
  "ip_reass_tmr s = reass_tmr_loop (reassdatagrams s) NULL s"

text \<open>
  The search for the oldest other datagram: \<^verbatim>\<open>prev\<close> ends as the last entry that has a successor, whichever entry
  is the oldest.
\<close>

partial_function (option) oldest_loop :: "ip_hdr \<Rightarrow> addr \<Rightarrow> addr \<Rightarrow> addr \<Rightarrow> nat \<Rightarrow> ip \<Rightarrow> (addr \<times> addr \<times> nat) option" where [code]:
  "oldest_loop h r victim prev others s =
     (if r = NULL then Some (victim, prev, others)
      else do {
        d \<leftarrow> reass_mem s r;
        let prev' = (if rd_next d \<noteq> NULL then r else prev);
        if IP_ADDRESSES_AND_ID_MATCH (rd_iphdr d) h then oldest_loop h (rd_next d) victim prev' others s
        else if victim = NULL then oldest_loop h (rd_next d) r prev' (others + 1) s
        else do {
          e \<leftarrow> reass_mem s victim;
          oldest_loop h (rd_next d) (if rd_timer d \<le> rd_timer e then r else victim) prev' (others + 1) s
        }
      })"

partial_function (option) remove_oldest_loop :: "ip_hdr \<Rightarrow> nat \<Rightarrow> nat \<Rightarrow> ip \<Rightarrow> (nat \<times> ip) option" where [code]:
  "remove_oldest_loop h needed freed s = do {
     (victim, prev, others) \<leftarrow> oldest_loop h (reassdatagrams s) NULL NULL 0 s;
     (now, s) \<leftarrow> (if victim \<noteq> NULL then ip_reass_free_complete_datagram victim prev s else Some (0, s));
     if freed + now < needed \<and> others > 1 then remove_oldest_loop h needed (freed + now) s
     else Some (freed + now, s)
   }"

definition ip_reass_remove_oldest_datagram :: "ip_hdr \<Rightarrow> nat \<Rightarrow> ip \<Rightarrow> (nat \<times> ip) option" where
  "ip_reass_remove_oldest_datagram h needed s = remove_oldest_loop h needed 0 s"

subsection \<open>Adding a fragment\<close>

definition reass_insert :: "ip_hdr \<Rightarrow> addr \<Rightarrow> addr list \<Rightarrow> ip \<Rightarrow> ip" where
  "reass_insert h a as s = set_reass a \<lparr>rd_next = reassdatagrams s, rd_p = [], rd_iphdr = h, rd_datagram_len = 0,
     rd_flags = 0, rd_timer = IP_REASS_MAXAGE\<rparr> (s\<lparr>reass_avail := as, reassdatagrams := a\<rparr>)"

definition ip_reass_enqueue_new_datagram :: "ip_hdr \<Rightarrow> nat \<Rightarrow> ip \<Rightarrow> (addr \<times> ip) option" where
  "ip_reass_enqueue_new_datagram h cl s = (case reass_avail s of
     a # as \<Rightarrow> Some (a, reass_insert h a as s)
   | [] \<Rightarrow> do {
       (freed, s) \<leftarrow> ip_reass_remove_oldest_datagram h cl s;
       Some (case reass_avail s of
           [] \<Rightarrow> (NULL, s)
         | a # as \<Rightarrow> if freed \<ge> cl then (a, reass_insert h a as s) else (NULL, s))
     })"

text \<open>
  The place of a fragment in the chain: \<^const>\<open>None\<close> when it is thrown away, otherwise whether the chain has no hole
  as far as it has been looked at, the fragments before and those behind the new one.
\<close>

fun chain_frag :: "frag \<Rightarrow> frag option \<Rightarrow> bool \<Rightarrow> frag list \<Rightarrow> (bool \<times> frag list \<times> frag list) option" where
  "chain_frag new prev valid [] =
     Some (valid \<and> (case prev of None \<Rightarrow> True | Some pr \<Rightarrow> fr_end pr = fr_start new), [], [])"
| "chain_frag new prev valid (t # ts) =
     (if fr_start new < fr_start t
      then case prev of
          Some pr \<Rightarrow> if fr_start new < fr_end pr \<or> fr_end new > fr_start t then None else Some (valid, [], t # ts)
        | None \<Rightarrow> Some (valid, [], t # ts)
      else if fr_start new = fr_start t then None
      else if fr_start new < fr_end t then None
      else do {
        let valid = (valid \<and> (case prev of None \<Rightarrow> True | Some pr \<Rightarrow> fr_end pr = fr_start t));
        (v, pre, post) \<leftarrow> chain_frag new (Some t) valid ts;
        Some (v, t # pre, post)
      })"

fun no_holes :: "frag \<Rightarrow> frag list \<Rightarrow> bool" where
  "no_holes f [] = True"
| "no_holes f (g # gs) = (fr_end f = fr_start g \<and> no_holes g gs)"

definition ip_reass_chain_frag_into_datagram_and_validate :: "addr \<Rightarrow> bufs \<Rightarrow> nat \<Rightarrow> ip \<Rightarrow> (bool \<times> ip) option" where
  "ip_reass_chain_frag_into_datagram_and_validate ipr p room s = do {
     h \<leftarrow> ip_hdr_of p;
     d \<leftarrow> reass_mem s ipr;
     let new = \<lparr>fr_start = frag_offset h, fr_end = frag_offset h + frag_len h, fr_p = p, fr_room = room\<rparr>;
     Some (case chain_frag new None True (rd_p d) of
         None \<Rightarrow> (False, s\<lparr>ip_reass_pbufcount := ip_reass_pbufcount s - ucast (clen (Some p))\<rparr>)
       | Some (valid, pre, post) \<Rightarrow>
           let fs = pre @ new # post
           in (has (rd_flags d) IP_REASS_FLAG_LASTFRAG \<and> valid \<and> fr_start (hd fs) = 0 \<and> no_holes new post,
               set_reass ipr (d\<lparr>rd_p := fs\<rparr>) s))
   }"

subsection \<open>Reassembly\<close>

partial_function (option) find_reass :: "ip_hdr \<Rightarrow> addr \<Rightarrow> addr \<Rightarrow> ip \<Rightarrow> (addr \<times> addr) option" where [code]:
  "find_reass h ipr prev s =
     (if ipr = NULL then Some (NULL, prev)
      else do {
        d \<leftarrow> reass_mem s ipr;
        if IP_ADDRESSES_AND_ID_MATCH (rd_iphdr d) h then Some (ipr, prev)
        else find_reass h (rd_next d) ipr s
      })"

text \<open>\<^verbatim>\<open>pbuf_header(r, -IP_HLEN)\<close> on a later fragment; it leaves a fragment with a shorter first buffer alone.\<close>

definition hide_ip_hdr :: "bufs \<Rightarrow> bufs" where
  "hide_ip_hdr p = (case p of [] \<Rightarrow> [] | b # bs \<Rightarrow> if length b < 20 then p else drop 20 b # bs)"

definition join_frags :: "ip_hdr \<Rightarrow> frag list \<Rightarrow> bufs" where
  "join_frags h fs = put_ip_hdr h (fr_p (hd fs)) @ concat (map (hide_ip_hdr \<circ> fr_p) (List.tl fs))"

definition finish_datagram :: "addr \<Rightarrow> addr \<Rightarrow> ip \<Rightarrow> ((bufs \<times> nat) option \<times> ip) option" where
  "finish_datagram ipr prev s = do {
     d \<leftarrow> reass_mem s ipr;
     let d = d\<lparr>rd_datagram_len := rd_datagram_len d + IP_HLEN\<rparr>;
     let h = set_ip_chksum ((rd_iphdr d)\<lparr>iph_len := rd_datagram_len d, iph_offset := 0\<rparr>);
     let p = join_frags h (rd_p d);
     s \<leftarrow> ip_reass_dequeue_datagram ipr prev s;
     Some (Some (p, fr_room (hd (rd_p d))), s\<lparr>ip_reass_pbufcount := ip_reass_pbufcount s - ucast (clen (Some p))\<rparr>)
   }"

definition add_fragment :: "addr \<Rightarrow> addr \<Rightarrow> ip_hdr \<Rightarrow> bufs \<Rightarrow> nat \<Rightarrow> ip \<Rightarrow> ((bufs \<times> nat) option \<times> ip) option" where
  "add_fragment ipr prev h p room s = do {
     let s = s\<lparr>ip_reass_pbufcount := ip_reass_pbufcount s + ucast (clen (Some p))\<rparr>;
     d \<leftarrow> reass_mem s ipr;
     let s = (if iph_offset h AND IP_MF = 0
       then set_reass ipr (d\<lparr>rd_flags := rd_flags d OR IP_REASS_FLAG_LASTFRAG, rd_datagram_len := frag_offset h + frag_len h\<rparr>) s
       else s);
     (complete, s) \<leftarrow> ip_reass_chain_frag_into_datagram_and_validate ipr p room s;
     if complete then finish_datagram ipr prev s else Some (None, s)
   }"

definition ip_reass :: "bufs \<Rightarrow> nat \<Rightarrow> ip \<Rightarrow> ((bufs \<times> nat) option \<times> ip) option" where
  "ip_reass p room s = do {
     h \<leftarrow> ip_hdr_of p;
     if IPH_HL h * 4 \<noteq> 20 then Some (None, s)
     else do {
       let cl = pbuf_count p;
       (full, s) \<leftarrow> (if unat (ip_reass_pbufcount s) + cl > IP_REASS_MAX_PBUFS
         then do {
           (freed, s) \<leftarrow> ip_reass_remove_oldest_datagram h cl s;
           Some (freed = 0 \<or> unat (ip_reass_pbufcount s) + cl > IP_REASS_MAX_PBUFS, s)
         }
         else Some (False, s));
       if full then Some (None, s)
       else do {
         (ipr, prev) \<leftarrow> find_reass h (reassdatagrams s) NULL s;
         if ipr = NULL
         then do {
           (ipr, s) \<leftarrow> ip_reass_enqueue_new_datagram h cl s;
           if ipr = NULL then Some (None, s) else add_fragment ipr prev h p room s
         }
         else do {
           d \<leftarrow> reass_mem s ipr;
           let s = (if iph_offset h AND IP_OFFMASK = 0 \<and> iph_offset (rd_iphdr d) AND IP_OFFMASK \<noteq> 0
             then set_reass ipr (d\<lparr>rd_iphdr := h\<rparr>) s else s);
           add_fragment ipr prev h p room s
         }
       }
     }
   }"

end
