(* ===== verification/Raw.thy ===== *)
theory Raw
  imports Ip
begin

section \<open>Raw IP\<close>

text \<open>
  \<^verbatim>\<open>core/raw.c\<close>: control blocks that see every datagram of a protocol before the transport protocols do.  The
  blocks are linked through \<^verbatim>\<open>next\<close> in the store; the callback of the application is a parameter, which may
  change the state and answers whether it has eaten the packet.
\<close>

type_synonym raw_app = "nat \<Rightarrow> addr \<Rightarrow> addr \<Rightarrow> bufs \<Rightarrow> u32 \<Rightarrow> ip \<Rightarrow> u8 \<times> ip"

definition RAW_TTL :: u8 where "RAW_TTL = 255"

definition set_raw :: "addr \<Rightarrow> raw_pcb \<Rightarrow> ip \<Rightarrow> ip" where
  "set_raw a c s = s\<lparr>raw_mem := (raw_mem s)(a \<mapsto> c)\<rparr>"

abbreviation set_raw_next :: "addr \<Rightarrow> raw_pcb \<Rightarrow> raw_pcb" where "set_raw_next a c \<equiv> c\<lparr>raw_next := a\<rparr>"

interpretation raw_list: linked_list raw_next set_raw_next
  by unfold_locales simp

partial_function (option) raw_input_loop :: "raw_app \<Rightarrow> bufs \<Rightarrow> ip_hdr \<Rightarrow> addr \<Rightarrow> addr \<Rightarrow> ip \<Rightarrow> (bool \<times> ip) option" where [code]:
  "raw_input_loop app p h pcb prev s =
     (if pcb = NULL then Some (False, s)
      else do {
        c \<leftarrow> raw_mem s pcb;
        let (eaten, s) = (if raw_protocol c = iph_proto h \<and> raw_recv_cb c \<noteq> 0
          then app (raw_recv_cb c) (raw_recv_arg c) pcb p (iph_src h) s else (0, s));
        if eaten \<noteq> 0 then do {
          (front, m) \<leftarrow> to_front raw_next set_raw_next pcb prev (raw_pcbs s) (raw_mem s);
          c \<leftarrow> m pcb;
          Some (True, s\<lparr>raw_pcbs := front, raw_mem := m\<rparr>)
        }
        else do {
          c \<leftarrow> raw_mem s pcb;
          raw_input_loop app p h (raw_next c) pcb s
        }
      })"

definition raw_input :: "raw_app \<Rightarrow> bufs \<Rightarrow> ip \<Rightarrow> (bool \<times> ip) option" where
  "raw_input app p s = do {
     h \<leftarrow> ip_hdr_of p;
     raw_input_loop app p h (raw_pcbs s) NULL s
   }"

definition raw_bind :: "addr \<Rightarrow> u32 \<Rightarrow> ip \<Rightarrow> (err \<times> ip) option" where
  "raw_bind pcb ipaddr s = do { c \<leftarrow> raw_mem s pcb; Some (ERR_OK, set_raw pcb (c\<lparr>raw_local_ip := ipaddr\<rparr>) s) }"

definition raw_connect :: "addr \<Rightarrow> u32 \<Rightarrow> ip \<Rightarrow> (err \<times> ip) option" where
  "raw_connect pcb ipaddr s = do { c \<leftarrow> raw_mem s pcb; Some (ERR_OK, set_raw pcb (c\<lparr>raw_remote_ip := ipaddr\<rparr>) s) }"

definition raw_recv :: "addr \<Rightarrow> nat \<Rightarrow> addr \<Rightarrow> ip \<Rightarrow> ip option" where
  "raw_recv pcb cb arg s = do {
     c \<leftarrow> raw_mem s pcb;
     Some (set_raw pcb (c\<lparr>raw_recv_cb := cb, raw_recv_arg := arg\<rparr>) s)
   }"

definition raw_sendto :: "addr \<Rightarrow> bufs \<Rightarrow> nat \<Rightarrow> u32 \<Rightarrow> ip \<Rightarrow> (err \<times> ip) option" where
  "raw_sendto pcb p room ipaddr s = do {
     c \<leftarrow> raw_mem s pcb;
     let (q, s) = (if room < 20
       then (case ip_alloc 0 s of (None, s) \<Rightarrow> (None, s) | (Some b, s) \<Rightarrow> (Some (b # p, 34), s))
       else (Some (p, room), s));
     case q of
       None \<Rightarrow> Some (ERR_MEM, s)
     | Some (q, room) \<Rightarrow> do {
         n \<leftarrow> ip_route_netif ipaddr s;
         if n = NULL then Some (ERR_RTE, s)
         else do {
           nif \<leftarrow> netifs s n;
           let src = (if raw_local_ip c = 0 then netif_ip_addr nif else raw_local_ip c);
           ip_output_if q room src (Some ipaddr) (raw_ttl c) (raw_tos c) (raw_protocol c) n s
         }
       }
   }"

definition raw_send :: "addr \<Rightarrow> bufs \<Rightarrow> nat \<Rightarrow> ip \<Rightarrow> (err \<times> ip) option" where
  "raw_send pcb p room s = do { c \<leftarrow> raw_mem s pcb; raw_sendto pcb p room (raw_remote_ip c) s }"

definition raw_remove :: "addr \<Rightarrow> ip \<Rightarrow> ip option" where
  "raw_remove pcb s = do {
     _ \<leftarrow> raw_mem s pcb;
     s \<leftarrow> (if raw_pcbs s = pcb
       then do { c \<leftarrow> raw_mem s pcb; Some (s\<lparr>raw_pcbs := raw_next c\<rparr>) }
       else do { m \<leftarrow> unlink_next raw_next set_raw_next pcb (raw_pcbs s) (raw_mem s); Some (s\<lparr>raw_mem := m\<rparr>) });
     Some (s\<lparr>raw_mem := (raw_mem s)(pcb := None), raw_avail := pcb # raw_avail s\<rparr>)
   }"

definition raw_new :: "u8 \<Rightarrow> ip \<Rightarrow> addr \<times> ip" where
  "raw_new proto s = (case raw_avail s of
     [] \<Rightarrow> (NULL, s)
   | a # as \<Rightarrow> (a, set_raw a \<lparr>raw_next = raw_pcbs s, raw_local_ip = 0, raw_remote_ip = 0, raw_tos = 0,
       raw_ttl = RAW_TTL, raw_protocol = proto, raw_recv_cb = 0, raw_recv_arg = NULL\<rparr>
       (s\<lparr>raw_avail := as, raw_pcbs := a\<rparr>)))"

end
