(* ===== verification/Igmp.thy ===== *)
theory Igmp
  imports Icmp
begin

section \<open>IGMP\<close>

text \<open>
  \<^verbatim>\<open>core/ipv4/igmp.c\<close>: membership in multicast groups by RFC 2236.  The groups are linked through \<^verbatim>\<open>next\<close> in a store; the
  interfaces that have a function \<^verbatim>\<open>igmp_mac_filter\<close> are listed in the state, and its calls are recorded.
\<close>

definition IGMP_TTL :: u8 where "IGMP_TTL = 1"
definition IGMP_MINLEN :: nat where "IGMP_MINLEN = 8"
definition ROUTER_ALERTLEN :: nat where "ROUTER_ALERTLEN = 4"
definition ROUTER_ALERT :: u16 where "ROUTER_ALERT = 0x9404"
definition IGMP_MEMB_QUERY :: u8 where "IGMP_MEMB_QUERY = 0x11"
definition IGMP_V2_MEMB_REPORT :: u8 where "IGMP_V2_MEMB_REPORT = 0x16"
definition IGMP_LEAVE_GROUP :: u8 where "IGMP_LEAVE_GROUP = 0x17"
definition IGMP_V1_DELAYING_MEMBER_TMR :: u8 where "IGMP_V1_DELAYING_MEMBER_TMR = 10"
definition IGMP_JOIN_DELAYING_MEMBER_TMR :: u8 where "IGMP_JOIN_DELAYING_MEMBER_TMR = 5"
definition IGMP_DEL_MAC_FILTER :: u8 where "IGMP_DEL_MAC_FILTER = 0"
definition IGMP_ADD_MAC_FILTER :: u8 where "IGMP_ADD_MAC_FILTER = 1"
definition IGMP_GROUP_NON_MEMBER :: u8 where "IGMP_GROUP_NON_MEMBER = 0"
definition IGMP_GROUP_DELAYING_MEMBER :: u8 where "IGMP_GROUP_DELAYING_MEMBER = 1"
definition IGMP_GROUP_IDLE_MEMBER :: u8 where "IGMP_GROUP_IDLE_MEMBER = 2"

text \<open>The two addresses \<^verbatim>\<open>igmp_init\<close> stores.\<close>

definition allsystems :: u32 where "allsystems = htonl 0xe0000001"
definition allrouters :: u32 where "allrouters = htonl 0xe0000002"

abbreviation set_ig_next :: "addr \<Rightarrow> igmp_group \<Rightarrow> igmp_group" where "set_ig_next a g \<equiv> g\<lparr>ig_next := a\<rparr>"

interpretation igmp_list: linked_list ig_next set_ig_next
  by unfold_locales simp

definition set_group :: "addr \<Rightarrow> igmp_group \<Rightarrow> ip \<Rightarrow> ip" where
  "set_group a g s = s\<lparr>igmp_mem := (igmp_mem s)(a \<mapsto> g)\<rparr>"

definition igmp_mac_filter :: "addr \<Rightarrow> u32 \<Rightarrow> u8 \<Rightarrow> ip \<Rightarrow> ip" where
  "igmp_mac_filter n a action s = (if n \<in> set (mac_filtered s) then s\<lparr>mac_filters := mac_filters s @ [(n, a, action)]\<rparr> else s)"

subsection \<open>Sending\<close>

text \<open>
  The header of a packet with the router alert option; its only caller passes a destination, so the branch for
  \<^verbatim>\<open>IP_HDRINCL\<close> is left out.
\<close>

definition router_alert :: "u8 list" where
  "router_alert = be_bytes16 ROUTER_ALERT @ [0, 0]"

definition igmp_ip_hdr :: "u16 \<Rightarrow> u16 \<Rightarrow> u32 \<Rightarrow> u32 \<Rightarrow> u8 \<Rightarrow> u8 \<Rightarrow> netif \<Rightarrow> ip_hdr" where
  "igmp_ip_hdr len i src dest life proto nif =
     (let h = \<lparr>iph_vhl = 0x46, iph_tos = 0, iph_len = len, iph_id = i, iph_offset = 0, iph_ttl = life,
        iph_proto = proto, iph_chksum = 0, iph_src = (if src = 0 then netif_ip_addr nif else src), iph_dest = dest\<rparr>
      in h\<lparr>iph_chksum := chksum (ip_hdr_bytes h @ router_alert)\<rparr>)"

definition igmp_ip_output_if :: "bufs \<Rightarrow> nat \<Rightarrow> u32 \<Rightarrow> u32 \<Rightarrow> u8 \<Rightarrow> u8 \<Rightarrow> addr \<Rightarrow> ip \<Rightarrow> (err \<times> ip) option" where
  "igmp_ip_output_if p room src dest life proto n s =
     (if room < ROUTER_ALERTLEN then Some (ERR_BUF, s)
      else if room - ROUTER_ALERTLEN < 20 then Some (ERR_BUF, s)
      else case p of
        [] \<Rightarrow> None
      | b # bs \<Rightarrow> do {
          nif \<leftarrow> netifs s n;
          let h = igmp_ip_hdr (tot_len p + word_of_nat (20 + ROUTER_ALERTLEN)) (igmp_ip_id s) src dest life proto nif;
          Some (netif_output n ((ip_hdr_bytes h @ router_alert @ b) # bs) dest (s\<lparr>igmp_ip_id := igmp_ip_id s + 1\<rparr>))
        })"

definition igmp_msg :: "u8 \<Rightarrow> u32 \<Rightarrow> u8 list" where
  "igmp_msg ty a = (let m = [ty, 0, 0, 0] @ le_bytes32 a in le_put16 2 (chksum m) m)"

definition igmp_send :: "addr \<Rightarrow> u8 \<Rightarrow> ip \<Rightarrow> ip option" where
  "igmp_send g ty s = (case ip_alloc IGMP_MINLEN s of
     (None, s) \<Rightarrow> Some s
   | (Some _, s) \<Rightarrow> do {
       c \<leftarrow> igmp_mem s g;
       nif \<leftarrow> netifs s (ig_interface c);
       if ty = IGMP_V2_MEMB_REPORT
       then do {
         (_, s) \<leftarrow> igmp_ip_output_if [igmp_msg ty (ig_address c)] 54 (netif_ip_addr nif) (ig_address c) IGMP_TTL IP_PROTO_IGMP
           (ig_interface c) (set_group g (c\<lparr>ig_last_reporter := 1\<rparr>) s);
         Some s
       }
       else if ty = IGMP_LEAVE_GROUP
       then do {
         (_, s) \<leftarrow> igmp_ip_output_if [igmp_msg ty (ig_address c)] 54 (netif_ip_addr nif) allrouters IGMP_TTL IP_PROTO_IGMP
           (ig_interface c) s;
         Some s
       }
       else Some s
     })"

subsection \<open>Timers\<close>

definition igmp_start_timer :: "u8 \<Rightarrow> igmp_group \<Rightarrow> igmp_group" where
  "igmp_start_timer max_time g = g\<lparr>ig_timer := ucast max_time\<rparr>"

definition igmp_stop_timer :: "igmp_group \<Rightarrow> igmp_group" where
  "igmp_stop_timer g = g\<lparr>ig_timer := 0\<rparr>"

definition delaying_member :: "u8 \<Rightarrow> igmp_group \<Rightarrow> igmp_group" where
  "delaying_member maxresp g =
     (if ig_state g = IGMP_GROUP_IDLE_MEMBER \<or> ig_state g = IGMP_GROUP_DELAYING_MEMBER \<and> ucast maxresp > ig_timer g
      then (igmp_start_timer (maxresp div 2) g)\<lparr>ig_state := IGMP_GROUP_DELAYING_MEMBER\<rparr>
      else g)"

definition igmp_delaying_member :: "addr \<Rightarrow> u8 \<Rightarrow> ip \<Rightarrow> ip option" where
  "igmp_delaying_member g maxresp s = do { c \<leftarrow> igmp_mem s g; Some (set_group g (delaying_member maxresp c) s) }"

definition igmp_timeout :: "addr \<Rightarrow> ip \<Rightarrow> ip option" where
  "igmp_timeout g s = do {
     c \<leftarrow> igmp_mem s g;
     if ig_state c = IGMP_GROUP_DELAYING_MEMBER then igmp_send g IGMP_V2_MEMB_REPORT s else Some s
   }"

partial_function (option) igmp_tmr_loop :: "addr \<Rightarrow> ip \<Rightarrow> ip option" where [code]:
  "igmp_tmr_loop g s =
     (if g = NULL then Some s
      else do {
        c \<leftarrow> igmp_mem s g;
        s \<leftarrow> (if ig_timer c \<noteq> 0
          then do {
            let s = set_group g (c\<lparr>ig_timer := ig_timer c - 1\<rparr>) s;
            if ig_timer c - 1 = 0 then igmp_timeout g s else Some s
          }
          else Some s);
        c \<leftarrow> igmp_mem s g;
        igmp_tmr_loop (ig_next c) s
      })"

definition igmp_tmr :: "ip \<Rightarrow> ip option" where
  "igmp_tmr s = igmp_tmr_loop (igmp_group_list s) s"

subsection \<open>Groups\<close>

partial_function (option) lookfor_loop :: "addr \<Rightarrow> u32 \<Rightarrow> addr \<Rightarrow> (addr \<rightharpoonup> igmp_group) \<Rightarrow> addr option" where [code]:
  "lookfor_loop ifp a g m =
     (if g = NULL then Some NULL
      else do { c \<leftarrow> m g; if ig_interface c = ifp \<and> ig_address c = a then Some g else lookfor_loop ifp a (ig_next c) m })"

definition igmp_lookfor_group :: "addr \<Rightarrow> u32 \<Rightarrow> ip \<Rightarrow> addr option" where
  "igmp_lookfor_group ifp a s = lookfor_loop ifp a (igmp_group_list s) (igmp_mem s)"

definition igmp_lookup_group :: "addr \<Rightarrow> u32 \<Rightarrow> ip \<Rightarrow> (addr \<times> ip) option" where
  "igmp_lookup_group ifp a s = do {
     g \<leftarrow> igmp_lookfor_group ifp a s;
     Some (if g \<noteq> NULL then (g, s)
       else case igmp_avail s of
         [] \<Rightarrow> (NULL, s)
       | g # gs \<Rightarrow> (g, set_group g \<lparr>ig_next = igmp_group_list s, ig_interface = ifp, ig_address = a, ig_last_reporter = 0,
           ig_state = IGMP_GROUP_NON_MEMBER, ig_timer = 0, ig_use = 0\<rparr> (s\<lparr>igmp_avail := gs, igmp_group_list := g\<rparr>)))
   }"

partial_function (option) remove_group_loop :: "addr \<Rightarrow> addr \<Rightarrow> (addr \<rightharpoonup> igmp_group) \<Rightarrow> (err \<times> (addr \<rightharpoonup> igmp_group)) option" where [code]:
  "remove_group_loop g t m =
     (if t = NULL then Some (ERR_ARG, m)
      else do {
        c \<leftarrow> m t;
        if ig_next c = g then do { d \<leftarrow> m g; Some (ERR_OK, m(t \<mapsto> set_ig_next (ig_next d) c)) }
        else remove_group_loop g (ig_next c) m
      })"

definition igmp_remove_group :: "addr \<Rightarrow> ip \<Rightarrow> (err \<times> ip) option" where
  "igmp_remove_group g s = do {
     (e, s) \<leftarrow> (if igmp_group_list s = g
       then do { c \<leftarrow> igmp_mem s g; Some (ERR_OK, s\<lparr>igmp_group_list := ig_next c\<rparr>) }
       else do { (e, m) \<leftarrow> remove_group_loop g (igmp_group_list s) (igmp_mem s); Some (e, s\<lparr>igmp_mem := m\<rparr>) });
     Some (e, s\<lparr>igmp_mem := (igmp_mem s)(g := None), igmp_avail := g # igmp_avail s\<rparr>)
   }"

subsection \<open>Interfaces\<close>

definition igmp_start :: "addr \<Rightarrow> ip \<Rightarrow> (err \<times> ip) option" where
  "igmp_start n s = do {
     (g, s) \<leftarrow> igmp_lookup_group n allsystems s;
     if g \<noteq> NULL
     then do {
       c \<leftarrow> igmp_mem s g;
       let s = set_group g (c\<lparr>ig_state := IGMP_GROUP_IDLE_MEMBER, ig_use := ig_use c + 1\<rparr>) s;
       Some (ERR_OK, igmp_mac_filter n allsystems IGMP_ADD_MAC_FILTER s)
     }
     else Some (ERR_MEM, s)
   }"

partial_function (option) igmp_stop_loop :: "addr \<Rightarrow> addr \<Rightarrow> addr \<Rightarrow> ip \<Rightarrow> ip option" where [code]:
  "igmp_stop_loop n g prev s =
     (if g = NULL then Some s
      else do {
        c \<leftarrow> igmp_mem s g;
        if ig_interface c = n
        then do {
          let s = (if g = igmp_group_list s then s\<lparr>igmp_group_list := ig_next c\<rparr> else s);
          s \<leftarrow> (if prev \<noteq> NULL then do { d \<leftarrow> igmp_mem s prev; Some (set_group prev (set_ig_next (ig_next c) d) s) } else Some s);
          let s = igmp_mac_filter n (ig_address c) IGMP_DEL_MAC_FILTER s;
          igmp_stop_loop n (ig_next c) prev (s\<lparr>igmp_mem := (igmp_mem s)(g := None), igmp_avail := g # igmp_avail s\<rparr>)
        }
        else igmp_stop_loop n (ig_next c) g s
      })"

definition igmp_stop :: "addr \<Rightarrow> ip \<Rightarrow> (err \<times> ip) option" where
  "igmp_stop n s = map_option (Pair ERR_OK) (igmp_stop_loop n (igmp_group_list s) NULL s)"

text \<open>Delaying the members of an interface, except those of one address (0 when there is no exception).\<close>

partial_function (option) delay_groups :: "addr \<Rightarrow> u32 \<Rightarrow> u8 \<Rightarrow> addr \<Rightarrow> ip \<Rightarrow> ip option" where [code]:
  "delay_groups n except maxresp g s =
     (if g = NULL then Some s
      else do {
        c \<leftarrow> igmp_mem s g;
        s \<leftarrow> (if ig_interface c = n \<and> (except = 0 \<or> ig_address c \<noteq> except) then igmp_delaying_member g maxresp s else Some s);
        c \<leftarrow> igmp_mem s g;
        delay_groups n except maxresp (ig_next c) s
      })"

definition igmp_report_groups :: "addr \<Rightarrow> ip \<Rightarrow> ip option" where
  "igmp_report_groups n s = delay_groups n 0 IGMP_JOIN_DELAYING_MEMBER_TMR (igmp_group_list s) s"

subsection \<open>Input\<close>

definition igmp_query :: "addr \<Rightarrow> u8 \<Rightarrow> u32 \<Rightarrow> addr \<Rightarrow> u32 \<Rightarrow> ip \<Rightarrow> ip option" where
  "igmp_query g maxresp gaddr inp dest s =
     (if dest = allsystems \<and> gaddr = 0
      then delay_groups inp allsystems (if maxresp = 0 then IGMP_V1_DELAYING_MEMBER_TMR else maxresp) (igmp_group_list s) s
      else do {
        c \<leftarrow> igmp_mem s g;
        if ig_address c \<noteq> 0
        then do {
          g \<leftarrow> (if dest = allsystems then igmp_lookfor_group inp gaddr s else Some g);
          if g \<noteq> NULL then igmp_delaying_member g maxresp s else Some s
        }
        else Some s
      })"

definition igmp_report_heard :: "igmp_group \<Rightarrow> igmp_group" where
  "igmp_report_heard g = (if ig_state g = IGMP_GROUP_DELAYING_MEMBER
     then g\<lparr>ig_timer := 0, ig_state := IGMP_GROUP_IDLE_MEMBER, ig_last_reporter := 0\<rparr> else g)"

definition igmp_input :: "bufs \<Rightarrow> addr \<Rightarrow> u32 \<Rightarrow> ip \<Rightarrow> ip option" where
  "igmp_input p inp dest s = do {
     h \<leftarrow> ip_hdr_of p;
     let b = drop (4 * IPH_HL h) (hd p);
     if 4 * IPH_HL h > length (hd p) \<or> length b < IGMP_MINLEN then Some s
     else if chksum b \<noteq> 0 then Some s
     else do {
       g \<leftarrow> igmp_lookfor_group inp dest s;
       if g = NULL then Some s
       else do {
         ty \<leftarrow> elem b 0; maxresp \<leftarrow> elem b 1; gaddr \<leftarrow> get_addr b 4;
         if ty = IGMP_MEMB_QUERY then igmp_query g maxresp gaddr inp dest s
         else if ty = IGMP_V2_MEMB_REPORT then do { c \<leftarrow> igmp_mem s g; Some (set_group g (igmp_report_heard c) s) }
         else Some s
       }
     }
   }"

subsection \<open>Joining and leaving\<close>

definition join_group :: "addr \<Rightarrow> u32 \<Rightarrow> addr \<Rightarrow> ip \<Rightarrow> ip option" where
  "join_group n a g s = do {
     c \<leftarrow> igmp_mem s g;
     s \<leftarrow> (if ig_state c \<noteq> IGMP_GROUP_NON_MEMBER then Some s
       else do {
         let s = (if ig_use c = 0 then igmp_mac_filter n a IGMP_ADD_MAC_FILTER s else s);
         s \<leftarrow> igmp_send g IGMP_V2_MEMB_REPORT s;
         c \<leftarrow> igmp_mem s g;
         Some (set_group g ((igmp_start_timer IGMP_JOIN_DELAYING_MEMBER_TMR c)\<lparr>ig_state := IGMP_GROUP_DELAYING_MEMBER\<rparr>) s)
       });
     c \<leftarrow> igmp_mem s g;
     Some (set_group g (c\<lparr>ig_use := ig_use c + 1\<rparr>) s)
   }"

fun joingroup_loop :: "u32 \<Rightarrow> u32 \<Rightarrow> addr list \<Rightarrow> err \<Rightarrow> ip \<Rightarrow> (err \<times> ip) option" where
  "joingroup_loop ifaddr a [] e s = Some (e, s)"
| "joingroup_loop ifaddr a (n # ns) e s = do {
     nif \<leftarrow> netifs s n;
     if has (netif_flags nif) NETIF_FLAG_IGMP \<and> (ifaddr = 0 \<or> netif_ip_addr nif = ifaddr)
     then do {
       (g, s) \<leftarrow> igmp_lookup_group n a s;
       if g \<noteq> NULL then do { s \<leftarrow> join_group n a g s; joingroup_loop ifaddr a ns ERR_OK s }
       else Some (ERR_MEM, s)
     }
     else joingroup_loop ifaddr a ns e s
   }"

definition igmp_joingroup :: "u32 \<Rightarrow> u32 \<Rightarrow> ip \<Rightarrow> (err \<times> ip) option" where
  "igmp_joingroup ifaddr a s =
     (if \<not> ip_addr_ismulticast a then Some (ERR_VAL, s)
      else if a = allsystems then Some (ERR_VAL, s)
      else joingroup_loop ifaddr a (ip_netif_list s) ERR_VAL s)"

definition leave_group :: "addr \<Rightarrow> u32 \<Rightarrow> addr \<Rightarrow> ip \<Rightarrow> ip option" where
  "leave_group n a g s = do {
     c \<leftarrow> igmp_mem s g;
     if ig_use c \<le> 1
     then do {
       s \<leftarrow> (if ig_last_reporter c \<noteq> 0 then igmp_send g IGMP_LEAVE_GROUP s else Some s);
       (_, s) \<leftarrow> igmp_remove_group g (igmp_mac_filter n a IGMP_DEL_MAC_FILTER s);
       Some s
     }
     else Some (set_group g (c\<lparr>ig_use := ig_use c - 1\<rparr>) s)
   }"

fun leavegroup_loop :: "u32 \<Rightarrow> u32 \<Rightarrow> addr list \<Rightarrow> err \<Rightarrow> ip \<Rightarrow> (err \<times> ip) option" where
  "leavegroup_loop ifaddr a [] e s = Some (e, s)"
| "leavegroup_loop ifaddr a (n # ns) e s = do {
     nif \<leftarrow> netifs s n;
     if has (netif_flags nif) NETIF_FLAG_IGMP \<and> (ifaddr = 0 \<or> netif_ip_addr nif = ifaddr)
     then do {
       g \<leftarrow> igmp_lookfor_group n a s;
       if g \<noteq> NULL then do { s \<leftarrow> leave_group n a g s; leavegroup_loop ifaddr a ns ERR_OK s }
       else leavegroup_loop ifaddr a ns e s
     }
     else leavegroup_loop ifaddr a ns e s
   }"

definition igmp_leavegroup :: "u32 \<Rightarrow> u32 \<Rightarrow> ip \<Rightarrow> (err \<times> ip) option" where
  "igmp_leavegroup ifaddr a s =
     (if \<not> ip_addr_ismulticast a then Some (ERR_VAL, s)
      else if a = allsystems then Some (ERR_VAL, s)
      else leavegroup_loop ifaddr a (ip_netif_list s) ERR_VAL s)"

end
