(* ===== verification/Udp.thy ===== *)
theory Udp
  imports Icmp
begin

section \<open>UDP\<close>

text \<open>
  \<^verbatim>\<open>core/udp.c\<close>: control blocks, binding, sending and the delivery of datagrams.  The blocks are linked through
  \<^verbatim>\<open>next\<close> in the store; the callback of the application is a parameter, which may change the state.  UDP-Lite and
  DHCP are not built.
\<close>

type_synonym udp_app = "nat \<Rightarrow> addr \<Rightarrow> addr \<Rightarrow> bufs \<Rightarrow> u32 \<Rightarrow> u16 \<Rightarrow> ip \<Rightarrow> ip"

definition UDP_HLEN :: nat where "UDP_HLEN = 8"
definition UDP_TTL :: u8 where "UDP_TTL = 255"
definition UDP_FLAGS_NOCHKSUM :: u8 where "UDP_FLAGS_NOCHKSUM = 0x01"
definition UDP_FLAGS_CONNECTED :: u8 where "UDP_FLAGS_CONNECTED = 0x04"
definition UDP_LOCAL_PORT_RANGE_START :: u16 where "UDP_LOCAL_PORT_RANGE_START = 4096"
definition UDP_LOCAL_PORT_RANGE_END :: u16 where "UDP_LOCAL_PORT_RANGE_END = 0x7fff"
definition ICMP_DUR_PORT :: u8 where "ICMP_DUR_PORT = 3"

text \<open>Ports and length in host byte order; the checksum as the little endian host reads it.\<close>

record udp_hdr =
  uh_src :: u16
  uh_dest :: u16
  uh_len :: u16
  uh_chksum :: u16

definition udp_hdr_bytes :: "udp_hdr \<Rightarrow> u8 list" where
  "udp_hdr_bytes h = be_bytes16 (uh_src h) @ be_bytes16 (uh_dest h) @ be_bytes16 (uh_len h)
     @ [ucast (uh_chksum h), ucast (drop_bit 8 (uh_chksum h))]"

text \<open>\<^verbatim>\<open>inet_chksum_pseudo\<close> on the buffers of a packet.\<close>

definition udp_chksum :: "u32 \<Rightarrow> u32 \<Rightarrow> bufs \<Rightarrow> u16" where
  "udp_chksum src dest p = NOT (rfc1071 (pseudo_header src dest IP_PROTO_UDP (tot_len p) @ concat p))"

abbreviation set_udp_next :: "addr \<Rightarrow> udp_pcb \<Rightarrow> udp_pcb" where "set_udp_next a c \<equiv> c\<lparr>udp_next := a\<rparr>"

interpretation udp_list: linked_list udp_next set_udp_next
  by unfold_locales simp

definition set_udp :: "addr \<Rightarrow> udp_pcb \<Rightarrow> ip \<Rightarrow> ip" where
  "set_udp a c s = s\<lparr>udp_mem := (udp_mem s)(a \<mapsto> c)\<rparr>"

subsection \<open>Control blocks\<close>

definition udp_new :: "ip \<Rightarrow> addr \<times> ip" where
  "udp_new s = (case udp_avail s of
     [] \<Rightarrow> (NULL, s)
   | a # as \<Rightarrow> (a, set_udp a \<lparr>udp_next = NULL, udp_local_ip = 0, udp_remote_ip = 0, udp_tos = 0, udp_ttl = UDP_TTL, udp_flags = 0,
       udp_local_port = 0, udp_remote_port = 0, udp_multicast_ip = 0, udp_recv_cb = 0, udp_recv_arg = NULL\<rparr> (s\<lparr>udp_avail := as\<rparr>)))"

text \<open>The search for a free port starts over at the head of the list whenever a port is taken.\<close>

partial_function (option) udp_port_loop :: "u16 \<Rightarrow> addr \<Rightarrow> addr \<Rightarrow> (addr \<rightharpoonup> udp_pcb) \<Rightarrow> (u16 \<times> addr) option" where [code]:
  "udp_port_loop port ipcb front m =
     (if ipcb = NULL \<or> port = UDP_LOCAL_PORT_RANGE_END then Some (port, ipcb)
      else do {
        c \<leftarrow> m ipcb;
        if udp_local_port c = port then udp_port_loop (port + 1) front front m
        else udp_port_loop port (udp_next c) front m
      })"

definition udp_bind :: "addr \<Rightarrow> u32 \<Rightarrow> u16 \<Rightarrow> ip \<Rightarrow> (err \<times> ip) option" where
  "udp_bind pcb ipaddr port s = do {
     rebind \<leftarrow> on_list udp_next pcb (udp_pcbs s) (udp_mem s);
     c \<leftarrow> udp_mem s pcb;
     let s = set_udp pcb (c\<lparr>udp_local_ip := ipaddr\<rparr>) s;
     (port, ipcb) \<leftarrow> (if port = 0 then udp_port_loop UDP_LOCAL_PORT_RANGE_START (udp_pcbs s) (udp_pcbs s) (udp_mem s)
       else Some (port, NULL));
     if ipcb \<noteq> NULL then Some (ERR_USE, s)
     else do {
       c \<leftarrow> udp_mem s pcb;
       let c = c\<lparr>udp_local_port := port\<rparr>;
       Some (ERR_OK, if rebind then set_udp pcb c s
         else (set_udp pcb (set_udp_next (udp_pcbs s) c) s)\<lparr>udp_pcbs := pcb\<rparr>)
     }
   }"

definition udp_connect :: "addr \<Rightarrow> u32 \<Rightarrow> u16 \<Rightarrow> ip \<Rightarrow> (err \<times> ip) option" where
  "udp_connect pcb ipaddr port s = do {
     c \<leftarrow> udp_mem s pcb;
     (e, s) \<leftarrow> (if udp_local_port c = 0 then udp_bind pcb (udp_local_ip c) 0 s else Some (ERR_OK, s));
     if e \<noteq> ERR_OK then Some (e, s)
     else do {
       c \<leftarrow> udp_mem s pcb;
       let c = c\<lparr>udp_remote_ip := ipaddr, udp_remote_port := port, udp_flags := udp_flags c OR UDP_FLAGS_CONNECTED\<rparr>;
       let s = set_udp pcb c s;
       listed \<leftarrow> on_list udp_next pcb (udp_pcbs s) (udp_mem s);
       Some (ERR_OK, if listed then s else (set_udp pcb (set_udp_next (udp_pcbs s) c) s)\<lparr>udp_pcbs := pcb\<rparr>)
     }
   }"

definition udp_disconnect :: "addr \<Rightarrow> ip \<Rightarrow> ip option" where
  "udp_disconnect pcb s = do {
     c \<leftarrow> udp_mem s pcb;
     Some (set_udp pcb (c\<lparr>udp_remote_ip := 0, udp_remote_port := 0, udp_flags := udp_flags c AND NOT UDP_FLAGS_CONNECTED\<rparr>) s)
   }"

definition udp_recv :: "addr \<Rightarrow> nat \<Rightarrow> addr \<Rightarrow> ip \<Rightarrow> ip option" where
  "udp_recv pcb cb arg s = do { c \<leftarrow> udp_mem s pcb; Some (set_udp pcb (c\<lparr>udp_recv_cb := cb, udp_recv_arg := arg\<rparr>) s) }"

definition udp_remove :: "addr \<Rightarrow> ip \<Rightarrow> ip option" where
  "udp_remove pcb s = do {
     _ \<leftarrow> udp_mem s pcb;
     s \<leftarrow> (if udp_pcbs s = pcb
       then do { c \<leftarrow> udp_mem s pcb; Some (s\<lparr>udp_pcbs := udp_next c\<rparr>) }
       else do { m \<leftarrow> unlink_next udp_next set_udp_next pcb (udp_pcbs s) (udp_mem s); Some (s\<lparr>udp_mem := m\<rparr>) });
     Some (s\<lparr>udp_mem := (udp_mem s)(pcb := None), udp_avail := pcb # udp_avail s\<rparr>)
   }"

subsection \<open>Input\<close>

definition udp_local_match :: "ip_hdr \<Rightarrow> u16 \<Rightarrow> netif \<Rightarrow> udp_pcb \<Rightarrow> bool" where
  "udp_local_match h dest nif c \<longleftrightarrow> udp_local_port c = dest
     \<and> (udp_local_ip c = 0 \<or> udp_local_ip c = iph_dest h \<or> ip_addr_ismulticast (iph_dest h) \<or> ip_addr_isbroadcast (iph_dest h) nif)"

definition udp_remote_match :: "ip_hdr \<Rightarrow> u16 \<Rightarrow> udp_pcb \<Rightarrow> bool" where
  "udp_remote_match h src c \<longleftrightarrow> udp_remote_port c = src \<and> (udp_remote_ip c = 0 \<or> udp_remote_ip c = iph_src h)"

text \<open>The first block that matches both ends, its predecessor, and the first unconnected block that matches the local end.\<close>

partial_function (option) udp_find :: "ip_hdr \<Rightarrow> u16 \<Rightarrow> u16 \<Rightarrow> netif \<Rightarrow> addr \<Rightarrow> addr \<Rightarrow> addr \<Rightarrow> (addr \<rightharpoonup> udp_pcb) \<Rightarrow> (addr \<times> addr \<times> addr) option" where [code]:
  "udp_find h src dest nif pcb prev uncon m =
     (if pcb = NULL then Some (NULL, prev, uncon)
      else do {
        c \<leftarrow> m pcb;
        let here = udp_local_match h dest nif c;
        let uncon = (if here \<and> uncon = NULL \<and> \<not> has (udp_flags c) UDP_FLAGS_CONNECTED then pcb else uncon);
        if here \<and> udp_remote_match h src c then Some (pcb, prev, uncon)
        else udp_find h src dest nif (udp_next c) pcb uncon m
      })"

definition udp_demux :: "ip_hdr \<Rightarrow> u16 \<Rightarrow> u16 \<Rightarrow> netif \<Rightarrow> ip \<Rightarrow> (addr \<times> ip) option" where
  "udp_demux h src dest nif s = do {
     (pcb, prev, uncon) \<leftarrow> udp_find h src dest nif (udp_pcbs s) NULL NULL (udp_mem s);
     if pcb = NULL then Some (uncon, s)
     else do {
       (front, m) \<leftarrow> to_front udp_next set_udp_next pcb prev (udp_pcbs s) (udp_mem s);
       Some (pcb, s\<lparr>udp_pcbs := front, udp_mem := m\<rparr>)
     }
   }"

definition udp_input :: "udp_app \<Rightarrow> bufs \<Rightarrow> addr \<Rightarrow> ip \<Rightarrow> ip option" where
  "udp_input app p inp s = do {
     h \<leftarrow> ip_hdr_of p;
     nif \<leftarrow> netifs s inp;
     let hlen = IPH_HL h * 4;
     if unat (tot_len p) < hlen + UDP_HLEN \<or> hlen > length (hd p) then Some s
     else do {
       let b = drop hlen (hd p);
       let q = b # List.tl p;
       src \<leftarrow> get16 b 0;
       dest \<leftarrow> get16 b 2;
       (pcb, s) \<leftarrow> udp_demux h src dest nif s;
       if pcb \<noteq> NULL \<or> netif_ip_addr nif = iph_dest h
       then do {
         ck \<leftarrow> get16 b 6;
         if ck \<noteq> 0 \<and> udp_chksum (iph_src h) (iph_dest h) q \<noteq> 0 then Some s
         else if UDP_HLEN > length b then Some s
         else if pcb \<noteq> NULL
         then do {
           c \<leftarrow> udp_mem s pcb;
           Some (if udp_recv_cb c \<noteq> 0
             then app (udp_recv_cb c) (udp_recv_arg c) pcb (drop UDP_HLEN b # List.tl p) (iph_src h) src s else s)
         }
         else if \<not> ip_addr_isbroadcast (iph_dest h) nif \<and> \<not> ip_addr_ismulticast (iph_dest h)
         then icmp_dest_unreach p ICMP_DUR_PORT s
         else Some s
       }
       else Some s
     }
   }"

subsection \<open>Output\<close>

definition udp_header :: "u16 \<Rightarrow> u16 \<Rightarrow> u32 \<Rightarrow> u32 \<Rightarrow> bool \<Rightarrow> bufs \<Rightarrow> udp_hdr" where
  "udp_header src dest src_ip dst_ip nochksum p =
     (let h = \<lparr>uh_src = src, uh_dest = dest, uh_len = tot_len p + word_of_nat UDP_HLEN, uh_chksum = 0\<rparr>;
          ck = udp_chksum src_ip dst_ip (udp_hdr_bytes h # p)
      in if nochksum then h else h\<lparr>uh_chksum := (if ck = 0 then 0xffff else ck)\<rparr>)"

text \<open>A packet without room for the header in its first buffer gets a new one in front.\<close>

definition udp_sendto_if :: "addr \<Rightarrow> bufs \<Rightarrow> nat \<Rightarrow> u32 \<Rightarrow> u16 \<Rightarrow> addr \<Rightarrow> ip \<Rightarrow> (err \<times> ip) option" where
  "udp_sendto_if pcb p room dst_ip dst_port n s = do {
     c \<leftarrow> udp_mem s pcb;
     (e, s) \<leftarrow> (if udp_local_port c = 0 then udp_bind pcb (udp_local_ip c) 0 s else Some (ERR_OK, s));
     if e \<noteq> ERR_OK then Some (e, s)
     else if p = [] then None
     else do {
       let (q, s) = (if room < UDP_HLEN
         then (case ip_alloc UDP_HLEN s of (None, s) \<Rightarrow> (None, s) | (Some _, s) \<Rightarrow> (Some (\<lambda>h. h # p, 34), s))
         else (Some (\<lambda>h. (h @ hd p) # List.tl p, room - UDP_HLEN), s));
       case q of
         None \<Rightarrow> Some (ERR_MEM, s)
       | Some (q, room) \<Rightarrow> do {
           c \<leftarrow> udp_mem s pcb;
           nif \<leftarrow> netifs s n;
           if udp_local_ip c \<noteq> 0 \<and> udp_local_ip c \<noteq> netif_ip_addr nif then Some (ERR_VAL, s)
           else do {
             let src_ip = (if udp_local_ip c = 0 then netif_ip_addr nif else udp_local_ip c);
             let h = udp_header (udp_local_port c) dst_port src_ip dst_ip (has (udp_flags c) UDP_FLAGS_NOCHKSUM) p;
             ip_output_if (q (udp_hdr_bytes h)) room src_ip (Some dst_ip) (udp_ttl c) (udp_tos c) IP_PROTO_UDP n s
           }
         }
     }
   }"

definition udp_sendto :: "addr \<Rightarrow> bufs \<Rightarrow> nat \<Rightarrow> u32 \<Rightarrow> u16 \<Rightarrow> ip \<Rightarrow> (err \<times> ip) option" where
  "udp_sendto pcb p room dst_ip dst_port s = do {
     c \<leftarrow> udp_mem s pcb;
     n \<leftarrow> ip_route_netif (if ip_addr_ismulticast dst_ip then udp_multicast_ip c else dst_ip) s;
     if n = NULL then Some (ERR_RTE, s) else udp_sendto_if pcb p room dst_ip dst_port n s
   }"

definition udp_send :: "addr \<Rightarrow> bufs \<Rightarrow> nat \<Rightarrow> ip \<Rightarrow> (err \<times> ip) option" where
  "udp_send pcb p room s = do { c \<leftarrow> udp_mem s pcb; udp_sendto pcb p room (udp_remote_ip c) (udp_remote_port c) s }"

end
