(* ===== verification/Ip_In.thy ===== *)
theory Ip_In
  imports Ip_Reass Raw Igmp Udp
begin

section \<open>IP: input and forwarding\<close>

text \<open>
  \<^verbatim>\<open>ip_input\<close> and \<^verbatim>\<open>ip_forward\<close> of \<^verbatim>\<open>core/ipv4/ip.c\<close>.  UDP, ICMP, IGMP and raw IP are called; a packet for TCP, whose state is
  kept apart, is handed back to the caller of the model.
\<close>

datatype ip_up = Consumed | To_tcp bufs

text \<open>The callbacks of the application.\<close>

record ip_app =
  on_raw :: raw_app
  on_udp :: udp_app

subsection \<open>Forwarding\<close>

definition forward_chksum :: "u16 \<Rightarrow> u16" where
  "forward_chksum c = (if c \<ge> htons (0xffff - 0x100) then c + htons 0x100 + 1 else c + htons 0x100)"

definition ip_forward :: "bufs \<Rightarrow> addr \<Rightarrow> ip \<Rightarrow> (addr \<times> ip) option" where
  "ip_forward p inp s = do {
     h \<leftarrow> ip_hdr_of p;
     n \<leftarrow> ip_route_netif (iph_dest h) s;
     if n = NULL \<or> n = inp then Some (NULL, s)
     else do {
       let h = h\<lparr>iph_ttl := iph_ttl h - 1\<rparr>;
       if iph_ttl h = 0
       then do {
         s \<leftarrow> (if iph_proto h \<noteq> IP_PROTO_ICMP then icmp_time_exceeded (put_ip_hdr h p) ICMP_TE_TTL s else Some s);
         Some (NULL, s)
       }
       else do {
         let h = h\<lparr>iph_chksum := forward_chksum (iph_chksum h)\<rparr>;
         let (_, s) = netif_output n (put_ip_hdr h p) (iph_dest h) s;
         Some (n, s)
       }
     }
   }"

subsection \<open>Input\<close>

definition accepts :: "u32 \<Rightarrow> netif \<Rightarrow> bool" where
  "accepts dest n \<longleftrightarrow> netif_is_up n \<and> netif_ip_addr n \<noteq> 0 \<and> (dest = netif_ip_addr n \<or> ip_addr_isbroadcast dest n)"

fun match_loop :: "u32 \<Rightarrow> addr \<Rightarrow> addr list \<Rightarrow> ip \<Rightarrow> addr option" where
  "match_loop dest inp [] s = Some NULL"
| "match_loop dest inp (a # as) s =
     (if a = inp then match_loop dest inp as s
      else do { n \<leftarrow> netifs s a; if accepts dest n then Some a else match_loop dest inp as s })"

definition match_netif :: "u32 \<Rightarrow> addr \<Rightarrow> ip \<Rightarrow> addr option" where
  "match_netif dest inp s = do {
     n \<leftarrow> netifs s inp;
     if ip_addr_ismulticast dest
     then if has (netif_flags n) NETIF_FLAG_IGMP
       then do { g \<leftarrow> igmp_lookfor_group inp dest s; Some (if g \<noteq> NULL then inp else NULL) }
       else Some NULL
     else if accepts dest n then Some inp
     else match_loop dest inp (ip_netif_list s) s
   }"

definition ip_dispatch :: "ip_app \<Rightarrow> bufs \<Rightarrow> nat \<Rightarrow> addr \<Rightarrow> ip \<Rightarrow> (ip_up \<times> ip) option" where
  "ip_dispatch app p room inp s = do {
     h \<leftarrow> ip_hdr_of p;
     (eaten, s) \<leftarrow> raw_input (on_raw app) p s;
     if eaten then Some (Consumed, s)
     else if iph_proto h = IP_PROTO_UDP then do { s \<leftarrow> udp_input (on_udp app) p inp s; Some (Consumed, s) }
     else if iph_proto h = IP_PROTO_TCP then Some (To_tcp p, s)
     else if iph_proto h = IP_PROTO_ICMP then do { s \<leftarrow> icmp_input p room inp s; Some (Consumed, s) }
     else if iph_proto h = IP_PROTO_IGMP then do { s \<leftarrow> igmp_input p inp (iph_dest h) s; Some (Consumed, s) }
     else do {
       n \<leftarrow> netifs s inp;
       s \<leftarrow> (if \<not> ip_addr_isbroadcast (iph_dest h) n \<and> \<not> ip_addr_ismulticast (iph_dest h)
         then icmp_dest_unreach p ICMP_DUR_PROTO s else Some s);
       Some (Consumed, s)
     }
   }"

text \<open>
  A fragment goes through reassembly, anything else, and a completed datagram, to the protocols.  A packet shorter than a header
  is not rejected by the code; reading its header is an access outside the buffer.
\<close>

definition ip_input :: "ip_app \<Rightarrow> bufs \<Rightarrow> nat \<Rightarrow> addr \<Rightarrow> ip \<Rightarrow> (ip_up \<times> ip) option" where
  "ip_input app p room inp s = do {
     h \<leftarrow> ip_hdr_of p;
     let hlen = 4 * IPH_HL h;
     if IPH_V h \<noteq> 4 then Some (Consumed, s)
     else if hlen > length (hd p) \<or> iph_len h > tot_len p then Some (Consumed, s)
     else if chksum (take hlen (hd p)) \<noteq> 0 then Some (Consumed, s)
     else do {
       let p = shrink p (iph_len h);
       nif \<leftarrow> netifs s inp;
       n \<leftarrow> match_netif (iph_dest h) inp s;
       if ip_addr_isbroadcast (iph_src h) nif \<or> ip_addr_ismulticast (iph_src h) then Some (Consumed, s)
       else if n = NULL then Some (Consumed, s)
       else if iph_offset h AND (IP_OFFMASK OR IP_MF) \<noteq> 0
       then do {
         (r, s) \<leftarrow> ip_reass p room s;
         case r of
           None \<Rightarrow> Some (Consumed, s)
         | Some (p, room) \<Rightarrow> ip_dispatch app p room inp s
       }
       else ip_dispatch app p room inp s
     }
   }"

end
