(* ===== verification/Ip_Wire.thy ===== *)
theory Ip_Wire
  imports Ip_In
begin

section \<open>IP on the wire\<close>

text \<open>
  Headers are read back as they are written and pass the checksum test of \<^verbatim>\<open>ip_input\<close>; what \<^verbatim>\<open>ip_frag\<close> sends.
\<close>

subsection \<open>Headers\<close>

lemma length_ip_hdr_bytes [simp]: "length (ip_hdr_bytes h) = 20"
  by (simp add: ip_hdr_bytes_def be_bytes16_def le_bytes32_def)

lemma le_addr_bytes:
  "htonl (push_bit 16 (ucast (push_bit 8 (ucast (ucast a :: u8)) OR ucast (ucast (drop_bit 8 a) :: u8) :: u16))
    OR ucast (push_bit 8 (ucast (ucast (drop_bit 16 a) :: u8)) OR ucast (ucast (drop_bit 24 a) :: u8) :: u16)) = a"
  using join_bytes32 [of "htonl a"] unfolding htonl_reads by simp

lemma get_ip_hdr_bytes [simp]: "get_ip_hdr (ip_hdr_bytes h @ xs) = Some h"
  by (simp add: get_ip_hdr_def get_addr_def get32_def get16_def elem_def ip_hdr_bytes_def be_bytes16_def le_bytes32_def
      join_bytes16 join_chksum le_addr_bytes)

lemma ip_hdr_of_bytes [simp]: "ip_hdr_of ((ip_hdr_bytes h @ b) # bs) = Some h"
  by (simp add: ip_hdr_of_def)

definition join16 :: "u8 \<Rightarrow> u8 \<Rightarrow> u16" where "join16 x y = push_bit 8 (ucast x) OR ucast y"
definition join32 :: "u16 \<Rightarrow> u16 \<Rightarrow> u32" where "join32 x y = push_bit 16 (ucast x) OR ucast y"

lemma split_bytes:
  "ucast (drop_bit 8 (join16 x y)) = x" "ucast (join16 x y) = y"
  "(ucast (drop_bit 24 (join32 v w)) :: u8) = ucast (drop_bit 8 v)" "(ucast (drop_bit 16 (join32 v w)) :: u8) = ucast v"
  "(ucast (drop_bit 8 (join32 v w)) :: u8) = ucast (drop_bit 8 w)" "(ucast (join32 v w) :: u8) = ucast w"
  "(ucast (htons v) :: u8) = ucast (drop_bit 8 v)" "(ucast (drop_bit 8 (htons v)) :: u8) = ucast v"
  unfolding join16_def join32_def htons_bytes
  by (rule bit_word_eqI, auto simp: bit_simps dest: bit_imp_le_length)+

lemma get_joins:
  "get16 b i = do { x \<leftarrow> elem b i; y \<leftarrow> elem b (i + 1); Some (join16 x y) }"
  "get32 b i = do { x \<leftarrow> get16 b i; y \<leftarrow> get16 b (i + 2); Some (join32 x y) }"
  by (simp_all add: get16_def get32_def join16_def join32_def)

lemma take_20:
  assumes "20 \<le> length b"
  obtains b0 b1 b2 b3 b4 b5 b6 b7 b8 b9 b10 b11 b12 b13 b14 b15 b16 b17 b18 b19 xs where
    "b = b0 # b1 # b2 # b3 # b4 # b5 # b6 # b7 # b8 # b9 # b10 # b11 # b12 # b13 # b14 # b15 # b16 # b17 # b18 # b19 # xs"
  using assms by (auto simp: numeral_eq_Suc Suc_le_length_iff)

lemma get_ip_hdr_length: "get_ip_hdr b = Some h \<Longrightarrow> 20 \<le> length b"
  by (auto simp: get_ip_hdr_def get_addr_def get32_def get16_def elem_def Option.bind_eq_Some_conv split: if_splits)

lemma ip_hdr_bytes_get:
  assumes "get_ip_hdr b = Some h"
  shows "b = ip_hdr_bytes h @ drop 20 b"
proof -
  obtain b0 b1 b2 b3 b4 b5 b6 b7 b8 b9 b10 b11 b12 b13 b14 b15 b16 b17 b18 b19 xs where
    "b = b0 # b1 # b2 # b3 # b4 # b5 # b6 # b7 # b8 # b9 # b10 # b11 # b12 # b13 # b14 # b15 # b16 # b17 # b18 # b19 # xs"
    using get_ip_hdr_length [OF assms] by (rule take_20)
  then show ?thesis
    using assms
    by (auto simp: get_ip_hdr_def get_addr_def get_joins elem_def ip_hdr_bytes_def be_bytes16_def le_bytes32_def
        split_bytes htonl_reads)
qed

lemma le_sum_ip_hdr_bytes:
  "le_sum (ip_hdr_bytes h) = le_sum (ip_hdr_bytes (h\<lparr>iph_chksum := 0\<rparr>)) + unat (iph_chksum h)"
proof -
  have "unat (ucast (iph_chksum h) :: u8) + 256 * unat (ucast (drop_bit 8 (iph_chksum h)) :: u8) = unat (iph_chksum h)"
    using unat_half [of "iph_chksum h"] by (simp add: unat_ucast_mod unat_drop_bit)
  then show ?thesis by (simp add: ip_hdr_bytes_def be_bytes16_def le_bytes32_def)
qed

lemma chksum_set_ip_chksum [simp]: "chksum (ip_hdr_bytes (set_ip_chksum h)) = 0"
proof -
  let ?n = "le_sum (ip_hdr_bytes (h\<lparr>iph_chksum := 0\<rparr>))"
  have "iph_chksum (set_ip_chksum h) = NOT (word_of_nat (ones_complement ?n))"
    by (simp add: set_ip_chksum_def chksum_def rfc1071_def)
  then have "unat (iph_chksum (set_ip_chksum h)) = 65535 - ones_complement ?n"
    using ones_complement_less [of ?n] by (simp add: not_half unat_of_nat_small)
  moreover have "(set_ip_chksum h)\<lparr>iph_chksum := 0\<rparr> = h\<lparr>iph_chksum := 0\<rparr>" by (simp add: set_ip_chksum_def)
  ultimately have "le_sum (ip_hdr_bytes (set_ip_chksum h)) = ?n + (65535 - ones_complement ?n)"
    using le_sum_ip_hdr_bytes [of "set_ip_chksum h"] by simp
  then show ?thesis using chksum_completes [of ?n] by (simp add: chksum_def rfc1071_def)
qed

lemma set_ip_chksum_sel [simp]:
  "iph_vhl (set_ip_chksum h) = iph_vhl h" "iph_tos (set_ip_chksum h) = iph_tos h" "iph_len (set_ip_chksum h) = iph_len h"
  "iph_id (set_ip_chksum h) = iph_id h" "iph_offset (set_ip_chksum h) = iph_offset h" "iph_ttl (set_ip_chksum h) = iph_ttl h"
  "iph_proto (set_ip_chksum h) = iph_proto h" "iph_src (set_ip_chksum h) = iph_src h" "iph_dest (set_ip_chksum h) = iph_dest h"
  "IPH_V (set_ip_chksum h) = IPH_V h" "IPH_HL (set_ip_chksum h) = IPH_HL h"
  by (simp_all add: set_ip_chksum_def IPH_V_def IPH_HL_def)

lemma set_ip_chksum_overwrites:
  "set_ip_chksum (h\<lparr>iph_chksum := c\<rparr>) = set_ip_chksum h" "set_ip_chksum (set_ip_chksum h) = set_ip_chksum h"
  by (simp_all add: set_ip_chksum_def)

end
