(* ===== verification/Ip_Cut.thy ===== *)
theory Ip_Cut
  imports Ip_Wire
begin

subsection \<open>What \<^verbatim>\<open>ip_frag\<close> sends\<close>

text \<open>
  The specification: a payload that does not fit is cut into pieces of the greatest multiple of 8 that fits, all but
  the last marked; a piece comes with its position in units of 8 bytes.
\<close>

function cut_payload :: "nat \<Rightarrow> nat \<Rightarrow> u8 list \<Rightarrow> (nat \<times> bool \<times> u8 list) list" where
  "cut_payload m k d = (if length d \<le> m \<or> m < 8 then [(k, False, d)]
     else (k, True, take (8 * (m div 8)) d) # cut_payload m (k + m div 8) (drop (8 * (m div 8)) d))"
  by pat_completeness auto
termination
  by (relation "measure (\<lambda>(m, k, d). length d)") (auto simp: div_greater_zero_iff)

declare cut_payload.simps [simp del]

definition frag_packet :: "ip_hdr \<Rightarrow> u16 \<Rightarrow> nat \<Rightarrow> nat \<times> bool \<times> u8 list \<Rightarrow> u8 list \<Rightarrow> bool" where
  "frag_packet h omf mtu = (\<lambda>(k, more, c) b. \<exists>pad. length b \<le> mtu
     \<and> b = ip_hdr_bytes (set_ip_chksum (h\<lparr>iph_offset := (if more then IP_MF else omf) OR word_of_nat k,
         iph_len := word_of_nat (20 + length c)\<rparr>)) @ c @ pad)"

text \<open>The greatest multiple of 8 that fits behind a header.\<close>

lemma frag_sizes:
  assumes "20 \<le> unat mtu"
  shows "unat (frag_nfb mtu) = (unat mtu - 20) div 8" "unat (frag_nfb mtu * 8) = 8 * ((unat mtu - 20) div 8)"
    "frag_last mtu left \<longleftrightarrow> unat left \<le> unat mtu - 20"
proof -
  have m: "uint mtu - 20 = int (unat mtu - 20)" using assms by (simp add: of_nat_diff)
  have sd: "int a sdiv 8 = int (a div 8)" for a by (simp add: signed_divide_int_def zdiv_int sgn_if)
  have "frag_nfb mtu = word_of_nat ((unat mtu - 20) div 8)"
    unfolding frag_nfb_def m sd by (rule of_int_of_nat_eq)
  then show n: "unat (frag_nfb mtu) = (unat mtu - 20) div 8"
    using unat_half [of mtu] by (simp add: unat_of_nat_small)
  have "unat (frag_nfb mtu) * 8 < 65536" unfolding n using unat_half [of mtu] by simp
  then show "unat (frag_nfb mtu * 8) = 8 * ((unat mtu - 20) div 8)"
    by (simp add: unat_word_ariths n mult.commute)
  show "frag_last mtu left \<longleftrightarrow> unat left \<le> unat mtu - 20"
    unfolding frag_last_def m by (simp only: uint_nat of_nat_le_iff)
qed

lemma frag_hdr_offset:
  assumes "unat ofo < 8192" "omf = 0 \<or> omf = IP_MF"
  shows "omf OR (IP_OFFMASK AND ofo) = omf OR ofo" "(omf OR (IP_OFFMASK AND ofo)) OR IP_MF = IP_MF OR ofo"
proof -
  have "IP_OFFMASK AND ofo = take_bit 13 ofo" by (simp add: IP_OFFMASK_def take_bit_eq_mask and.commute mask_eq_exp_minus_1)
  also have "\<dots> = ofo" using assms(1) by (simp add: word_unat_eq_iff unat_take_bit)
  finally show "omf OR (IP_OFFMASK AND ofo) = omf OR ofo" "(omf OR (IP_OFFMASK AND ofo)) OR IP_MF = IP_MF OR ofo"
    using assms(2) by (auto simp: ac_simps or.left_commute)
qed

lemma ip_alloc_Some:
  assumes "ip_allocs s = map Some js @ as" "js \<noteq> []"
  shows "ip_alloc 0 s = (Some [], s\<lparr>ip_allocs := map Some (List.tl js) @ as\<rparr>)"
  using assms by (cases js) (simp_all add: ip_alloc_def)

lemma frag_loop_turn:
  assumes "left \<noteq> 0" "c = take (unat (frag_cop mtu left)) (drop (unat poff) d)"
    and "len = (if frag_last mtu left then unat left + 20 else unat mtu)" "20 + length c \<le> 1500" "len \<le> 1500"
    and "fb = ip_hdr_bytes (frag_hdr h mtu left ofo omf) @ c @ drop (20 + length c) (frag_buf s)"
    and "ip_allocs s = map Some js @ as" "js \<noteq> []"
  shows "frag_loop h mtu d left poff ofo omf n dest s =
    frag_loop h mtu d (left - frag_cop mtu left) (poff + word_of_nat (length c)) (ofo + frag_nfb mtu) omf n dest
      (s\<lparr>frag_buf := fb, ip_allocs := map Some (List.tl js) @ as, wire := wire s @ [(n, [[], take len fb], dest)]\<rparr>)"
proof -
  have "ip_alloc 0 (s\<lparr>frag_buf := fb\<rparr>) = (Some [], s\<lparr>frag_buf := fb, ip_allocs := map Some (List.tl js) @ as\<rparr>)"
    using ip_alloc_Some [of "s\<lparr>frag_buf := fb\<rparr>" js as] assms(7,8) by simp
  then show ?thesis
    using assms(1,4,5)
    by (subst frag_loop.simps) (simp add: Let_def netif_output_def IP_FRAG_MAX_MTU_def del: length_take flip: assms(2,3,6))
qed

lemma frag_turn:
  fixes mtu left poff ofo :: u16 and d :: "u8 list" and s :: ip
  defines "cop \<equiv> frag_cop mtu left"
  assumes "left \<noteq> 0" "28 \<le> unat mtu" "unat mtu \<le> 1500" "unat poff + unat left = length d" "length d < 65536"
    and "unat ofo < 8192" "omf = 0 \<or> omf = IP_MF" "ip_allocs s = map Some js @ as" "js \<noteq> []"
  shows "\<exists>b fb. frag_packet h omf (unat mtu) (unat ofo, \<not> frag_last mtu left, take (unat cop) (drop (unat poff) d)) b
    \<and> frag_loop h mtu d left poff ofo omf n dest s = frag_loop h mtu d (left - cop) (poff + cop) (ofo + frag_nfb mtu) omf n dest
      (s\<lparr>frag_buf := fb, ip_allocs := map Some (List.tl js) @ as, wire := wire s @ [(n, [[], b], dest)]\<rparr>)"
proof -
  have "20 \<le> unat mtu" using assms(3) by simp
  note sz = frag_sizes [OF this]
  let ?last = "frag_last mtu left" and ?c = "take (unat cop) (drop (unat poff) d)"
  let ?len = "if ?last then unat left + 20 else unat mtu"
  let ?h = "frag_hdr h mtu left ofo omf"
  let ?fb = "ip_hdr_bytes ?h @ ?c @ drop (20 + length ?c) (frag_buf s)"
  let ?b = "take ?len ?fb"
  have cop: "unat cop \<le> unat left" "unat cop + 20 \<le> ?len" "?len \<le> unat mtu"
  proof -
    have "8 * ((unat mtu - 20) div 8) \<le> unat mtu - 20" by simp
    then show "unat cop \<le> unat left" "unat cop + 20 \<le> ?len" "?len \<le> unat mtu"
      unfolding cop_def frag_cop_def using sz(2,3) assms(3) by (simp_all only: split: if_split) linarith+
  qed
  have lc: "length ?c = unat cop" using cop(1) assms(5) by simp
  have "cop + IP_HLEN = word_of_nat (20 + length ?c)"
    unfolding lc by (simp add: IP_HLEN_def add.commute)
  then have hd: "?h = set_ip_chksum (h\<lparr>iph_offset := (if \<not> ?last then IP_MF else omf) OR word_of_nat (unat ofo),
      iph_len := word_of_nat (20 + length ?c)\<rparr>)"
    using frag_hdr_offset [OF assms(7,8)] by (simp add: frag_hdr_def cop_def)
  have b: "?b = ip_hdr_bytes ?h @ ?c @ take (?len - (20 + length ?c)) (drop (20 + length ?c) (frag_buf s))"
    using cop(2) lc by simp
  have "length ?b \<le> unat mtu" unfolding length_take using cop(3) by (rule min.coboundedI2)
  then have "frag_packet h omf (unat mtu) (unat ofo, \<not> ?last, ?c) ?b"
    unfolding frag_packet_def prod.case using b [unfolded hd] unfolding hd by blast
  moreover have "20 + length ?c \<le> 1500" "?len \<le> 1500" unfolding lc using cop(2,3) assms(4) by linarith+
  then have "frag_loop h mtu d left poff ofo omf n dest s = frag_loop h mtu d (left - cop) (poff + word_of_nat (length ?c)) (ofo + frag_nfb mtu) omf n dest
      (s\<lparr>frag_buf := ?fb, ip_allocs := map Some (List.tl js) @ as, wire := wire s @ [(n, [[], ?b], dest)]\<rparr>)"
    unfolding cop_def by (rule frag_loop_turn [OF assms(2) refl refl _ _ refl assms(9,10)])
  moreover have "word_of_nat (length ?c) = cop" unfolding lc by simp
  ultimately show ?thesis by (intro exI conjI) (assumption, simp only:)
qed

lemma frag_loop_cuts:
  assumes "left \<noteq> 0" "28 \<le> unat mtu" "unat mtu \<le> 1500" "unat poff + unat left = length d" "length d < 65536"
    and "8 * unat ofo + unat left \<le> 65536" "omf = 0 \<or> omf = IP_MF"
    and "ip_allocs s = map Some js @ as" "length (cut_payload (unat mtu - 20) (unat ofo) (drop (unat poff) d)) \<le> length js"
  shows "\<exists>pkts fb al. list_all2 (frag_packet h omf (unat mtu)) (cut_payload (unat mtu - 20) (unat ofo) (drop (unat poff) d)) pkts
    \<and> frag_loop h mtu d left poff ofo omf n dest s = Some (ERR_OK,
      s\<lparr>frag_buf := fb, ip_allocs := al, wire := wire s @ map (\<lambda>b. (n, [[], b], dest)) pkts\<rparr>)"
  using assms(1,4,6,8,9)
proof (induction "unat left" arbitrary: left poff ofo s js rule: less_induct)
  case less
  have "20 \<le> unat mtu" using assms(2) by simp
  note sz = frag_sizes [OF this]
  let ?m = "unat mtu - 20" and ?k = "8 * ((unat mtu - 20) div 8)" and ?rest = "drop (unat poff) d"
  have len: "length ?rest = unat left" using less.prems(2) by simp
  have k: "8 \<le> ?k" "?k \<le> ?m" using assms(2) div_greater_zero_iff [of ?m 8] by simp_all
  have left: "0 < unat left" using less.prems(1) by (simp add: unat_gt_0)
  have js: "js \<noteq> []" using less.prems(5) by (subst (asm) cut_payload.simps) (auto split: if_splits)
  have ofo: "unat ofo < 8192" using less.prems(3) left by linarith
  obtain b fb where b: "frag_packet h omf (unat mtu) (unat ofo, \<not> frag_last mtu left, take (unat (frag_cop mtu left)) ?rest) b"
    and l: "frag_loop h mtu d left poff ofo omf n dest s = frag_loop h mtu d (left - frag_cop mtu left) (poff + frag_cop mtu left)
      (ofo + frag_nfb mtu) omf n dest (s\<lparr>frag_buf := fb, ip_allocs := map Some (List.tl js) @ as, wire := wire s @ [(n, [[], b], dest)]\<rparr>)"
    using frag_turn [OF less.prems(1) assms(2,3) less.prems(2) assms(5) ofo assms(7) less.prems(4) js] by blast
  show ?case
  proof (cases "frag_last mtu left")
    case True
    then have "cut_payload ?m (unat ofo) ?rest = [(unat ofo, False, ?rest)]" using sz(3) len by (subst cut_payload.simps) simp
    moreover have "frag_packet h omf (unat mtu) (unat ofo, False, ?rest) b" using b True len by (simp add: frag_cop_def)
    moreover have "frag_loop h mtu d left poff ofo omf n dest s = Some (ERR_OK,
      s\<lparr>frag_buf := fb, ip_allocs := map Some (List.tl js) @ as, wire := wire s @ [(n, [[], b], dest)]\<rparr>)"
      unfolding l using True by (subst frag_loop.simps) (simp add: frag_cop_def)
    ultimately show ?thesis by (intro exI [of _ "[b]"] exI conjI) (simp, simp only: list.map)
  next
    case False
    then have big: "?m < unat left" using sz(3) by simp
    have cop: "unat (frag_cop mtu left) = ?k" using False sz(2) by (simp add: frag_cop_def)
    have l': "unat (left - frag_cop mtu left) = unat left - ?k"
      using cop big k(2) by (simp add: unat_sub word_le_nat_alt)
    have p': "unat (poff + frag_cop mtu left) = unat poff + ?k"
    proof -
      have "unat poff + unat (frag_cop mtu left) < 65536" using cop big k(2) less.prems(2) assms(5) by linarith
      then show ?thesis using cop by (simp add: unat_add_small)
    qed
    have o': "unat (ofo + frag_nfb mtu) = unat ofo + ?m div 8"
    proof -
      have "unat ofo + unat (frag_nfb mtu) < 65536" using sz(1) big k(2) less.prems(3) by linarith
      then show ?thesis using sz(1) by (simp add: unat_add_small)
    qed
    have cut_payload: "cut_payload ?m (unat ofo) ?rest = (unat ofo, True, take ?k ?rest) # cut_payload ?m (unat (ofo + frag_nfb mtu)) (drop (unat (poff + frag_cop mtu left)) d)"
      using big len assms(2) by (subst cut_payload.simps) (simp add: o' p' add.commute)
    let ?s = "s\<lparr>frag_buf := fb, ip_allocs := map Some (List.tl js) @ as, wire := wire s @ [(n, [[], b], dest)]\<rparr>"
    have "0 < unat (left - frag_cop mtu left)" "unat (left - frag_cop mtu left) < unat left" using l' k big by linarith+
    moreover from this(1) have "left - frag_cop mtu left \<noteq> 0" by (simp only: unat_gt_0 not_False_eq_True)
    moreover have kl: "?k \<le> unat left" using big k(2) by (rule order.strict_implies_order [OF le_less_trans, rotated])
    moreover have "unat (poff + frag_cop mtu left) + unat (left - frag_cop mtu left) = length d"
      using kl less.prems(2) unfolding l' p' by simp
    moreover have "8 * (x + ?m div 8) + (unat left - ?k) = 8 * x + unat left" for x
      using kl unfolding distrib_left by (simp only: add.assoc le_add_diff_inverse)
    then have "8 * unat (ofo + frag_nfb mtu) + unat (left - frag_cop mtu left) \<le> 65536"
      using less.prems(3) unfolding l' o' by simp
    moreover have "ip_allocs ?s = map Some (List.tl js) @ as" by simp
    moreover have "length (cut_payload ?m (unat (ofo + frag_nfb mtu)) (drop (unat (poff + frag_cop mtu left)) d)) \<le> length (List.tl js)"
      using less.prems(5) unfolding cut_payload by simp
    ultimately obtain pkts fb' al where "list_all2 (frag_packet h omf (unat mtu)) (cut_payload ?m (unat (ofo + frag_nfb mtu)) (drop (unat (poff + frag_cop mtu left)) d)) pkts"
      "frag_loop h mtu d (left - frag_cop mtu left) (poff + frag_cop mtu left) (ofo + frag_nfb mtu) omf n dest ?s = Some (ERR_OK,
        ?s\<lparr>frag_buf := fb', ip_allocs := al, wire := wire ?s @ map (\<lambda>b. (n, [[], b], dest)) pkts\<rparr>)"
      using less.hyps [of "left - frag_cop mtu left"] by blast
    then show ?thesis
      using b False cop by (intro exI [of _ "b # pkts"] exI [of _ fb'] exI [of _ al]) (simp add: l cut_payload)
  qed
qed

text \<open>
  A payload in pieces: in order, nothing missing and nothing twice, none empty, each with its position in units of 8
  bytes and marked unless it is the last.
\<close>

definition pieces_of :: "nat \<Rightarrow> u8 list \<Rightarrow> (nat \<times> bool \<times> u8 list) list \<Rightarrow> bool" where
  "pieces_of k d ps \<longleftrightarrow> ps \<noteq> [] \<and> concat (map (snd \<circ> snd) ps) = d
     \<and> (\<forall>i < length ps. snd (snd (ps ! i)) \<noteq> [] \<and> 8 * fst (ps ! i) = 8 * k + length (concat (map (snd \<circ> snd) (take i ps)))
          \<and> (fst (snd (ps ! i)) \<longleftrightarrow> Suc i \<noteq> length ps))"

lemma pieces_of_single [simp]: "d \<noteq> [] \<Longrightarrow> pieces_of k d [(k, False, d)]"
  by (simp add: pieces_of_def)

lemma pieces_of_Cons:
  assumes "pieces_of (k + j) d ps" "length c = 8 * j" "c \<noteq> []"
  shows "pieces_of k (c @ d) ((k, True, c) # ps)"
  using assms by (auto simp: pieces_of_def nth_Cons split: nat.splits)

lemma pieces_of_cases:
  assumes "pieces_of k d (x # ps)"
  obtains "ps = []" "x = (k, False, d)" "d \<noteq> []"
  | c d' where "ps \<noteq> []" "x = (k, True, c)" "c \<noteq> []" "d = c @ d'" "8 * (length c div 8) = length c" "pieces_of (k + length c div 8) d' ps"
proof -
  obtain k' mf c where x: "x = (k', mf, c)" by (cases x)
  have nth: "snd (snd ((x # ps) ! i)) \<noteq> [] \<and> 8 * fst ((x # ps) ! i) = 8 * k + length (concat (map (snd \<circ> snd) (take i (x # ps))))
      \<and> (fst (snd ((x # ps) ! i)) \<longleftrightarrow> Suc i \<noteq> length (x # ps))" if "i < length (x # ps)" for i
    using assms that unfolding pieces_of_def by blast
  have d: "d = c @ concat (map (snd \<circ> snd) ps)" using assms by (simp add: pieces_of_def x)
  have 0: "k' = k" "c \<noteq> []" "mf \<longleftrightarrow> ps \<noteq> []" using nth [of 0] by (auto simp: x)
  show thesis
  proof (cases "ps = []")
    case True
    then show thesis using that(1) 0 d x by simp
  next
    case False
    then have "8 * fst (ps ! 0) = 8 * k + length c" using nth [of 1] by (simp add: x)
    then have c: "8 * (length c div 8) = length c" by presburger
    have "pieces_of (k + length c div 8) (concat (map (snd \<circ> snd) ps)) ps"
      unfolding pieces_of_def
    proof (intro conjI allI impI)
      fix i assume "i < length ps"
      then show "snd (snd (ps ! i)) \<noteq> []" "fst (snd (ps ! i)) \<longleftrightarrow> Suc i \<noteq> length ps"
        "8 * fst (ps ! i) = 8 * (k + length c div 8) + length (concat (map (snd \<circ> snd) (take i ps)))"
        using nth [of "Suc i"] c by (simp_all add: x distrib_left)
    qed (use False in simp_all)
    then show thesis using that(2) [of c] False 0 c d x by simp
  qed
qed

lemma pieces_of_cut: "d \<noteq> [] \<Longrightarrow> pieces_of k d (cut_payload m k d)"
proof (induction m k d rule: cut_payload.induct)
  case (1 m k d)
  show ?case
  proof (cases "length d \<le> m \<or> m < 8")
    case True
    then show ?thesis using 1(2) by (subst cut_payload.simps) simp
  next
    case False
    have m: "8 * (m div 8) \<le> m" "0 < m div 8" using False by (simp_all add: div_greater_zero_iff)
    then have le: "8 * (m div 8) < length d" using False by linarith
    then have "length (take (8 * (m div 8)) d) = 8 * (m div 8)" "take (8 * (m div 8)) d \<noteq> []" "drop (8 * (m div 8)) d \<noteq> []"
      using m(2) 1(2) by simp_all
    from pieces_of_Cons [OF 1(1) [OF False this(3)] this(1,2)] show ?thesis using False by (subst cut_payload.simps) simp
  qed
qed

lemma length_cut: "length (cut_payload m k d) \<le> length d div 8 + 1"
proof (induction m k d rule: cut_payload.induct)
  case (1 m k d)
  show ?case
  proof (cases "length d \<le> m \<or> m < 8")
    case True
    then show ?thesis by (subst cut_payload.simps) simp
  next
    case False
    have j: "1 \<le> m div 8" "8 * (m div 8) \<le> m" using False by (simp_all add: Suc_le_eq div_greater_zero_iff)
    have "8 * (m div 8) \<le> length d" using False j(2) by linarith
    then have "length d div 8 = (length d - 8 * (m div 8) + (m div 8) * 8) div 8" by simp
    also have "\<dots> = m div 8 + (length d - 8 * (m div 8)) div 8" by (rule div_mult_self1) simp
    finally have "(length d - 8 * (m div 8)) div 8 + m div 8 = length d div 8" by simp
    then show ?thesis using 1 [OF False] False j(1) by (subst cut_payload.simps) simp
  qed
qed

lemma ip_frag_sends:
  assumes "ip_hdr_of p = Some h" "netifs s n = Some nif" "28 \<le> unat (netif_mtu nif)" "unat (netif_mtu nif) \<le> 1500"
    and "20 < length (concat p)" "length (concat p) < 65536"
    and "8 * unat (iph_offset h AND IP_OFFMASK) + length (concat p) \<le> 65556"
    and "ip_allocs s = map Some js @ as" "length (concat p) < 8 * length js"
  shows "\<exists>pkts fb al. list_all2 (frag_packet h (iph_offset h AND IP_MF) (unat (netif_mtu nif)))
        (cut_payload (unat (netif_mtu nif) - 20) (unat (iph_offset h AND IP_OFFMASK)) (drop 20 (concat p))) pkts
    \<and> ip_frag p n dest s = Some (ERR_OK, s\<lparr>frag_buf := fb, ip_allocs := al, wire := wire s @ map (\<lambda>b. (n, [[], b], dest)) pkts\<rparr>)"
proof -
  let ?mtu = "netif_mtu nif" and ?d = "concat p" and ?left = "tot_len p - IP_HLEN"
    and ?k = "iph_offset h AND IP_OFFMASK" and ?omf = "iph_offset h AND IP_MF"
  let ?s = "s\<lparr>ip_allocs := map Some (List.tl js) @ as\<rparr>" and ?ps = "cut_payload (unat ?mtu - 20) (unat ?k) (drop 20 ?d)"
  have js: "js \<noteq> []" using assms(9) by auto
  have hl: "unat IP_HLEN = 20" by (simp add: IP_HLEN_def)
  have "unat (tot_len p) = length ?d" using assms(6) by (simp add: tot_len_def unat_of_nat_small)
  then have left: "unat ?left = length ?d - 20"
    using assms(5) hl by (subst unat_sub) (simp_all add: word_le_nat_alt)
  have pos: "0 < unat ?left" "unat IP_HLEN + unat ?left = length ?d" "8 * unat ?k + unat ?left \<le> 65536"
    using left hl assms(5,7) by linarith+
  from pos(1) have nz: "?left \<noteq> 0" by (simp only: unat_gt_0 not_False_eq_True)
  have omf: "?omf = 0 \<or> ?omf = IP_MF"
  proof -
    have "bit IP_MF i \<longleftrightarrow> i = 13" for i
      using bit_exp_iff [of 13 i, where 'a = u16] by (auto simp: IP_MF_def)
    then have "?omf = (if bit (iph_offset h) 13 then IP_MF else 0)"
      by (intro bit_eqI) (auto simp: bit_simps)
    then show ?thesis by simp
  qed
  have "length ?ps \<le> (length ?d - 20) div 8 + 1" using length_cut [of "unat ?mtu - 20" "unat ?k" "drop 20 ?d"] by simp
  then have len: "length (cut_payload (unat ?mtu - 20) (unat ?k) (drop (unat IP_HLEN) ?d)) \<le> length (List.tl js)"
  proof -
    have "(length ?d - 20) div 8 + 2 \<le> length js" using assms(5,9) by linarith
    then show ?thesis using \<open>length ?ps \<le> (length ?d - 20) div 8 + 1\<close> unfolding hl by simp
  qed
  obtain pkts fb al where "list_all2 (frag_packet h ?omf (unat ?mtu)) ?ps pkts"
    "frag_loop h ?mtu ?d ?left IP_HLEN ?k ?omf n dest ?s = Some (ERR_OK,
      ?s\<lparr>frag_buf := fb, ip_allocs := al, wire := wire ?s @ map (\<lambda>b. (n, [[], b], dest)) pkts\<rparr>)"
    using frag_loop_cuts [OF nz assms(3,4) pos(2) assms(6) pos(3) omf _ len, of ?s as h n dest] unfolding hl by auto
  then show ?thesis
    using assms(1,2) ip_alloc_Some [OF assms(8) js]
    by (intro exI [of _ pkts] exI [of _ fb] exI [of _ al]) (simp add: ip_frag_def)
qed

lemma cut_greedy: "x \<in> set (cut_payload m k d) \<Longrightarrow> fst (snd x) \<Longrightarrow> length (snd (snd x)) = 8 * (m div 8)"
proof (induction m k d rule: cut_payload.induct)
  case (1 m k d)
  show ?case
  proof (cases "length d \<le> m \<or> m < 8")
    case True
    then show ?thesis using 1(2,3) by (subst (asm) cut_payload.simps) simp
  next
    case False
    have "8 * (m div 8) \<le> m" by simp
    then have "8 * (m div 8) \<le> length d" using False by linarith
    then show ?thesis using 1 False by (subst (asm) (2) cut_payload.simps) auto
  qed
qed

text \<open>
  Claim C14: \<^verbatim>\<open>ip_frag\<close> cuts a datagram for an interface whose MTU is between 28 and the size of the static buffer
  into packets of at most MTU bytes that together carry the payload once and in order: each has the header of
  the datagram with its own length, the position of its piece, the flag for more fragments on all but the last
  piece (which keeps the flag of the datagram), and a valid checksum.  No piece but the last leaves room for eight more bytes.
\<close>

theorem ip_frag_cuts:
  assumes "ip_hdr_of p = Some h" "netifs s n = Some nif" "28 \<le> unat (netif_mtu nif)" "unat (netif_mtu nif) \<le> 1500"
    and "20 < length (concat p)" "length (concat p) < 65536"
    and "8 * unat (iph_offset h AND IP_OFFMASK) + length (concat p) \<le> 65556"
    and "ip_allocs s = map Some js @ as" "length (concat p) < 8 * length js"
  shows "\<exists>ps pkts fb al. pieces_of (unat (iph_offset h AND IP_OFFMASK)) (drop 20 (concat p)) ps
    \<and> (\<forall>x \<in> set ps. fst (snd x) \<longrightarrow> unat (netif_mtu nif) < 20 + length (snd (snd x)) + 8)
    \<and> list_all2 (frag_packet h (iph_offset h AND IP_MF) (unat (netif_mtu nif))) ps pkts
    \<and> ip_frag p n dest s = Some (ERR_OK, s\<lparr>frag_buf := fb, ip_allocs := al, wire := wire s @ map (\<lambda>b. (n, [[], b], dest)) pkts\<rparr>)"
proof -
  let ?ps = "cut_payload (unat (netif_mtu nif) - 20) (unat (iph_offset h AND IP_OFFMASK)) (drop 20 (concat p))"
  have "pieces_of (unat (iph_offset h AND IP_OFFMASK)) (drop 20 (concat p)) ?ps" using assms(5) by (intro pieces_of_cut) simp
  moreover have "unat (netif_mtu nif) < 20 + length (snd (snd x)) + 8" if "x \<in> set ?ps" "fst (snd x)" for x
    unfolding cut_greedy [OF that] using assms(3) by linarith
  ultimately show ?thesis using ip_frag_sends [OF assms] by blast
qed

definition ip_sample :: "u16 \<Rightarrow> ip" where
  "ip_sample mtu = \<lparr>netifs = [1 \<mapsto> \<lparr>netif_ip_addr = 0x0200000a, netif_netmask = 0xffffff, netif_flags = 3, netif_mtu = mtu, netif_gw = 0, netif_name = (0, 0), netif_num = 0\<rparr>],
     ip_netif_list = [1], ip_netif_default = 1, ip_id = 7, ip_allocs = replicate 16 (Some []), frag_buf = replicate 40 0xee,
     reassdatagrams = NULL, reass_mem = Map.empty, reass_avail = [1, 2, 3, 4, 5], ip_reass_pbufcount = 0, igmp_group_list = NULL,
     igmp_mem = Map.empty, igmp_avail = [1, 2, 3, 4, 5, 6, 7, 8], igmp_ip_id = 0,
     raw_pcbs = NULL, raw_mem = Map.empty, raw_avail = [1, 2, 3, 4],
     udp_pcbs = NULL, udp_mem = Map.empty, udp_avail = [1, 2, 3, 4], mac_filtered = [], mac_filters = [], netif_answer = (\<lambda>n p d. ERR_OK), wire = []\<rparr>"

definition ip_sample_hdr :: ip_hdr where
  "ip_sample_hdr = set_ip_chksum \<lparr>iph_vhl = 0x45, iph_tos = 0, iph_len = 33, iph_id = 9, iph_offset = 0, iph_ttl = 64, iph_proto = 6,
     iph_chksum = 0, iph_src = 0x0200000a, iph_dest = 0x0100000a\<rparr>"

lemma ip_sample_netif: "netifs (ip_sample mtu) 1 = Some \<lparr>netif_ip_addr = 0x0200000a, netif_netmask = 0xffffff, netif_flags = 3, netif_mtu = mtu, netif_gw = 0, netif_name = (0, 0), netif_num = 0\<rparr>"
  by (simp add: ip_sample_def)

theorem ip_frag_cuts_witness:
  "\<exists>ps pkts s. ip_frag [ip_hdr_bytes ip_sample_hdr @ [1, 2, 3, 4, 5], [6, 7, 8, 9, 10, 11, 12, 13]] 1 5 (ip_sample 28) = Some (ERR_OK, s)
    \<and> wire s = map (\<lambda>b. (1, [[], b], 5)) pkts \<and> pieces_of 0 [1, 2, 3, 4, 5, 6, 7, 8, 9, 10, 11, 12, 13] ps
    \<and> list_all2 (frag_packet ip_sample_hdr 0 28) ps pkts"
proof -
  let ?p = "[ip_hdr_bytes ip_sample_hdr @ [1, 2, 3, 4, 5], [6, 7, 8, 9, 10, 11, 12, 13]]"
  have o: "iph_offset ip_sample_hdr = 0" by (simp add: ip_sample_hdr_def)
  have a: "ip_allocs (ip_sample 28) = map Some (replicate 16 []) @ []" by (simp add: ip_sample_def numeral_eq_Suc)
  have w: "wire (ip_sample 28) = []" by (simp add: ip_sample_def)
  obtain ps pkts fb al where "pieces_of 0 [1, 2, 3, 4, 5, 6, 7, 8, 9, 10, 11, 12, 13] ps" "list_all2 (frag_packet ip_sample_hdr 0 28) ps pkts"
    "ip_frag ?p 1 5 (ip_sample 28) = Some (ERR_OK, (ip_sample 28)\<lparr>frag_buf := fb, ip_allocs := al, wire := map (\<lambda>b. (1, [[], b], 5)) pkts\<rparr>)"
    using ip_frag_cuts [of ?p, OF ip_hdr_of_bytes ip_sample_netif _ _ _ _ _ a, of 5] by (simp add: o w) blast
  then show ?thesis by (intro exI conjI) (assumption, simp, assumption+)
qed

subsection \<open>The limits of the MTU\<close>

text \<open>Between 13 and 27 the room behind the header, which is negative below 20, is 0 in units of 8 bytes.\<close>

lemma frag_nfb_zero:
  assumes "13 \<le> unat mtu" "unat mtu < 28"
  shows "frag_nfb mtu = 0"
proof -
  have "int (unat mtu) = uint mtu" by simp
  then have "- 8 < uint mtu - 20" "uint mtu - 20 < 8" using assms by linarith+
  then have "\<bar>uint mtu - 20\<bar> div 8 = 0" by (intro div_pos_pos_trivial) auto
  then show ?thesis by (simp add: frag_nfb_def signed_divide_int_def)
qed

lemma frag_loop_stuck:
  assumes "left \<noteq> 0" "13 \<le> unat mtu" "unat mtu < 28" "\<not> frag_last mtu left"
  shows "ip_allocs s = map Some js \<Longrightarrow> \<exists>s'. frag_loop h mtu d left poff ofo omf n dest s = Some (ERR_MEM, s')
    \<and> wire s' = wire s @ replicate (length js) (n, [[], take (unat mtu) (ip_hdr_bytes (frag_hdr h mtu left ofo omf) @ drop 20 (frag_buf s))], dest)"
proof (induction js arbitrary: s)
  have nfb: "frag_nfb mtu = 0" by (rule frag_nfb_zero [OF assms(2,3)])
  then have cop: "frag_cop mtu left = 0" using assms(4) by (simp add: frag_cop_def)
  {
    case Nil
    then show ?case using assms cop
      by (subst frag_loop.simps) (simp add: IP_FRAG_MAX_MTU_def ip_alloc_def)
  next
    case (Cons j js)
    let ?fb = "ip_hdr_bytes (frag_hdr h mtu left ofo omf) @ drop 20 (frag_buf s)"
    let ?s = "s\<lparr>frag_buf := ?fb, ip_allocs := map Some js, wire := wire s @ [(n, [[], take (unat mtu) ?fb], dest)]\<rparr>"
    have "frag_loop h mtu d left poff ofo omf n dest s = frag_loop h mtu d left poff ofo omf n dest ?s"
      using assms cop nfb Cons.prems
      by (subst frag_loop.simps) (simp add: IP_FRAG_MAX_MTU_def ip_alloc_def netif_output_def Let_def)
    then show ?case using Cons.IH [of ?s] by simp
  }
qed

text \<open>The bytes of the datagram that one turn copies when more turns follow, above the size of the static buffer.\<close>

lemma frag_cop_large:
  assumes "1500 < unat mtu" "\<not> frag_last mtu left" "length d = unat left + 20"
  shows "if unat mtu < 1508 then length (take (unat (frag_cop mtu left)) (drop 20 d)) = 1480
    else 1480 < length (take (unat (frag_cop mtu left)) (drop 20 d))"
proof -
  have m: "20 \<le> unat mtu" using assms(1) by simp
  have c: "unat (frag_cop mtu left) = 8 * ((unat mtu - 20) div 8)" "unat mtu - 20 < unat left"
    using assms(2) frag_sizes(2,3) [OF m] by (simp_all add: frag_cop_def)
  have d: "185 \<le> (unat mtu - 20) div 8" using assms(1) by linarith
  have e: "8 * ((unat mtu - 20) div 8) \<le> unat mtu - 20" by simp
  have l: "length (take (unat (frag_cop mtu left)) (drop 20 d)) = 8 * ((unat mtu - 20) div 8)"
    using c e assms(3) by simp
  have "unat mtu < 1508 \<Longrightarrow> (unat mtu - 20) div 8 = 185" "\<not> unat mtu < 1508 \<Longrightarrow> 185 < (unat mtu - 20) div 8"
    using assms(1) by linarith+
  then show ?thesis unfolding l by auto
qed

text \<open>
  Claim C32: three ranges of the MTU that \<^verbatim>\<open>ip_frag\<close> does not cope with, for a datagram that is longer than the MTU and has a payload.
  An MTU from 13 to 27 leaves no room for 8 bytes behind the header: one packet, a header without payload (cut to the MTU), is handed to
  the driver again and again until the memory for the link header is used up.  With an MTU of 1508 or more the first piece is larger
  than the rest of the static buffer, and the copy runs over its end, whatever memory is left.  From 1501 to 1507 the first piece just
  fits, but the driver would be handed a packet of MTU bytes, beyond the end of the buffer: that is so when the link header is allocated,
  and otherwise the call ends with ERR_MEM.  (An MTU of 12 or less, where the room is negative and wraps around, is not treated.)
\<close>

theorem ip_frag_mtu_limits:
  assumes "ip_hdr_of p = Some h" "netifs s n = Some nif" "20 < length (concat p)" "length (concat p) < 65536"
    and "unat (netif_mtu nif) < length (concat p)" "ip_allocs s = Some j # map Some js"
    and "piece = take (unat (frag_cop (netif_mtu nif) (tot_len p - IP_HLEN))) (drop 20 (concat p))"
  shows "(unat (netif_mtu nif) \<in> {13..27} \<longrightarrow> (\<exists>s' h'. ip_frag p n dest s = Some (ERR_MEM, s') \<and> iph_len h' = 20 \<and> piece = []
      \<and> wire s' = wire s @ replicate (length js) (n, [[], take (unat (netif_mtu nif)) (ip_hdr_bytes h' @ drop 20 (frag_buf s))], dest)))
    \<and> (unat (netif_mtu nif) \<ge> 1508 \<longrightarrow> 20 + length piece > IP_FRAG_MAX_MTU \<and> ip_frag p n dest s = None)
    \<and> (unat (netif_mtu nif) \<in> {1501..1507} \<longrightarrow> 20 + length piece = IP_FRAG_MAX_MTU
      \<and> (if js = [] then \<exists>s'. ip_frag p n dest s = Some (ERR_MEM, s') \<and> wire s' = wire s else ip_frag p n dest s = None))"
proof -
  let ?mtu = "netif_mtu nif" and ?d = "concat p" and ?left = "tot_len p - IP_HLEN"
  let ?s = "s\<lparr>ip_allocs := map Some js\<rparr>"
  let ?h = "frag_hdr h ?mtu ?left (iph_offset h AND IP_OFFMASK) (iph_offset h AND IP_MF)"
  have f: "ip_frag p n dest s = frag_loop h ?mtu ?d ?left IP_HLEN (iph_offset h AND IP_OFFMASK) (iph_offset h AND IP_MF) n dest ?s"
    using assms(1,2,6) by (simp add: ip_frag_def ip_alloc_def)
  have left: "unat ?left = length ?d - 20"
    using assms(3,4) by (subst unat_sub) (simp_all add: word_le_nat_alt tot_len_def IP_HLEN_def unat_of_nat_small)
  have hl: "unat IP_HLEN = 20" by (simp add: IP_HLEN_def)
  have big: "?left \<noteq> 0" "\<not> frag_last ?mtu ?left"
  proof -
    have "int (unat ?left) = uint ?left" "int (unat ?mtu) = uint ?mtu" by simp_all
    then have "\<not> uint ?left \<le> uint ?mtu - 20" "uint ?left \<noteq> 0" using left assms(3,5) by linarith+
    then show "?left \<noteq> 0" "\<not> frag_last ?mtu ?left" by (auto simp: frag_last_def)
  qed
  have len: "length ?d = unat ?left + 20" using left assms(3) by simp
  note large = frag_cop_large [OF _ big(2) len]
  have "\<exists>s' h'. ip_frag p n dest s = Some (ERR_MEM, s') \<and> iph_len h' = 20 \<and> piece = []
      \<and> wire s' = wire s @ replicate (length js) (n, [[], take (unat ?mtu) (ip_hdr_bytes h' @ drop 20 (frag_buf s))], dest)"
    if "13 \<le> unat ?mtu" "unat ?mtu < 28"
  proof -
    have "frag_cop ?mtu ?left = 0" using big(2) frag_nfb_zero [OF that] by (simp add: frag_cop_def)
    then have "iph_len ?h = 20" "piece = []" by (simp_all add: frag_hdr_def IP_HLEN_def assms(7) set_ip_chksum_def Let_def)
    then show ?thesis using frag_loop_stuck [OF big(1) that big(2), of ?s js h ?d IP_HLEN] f by fastforce
  qed
  moreover have "ip_frag p n dest s = None" "20 + length piece > IP_FRAG_MAX_MTU" if "unat ?mtu \<ge> 1508"
    using big(1) that large unfolding f assms(7) by (subst frag_loop.simps, auto simp: IP_FRAG_MAX_MTU_def Let_def hl split: if_splits)+
  moreover have "20 + length piece = IP_FRAG_MAX_MTU"
    "if js = [] then \<exists>s'. ip_frag p n dest s = Some (ERR_MEM, s') \<and> wire s' = wire s else ip_frag p n dest s = None"
    if "1501 \<le> unat ?mtu" "unat ?mtu \<le> 1507"
    using big that large unfolding f assms(7)
    by (auto simp: IP_FRAG_MAX_MTU_def, (cases js; subst frag_loop.simps, auto simp: IP_FRAG_MAX_MTU_def Let_def hl ip_alloc_def)+)
  ultimately show ?thesis by auto
qed

theorem ip_frag_mtu_limits_witness:
  "(\<exists>s' b. ip_frag [ip_hdr_bytes ip_sample_hdr @ [1, 2, 3, 4, 5, 6, 7, 8]] 1 5 (ip_sample 27) = Some (ERR_MEM, s')
      \<and> wire s' = replicate 15 (1, [[], b], 5))
    \<and> ip_frag [ip_hdr_bytes ip_sample_hdr @ replicate 1600 0] 1 5 (ip_sample 1508) = None
    \<and> ip_frag [ip_hdr_bytes ip_sample_hdr @ replicate 1600 0] 1 5 (ip_sample 1501) = None"
proof -
  have a: "ip_allocs (ip_sample m) = Some [] # map Some (replicate 15 [])" for m by (simp add: ip_sample_def numeral_eq_Suc)
  have w: "wire (ip_sample m) = []" for m by (simp add: ip_sample_def)
  show ?thesis
    using ip_frag_mtu_limits [of "[ip_hdr_bytes ip_sample_hdr @ [1, 2, 3, 4, 5, 6, 7, 8]]", OF ip_hdr_of_bytes ip_sample_netif [of 27] _ _ _ a refl, of 5]
      ip_frag_mtu_limits [of "[ip_hdr_bytes ip_sample_hdr @ replicate 1600 0]", OF ip_hdr_of_bytes ip_sample_netif [of 1508] _ _ _ a refl, of 5]
      ip_frag_mtu_limits [of "[ip_hdr_bytes ip_sample_hdr @ replicate 1600 0]", OF ip_hdr_of_bytes ip_sample_netif [of 1501] _ _ _ a refl, of 5]
    by (simp add: w del: replicate.simps) blast
qed

end
