(* ===== verification/Ip_Round.thy ===== *)
theory Ip_Round
  imports Ip_Cut
begin

section \<open>IP: from sender to receiver\<close>

text \<open>
  The fragments of a datagram, received in order, are put together to the datagram they were cut from; a
  datagram sent by \<^verbatim>\<open>ip_output_if\<close> is handed to its protocol as it was sent.
\<close>

subsection \<open>A packet as it arrives\<close>

text \<open>The network may split a packet into any buffers as long as the IP header is in the first.\<close>

definition arrives :: "u8 list \<Rightarrow> bufs \<Rightarrow> bool" where
  "arrives b q \<longleftrightarrow> q \<noteq> [] \<and> concat q = b \<and> 20 \<le> length (hd q)"

lemma keep_bufs_head:
  assumes "q \<noteq> []" "0 < n"
  shows "keep_bufs n q \<noteq> []" "hd (keep_bufs n q) = take n (hd q)" "length (keep_bufs n q) \<le> length q"
proof -
  have "length (keep_bufs n q) \<le> length q" for n by (induction n q rule: keep_bufs.induct) auto
  then show "length (keep_bufs n q) \<le> length q" .
  show "keep_bufs n q \<noteq> []" "hd (keep_bufs n q) = take n (hd q)" using assms by (cases q; simp)+
qed

lemma shrink_arrives:
  assumes "arrives b q" "20 \<le> unat len" "length b < 65536"
  shows "arrives (take (unat len) b) (shrink q len)" "length (shrink q len) \<le> length q"
proof -
  have q: "q \<noteq> []" "concat q = b" "20 \<le> length (hd q)" using assms(1) by (auto simp: arrives_def)
  have "0 < unat len" using assms(2) by linarith
  note k = keep_bufs_head [OF q(1) this]
  show "length (shrink q len) \<le> length q" using k(3) by (simp add: shrink_def)
  have "shrink q len \<noteq> [] \<and> 20 \<le> length (hd (shrink q len))" using q k assms(2) by (simp add: shrink_def)
  then show "arrives (take (unat len) b) (shrink q len)"
    using q(2) assms(3) by (simp add: arrives_def concat_shrink)
qed

lemma arrives_hdr:
  assumes "arrives (ip_hdr_bytes h @ c) q"
  shows "ip_hdr_of q = Some h" "take 20 (hd q) = ip_hdr_bytes h" "q \<noteq> []" "20 \<le> length (hd q)"
    and "\<exists>b bs. q = (ip_hdr_bytes h @ b) # bs \<and> b @ concat bs = c"
proof -
  obtain x bs where q: "q = x # bs" "x @ concat bs = ip_hdr_bytes h @ c" "20 \<le> length x"
    using assms by (cases q) (auto simp: arrives_def)
  have "take 20 x = ip_hdr_bytes h" using arg_cong [OF q(2), of "take 20"] q(3) by simp
  then have x: "x = ip_hdr_bytes h @ drop 20 x" by (metis append_take_drop_id)
  then have "drop 20 x @ concat bs = c" using q(2) by (metis append.assoc same_append_eq)
  then show "\<exists>b bs. q = (ip_hdr_bytes h @ b) # bs \<and> b @ concat bs = c" using q(1) x by blast
  show "q \<noteq> []" "20 \<le> length (hd q)" "take 20 (hd q) = ip_hdr_bytes h" using q(1,3) x \<open>take 20 x = ip_hdr_bytes h\<close> by simp_all
  show "ip_hdr_of q = Some h" using q(1) x ip_hdr_of_bytes [of h "drop 20 x" bs] by simp
qed

text \<open>The header passes the tests of \<^verbatim>\<open>ip_input\<close>, and the interface takes the packet.\<close>

definition ip_accepts :: "u32 \<Rightarrow> u32 \<Rightarrow> addr \<Rightarrow> ip \<Rightarrow> bool" where
  "ip_accepts src dest inp t \<longleftrightarrow> (\<exists>nif n. netifs t inp = Some nif \<and> match_netif dest inp t = Some n \<and> n \<noteq> NULL
     \<and> \<not> ip_addr_isbroadcast src nif \<and> \<not> ip_addr_ismulticast src)"

definition ip_deliver :: "ip_app \<Rightarrow> bufs \<Rightarrow> nat \<Rightarrow> addr \<Rightarrow> ip_hdr \<Rightarrow> ip \<Rightarrow> (ip_up \<times> ip) option" where
  "ip_deliver app p room inp h t =
     (if iph_offset h AND (IP_OFFMASK OR IP_MF) \<noteq> 0
      then do {
        (r, t) \<leftarrow> ip_reass p room t;
        case r of None \<Rightarrow> Some (Consumed, t) | Some (p, room) \<Rightarrow> ip_dispatch app p room inp t
      }
      else ip_dispatch app p room inp t)"

lemma ip_input_accepted:
  assumes "arrives (ip_hdr_bytes h @ c) q" "iph_vhl h = 0x45" "chksum (ip_hdr_bytes h) = 0" "20 \<le> unat (iph_len h)"
    and "unat (iph_len h) \<le> 20 + length c" "length c < 65516" "ip_accepts (iph_src h) (iph_dest h) inp t"
  shows "ip_input app q room inp t = ip_deliver app (shrink q (iph_len h)) room inp h t"
proof -
  note a = arrives_hdr [OF assms(1)]
  have v: "IPH_V h = 4" "IPH_HL h = 5" using assms(2) by (simp_all add: IPH_V_def IPH_HL_def)
  have "length (concat q) = 20 + length c" using assms(1) by (simp add: arrives_def)
  then have "unat (tot_len q) = 20 + length c" using assms(6) by (simp add: unat_tot_len)
  then have "\<not> iph_len h > tot_len q" using assms(5) by (simp add: word_less_nat_alt)
  moreover obtain nif n where "netifs t inp = Some nif" "match_netif (iph_dest h) inp t = Some n" "n \<noteq> NULL"
     "\<not> ip_addr_isbroadcast (iph_src h) nif" "\<not> ip_addr_ismulticast (iph_src h)"
    using assms(7) by (auto simp: ip_accepts_def)
  ultimately show ?thesis
    using a(1,2,4) v assms(3) by (simp add: ip_input_def ip_deliver_def Let_def)
qed

subsection \<open>The chain of fragments\<close>

fun contig :: "nat \<Rightarrow> frag list \<Rightarrow> nat \<Rightarrow> bool" where
  "contig i [] j \<longleftrightarrow> i = j"
| "contig i (f # fs) j \<longleftrightarrow> unat (fr_start f) = i \<and> i < unat (fr_end f) \<and> contig (unat (fr_end f)) fs j"

lemma contig_le: "contig i fs j \<Longrightarrow> i \<le> j"
  by (induction fs arbitrary: i) fastforce+

lemma contig_append: "contig i (fs @ gs) j \<longleftrightarrow> (\<exists>m. contig i fs m \<and> contig m gs j)"
  by (induction fs arbitrary: i) auto

lemma chain_contig:
  assumes "contig i fs (unat (fr_start new))" "case prev of None \<Rightarrow> True | Some pr \<Rightarrow> unat (fr_end pr) = i"
  shows "chain_frag new prev v fs = Some (v, fs, [])"
  using assms
proof (induction fs arbitrary: i prev v)
  case Nil
  then show ?case by (auto split: option.splits simp: word_unat_eq_iff)
next
  case (Cons f fs)
  have "unat (fr_end f) \<le> unat (fr_start new)" using Cons.prems(1) by (auto dest: contig_le)
  then have "\<not> fr_start new < fr_start f" "fr_start new \<noteq> fr_start f" "\<not> fr_start new < fr_end f"
    using Cons.prems(1) by (auto simp: word_less_nat_alt)
  moreover have "(case prev of None \<Rightarrow> True | Some pr \<Rightarrow> fr_end pr = fr_start f)"
    using Cons.prems by (auto split: option.splits simp: word_unat_eq_iff)
  ultimately show ?case using Cons.prems(1) Cons.IH [of "unat (fr_end f)" "Some f" v] by simp
qed

definition frag_of :: "ip_hdr \<Rightarrow> bufs \<Rightarrow> nat \<Rightarrow> frag" where
  "frag_of h p room = \<lparr>fr_start = frag_offset h, fr_end = frag_offset h + frag_len h, fr_p = p, fr_room = room\<rparr>"

text \<open>The header of a piece.\<close>

abbreviation piece_hdr :: "ip_hdr \<Rightarrow> nat \<Rightarrow> bool \<Rightarrow> u8 list \<Rightarrow> ip_hdr" where
  "piece_hdr h k mf c \<equiv> set_ip_chksum (h\<lparr>iph_offset := (if mf then IP_MF else 0) OR word_of_nat k,
     iph_len := word_of_nat (20 + length c)\<rparr>)"

lemma bit_IP_MF: "bit IP_MF i \<longleftrightarrow> i = 13"
  using bit_exp_iff [of 13 i, where 'a = u16] by (auto simp: IP_MF_def)

lemma piece_offset:
  fixes k :: nat and mf :: bool
  defines "ofs \<equiv> (if mf then IP_MF else 0) OR word_of_nat k :: u16"
  assumes "k < 8192"
  shows "ofs AND IP_OFFMASK = word_of_nat k" "ofs AND IP_MF = 0 \<longleftrightarrow> \<not> mf"
    "ofs AND (IP_OFFMASK OR IP_MF) = 0 \<longleftrightarrow> k = 0 \<and> \<not> mf"
proof -
  have w: "unat (word_of_nat k :: u16) = k" using assms(2) by (simp add: unat_of_nat_small)
  then have t: "(word_of_nat k :: u16) = take_bit 13 (word_of_nat k)"
    using assms(2) by (simp add: word_unat_eq_iff unat_take_bit)
  have m: "IP_OFFMASK = mask 13" by (simp add: IP_OFFMASK_def mask_eq_exp_minus_1)
  have nb: "\<not> bit (word_of_nat k :: u16) 13" by (subst t) (simp add: bit_take_bit_iff)
  have mo: "IP_MF AND IP_OFFMASK = 0" by (simp add: IP_MF_def IP_OFFMASK_def)
  show "ofs AND IP_OFFMASK = word_of_nat k"
    using t mo unfolding ofs_def m by (auto simp: bit.conj_disj_distrib2 take_bit_eq_mask)
  have "word_of_nat k AND IP_MF = (0 :: u16)"
    using nb by (intro bit_eqI) (auto simp: bit_and_iff bit_IP_MF)
  moreover have "IP_MF \<noteq> 0" by (simp add: IP_MF_def)
  ultimately show "ofs AND IP_MF = 0 \<longleftrightarrow> \<not> mf"
    by (auto simp: ofs_def bit.conj_disj_distrib2)
  then show "ofs AND (IP_OFFMASK OR IP_MF) = 0 \<longleftrightarrow> k = 0 \<and> \<not> mf"
    using \<open>ofs AND IP_OFFMASK = word_of_nat k\<close> w by (auto simp: bit.conj_disj_distrib or_eq_0_iff)
qed

lemma frag_of_piece:
  assumes "k < 8192" "8 * k + length c < 65516" "iph_vhl h = 0x45"
  shows "unat (fr_start (frag_of (piece_hdr h k mf c) p room)) = 8 * k"
    "unat (fr_end (frag_of (piece_hdr h k mf c) p room)) = 8 * k + length c"
proof -
  let ?hh = "piece_hdr h k mf c"
  have "frag_offset ?hh = word_of_nat (8 * k)"
    using piece_offset(1) [OF assms(1)] by (simp add: frag_offset_def mult.commute)
  moreover have "frag_len ?hh = word_of_nat (length c)"
    using assms(3) by (simp add: frag_len_def IPH_HL_def)
  ultimately have "fr_start (frag_of ?hh p room) = word_of_nat (8 * k)" "fr_end (frag_of ?hh p room) = word_of_nat (8 * k + length c)"
    by (simp_all add: frag_of_def)
  then show "unat (fr_start (frag_of ?hh p room)) = 8 * k" "unat (fr_end (frag_of ?hh p room)) = 8 * k + length c"
    using assms(2) by (simp_all add: unat_of_nat_small del: of_nat_add of_nat_mult)
qed

subsection \<open>Reassembly in progress\<close>

definition frag_bufs :: "frag list \<Rightarrow> nat" where
  "frag_bufs fs = (\<Sum>f\<leftarrow>fs. length (fr_p f))"

lemma frag_bufs_simps [simp]: "frag_bufs [] = 0" "frag_bufs (f # fs) = length (fr_p f) + frag_bufs fs"
  "frag_bufs (fs @ gs) = frag_bufs fs + frag_bufs gs"
  by (simp_all add: frag_bufs_def)

text \<open>The entry \<^term>\<open>a\<close> has been taken from the pool and holds the fragments \<^term>\<open>fs\<close> of the datagram.\<close>

definition with_frags :: "ip \<Rightarrow> addr \<Rightarrow> addr list \<Rightarrow> ip_hdr \<Rightarrow> frag list \<Rightarrow> ip" where
  "with_frags t a as h fs = t\<lparr>reassdatagrams := a, reass_avail := as,
     reass_mem := (reass_mem t)(a \<mapsto> \<lparr>rd_next = reassdatagrams t, rd_p = fs, rd_iphdr = h, rd_datagram_len = 0,
       rd_flags = 0, rd_timer = IP_REASS_MAXAGE\<rparr>),
     ip_reass_pbufcount := ip_reass_pbufcount t + word_of_nat (frag_bufs fs)\<rparr>"

lemma pbuf_count_small: "length p < 256 \<Longrightarrow> pbuf_count p = length p"
  by (simp add: clen_def unat_of_nat_small)

lemma clen_small: "length p < 256 \<Longrightarrow> ucast (clen (Some p)) = (word_of_nat (length p) :: u16)"
  by (simp add: clen_def word_unat_eq_iff unat_ucast_mod unat_of_nat_small)

lemma reass_first:
  assumes "ip_hdr_of p = Some h" "IPH_HL h = 5" "unat (ip_reass_pbufcount t) + length p \<le> 10" "iph_offset h AND IP_MF \<noteq> 0"
    and "find_reass h (reassdatagrams t) NULL t = Some (NULL, prev)" "reass_avail t = a # as" "a \<noteq> NULL"
  shows "ip_reass p room t = Some (None, with_frags t a as h [frag_of h p room])"
proof -
  have c: "pbuf_count p = length p" "ucast (clen (Some p)) = (word_of_nat (length p) :: u16)"
    using assms(3) by (simp_all add: pbuf_count_small clen_small)
  show ?thesis
    using assms c(1)
    by (simp add: ip_reass_def IP_REASS_MAX_PBUFS_def ip_reass_enqueue_new_datagram_def add_fragment_def reass_insert_def set_reass_def
        ip_reass_chain_frag_into_datagram_and_validate_def with_frags_def frag_of_def c(2))
qed

lemma with_frags_count:
  assumes "unat (ip_reass_pbufcount t) + (frag_bufs fs + n) \<le> 10"
  shows "unat (ip_reass_pbufcount (with_frags t a as h fs)) = unat (ip_reass_pbufcount t) + frag_bufs fs"
  using assms by (simp add: with_frags_def unat_add_small unat_of_nat_small)

lemma find_with_frags:
  assumes "a \<noteq> NULL" "IP_ADDRESSES_AND_ID_MATCH h0 h"
  shows "find_reass h a NULL (with_frags t a as h0 fs) = Some (a, NULL)"
  using assms by (subst find_reass.simps) (simp add: with_frags_def)

lemma reass_next:
  assumes "ip_hdr_of p = Some h" "IPH_HL h = 5" "unat (ip_reass_pbufcount t) + (frag_bufs fs + length p) \<le> 10"
    and "IP_ADDRESSES_AND_ID_MATCH h0 h" "iph_offset h0 AND IP_OFFMASK = 0" "a \<noteq> NULL"
    and "contig 0 fs (unat (fr_start (frag_of h p room)))"
  shows "ip_reass p room (with_frags t a as h0 fs) =
    (if iph_offset h AND IP_MF \<noteq> 0 then Some (None, with_frags t a as h0 (fs @ [frag_of h p room]))
     else finish_datagram a NULL (with_frags t a as h0 (fs @ [frag_of h p room])
       \<lparr>reass_mem := (reass_mem t)(a \<mapsto> \<lparr>rd_next = reassdatagrams t, rd_p = fs @ [frag_of h p room], rd_iphdr = h0,
          rd_datagram_len = fr_end (frag_of h p room), rd_flags = IP_REASS_FLAG_LASTFRAG, rd_timer = IP_REASS_MAXAGE\<rparr>)\<rparr>))"
proof -
  let ?new = "frag_of h p room" and ?t = "with_frags t a as h0 fs"
  let ?t' = "?t\<lparr>ip_reass_pbufcount := ip_reass_pbufcount ?t + ucast (clen (Some p))\<rparr>"
  have c: "pbuf_count p = length p" "ucast (clen (Some p)) = (word_of_nat (length p) :: u16)"
    using assms(3) by (simp_all add: pbuf_count_small clen_small)
  have room: "\<not> unat (ip_reass_pbufcount ?t) + pbuf_count p > IP_REASS_MAX_PBUFS"
    using assms(3) unfolding with_frags_count [OF assms(3)] c IP_REASS_MAX_PBUFS_def by linarith
  have ch: "chain_frag ?new None True fs = Some (True, fs, [])"
    using assms(7) by (intro chain_contig) simp_all
  have hd0: "fr_start (hd (fs @ [?new])) = 0"
    using assms(7) by (cases fs) (auto simp: word_unat_eq_iff)
  have head: "reassdatagrams ?t = a" "reass_mem ?t a = Some \<lparr>rd_next = reassdatagrams t, rd_p = fs, rd_iphdr = h0, rd_datagram_len = 0,
       rd_flags = 0, rd_timer = IP_REASS_MAXAGE\<rparr>"
    by (simp_all add: with_frags_def)
  have "ip_reass p room ?t = add_fragment a NULL h p room ?t"
    using assms(1,2,5,6) room find_with_frags [OF assms(6,4)] head by (simp add: ip_reass_def Let_def)
  also have "\<dots> = (if iph_offset h AND IP_MF \<noteq> 0 then Some (None, with_frags t a as h0 (fs @ [?new]))
     else finish_datagram a NULL (with_frags t a as h0 (fs @ [?new])
       \<lparr>reass_mem := (reass_mem t)(a \<mapsto> \<lparr>rd_next = reassdatagrams t, rd_p = fs @ [?new], rd_iphdr = h0,
          rd_datagram_len = fr_end ?new, rd_flags = IP_REASS_FLAG_LASTFRAG, rd_timer = IP_REASS_MAXAGE\<rparr>)\<rparr>))"
    using assms(1) ch hd0
    by (simp add: add_fragment_def ip_reass_chain_frag_into_datagram_and_validate_def set_reass_def with_frags_def c(2)
        IP_REASS_FLAG_LASTFRAG_def add.assoc flip: frag_of_def) (simp add: frag_of_def)
  finally show ?thesis .
qed

lemma length_hidden: "length (put_ip_hdr h p) = length p" "length (hide_ip_hdr p) = length p"
  by (simp_all add: put_ip_hdr_def hide_ip_hdr_def split: list.splits)

lemma length_join_frags: "fs \<noteq> [] \<Longrightarrow> length (join_frags h fs) = frag_bufs fs"
  by (cases fs) (simp_all add: join_frags_def length_hidden length_concat comp_def frag_bufs_def)

definition frag_ok :: "frag \<Rightarrow> bool" where
  "frag_ok f \<longleftrightarrow> fr_p f \<noteq> [] \<and> 20 \<le> length (hd (fr_p f))"

definition payload_of :: "frag list \<Rightarrow> u8 list" where
  "payload_of fs = concat (map (\<lambda>f. drop 20 (concat (fr_p f))) fs)"

lemma concat_hidden:
  assumes "frag_ok f"
  shows "concat (put_ip_hdr h (fr_p f)) = ip_hdr_bytes h @ drop 20 (concat (fr_p f))"
    "concat (hide_ip_hdr (fr_p f)) = drop 20 (concat (fr_p f))"
  using assms by (cases "fr_p f"; simp add: frag_ok_def put_ip_hdr_def hide_ip_hdr_def)+

lemma join_frags_arrives:
  assumes "fs \<noteq> []" "list_all frag_ok fs"
  shows "arrives (ip_hdr_bytes h @ payload_of fs) (join_frags h fs)"
    "hd (join_frags h fs) = ip_hdr_bytes h @ drop 20 (hd (fr_p (hd fs)))"
proof -
  obtain f gs where fs: "fs = f # gs" "frag_ok f" "list_all frag_ok gs" using assms by (cases fs) auto
  have "concat (map (concat \<circ> hide_ip_hdr \<circ> fr_p) gs) = payload_of gs"
    using fs(3) by (induction gs) (simp_all add: concat_hidden payload_of_def)
  moreover have "concat (concat (map g gs)) = concat (map (concat \<circ> g) gs)" for g :: "frag \<Rightarrow> bufs"
    by (induction gs) simp_all
  ultimately have "concat (join_frags h fs) = ip_hdr_bytes h @ payload_of fs"
    using fs by (simp add: join_frags_def concat_hidden comp_assoc payload_of_def)
  moreover show "hd (join_frags h fs) = ip_hdr_bytes h @ drop 20 (hd (fr_p (hd fs)))"
    using fs by (cases "fr_p f") (simp_all add: join_frags_def put_ip_hdr_def frag_ok_def)
  moreover have "join_frags h fs \<noteq> []" using fs by (cases "fr_p f") (simp_all add: join_frags_def put_ip_hdr_def frag_ok_def)
  ultimately show "arrives (ip_hdr_bytes h @ payload_of fs) (join_frags h fs)" by (simp add: arrives_def)
qed

lemma finish_with_frags:
  assumes "fs \<noteq> []" "frag_bufs fs \<le> 10" "reass_mem t a = None" "reass_avail t = a # as"
  shows "finish_datagram a NULL (with_frags t a as h0 fs
       \<lparr>reass_mem := (reass_mem t)(a \<mapsto> \<lparr>rd_next = reassdatagrams t, rd_p = fs, rd_iphdr = h0,
          rd_datagram_len = len, rd_flags = IP_REASS_FLAG_LASTFRAG, rd_timer = IP_REASS_MAXAGE\<rparr>)\<rparr>)
    = Some (Some (join_frags (set_ip_chksum (h0\<lparr>iph_len := len + IP_HLEN, iph_offset := 0\<rparr>)) fs, fr_room (hd fs)), t)"
proof -
  have "ucast (clen (Some (join_frags h fs))) = (word_of_nat (frag_bufs fs) :: u16)" for h
    using assms(2) length_join_frags [OF assms(1), of h] by (simp add: clen_small)
  moreover have "(reass_mem t)(a := None) = reass_mem t" using assms(3) by (simp add: fun_upd_idem)
  ultimately show ?thesis
    by (simp add: finish_datagram_def ip_reass_dequeue_datagram_def with_frags_def assms(4))
qed

lemma with_frags_sel [simp]: "netifs (with_frags t a as h fs) = netifs t"
  "ip_netif_list (with_frags t a as h fs) = ip_netif_list t" "igmp_group_list (with_frags t a as h fs) = igmp_group_list t"
  "igmp_mem (with_frags t a as h fs) = igmp_mem t"
  by (simp_all add: with_frags_def)

lemma match_with_frags: "match_netif dest inp (with_frags t a as h fs) = match_netif dest inp t"
proof -
  have "match_loop dest inp bs (with_frags t a as h fs) = match_loop dest inp bs t" for bs
    by (induction bs) (simp_all cong: if_cong)
  then show ?thesis by (simp add: match_netif_def igmp_lookfor_group_def cong: if_cong)
qed

lemma accepts_with_frags [simp]: "ip_accepts src dest inp (with_frags t a as h fs) = ip_accepts src dest inp t"
  by (simp add: ip_accepts_def match_with_frags)

subsection \<open>Receiving in order\<close>

fun ip_receive :: "ip_app \<Rightarrow> addr \<Rightarrow> (bufs \<times> nat) list \<Rightarrow> ip \<Rightarrow> (ip_up list \<times> ip) option" where
  "ip_receive app inp [] t = Some ([], t)"
| "ip_receive app inp ((p, room) # ps) t = do {
     (u, t) \<leftarrow> ip_input app p room inp t;
     (us, t) \<leftarrow> ip_receive app inp ps t;
     Some (u # us, t)
   }"

text \<open>The fragment of a piece arrives, trimmed to its length.\<close>

lemma piece_arrives:
  assumes "frag_packet h 0 mtu (k, mf, c) b" "arrives b q" "length b < 65536" "k < 8192" "8 * k + length c < 65516"
    and "iph_vhl h = 0x45" "mf \<or> 0 < k" "ip_accepts (iph_src h) (iph_dest h) inp t"
  defines "p \<equiv> shrink q (iph_len (piece_hdr h k mf c))"
  shows "ip_input app q room inp t = do {
      (r, t) \<leftarrow> ip_reass p room t;
      case r of None \<Rightarrow> Some (Consumed, t) | Some (p, room) \<Rightarrow> ip_dispatch app p room inp t }"
    and "ip_hdr_of p = Some (piece_hdr h k mf c)" "length p \<le> length q" "arrives (ip_hdr_bytes (piece_hdr h k mf c) @ c) p"
proof -
  let ?hh = "piece_hdr h k mf c"
  obtain pad where b: "b = ip_hdr_bytes ?hh @ c @ pad" using assms(1) by (auto simp: frag_packet_def)
  have len: "unat (iph_len ?hh) = 20 + length c"
    using assms(5) by (simp add: unat_of_nat_small del: of_nat_add)
  have t: "take (unat (iph_len ?hh)) b = ip_hdr_bytes ?hh @ c" unfolding len b by simp
  have "20 \<le> unat (iph_len ?hh)" using len by simp
  note s = shrink_arrives [OF assms(2) this assms(3), unfolded t, folded p_def]
  show "arrives (ip_hdr_bytes ?hh @ c) p" "length p \<le> length q" by (rule s)+
  show "ip_hdr_of p = Some ?hh" by (rule arrives_hdr(1) [OF s(1)])
  have ofs: "iph_offset ?hh AND (IP_OFFMASK OR IP_MF) \<noteq> 0" using piece_offset(3) [OF assms(4)] assms(7) by auto
  have "ip_input app q room inp t = ip_deliver app p room inp ?hh t"
    unfolding p_def using assms(2,3,6,8) len
    by (intro ip_input_accepted [where c = "c @ pad"]) (simp_all add: b)
  also have "\<dots> = do {
      (r, t) \<leftarrow> ip_reass p room t;
      case r of None \<Rightarrow> Some (Consumed, t) | Some (p, room) \<Rightarrow> ip_dispatch app p room inp t }"
    using ofs by (simp only: ip_deliver_def if_True not_False_eq_True)
  finally show "ip_input app q room inp t = do {
      (r, t) \<leftarrow> ip_reass p room t;
      case r of None \<Rightarrow> Some (Consumed, t) | Some (p, room) \<Rightarrow> ip_dispatch app p room inp t }" .
qed

lemma piece_frag:
  fixes h :: ip_hdr and k room :: nat and mf :: bool and c :: "u8 list" and p :: bufs
  assumes "k < 8192" "8 * k + length c < 65516" "iph_vhl h = 0x45" "c \<noteq> []" "arrives (ip_hdr_bytes (piece_hdr h k mf c) @ c) p"
  defines "f \<equiv> frag_of (piece_hdr h k mf c) p room"
  shows "contig (8 * k) [f] (8 * k + length c)" "frag_ok f" "payload_of [f] = c" "fr_p f = p"
    and "fr_end f = word_of_nat (8 * k + length c)" "fr_room f = room"
proof -
  note e = frag_of_piece [OF assms(1-3), of mf p room, folded f_def]
  show "fr_p f = p" "fr_room f = room" by (simp_all add: f_def frag_of_def)
  then show "frag_ok f" "payload_of [f] = c" using assms(5) by (auto simp: arrives_def frag_ok_def payload_of_def)
  show "contig (8 * k) [f] (8 * k + length c)" using e assms(4) by simp
  show "fr_end f = word_of_nat (8 * k + length c)" by (rule word_of_natI [OF e(2)])
qed

text \<open>Once the first fragment is there, the others complete the datagram.\<close>

lemma receive_rest:
  assumes "a \<noteq> NULL" "iph_vhl h = 0x45" "ip_accepts (iph_src h) (iph_dest h) inp t" "reass_mem t a = None" "reass_avail t = a # as"
    and "h0 = piece_hdr h 0 True c0" "unat mtu < 65536"
  shows "pieces_of k d ps \<Longrightarrow> list_all2 (frag_packet h 0 (unat mtu)) ps pkts \<Longrightarrow> list_all2 arrives pkts (map fst qs) \<Longrightarrow>
    contig 0 fs (8 * k) \<Longrightarrow> fs \<noteq> [] \<Longrightarrow> 0 < k \<Longrightarrow> list_all frag_ok fs \<Longrightarrow> 8 * k + length d = n \<Longrightarrow> n < 65516 \<Longrightarrow>
    unat (ip_reass_pbufcount t) + (frag_bufs fs + (\<Sum>q\<leftarrow>qs. length (fst q))) \<le> 10 \<Longrightarrow>
    \<exists>r. arrives (ip_hdr_bytes (set_ip_chksum (h0\<lparr>iph_len := word_of_nat n + IP_HLEN, iph_offset := 0\<rparr>)) @ payload_of fs @ d) r
      \<and> drop 20 (hd r) = drop 20 (hd (fr_p (hd fs)))
      \<and> ip_receive app inp qs (with_frags t a as h0 fs) = do {
          (u, t) \<leftarrow> ip_dispatch app r (fr_room (hd fs)) inp t;
          Some (replicate (length qs - 1) Consumed @ [u], t) }"
proof (induction ps arbitrary: k d pkts qs fs)
  case Nil
  then show ?case by (simp add: pieces_of_def)
next
  case (Cons x ps)
  obtain b bs where pk: "pkts = b # bs" "frag_packet h 0 (unat mtu) x b" "list_all2 (frag_packet h 0 (unat mtu)) ps bs"
    using Cons.prems(2) by (auto simp: list_all2_Cons1)
  obtain q room qs' where qs: "qs = (q, room) # qs'" "arrives b q" "list_all2 arrives bs (map fst qs')"
    using Cons.prems(3) unfolding pk(1) by (cases qs) (auto simp: list_all2_Cons1)
  have h0: "iph_offset h0 AND IP_OFFMASK = 0" using piece_offset(1) [of 0 True] assms(6) by simp
  have bl: "length b < 65536" using pk(2) assms(7) by (cases x) (auto simp: frag_packet_def)
  have k: "k < 8192" using Cons.prems(8,9) by linarith
  have m: "IP_ADDRESSES_AND_ID_MATCH h0 (piece_hdr h k mf c)" for mf c
    by (simp add: IP_ADDRESSES_AND_ID_MATCH_def assms(6))
  have hl: "IPH_HL (piece_hdr h k mf c) = 5" for mf c using assms(2) by (simp add: IPH_HL_def)
  have acc: "ip_accepts (iph_src h) (iph_dest h) inp (with_frags t a as h0 fs)" using assms(3) by simp
  let ?t = "with_frags t a as h0 fs"
  from Cons.prems(1) show ?case
  proof (cases rule: pieces_of_cases)
    case 1
    let ?hh = "piece_hdr h k False d"
    let ?p = "shrink q (iph_len ?hh)"
    let ?new = "frag_of ?hh ?p room"
    let ?H = "set_ip_chksum (h0\<lparr>iph_len := word_of_nat n + IP_HLEN, iph_offset := 0\<rparr>)"
    let ?r = "join_frags ?H (fs @ [?new])"
    have len: "8 * k + length d < 65516" using Cons.prems(8,9) by simp
    note i = piece_arrives [OF pk(2) [unfolded 1(2)] qs(2) bl k len assms(2) disjI2 [OF Cons.prems(6)] acc]
    note f = piece_frag [OF k len assms(2) 1(3) i(4), of room]
    have cnt: "unat (ip_reass_pbufcount t) + (frag_bufs fs + length ?p) \<le> 10"
      using Cons.prems(10) i(3) unfolding qs(1) by simp
    have c0: "contig 0 fs (unat (fr_start ?new))" using Cons.prems(4) f(1) by simp
    have last: "iph_offset ?hh AND IP_MF = 0" using piece_offset(2) [OF k, of False] by simp
    have "frag_bufs (fs @ [?new]) \<le> 10" using cnt f(4) by simp
    note fin = finish_with_frags [OF _ this assms(4,5), of h0 "fr_end ?new"]
    have "ip_reass ?p room ?t = Some (Some (?r, fr_room (hd fs)), t)"
      using reass_next [OF i(2) hl cnt m h0 assms(1) c0] fin last Cons.prems(5,8) f(5) by simp
    then have "ip_input app q room inp ?t = ip_dispatch app ?r (fr_room (hd fs)) inp t" by (simp add: i(1))
    moreover have "arrives (ip_hdr_bytes ?H @ payload_of (fs @ [?new])) ?r"
      "hd ?r = ip_hdr_bytes ?H @ drop 20 (hd (fr_p (hd (fs @ [?new]))))"
      using Cons.prems(7) f(2) by (intro join_frags_arrives; simp)+
    moreover have "payload_of (fs @ [?new]) = payload_of fs @ d" using f(3) by (simp add: payload_of_def)
    moreover have "qs' = []" using 1(1) pk(3) qs(3) by simp
    ultimately show ?thesis using Cons.prems(5) by (intro exI [of _ ?r]) (simp add: qs(1))
  next
    case (2 c d')
    let ?hh = "piece_hdr h k True c"
    let ?p = "shrink q (iph_len ?hh)"
    let ?new = "frag_of ?hh ?p room"
    have len: "8 * k + length c < 65516" using Cons.prems(8,9) 2(4) by simp
    note i = piece_arrives [OF pk(2) [unfolded 2(2)] qs(2) bl k len assms(2) disjI2 [OF Cons.prems(6)] acc]
    note f = piece_frag [OF k len assms(2) 2(3) i(4), of room]
    have cnt: "unat (ip_reass_pbufcount t) + (frag_bufs fs + length ?p) \<le> 10"
      using Cons.prems(10) i(3) unfolding qs(1) by simp
    have c0: "contig 0 fs (unat (fr_start ?new))" using Cons.prems(4) f(1) by simp
    have "iph_offset ?hh AND IP_MF \<noteq> 0" using piece_offset(2) [OF k, of True] by simp
    then have "ip_reass ?p room ?t = Some (None, with_frags t a as h0 (fs @ [?new]))"
      using reass_next [OF i(2) hl cnt m h0 assms(1) c0] by simp
    then have inp: "ip_input app q room inp ?t = Some (Consumed, with_frags t a as h0 (fs @ [?new]))" by (simp add: i(1))
    let ?k = "k + length c div 8"
    have k': "8 * ?k = 8 * k + length c" using 2(5) by simp
    have c1: "contig 0 (fs @ [?new]) (8 * ?k)" unfolding k' contig_append using Cons.prems(4) f(1) by blast
    have k1: "0 < ?k" "8 * ?k + length d' = n" using Cons.prems(6,8) k' 2(4) by simp_all
    have ok1: "list_all frag_ok (fs @ [?new])" using Cons.prems(7) f(2) by simp
    have ne: "fs @ [?new] \<noteq> []" by simp
    have cnt1: "unat (ip_reass_pbufcount t) + (frag_bufs (fs @ [?new]) + (\<Sum>q\<leftarrow>qs'. length (fst q))) \<le> 10"
      using Cons.prems(10) i(3) f(4) unfolding qs(1) by simp
    obtain r where r: "arrives (ip_hdr_bytes (set_ip_chksum (h0\<lparr>iph_len := word_of_nat n + IP_HLEN, iph_offset := 0\<rparr>))
        @ payload_of (fs @ [?new]) @ d') r" "drop 20 (hd r) = drop 20 (hd (fr_p (hd (fs @ [?new]))))"
      "ip_receive app inp qs' (with_frags t a as h0 (fs @ [?new])) = do {
          (u, t) \<leftarrow> ip_dispatch app r (fr_room (hd (fs @ [?new]))) inp t;
          Some (replicate (length qs' - 1) Consumed @ [u], t) }"
      using Cons.IH [OF 2(6) pk(3) qs(3) c1 ne k1(1) ok1 k1(2) Cons.prems(9) cnt1] by blast
    have "payload_of (fs @ [?new]) @ d' = payload_of fs @ d" using f(3) 2(4) by (simp add: payload_of_def)
    moreover have "qs' \<noteq> []" using 2(1) pk(3) qs(3) by (auto dest: list_all2_lengthD)
    then obtain j where "length qs' = Suc j" by (cases qs') simp_all
    ultimately show ?thesis
      using r Cons.prems(5) by (intro exI [of _ r]) (simp add: qs(1) inp bind_assoc split_def)
  qed
qed

lemma find_reass_cong:
  assumes "\<And>d. IP_ADDRESSES_AND_ID_MATCH d h \<longleftrightarrow> IP_ADDRESSES_AND_ID_MATCH d h'" "find_reass h r prev t = Some v"
  shows "find_reass h' r prev t = Some v"
proof -
  define P where "P = (\<lambda>g r prev t v. g = h \<longrightarrow> find_reass h' r prev t = Some v)"
  have "P h r prev t v"
  proof (rule find_reass.raw_induct [OF _ assms(2)], goal_cases)
    case (1 self g r prev t v)
    show ?case
      unfolding P_def
    proof
      assume "g = h"
      then show "find_reass h' r prev t = Some v"
        using 1(2) 1(1) by (cases v, subst find_reass.simps) (auto simp: P_def Option.bind_eq_Some_conv assms(1) split: if_splits)
    qed
  qed
  then show ?thesis by (simp add: P_def)
qed

lemma length_hd_shrink:
  assumes "q \<noteq> []" "0 < unat len" "length (concat q) < 65536"
  shows "length (hd (shrink q len)) = min (length (hd q)) (unat len)"
proof (cases "len \<ge> tot_len q")
  case True
  then have "length (concat q) \<le> unat len" using assms(3) by (simp add: word_le_nat_alt unat_tot_len)
  then show ?thesis using True assms(1) by (cases q) (simp_all add: shrink_def)
next
  case False
  then show ?thesis using keep_bufs_head(2) [OF assms(1,2)] by (simp add: shrink_def)
qed

lemma receive_pieces:
  assumes "a \<noteq> NULL" "iph_vhl h = 0x45" "ip_accepts (iph_src h) (iph_dest h) inp t" "reass_mem t a = None" "reass_avail t = a # as"
    and "unat mtu < 65536" "find_reass h (reassdatagrams t) NULL t = Some (NULL, prev)"
    and "pieces_of 0 d ps" "1 < length ps" "list_all2 (frag_packet h 0 (unat mtu)) ps pkts" "list_all2 arrives pkts (map fst qs)"
    and "length d < 65516" "unat (ip_reass_pbufcount t) + (\<Sum>q\<leftarrow>qs. length (fst q)) \<le> 10"
  shows "\<exists>r. arrives (ip_hdr_bytes (set_ip_chksum (h\<lparr>iph_len := word_of_nat (20 + length d), iph_offset := 0\<rparr>)) @ d) r
      \<and> min (length (hd (fst (hd qs)))) (20 + length (snd (snd (hd ps)))) \<le> length (hd r)
      \<and> ip_receive app inp qs t = do {
          (u, t) \<leftarrow> ip_dispatch app r (snd (hd qs)) inp t;
          Some (replicate (length qs - 1) Consumed @ [u], t) }"
proof -
  obtain x ps' where ps: "ps = x # ps'" "ps' \<noteq> []" using assms(9) by (cases ps) auto
  obtain b bs where pk: "pkts = b # bs" "frag_packet h 0 (unat mtu) x b" "list_all2 (frag_packet h 0 (unat mtu)) ps' bs"
    using assms(10) unfolding ps(1) by (auto simp: list_all2_Cons1)
  obtain q room qs' where qs: "qs = (q, room) # qs'" "arrives b q" "list_all2 arrives bs (map fst qs')"
    using assms(11) unfolding pk(1) by (cases qs) (auto simp: list_all2_Cons1)
  have bl: "length b < 65536" using pk(2) assms(6) by (cases x) (auto simp: frag_packet_def)
  from assms(8)[unfolded ps(1)] obtain c d' where x: "x = (0, True, c)" "c \<noteq> []" "d = c @ d'" "8 * (length c div 8) = length c"
    "pieces_of (0 + length c div 8) d' ps'"
    by (cases rule: pieces_of_cases) (use ps(2) in auto)
  let ?hh = "piece_hdr h 0 True c"
  let ?p = "shrink q (iph_len ?hh)"
  let ?new = "frag_of ?hh ?p room"
  let ?H = "set_ip_chksum (?hh\<lparr>iph_len := word_of_nat (length d) + IP_HLEN, iph_offset := 0\<rparr>)"
  have k: "(0 :: nat) < 8192" and len: "8 * 0 + length c < 65516" using assms(12) x(3) by simp_all
  note i = piece_arrives [OF pk(2) [unfolded x(1)] qs(2) bl k len assms(2) disjI1 [OF TrueI] assms(3)]
  note f = piece_frag [OF k len assms(2) x(2) i(4), of room]
  have hl: "IPH_HL ?hh = 5" using assms(2) by (simp add: IPH_HL_def)
  have cnt: "unat (ip_reass_pbufcount t) + length ?p \<le> 10" using assms(13) i(3) unfolding qs(1) by simp
  have mf: "iph_offset ?hh AND IP_MF \<noteq> 0" using piece_offset(2) [OF k, of True] by simp
  have find: "find_reass ?hh (reassdatagrams t) NULL t = Some (NULL, prev)"
    using assms(7) by (rule find_reass_cong [rotated]) (simp add: IP_ADDRESSES_AND_ID_MATCH_def)
  have inp: "ip_input app q room inp t = Some (Consumed, with_frags t a as ?hh [?new])"
    using reass_first [OF i(2) hl cnt mf find assms(5,1)] by (simp add: i(1))
  obtain r where r: "arrives (ip_hdr_bytes ?H @ payload_of [?new] @ d') r" "drop 20 (hd r) = drop 20 (hd (fr_p (hd [?new])))"
      "ip_receive app inp qs' (with_frags t a as ?hh [?new]) = do {
          (u, t) \<leftarrow> ip_dispatch app r (fr_room (hd [?new])) inp t;
          Some (replicate (length qs' - 1) Consumed @ [u], t) }"
  proof -
    have n: "8 * (0 + length c div 8) + length d' = length d" using x(3,4) by simp
    have c1: "contig 0 [?new] (8 * (0 + length c div 8))" using f(1) x(4) by (simp only: mult_0_right add_0)
    have pos: "0 < 0 + length c div 8" using x(2,4) by (cases "length c div 8") simp_all
    have ok: "list_all frag_ok [?new]" using f(2) by simp
    have cnt': "unat (ip_reass_pbufcount t) + (frag_bufs [?new] + (\<Sum>q\<leftarrow>qs'. length (fst q))) \<le> 10"
      using assms(13) i(3) f(4) unfolding qs(1) by simp
    show thesis
      using receive_rest [OF assms(1-5) refl assms(6) x(5) pk(3) qs(3) c1 _ pos ok n assms(12) cnt'] that by blast
  qed
  have "qs' \<noteq> []" using ps(2) pk(3) qs(3) by (auto dest: list_all2_lengthD)
  then obtain j where j: "length qs' = Suc j" by (cases qs') simp_all
  have "ip_receive app inp qs t = do {
          (u, t) \<leftarrow> ip_dispatch app r room inp t;
          Some (replicate (length qs - 1) Consumed @ [u], t) }"
    unfolding qs(1) ip_receive.simps inp bind.bind_lunit prod.case r(3) list.sel f(6)
    by (simp add: bind_assoc split_def j)
  moreover have "?H = set_ip_chksum (h\<lparr>iph_len := word_of_nat (20 + length d), iph_offset := 0\<rparr>)"
    by (simp add: set_ip_chksum_def IP_HLEN_def add.commute)
  moreover have "payload_of [?new] @ d' = d" using f(3) x(3) by simp
  moreover have "min (length (hd q)) (20 + length c) \<le> length (hd r)"
  proof -
    have l: "unat (iph_len ?hh) = 20 + length c" using len by (simp add: unat_of_nat_small del: of_nat_add)
    have q: "q \<noteq> []" "length (concat q) < 65536" using qs(2) bl by (auto simp: arrives_def)
    have "0 < unat (iph_len ?hh)" using l by linarith
    from length_hd_shrink [OF q(1) this q(2)] have "length (hd ?p) = min (length (hd q)) (20 + length c)" by (simp only: l)
    moreover have "length (drop 20 (hd r)) = length (drop 20 (hd ?p))" using r(2) f(4) by simp
    moreover have "20 \<le> length (hd r)" using r(1) by (simp add: arrives_def)
    ultimately show ?thesis unfolding length_drop by linarith
  qed
  ultimately show ?thesis using r(1) by (intro exI [of _ r]) (simp add: qs(1) ps(1) x(1))
qed

subsection \<open>Fragmentation is transparent\<close>

text \<open>An entry of the pool is free, there are buffers left, and the datagram is not in reassembly yet.\<close>

definition ready_for :: "ip_hdr \<Rightarrow> nat \<Rightarrow> ip \<Rightarrow> bool" where
  "ready_for h n t \<longleftrightarrow> unat (ip_reass_pbufcount t) + n \<le> 10
     \<and> (\<exists>a as. reass_avail t = a # as \<and> a \<noteq> NULL \<and> reass_mem t a = None)
     \<and> (\<exists>prev. find_reass h (reassdatagrams t) NULL t = Some (NULL, prev))"

lemma ip_input_whole:
  assumes "arrives (ip_hdr_bytes h @ d) r" "iph_vhl h = 0x45" "chksum (ip_hdr_bytes h) = 0" "iph_offset h AND (IP_OFFMASK OR IP_MF) = 0"
    and "unat (iph_len h) = 20 + length d" "ip_accepts (iph_src h) (iph_dest h) inp t"
  shows "ip_input app r room inp t = ip_dispatch app r room inp t"
proof -
  have l: "length (concat r) = 20 + length d" "length d < 65516"
    using assms(1,5) unat_half [of "iph_len h"] by (simp_all add: arrives_def)
  then have "shrink r (iph_len h) = r" using assms(5) by (simp add: shrink_def word_le_nat_alt unat_tot_len)
  then show ?thesis
    using ip_input_accepted [OF assms(1-3) _ _ l(2) assms(6), of app room] assms(4,5) by (simp add: ip_deliver_def)
qed

lemma ip_frag_received:
  assumes "arrives (ip_hdr_bytes h @ d) p" "h = set_ip_chksum h'" "iph_vhl h = 0x45" "iph_offset h = 0" "unat (iph_len h) = 20 + length d"
    and "netifs s n = Some nif" "28 \<le> unat (netif_mtu nif)" "unat (netif_mtu nif) \<le> 1500" "unat (netif_mtu nif) < 20 + length d"
    and "ip_allocs s = map Some js @ as" "20 + length d < 8 * length js"
    and "ip_accepts (iph_src h) (iph_dest h) inp t"
  shows "\<exists>pkts fb al. ip_frag p n dest s = Some (ERR_OK, s\<lparr>frag_buf := fb, ip_allocs := al, wire := wire s @ map (\<lambda>b. (n, [[], b], dest)) pkts\<rparr>)
    \<and> (\<forall>qs. list_all2 arrives pkts (map fst qs) \<and> ready_for h (\<Sum>q\<leftarrow>qs. length (fst q)) t \<longrightarrow>
      (\<exists>r room. arrives (ip_hdr_bytes h @ d) r \<and> min (length (hd (fst (hd qs)))) (unat (netif_mtu nif) - 7) \<le> length (hd r)
        \<and> ip_receive app inp qs t = do { (u, t) \<leftarrow> ip_input app r room inp t; Some (replicate (length qs - 1) Consumed @ [u], t) }))"
proof -
  let ?mtu = "netif_mtu nif"
  let ?ps = "cut_payload (unat ?mtu - 20) 0 d"
  note hh = arrives_hdr [OF assms(1)]
  have p: "concat p = ip_hdr_bytes h @ d" using assms(1) by (simp add: arrives_def)
  have len: "length d < 65516" using assms(5) unat_half [of "iph_len h"] by simp
  have d: "d \<noteq> []" using assms(7,9) by auto
  obtain pkts fb al where f: "list_all2 (frag_packet h 0 (unat ?mtu)) ?ps pkts"
    "ip_frag p n dest s = Some (ERR_OK, s\<lparr>frag_buf := fb, ip_allocs := al, wire := wire s @ map (\<lambda>b. (n, [[], b], dest)) pkts\<rparr>)"
    using ip_frag_sends [OF hh(1) assms(6-8) _ _ _ assms(10), of dest] assms(4,11) d len by (auto simp: p)
  have c: "?ps = (0, True, take (8 * ((unat ?mtu - 20) div 8)) d) # cut_payload (unat ?mtu - 20) ((unat ?mtu - 20) div 8) (drop (8 * ((unat ?mtu - 20) div 8)) d)"
  proof -
    have "\<not> (length d \<le> unat ?mtu - 20 \<or> unat ?mtu - 20 < 8)" using assms(7,9) by linarith
    then show ?thesis by (subst cut_payload.simps) (simp only: if_False add_0)
  qed
  have many: "1 < length ?ps" unfolding c by (subst cut_payload.simps) simp
  have big: "unat ?mtu < 20 + length (snd (snd (hd ?ps))) + 8"
    using cut_greedy [of "hd ?ps" "unat ?mtu - 20" 0 d] c assms(7) by simp
  have "\<exists>r room. arrives (ip_hdr_bytes h @ d) r \<and> min (length (hd (fst (hd qs)))) (unat ?mtu - 7) \<le> length (hd r)
        \<and> ip_receive app inp qs t = do { (u, t) \<leftarrow> ip_input app r room inp t; Some (replicate (length qs - 1) Consumed @ [u], t) }"
    if q: "list_all2 arrives pkts (map fst qs)" "ready_for h (\<Sum>q\<leftarrow>qs. length (fst q)) t" for qs
  proof -
    obtain a as prev where a: "reass_avail t = a # as" "a \<noteq> NULL" "reass_mem t a = None" "find_reass h (reassdatagrams t) NULL t = Some (NULL, prev)"
      "unat (ip_reass_pbufcount t) + (\<Sum>q\<leftarrow>qs. length (fst q)) \<le> 10"
      using q(2) by (auto simp: ready_for_def)
    have mtu: "unat ?mtu < 65536" using unat_half [of ?mtu] by simp
    have "set_ip_chksum (h\<lparr>iph_len := word_of_nat (20 + length d), iph_offset := 0\<rparr>) = h"
    proof -
      have "iph_len h = word_of_nat (20 + length d)" by (rule word_of_natI [OF assms(5)])
      then have "h\<lparr>iph_len := word_of_nat (20 + length d), iph_offset := 0\<rparr> = h" using assms(4) by (cases h) simp
      then show ?thesis by (simp only: assms(2) set_ip_chksum_overwrites)
    qed
    then obtain r where r: "arrives (ip_hdr_bytes h @ d) r"
      "min (length (hd (fst (hd qs)))) (20 + length (snd (snd (hd ?ps)))) \<le> length (hd r)"
      "ip_receive app inp qs t = do { (u, t) \<leftarrow> ip_dispatch app r (snd (hd qs)) inp t; Some (replicate (length qs - 1) Consumed @ [u], t) }"
      using receive_pieces [OF a(2) assms(3,12) a(3,1) mtu a(4) pieces_of_cut [OF d] many f(1) q(1) len a(5), of app] by auto
    have "chksum (ip_hdr_bytes h) = 0" by (simp add: assms(2))
    then have "ip_input app r (snd (hd qs)) inp t = ip_dispatch app r (snd (hd qs)) inp t"
      using assms(4) by (intro ip_input_whole [OF r(1) assms(3) _ _ assms(5,12)]) simp_all
    then have "ip_receive app inp qs t = do { (u, t) \<leftarrow> ip_input app r (snd (hd qs)) inp t; Some (replicate (length qs - 1) Consumed @ [u], t) }"
      by (simp only: r(3))
    moreover have "min (length (hd (fst (hd qs)))) (unat ?mtu - 7) \<le> length (hd r)" using r(2) big by linarith
    ultimately show ?thesis using r(1) by blast
  qed
  then show ?thesis using f(2) by blast
qed

text \<open>
  Claim C7: the packets \<^verbatim>\<open>ip_frag\<close> cuts a datagram into, received in order through \<^verbatim>\<open>ip_input\<close> in any split into
  buffers of which at most ten wait at a time, have the effect of receiving the datagram itself, and leave nothing in reassembly:
  all but the last are kept, the last hands the whole datagram on.
\<close>

theorem ip_frag_transparent:
  assumes "arrives (ip_hdr_bytes h @ d) p" "h = set_ip_chksum h'" "iph_vhl h = 0x45" "iph_offset h = 0" "unat (iph_len h) = 20 + length d"
    and "netifs s n = Some nif" "28 \<le> unat (netif_mtu nif)" "unat (netif_mtu nif) \<le> 1500" "unat (netif_mtu nif) < 20 + length d"
    and "ip_allocs s = map Some js @ as" "20 + length d < 8 * length js"
    and "ip_accepts (iph_src h) (iph_dest h) inp t"
  shows "\<exists>pkts s'. ip_frag p n dest s = Some (ERR_OK, s') \<and> wire s' = wire s @ map (\<lambda>b. (n, [[], b], dest)) pkts
    \<and> (\<forall>qs. list_all2 arrives pkts (map fst qs) \<and> ready_for h (\<Sum>q\<leftarrow>qs. length (fst q)) t \<longrightarrow>
      (\<exists>r room. arrives (ip_hdr_bytes h @ d) r
        \<and> ip_receive app inp qs t = do { (u, t) \<leftarrow> ip_input app r room inp t; Some (replicate (length qs - 1) Consumed @ [u], t) }))"
  using ip_frag_received [OF assms, of dest app] by fastforce

lemma frag_packet_arrives: "frag_packet h omf m x b \<Longrightarrow> arrives b [b]"
  by (auto simp: frag_packet_def arrives_def split: prod.splits)

definition idle_app :: ip_app where
  "idle_app = \<lparr>on_raw = (\<lambda>_ _ _ _ _ t. (0, t)), on_udp = (\<lambda>_ _ _ _ _ _ t. t)\<rparr>"

definition ip_receiver :: ip where
  "ip_receiver = (ip_sample 1500)\<lparr>netifs := [1 \<mapsto> \<lparr>netif_ip_addr = 0x0100000a, netif_netmask = 0xffffff, netif_flags = 3, netif_mtu = 1500, netif_gw = 0, netif_name = (0, 0), netif_num = 0\<rparr>]\<rparr>"

lemma ip_receiver_ready:
  "ip_accepts 0x0200000a 0x0100000a 1 ip_receiver" "n \<le> 10 \<Longrightarrow> ready_for h n ip_receiver"
proof -
  show "ip_accepts 0x0200000a 0x0100000a 1 ip_receiver"
    by (simp add: ip_accepts_def ip_receiver_def ip_sample_def match_netif_def accepts_def netif_is_up_def ip_addr_isbroadcast_def
        ip_addr_ismulticast_def ip_addr_netcmp_def NETIF_FLAG_UP_def NETIF_FLAG_BROADCAST_def ntohl_def htonl_def)
  show "n \<le> 10 \<Longrightarrow> ready_for h n ip_receiver"
    by (simp add: ready_for_def ip_receiver_def ip_sample_def find_reass.simps)
qed

theorem ip_frag_transparent_witness:
  "\<exists>pkts s r room. ip_frag [ip_hdr_bytes ip_sample_hdr @ [1, 2, 3, 4, 5], [6, 7, 8, 9, 10, 11, 12, 13]] 1 5 (ip_sample 28) = Some (ERR_OK, s)
    \<and> wire s = map (\<lambda>b. (1, [[], b], 5)) pkts \<and> length pkts = 2
    \<and> arrives (ip_hdr_bytes ip_sample_hdr @ [1, 2, 3, 4, 5, 6, 7, 8, 9, 10, 11, 12, 13]) r
    \<and> ip_receive idle_app 1 (map (\<lambda>b. ([b], 0)) pkts) ip_receiver
      = do { (u, t) \<leftarrow> ip_input idle_app r room 1 ip_receiver; Some ([Consumed, u], t) }"
proof -
  let ?d = "[1, 2, 3, 4, 5, 6, 7, 8, 9, 10, 11, 12, 13] :: u8 list"
  let ?p = "[ip_hdr_bytes ip_sample_hdr @ [1, 2, 3, 4, 5], [6, 7, 8, 9, 10, 11, 12, 13]]"
  let ?app = idle_app
  have h: "iph_vhl ip_sample_hdr = 0x45" "iph_offset ip_sample_hdr = 0" "iph_len ip_sample_hdr = 33"
    "iph_src ip_sample_hdr = 0x0200000a" "iph_dest ip_sample_hdr = 0x0100000a"
    by (simp_all add: ip_sample_hdr_def)
  have p: "arrives (ip_hdr_bytes ip_sample_hdr @ ?d) ?p" by (simp add: arrives_def)
  have a: "ip_allocs (ip_sample 28) = map Some (replicate 16 []) @ []" by (simp add: ip_sample_def numeral_eq_Suc)
  have acc: "ip_accepts (iph_src ip_sample_hdr) (iph_dest ip_sample_hdr) 1 ip_receiver" by (simp add: h ip_receiver_ready)
  have w: "wire (ip_sample 28) = []" by (simp add: ip_sample_def)
  obtain pkts s where f: "ip_frag ?p 1 5 (ip_sample 28) = Some (ERR_OK, s)" "wire s = map (\<lambda>b. (1, [[], b], 5)) pkts"
    "\<And>qs. list_all2 arrives pkts (map fst qs) \<Longrightarrow> ready_for ip_sample_hdr (\<Sum>q\<leftarrow>qs. length (fst q)) ip_receiver \<Longrightarrow>
      \<exists>r room. arrives (ip_hdr_bytes ip_sample_hdr @ ?d) r
        \<and> ip_receive ?app 1 qs ip_receiver = do { (u, t) \<leftarrow> ip_input ?app r room 1 ip_receiver; Some (replicate (length qs - 1) Consumed @ [u], t) }"
    using ip_frag_transparent [OF p ip_sample_hdr_def h(1,2) _ ip_sample_netif _ _ _ a _ acc, of 5 ?app] by (simp add: h w) blast
  obtain pkts' where g: "list_all2 (frag_packet ip_sample_hdr 0 28) (cut_payload 8 0 ?d) pkts'" "wire s = map (\<lambda>b. (1, [[], b], 5)) pkts'"
    using ip_frag_sends [of ?p, OF ip_hdr_of_bytes ip_sample_netif _ _ _ _ _ a, of 5] f(1) by (simp add: h w) auto
  have "inj (\<lambda>b. (1 :: addr, [[], b :: u8 list], 5 :: u32))" by (simp add: inj_def)
  then have e: "pkts' = pkts" using f(2) g(2) by (simp add: inj_map_eq_map)
  have c: "cut_payload 8 0 ?d = [(0, True, [1, 2, 3, 4, 5, 6, 7, 8]), (1, False, [9, 10, 11, 12, 13])]"
    by (subst cut_payload.simps, simp, subst cut_payload.simps, simp)
  have n: "length pkts = 2" using list_all2_lengthD [OF g(1)] unfolding c e by simp
  have "list_all2 arrives pkts (map fst (map (\<lambda>b. ([b], 0 :: nat)) pkts))"
    using g(1) unfolding c e by (auto simp: list_all2_Cons1 frag_packet_arrives)
  moreover have "ready_for ip_sample_hdr (\<Sum>q\<leftarrow>map (\<lambda>b. ([b], 0 :: nat)) pkts. length (fst q)) ip_receiver"
    using n by (intro ip_receiver_ready) (simp add: comp_def sum_list_triv)
  ultimately show ?thesis using f(3) [of "map (\<lambda>b. ([b], 0)) pkts"] f(1,2) n by (simp add: comp_def) blast
qed

subsection \<open>Output\<close>

text \<open>The packets the driver has been given between two states.\<close>

definition sent_packets :: "ip \<Rightarrow> ip \<Rightarrow> u8 list list" where
  "sent_packets s s' = map (concat \<circ> fst \<circ> snd) (drop (length (wire s)) (wire s'))"

lemma build_ip_hdr_sel [simp]:
  "iph_vhl (build_ip_hdr len i src dest life ts proto nif) = 0x45" "iph_offset (build_ip_hdr len i src dest life ts proto nif) = 0"
  "iph_len (build_ip_hdr len i src dest life ts proto nif) = len" "iph_proto (build_ip_hdr len i src dest life ts proto nif) = proto"
  "iph_dest (build_ip_hdr len i src dest life ts proto nif) = dest"
  "src \<noteq> 0 \<Longrightarrow> iph_src (build_ip_hdr len i src dest life ts proto nif) = src"
  "IPH_HL (build_ip_hdr len i src dest life ts proto nif) = 5"
  "chksum (ip_hdr_bytes (build_ip_hdr len i src dest life ts proto nif)) = 0"
  by (simp_all add: build_ip_hdr_def IPH_HL_def)

lemma ip_output_builds:
  fixes src dest :: u32 and life ts proto :: u8 and b :: "u8 list" and bs :: bufs and s :: ip and nif :: netif
  assumes "ip_route_netif dest s = Some n" "n \<noteq> NULL" "netifs s n = Some nif" "20 \<le> room"
  defines "h \<equiv> build_ip_hdr (word_of_nat (20 + length (concat (b # bs)))) (ip_id s) src dest life ts proto nif"
  shows "ip_output_pbuf (b # bs) room src dest life ts proto s =
    (if netif_mtu nif \<noteq> 0 \<and> tot_len ((ip_hdr_bytes h @ b) # bs) > netif_mtu nif
     then ip_frag ((ip_hdr_bytes h @ b) # bs) n dest (s\<lparr>ip_id := ip_id s + 1\<rparr>)
     else Some (netif_output n ((ip_hdr_bytes h @ b) # bs) dest (s\<lparr>ip_id := ip_id s + 1\<rparr>)))"
proof -
  have "tot_len (b # bs) + IP_HLEN = word_of_nat (20 + length (concat (b # bs)))" by (simp add: tot_len_def IP_HLEN_def add.commute)
  then show ?thesis using assms(1-4) by (simp add: ip_output_pbuf_def ip_output_if_def h_def Let_def)
qed

lemma ip_output_received:
  fixes life ts proto :: u8 and src dest :: u32 and p :: bufs and nif :: netif and s t :: ip and inp :: addr
  assumes "ip_route_netif dest s = Some n" "n \<noteq> NULL" "netifs s n = Some nif" "20 \<le> room" "p \<noteq> []" "length (concat p) < 65516" "src \<noteq> 0"
    and "netif_mtu nif = 0 \<or> 20 + length (concat p) \<le> unat (netif_mtu nif) \<or> 28 \<le> unat (netif_mtu nif) \<and> unat (netif_mtu nif) \<le> 1500"
    and "ip_allocs s = map Some js @ as" "20 + length (concat p) < 8 * length js"
    and "ip_accepts src dest inp t"
  defines "h \<equiv> build_ip_hdr (word_of_nat (20 + length (concat p))) (ip_id s) src dest life ts proto nif"
  shows "\<exists>e s'. ip_output_pbuf p room src dest life ts proto s = Some (e, s')
    \<and> (\<forall>qs. list_all2 arrives (sent_packets s s') (map fst qs) \<and> ready_for h (\<Sum>q\<leftarrow>qs. length (fst q)) t \<longrightarrow>
      (\<exists>r room. arrives (ip_hdr_bytes h @ concat p) r
        \<and> (length (hd r) = length (hd (fst (hd qs))) \<or> netif_mtu nif \<noteq> 0 \<and> min (length (hd (fst (hd qs)))) (unat (netif_mtu nif) - 7) \<le> length (hd r))
        \<and> ip_receive app inp qs t = do { (u, t) \<leftarrow> ip_dispatch app r room inp t; Some (replicate (length qs - 1) Consumed @ [u], t) }))"
proof -
  obtain b bs where p: "p = b # bs" using assms(5) by (cases p) auto
  let ?p = "(ip_hdr_bytes h @ b) # bs" and ?s = "s\<lparr>ip_id := ip_id s + 1\<rparr>"
  have a: "arrives (ip_hdr_bytes h @ concat p) ?p" by (simp add: arrives_def p)
  have o: "ip_output_pbuf p room src dest life ts proto s =
    (if netif_mtu nif \<noteq> 0 \<and> tot_len ?p > netif_mtu nif then ip_frag ?p n dest ?s else Some (netif_output n ?p dest ?s))"
    unfolding h_def p by (rule ip_output_builds [OF assms(1-4)])
  have t: "unat (tot_len ?p) = 20 + length (concat p)" using assms(6) by (simp add: unat_tot_len p)
  have len: "unat (iph_len h) = 20 + length (concat p)" using assms(6) by (simp add: h_def unat_of_nat_small del: of_nat_add)
  have acc: "ip_accepts (iph_src h) (iph_dest h) inp t" using assms(7,11) by (simp add: h_def)
  have ip: "ip_input app r room inp t = ip_dispatch app r room inp t" if "arrives (ip_hdr_bytes h @ concat p) r" for r room
    using ip_input_whole [OF that _ _ _ len acc] by (simp add: h_def)
  show ?thesis
  proof (cases "netif_mtu nif \<noteq> 0 \<and> tot_len ?p > netif_mtu nif")
    case True
    then have m: "unat (netif_mtu nif) < 20 + length (concat p)" "28 \<le> unat (netif_mtu nif)" "unat (netif_mtu nif) \<le> 1500"
      using assms(8) t by (auto simp: word_less_nat_alt)
    have "h = set_ip_chksum \<lparr>iph_vhl = 0x45, iph_tos = ts, iph_len = word_of_nat (20 + length (concat p)), iph_id = ip_id s, iph_offset = 0,
      iph_ttl = life, iph_proto = proto, iph_chksum = 0, iph_src = (if src = 0 then netif_ip_addr nif else src), iph_dest = dest\<rparr>"
      by (simp only: h_def build_ip_hdr_def)
    from ip_frag_received [OF a this _ _ len _ m(2,3,1) _ assms(10) acc, of ?s n as dest app] assms(3,9)
    obtain pkts fb al where f: "ip_frag ?p n dest ?s = Some (ERR_OK,
        ?s\<lparr>frag_buf := fb, ip_allocs := al, wire := wire s @ map (\<lambda>b. (n, [[], b], dest)) pkts\<rparr>)"
      "\<And>qs. list_all2 arrives pkts (map fst qs) \<Longrightarrow> ready_for h (\<Sum>q\<leftarrow>qs. length (fst q)) t \<Longrightarrow>
      \<exists>r room. arrives (ip_hdr_bytes h @ concat p) r \<and> min (length (hd (fst (hd qs)))) (unat (netif_mtu nif) - 7) \<le> length (hd r)
        \<and> ip_receive app inp qs t = do { (u, t) \<leftarrow> ip_input app r room inp t; Some (replicate (length qs - 1) Consumed @ [u], t) }"
      by (auto simp: h_def)
    let ?s' = "?s\<lparr>frag_buf := fb, ip_allocs := al, wire := wire s @ map (\<lambda>b. (n, [[], b], dest)) pkts\<rparr>"
    have "sent_packets s ?s' = pkts" by (simp add: sent_packets_def comp_def)
    moreover have "ip_output_pbuf p room src dest life ts proto s = Some (ERR_OK, ?s')" unfolding o using True f(1) by simp
    ultimately show ?thesis using f(2) ip True by (intro exI [of _ ERR_OK] exI [of _ ?s']) (metis (no_types, lifting))
  next
    case False
    let ?s' = "snd (netif_output n ?p dest ?s)"
    have "sent_packets s ?s' = [ip_hdr_bytes h @ concat p]" by (simp add: sent_packets_def netif_output_def p)
    moreover have "ip_output_pbuf p room src dest life ts proto s = Some (fst (netif_output n ?p dest ?s), ?s')"
      unfolding o if_not_P [OF False] by simp
    ultimately show ?thesis using ip
      by (intro exI conjI) (assumption, auto simp: list_all2_Cons1, blast)
  qed
qed

end
