(* ===== verification/Ip_Reply.thy ===== *)
theory Ip_Reply
  imports Ip_Round
begin

section \<open>IP: forwarding and ICMP\<close>

text \<open>
  \<^verbatim>\<open>ip_forward\<close> and the echo reply change a packet and adjust its checksum by the difference; the lemmas show when
  the result is the checksum of the changed packet.
\<close>

subsection \<open>Incremental checksums\<close>

lemma chksum_zero_iff: "chksum bs = 0 \<longleftrightarrow> 0 < le_sum bs \<and> le_sum bs mod 65535 = 0"
proof -
  let ?n = "le_sum bs"
  have "unat (chksum bs) = 65535 - ones_complement ?n"
    using ones_complement_less [of ?n] by (simp add: chksum_def rfc1071_def not_half unat_of_nat_small)
  then have "chksum bs = 0 \<longleftrightarrow> ones_complement ?n = 65535"
    using ones_complement_less [of ?n] by (simp add: word_unat_eq_iff) linarith
  also have "\<dots> \<longleftrightarrow> 0 < ?n \<and> ?n mod 65535 = 0"
  proof (cases ?n)
    case (Suc m)
    have "m mod 65535 = 65534 \<longleftrightarrow> Suc m mod 65535 = 0" by (simp add: mod_Suc)
    then show ?thesis by (simp add: ones_complement_def Suc)
  qed (simp add: ones_complement_def)
  finally show ?thesis .
qed

text \<open>Adding \<^term>\<open>k\<close> with the end-around carry, as the code does when the sum loses \<^term>\<open>k\<close>.\<close>

definition bump :: "u16 \<Rightarrow> u16 \<Rightarrow> u16" where
  "bump k c = (if c \<ge> 0xffff - k then c + k + 1 else c + k)"

lemma unat_bump:
  assumes "0 < unat k"
  shows "unat (bump k c) + (if 65535 - unat k \<le> unat c then 65535 else 0) = unat c + unat k"
proof -
  have k: "unat (0xffff - k) = 65535 - unat k"
    using unat_half [of k] by (subst unat_sub) (simp_all add: word_le_nat_alt)
  show ?thesis
  proof (cases "65535 - unat k \<le> unat c")
    case True
    have "unat (c + k + 1) = (unat c + unat k + 1) mod 65536" by (simp add: unat_word_ariths mod_simps)
    also have "\<dots> = unat c + unat k + 1 - 65536"
      using True unat_half [of c] unat_half [of k] by (intro mod_below_double) linarith+
    finally show ?thesis using True k by (simp add: bump_def word_le_nat_alt)
  next
    case False
    then have "unat (c + k) = unat c + unat k" by (intro unat_add_small) simp
    then show ?thesis using False k by (simp add: bump_def word_le_nat_alt)
  qed
qed

lemma bump_keeps_sum:
  assumes "0 < unat k" "n = m + unat k + unat c"
  shows "(m + unat (bump k c)) mod 65535 = n mod 65535"
proof -
  have "m + unat (bump k c) + (if 65535 - unat k \<le> unat c then 65535 else 0) = n"
    using unat_bump [OF assms(1), of c] assms(2) by simp
  then have "n mod 65535 = (m + unat (bump k c) + (if 65535 - unat k \<le> unat c then 65535 else 0)) mod 65535" by simp
  then show ?thesis by simp
qed

lemma forward_chksum_bump: "forward_chksum c = bump 1 c"
  by (simp add: forward_chksum_def bump_def htons_def)

lemma echo_chksum_bump: "echo_chksum c = bump 8 c"
  by (simp add: echo_chksum_def bump_def htons_def)

subsection \<open>Forwarding\<close>

text \<open>The sum of a header by the fields that change.\<close>

definition rest_sum :: "ip_hdr \<Rightarrow> nat" where
  "rest_sum h = le_sum (ip_hdr_bytes (h\<lparr>iph_ttl := 0, iph_chksum := 0\<rparr>))"

lemma le_sum_ttl: "le_sum (ip_hdr_bytes h) = rest_sum h + unat (iph_ttl h) + unat (iph_chksum h)"
proof -
  have "le_sum (ip_hdr_bytes (h\<lparr>iph_chksum := 0\<rparr>)) = rest_sum h + unat (iph_ttl h)"
    by (simp add: rest_sum_def ip_hdr_bytes_def be_bytes16_def le_bytes32_def)
  then show ?thesis using le_sum_ip_hdr_bytes [of h] by simp
qed

lemma rest_sum_cong [simp]: "rest_sum (h\<lparr>iph_ttl := x\<rparr>) = rest_sum h" "rest_sum (h\<lparr>iph_chksum := y\<rparr>) = rest_sum h"
  by (simp_all add: rest_sum_def)

lemma rest_sum_pos: "IPH_V h = 4 \<Longrightarrow> 0 < rest_sum h"
proof -
  assume "IPH_V h = 4"
  then have "iph_vhl h \<noteq> 0" by (auto simp: IPH_V_def)
  then show ?thesis by (simp add: rest_sum_def ip_hdr_bytes_def unat_gt_0)
qed

text \<open>
  Claim C12: \<^verbatim>\<open>ip_forward\<close> sends a packet that has a route to another interface on with its time to live one lower and
  nothing else changed but the checksum, which is valid again; a packet whose time to live ends is not sent on.
  But a packet that arrives with time to live 0 is sent on with 255, and its checksum is wrong.
\<close>

theorem ip_forward_adjusts:
  assumes "ip_hdr_of p = Some h" "IPH_V h = 4" "chksum (ip_hdr_bytes h) = 0"
    and "ip_route_netif (iph_dest h) s = Some n" "n \<noteq> NULL" "n \<noteq> inp"
  defines "h' \<equiv> h\<lparr>iph_ttl := iph_ttl h - 1, iph_chksum := forward_chksum (iph_chksum h)\<rparr>"
  shows "(1 < iph_ttl h \<longrightarrow> chksum (ip_hdr_bytes h') = 0)
    \<and> (iph_ttl h = 1 \<longrightarrow> iph_proto h = IP_PROTO_ICMP \<longrightarrow> ip_forward p inp s = Some (NULL, s))
    \<and> (iph_ttl h \<noteq> 1 \<longrightarrow> (\<exists>s'. ip_forward p inp s = Some (n, s') \<and> wire s' = wire s @ [(n, put_ip_hdr h' p, iph_dest h)]))
    \<and> (iph_ttl h = 0 \<longrightarrow> iph_ttl h' = 255 \<and> chksum (ip_hdr_bytes h') \<noteq> 0)"
proof -
  let ?k = "1 :: u16"
  have sum': "le_sum (ip_hdr_bytes h') = rest_sum h + unat (iph_ttl h - 1) + unat (bump 1 (iph_chksum h))"
    by (simp add: le_sum_ttl h'_def forward_chksum_bump)
  have z: "le_sum (ip_hdr_bytes h) mod 65535 = 0" using assms(3) by (simp add: chksum_zero_iff)
  have "chksum (ip_hdr_bytes h') = 0" if "1 < iph_ttl h"
  proof -
    have t: "unat (iph_ttl h) = unat (iph_ttl h - 1) + 1" using that by (subst unat_sub) (auto simp: word_le_nat_alt word_less_nat_alt)
    have "le_sum (ip_hdr_bytes h') mod 65535 = le_sum (ip_hdr_bytes h) mod 65535"
      unfolding sum' by (rule bump_keeps_sum) (simp_all add: le_sum_ttl t)
    then show ?thesis using z rest_sum_pos [OF assms(2)] by (simp add: chksum_zero_iff sum')
  qed
  moreover have m1: "unat (0 - 1 :: u8) = 255" by code_simp
  moreover have "iph_ttl h' = 255 \<and> chksum (ip_hdr_bytes h') \<noteq> 0" if "iph_ttl h = 0"
  proof -
    have "(rest_sum h + unat (bump 1 (iph_chksum h))) mod 65535 = (le_sum (ip_hdr_bytes h) + 1) mod 65535"
      by (rule bump_keeps_sum) (simp_all add: le_sum_ttl that)
    then have "(rest_sum h + unat (bump 1 (iph_chksum h)) + 255) mod 65535 = (le_sum (ip_hdr_bytes h) + 1 + 255) mod 65535"
      by (rule mod_add_cong) simp
    also have "\<dots> = (le_sum (ip_hdr_bytes h) mod 65535 + 256) mod 65535" by (simp only: mod_add_left_eq add.assoc) simp
    finally have "le_sum (ip_hdr_bytes h') mod 65535 = 256" unfolding sum' that m1 by (simp add: z add.assoc add.commute [of 255])
    then show ?thesis by (simp add: chksum_zero_iff h'_def that)
  qed
  moreover have "iph_ttl h - 1 = 0 \<longleftrightarrow> iph_ttl h = 1" by simp
  ultimately show ?thesis
    using assms(1,4-6) by (auto simp: ip_forward_def h'_def netif_output_def Let_def)
qed

lemma ip_sample_hdr_sel: "iph_vhl ip_sample_hdr = 0x45" "iph_ttl ip_sample_hdr = 64" "iph_proto ip_sample_hdr = 6"
  "iph_src ip_sample_hdr = 0x0200000a" "iph_dest ip_sample_hdr = 0x0100000a" "IPH_V ip_sample_hdr = 4" "IPH_HL ip_sample_hdr = 5"
  by (simp_all add: ip_sample_hdr_def IPH_V_def IPH_HL_def)

lemma ip_sample_route: "ip_route_netif 0x0100000a (ip_sample mtu) = Some 1"
  by (simp add: ip_route_netif_def ip_sample_def netif_is_up_def NETIF_FLAG_UP_def ip_addr_netcmp_def)

theorem ip_forward_adjusts_witness:
  "\<exists>s h'. ip_forward [ip_hdr_bytes ip_sample_hdr @ [1, 2, 3]] 2 (ip_sample 1500) = Some (1, s)
    \<and> wire s = [(1, [ip_hdr_bytes h' @ [1, 2, 3]], 0x0100000a)] \<and> iph_ttl h' = 63 \<and> chksum (ip_hdr_bytes h') = 0"
proof -
  have c: "chksum (ip_hdr_bytes ip_sample_hdr) = 0" by (simp add: ip_sample_hdr_def)
  have w: "wire (ip_sample 1500) = []" by (simp add: ip_sample_def)
  show ?thesis
    using ip_forward_adjusts [of "[ip_hdr_bytes ip_sample_hdr @ [1, 2, 3]]", OF ip_hdr_of_bytes ip_sample_hdr_sel(6) c, of "ip_sample 1500" 1 2]
    by (simp add: ip_sample_hdr_sel ip_sample_route w put_ip_hdr_def)
      (erule conjE, erule exE, rule exI, rule conjI, erule conjunct1,
       rule exI [of _ "ip_sample_hdr\<lparr>iph_ttl := 63, iph_chksum := forward_chksum (iph_chksum ip_sample_hdr)\<rparr>"], simp)
qed

subsection \<open>The checksum of a packet in ICMP\<close>

lemma pbuf_sum_loop_bufs:
  assumes "chain (pbufs h) p qs" "unat acc < 65536" "rep (unat acc) n"
  defines "bs \<equiv> map (\<lambda>q. payload_bytes (pmem h) (cell (pbufs h) q)) qs"
  shows "\<exists>acc'. pbuf_sum_loop p acc (if odd k then 1 else 0) h = Some (acc', if odd (k + length (filter (\<lambda>b. odd (length b)) bs)) then 1 else 0)
    \<and> unat acc' < 65536 \<and> rep (unat acc') (n + sum_list (map le_sum bs))"
  using assms(1-3) unfolding bs_def
proof (induction qs arbitrary: p acc n k)
  case Nil
  then show ?case by (subst pbuf_sum_loop.simps) simp
next
  case (Cons q qs)
  then obtain b where b: "pbufs h q = Some b" and p: "p = q" "q \<noteq> NULL" "chain (pbufs h) (pb_next b) qs"
    by (auto split: option.splits)
  let ?acc = "fold_carry (acc + ucast (lwip_standard_chksum1 (pmem h) (pb_payload b) (pb_len b)))"
  note c = acc_chunk [OF Cons.prems(2,3), of "pmem h" "pb_payload b" "pb_len b"]
  have m: "(?acc AND push_bit 8 0x00ff) OR (?acc AND drop_bit 8 0xff00) = ?acc" by (rule misplaced_shift [OF c(1)])
  have "pbuf_sum_loop p acc (if odd k then 1 else 0) h
      = pbuf_sum_loop (pb_next b) ?acc (if odd (k + (if odd (unat (pb_len b)) then 1 else 0)) then 1 else 0) h"
    using b p m by (subst pbuf_sum_loop.simps) (auto simp: Let_def odd_half)
  then show ?case
    using Cons.IH [OF p(3) c, of "k + (if odd (unat (pb_len b)) then 1 else 0)"] b
    by (cases "odd (unat (pb_len b))") (simp_all add: payload_bytes_def add.assoc)
qed

text \<open>The function on buffers is the one on the heap.\<close>

lemma inet_chksum_pbuf_bufs:
  assumes "chain (pbufs h) p qs"
  shows "inet_chksum_pbuf p h = Some (chksum_pbuf (map (\<lambda>q. payload_bytes (pmem h) (cell (pbufs h) q)) qs))"
proof -
  let ?bs = "map (\<lambda>q. payload_bytes (pmem h) (cell (pbufs h) q)) qs"
  obtain acc where a: "pbuf_sum_loop p 0 0 h = Some (acc, if odd (length (filter (\<lambda>b. odd (length b)) ?bs)) then 1 else 0)"
    "unat acc < 65536" "rep (unat acc) (sum_list (map le_sum ?bs))"
    using pbuf_sum_loop_bufs [OF assms, of 0 0 0] by auto
  have "unat acc = ones_complement (sum_list (map le_sum ?bs))" by (rule rep_less_eq [OF a(3,2)])
  then have "(word_of_nat (ones_complement (sum_list (map le_sum ?bs))) :: u16) = word_of_nat (unat acc)" by (simp only:)
  also have "\<dots> = ucast acc" by simp
  finally show ?thesis
    using a(1) unfolding inet_chksum_pbuf_def chksum_pbuf_def Let_def not_low_half by (simp add: ucast_swap_bytes32)
qed

lemma chksum_pbuf_single: "chksum_pbuf [b] = 0 \<longleftrightarrow> chksum b = 0"
proof -
  have "NOT (htons x) = 0 \<longleftrightarrow> NOT x = 0" for x
  proof -
    have "htons (- 1) = - 1" by (simp add: htons_def)
    then have "htons x = - 1 \<longleftrightarrow> x = - 1" by (metis htons_htons)
    moreover have "NOT y = 0 \<longleftrightarrow> y = - 1" for y :: u16 by (metis bit.compl_zero bit.double_compl)
    ultimately show ?thesis by simp
  qed
  then show ?thesis by (simp add: chksum_pbuf_def chksum_def rfc1071_def)
qed

subsection \<open>Echo\<close>

abbreviation le_bytes16 :: "u16 \<Rightarrow> u8 list" where "le_bytes16 w \<equiv> [ucast w, ucast (drop_bit 8 w)]"

lemma le_sum_le_bytes16: "le_sum (le_bytes16 w @ xs) = unat w + le_sum xs"
proof -
  have "unat (ucast w :: u8) + 256 * unat (ucast (drop_bit 8 w) :: u8) = unat w"
    using unat_half [of w] by (simp add: unat_ucast_mod unat_drop_bit)
  then show ?thesis by simp
qed

lemma echo_reply_fields:
  "echo_reply (20 + length opts) (ip_hdr_bytes h @ opts @ [8, code] @ le_bytes16 c @ i) =
    Some (ip_hdr_bytes (set_ip_chksum (h\<lparr>iph_src := iph_dest h, iph_dest := iph_src h, iph_ttl := ICMP_TTL\<rparr>))
      @ opts @ [0, code] @ le_bytes16 (echo_chksum c) @ i)"
proof -
  let ?h = "h\<lparr>iph_src := iph_dest h, iph_dest := iph_src h\<rparr>" and ?n = "20 + length opts"
  let ?p = "ip_hdr_bytes ?h @ opts"
  have n: "length ?p = ?n" by simp
  have upd: "(?p @ x # xs)[?n := y] = ?p @ y # xs" for x y xs unfolding n [symmetric] by (simp only: list_update_length)
  have upd2: "le_put16 (?n + 2) w (?p @ a # b # x # y # xs) = ?p @ a # b # ucast w # ucast (drop_bit 8 w) # xs" for w a b x y xs
    unfolding le_put16_def by (simp add: list_update_append)
  have get: "le_get16 (?p @ a # b # ucast c # ucast (drop_bit 8 c) # i) (?n + 2) = Some c" for a b
    by (simp add: le_get16_def get16_def elem_def nth_append join_chksum)
  show ?thesis
    using get [of 8 code] upd [of 8 "code # ucast c # ucast (drop_bit 8 c) # i" 0]
      upd2 [of "echo_chksum c" 0 code "ucast c" "ucast (drop_bit 8 c)" i]
    by (simp add: echo_reply_def ICMP_ER_def set_ip_chksum_def)
qed

text \<open>The sum over an ICMP message by its type and checksum.\<close>

lemma le_sum_message: "le_sum ([ty, code] @ le_bytes16 c @ i) = 256 * unat code + le_sum i + unat ty + unat c"
  using le_sum_le_bytes16 [of c i] by simp

lemma echo_chksum_valid:
  assumes "chksum ([8, code] @ le_bytes16 c @ i) = 0"
  shows "chksum ([0, code] @ le_bytes16 (echo_chksum c) @ i) = 0 \<longleftrightarrow> code \<noteq> 0 \<or> le_sum i \<noteq> 0"
proof -
  let ?m = "256 * unat code + le_sum i"
  have n: "le_sum ([8, code] @ le_bytes16 c @ i) = ?m + unat (8 :: u16) + unat c" by (simp add: le_sum_message del: append.simps)
  have n': "le_sum ([0, code] @ le_bytes16 (echo_chksum c) @ i) = ?m + unat (bump 8 c)"
    by (simp add: le_sum_message echo_chksum_bump del: append.simps)
  have mod: "(?m + unat (bump 8 c)) mod 65535 = 0"
    using bump_keeps_sum [OF _ n] assms by (simp add: chksum_zero_iff del: append.simps)
  have "0 < ?m + unat (bump 8 c) \<longleftrightarrow> code \<noteq> 0 \<or> le_sum i \<noteq> 0"
  proof (cases "code = 0 \<and> le_sum i = 0")
    case True
    then have "(8 + unat c) mod 65535 = 0" using assms unfolding chksum_zero_iff n by simp
    then obtain k where "8 + unat c = 65535 * k" by (auto simp: mod_eq_0_iff_dvd elim: dvdE)
    moreover from this have "k = 1" using unat_half [of c] by simp
    ultimately have "unat c = 65527" by simp
    then have "unat (bump 8 c) + 65535 = 65535" using unat_bump [of 8 c] by simp
    then show ?thesis using True by simp
  qed (auto simp: unat_gt_0)
  then show ?thesis using mod unfolding chksum_zero_iff n' by simp
qed

lemma options_chksum:
  assumes "chksum (ip_hdr_bytes h) = 0"
  shows "chksum (ip_hdr_bytes h @ opts) = 0 \<longleftrightarrow> 65535 dvd le_sum opts"
proof -
  have "le_sum (ip_hdr_bytes h @ opts) = le_sum (ip_hdr_bytes h) + le_sum opts" by (rule le_sum_append) simp
  moreover have "(le_sum (ip_hdr_bytes h) + le_sum opts) mod 65535 = le_sum opts mod 65535"
    using assms mod_add_left_eq [of "le_sum (ip_hdr_bytes h)" 65535 "le_sum opts"] by (simp add: chksum_zero_iff)
  ultimately show ?thesis using assms by (simp add: chksum_zero_iff dvd_eq_mod_eq_0)
qed

lemma ip_output_if_hdrincl:
  assumes "netifs s n = Some nif" "ip_hdr_of r = Some h" "\<not> (netif_mtu nif \<noteq> 0 \<and> tot_len r > netif_mtu nif)"
  shows "ip_output_if r room src None life ts proto n s = Some (netif_output n r (iph_dest h) s)"
  unfolding ip_output_if_def assms(1,2) bind.bind_lunit Let_def option.case by (rule if_not_P [OF assms(3)])

lemma icmp_input_echo:
  assumes "netifs s inp = Some nif" "get_ip_hdr b = Some h" "hlen = 4 * IPH_HL h" "drop hlen b = ICMP_ECHO # y" "q = (ICMP_ECHO # y) # bs"
    and "\<not> tot_len q < 8" "\<not> ip_addr_isbroadcast (iph_dest h) nif" "\<not> ip_addr_ismulticast (iph_dest h)"
    and "chksum_pbuf q = 0" "34 \<le> room + hlen" "echo_reply hlen b = Some b'"
    and "ip_output_if (b' # bs) 0 (iph_dest h) None ICMP_TTL 0 IP_PROTO_ICMP inp s = Some (e, s')"
  shows "icmp_input (b # bs) room inp s = Some s'"
proof -
  have "\<not> hlen > length b" using assms(4) by (metis drop_all list.distinct(1) less_imp_le)
  moreover have "\<not> tot_len q < 4" using assms(6) by (auto simp: word_less_nat_alt)
  ultimately show ?thesis
    using assms(1,2,6-12) unfolding assms(3) [symmetric]
    by (simp add: icmp_input_def Let_def assms(4) echo_packet_def elem_def flip: assms(3,5))
qed

text \<open>
  Claim C13: \<^verbatim>\<open>icmp_input\<close> answers an echo request with the same message as a reply, sent back with the addresses exchanged
  and the checksums adjusted.  The header checksum covers 20 bytes only: a reply to a request with IP options passes the
  receiver's test just when the options add up to zero.  The ICMP checksum of the reply is right, unless all other bytes
  of the message are zero: then it is 0 where it must be 0xffff.
\<close>

theorem icmp_echo_answers:
  fixes c :: u16
  assumes "p = (ip_hdr_bytes h @ opts @ [8, code] @ le_bytes16 c @ i) # bs" "4 * IPH_HL h = 20 + length opts" "4 \<le> length i"
    and "netifs s inp = Some nif" "\<not> ip_addr_isbroadcast (iph_dest h) nif" "\<not> ip_addr_ismulticast (iph_dest h)"
    and "chksum_pbuf (([8, code] @ le_bytes16 c @ i) # bs) = 0" "chksum (concat (([8, code] @ le_bytes16 c @ i) # bs)) = 0"
    and "length (concat p) < 65536" "14 \<le> room + length opts" "netif_mtu nif = 0 \<or> length (concat p) \<le> unat (netif_mtu nif)"
  shows "\<exists>s' h' msg. icmp_input p room inp s = Some s' \<and> wire s' = wire s @ [(inp, (ip_hdr_bytes h' @ opts @ msg) # bs, iph_src h)]
    \<and> h' = set_ip_chksum (h\<lparr>iph_src := iph_dest h, iph_dest := iph_src h, iph_ttl := 255\<rparr>)
    \<and> msg = [0, code] @ le_bytes16 (echo_chksum c) @ i
    \<and> (chksum (ip_hdr_bytes h' @ opts) = 0 \<longleftrightarrow> 65535 dvd le_sum opts)
    \<and> (chksum (concat (msg # bs)) = 0 \<longleftrightarrow> code \<noteq> 0 \<or> le_sum (i @ concat bs) \<noteq> 0)"
proof -
  let ?msg = "[0, code] @ le_bytes16 (echo_chksum c) @ i" and ?req = "[8, code] @ le_bytes16 c @ i"
  let ?h = "set_ip_chksum (h\<lparr>iph_src := iph_dest h, iph_dest := iph_src h, iph_ttl := 255\<rparr>)"
  let ?r = "(ip_hdr_bytes ?h @ opts @ ?msg) # bs"
  have q: "drop (4 * IPH_HL h) (hd p) # bs = ?req # bs" using assms(1,2) by simp
  have l: "length (concat p) = 20 + length opts + length (concat (?req # bs))" using assms(1) by simp
  have "unat (tot_len (?req # bs)) = length (concat (?req # bs))" using assms(9) l by (intro unat_tot_len) linarith
  then have t: "\<not> tot_len (?req # bs) < 4" "\<not> tot_len (?req # bs) < 8"
    using assms(3) by (simp_all add: word_less_nat_alt)
  have "length (concat ?r) = length (concat p)" using assms(1) by simp
  then have "unat (tot_len ?r) = length (concat p)" using assms(9) by (subst unat_tot_len) simp_all
  then have mtu: "\<not> (netif_mtu nif \<noteq> 0 \<and> tot_len ?r > netif_mtu nif)" using assms(11) by (auto simp: word_less_nat_alt)
  have rep: "echo_reply (20 + length opts) (ip_hdr_bytes h @ opts @ ?req) = Some (ip_hdr_bytes ?h @ opts @ ?msg)"
    using echo_reply_fields [of opts h code c i] by (simp add: ICMP_TTL_def)
  have "iph_dest ?h = iph_src h" by simp
  then have out: "ip_output_if ?r 0 (iph_dest h) None ICMP_TTL 0 IP_PROTO_ICMP inp s
      = Some (fst (netif_output inp ?r (iph_src h) s), snd (netif_output inp ?r (iph_src h) s))"
    using ip_output_if_hdrincl [OF assms(4) ip_hdr_of_bytes mtu, of 0 "iph_dest h" ICMP_TTL 0 IP_PROTO_ICMP] by (simp only: prod.collapse)
  have req: "drop (20 + length opts) (ip_hdr_bytes h @ opts @ ?req) = ICMP_ECHO # code # le_bytes16 c @ i"
    by (simp add: ICMP_ECHO_def)
  have "icmp_input p room inp s = Some (snd (netif_output inp ?r (iph_src h) s))"
    unfolding assms(1)
    by (rule icmp_input_echo [OF assms(4) get_ip_hdr_bytes assms(2) [symmetric] req refl _ assms(5,6) _ _ rep out])
      (use t(2) assms(7,10) in \<open>simp_all add: ICMP_ECHO_def\<close>)
  then show ?thesis
    using options_chksum [of ?h opts] echo_chksum_valid [of code c "i @ concat bs"] assms(8)
    by (intro exI [of _ "snd (netif_output inp ?r (iph_src h) s)"] exI [of _ ?h] exI [of _ ?msg]) (simp add: netif_output_def)
qed

definition echo_hdr :: ip_hdr where
  "echo_hdr = \<lparr>iph_vhl = 0x46, iph_tos = 0, iph_len = 32, iph_id = 9, iph_offset = 0, iph_ttl = 64, iph_proto = 1,
     iph_chksum = 0, iph_src = 0x0200000a, iph_dest = 0x0100000a\<rparr>"

text \<open>A request with the router alert option.\<close>

theorem icmp_echo_answers_witness:
  "\<exists>s h msg. icmp_input [ip_hdr_bytes echo_hdr @ [148, 4, 0, 0] @ [8, 0] @ le_bytes16 64759 @ [0, 1, 0, 2]] 14 1 ip_receiver = Some s
    \<and> wire s = [(1, [ip_hdr_bytes h @ [148, 4, 0, 0] @ msg], 0x0200000a)] \<and> iph_dest h = 0x0200000a
    \<and> chksum (ip_hdr_bytes h @ [148, 4, 0, 0]) \<noteq> 0 \<and> chksum msg = 0"
proof -
  let ?i = "[0, 1, 0, 2] :: u8 list"
  have h: "4 * IPH_HL echo_hdr = 20 + length [148 :: u8, 4, 0, 0]" "iph_dest echo_hdr = 0x0100000a" "iph_src echo_hdr = 0x0200000a"
    by (simp_all add: echo_hdr_def IPH_HL_def)
  have n: "netifs ip_receiver 1 = Some \<lparr>netif_ip_addr = 0x0100000a, netif_netmask = 0xffffff, netif_flags = 3, netif_mtu = 1500, netif_gw = 0, netif_name = (0, 0), netif_num = 0\<rparr>"
    "wire ip_receiver = []"
    by (simp_all add: ip_receiver_def ip_sample_def)
  have u: "\<not> ip_addr_isbroadcast (iph_dest echo_hdr) \<lparr>netif_ip_addr = 0x0100000a, netif_netmask = 0xffffff, netif_flags = 3, netif_mtu = 1500, netif_gw = 0, netif_name = (0, 0), netif_num = 0\<rparr>"
    "\<not> ip_addr_ismulticast (iph_dest echo_hdr)"
    by (simp_all add: h ip_addr_isbroadcast_def ip_addr_ismulticast_def NETIF_FLAG_BROADCAST_def ntohl_def htonl_def)
  have c: "chksum ([8, 0] @ le_bytes16 64759 @ ?i) = 0"
    unfolding chksum_zero_iff le_sum_message by simp
  have o': "\<not> 65535 dvd le_sum [148, 4, 0, 0]" by simp
  have d: "chksum_pbuf [[8, 0] @ le_bytes16 64759 @ ?i] = 0" "chksum (concat [[8, 0] @ le_bytes16 64759 @ ?i]) = 0"
    using c by (simp_all add: chksum_pbuf_single del: append.simps)
  have l: "length (concat [ip_hdr_bytes echo_hdr @ [148, 4, 0, 0] @ [8, 0] @ le_bytes16 64759 @ ?i]) = 32" by simp
  obtain s h' msg where r: "icmp_input [ip_hdr_bytes echo_hdr @ [148, 4, 0, 0] @ [8, 0] @ le_bytes16 64759 @ ?i] 14 1 ip_receiver = Some s"
      "wire s = [] @ [(1, [ip_hdr_bytes h' @ [148, 4, 0, 0] @ msg], iph_src echo_hdr)]"
      "h' = set_ip_chksum (echo_hdr\<lparr>iph_src := iph_dest echo_hdr, iph_dest := iph_src echo_hdr, iph_ttl := 255\<rparr>)"
      "chksum (ip_hdr_bytes h' @ [148, 4, 0, 0]) = 0 \<longleftrightarrow> 65535 dvd le_sum [148, 4, 0, 0]"
      "chksum (concat [msg]) = 0 \<longleftrightarrow> (0 :: u8) \<noteq> 0 \<or> le_sum (?i @ concat []) \<noteq> 0"
    using icmp_echo_answers [OF refl h(1) _ n(1) u d, of 14] l unfolding n(2) by (auto simp del: append.simps)
  have "iph_dest h' = 0x0200000a" using r(3) h(3) by simp
  moreover have "chksum (ip_hdr_bytes h' @ [148, 4, 0, 0]) \<noteq> 0" using r(4) o' by blast
  moreover have "chksum msg = 0" using r(5) by simp
  ultimately show ?thesis using r(1,2) h(3) by (intro exI [of _ s] exI [of _ h'] exI [of _ msg]) (simp del: append.simps(2))
qed

end
