(* ===== verification/Ip_Limits.thy ===== *)
theory Ip_Limits
  imports Ip_Reply
begin

section \<open>IP: where reassembly and the error messages go wrong\<close>

text \<open>
  The branches of the IP code that do not keep what the code around them relies on: the fragment inserted in the middle
  of a datagram, the removal of the oldest datagram, and the copy of a received packet into an error message.
\<close>

subsection \<open>A hole in front of an inserted fragment\<close>

lemma frag_offset_zero: "iph_offset h AND IP_OFFMASK = 0 \<Longrightarrow> frag_offset h = 0"
  by (simp add: frag_offset_def)

lemma ip_reass_found:
  assumes "ip_hdr_of p = Some h" "IPH_HL h = 5" "unat (ip_reass_pbufcount s) + length p \<le> 10"
    and "find_reass h (reassdatagrams s) NULL s = Some (a, prev)" "a \<noteq> NULL" "reass_mem s a = Some d" "iph_offset h AND IP_OFFMASK \<noteq> 0"
  shows "ip_reass p room s = add_fragment a prev h p room s"
proof -
  have "pbuf_count p = length p" using assms(3) by (simp add: pbuf_count_small)
  then show ?thesis using assms by (simp add: ip_reass_def IP_REASS_MAX_PBUFS_def)
qed

text \<open>
  Claim C33: a fragment that ends where the next one starts completes the datagram although bytes in front of it are missing:
  when a fragment is inserted in the middle, \<^verbatim>\<open>ip_reass_chain_frag_into_datagram_and_validate\<close> never compares its start with the end of the
  fragment before it.  The datagram is delivered with the length of the whole in its header and the data moved together.
\<close>

theorem ip_reass_accepts_hole:
  assumes "reassdatagrams s = a" "a \<noteq> NULL" "reass_mem s a = Some d" "rd_p d = [f, g]" "IP_ADDRESSES_AND_ID_MATCH (rd_iphdr d) h"
    and "has (rd_flags d) IP_REASS_FLAG_LASTFRAG" "frag_ok f" "frag_ok g" "fr_start f = 0"
    and "arrives (ip_hdr_bytes h @ x) p" "IPH_HL h = 5" "iph_offset h AND IP_MF \<noteq> 0" "unat (ip_reass_pbufcount s) + length p \<le> 10"
    and "fr_end f \<le> frag_offset h" "0 < frag_offset h" "frag_offset h < fr_start g" "frag_offset h + frag_len h = fr_start g"
  shows "\<exists>r s' h'. ip_reass p room s = Some (Some (r, fr_room f), s') \<and> reassdatagrams s' = rd_next d
    \<and> iph_len h' = rd_datagram_len d + 20
    \<and> concat r = ip_hdr_bytes h' @ drop 20 (concat (fr_p f)) @ x @ drop 20 (concat (fr_p g))"
proof -
  let ?new = "frag_of h p room"
  let ?s = "s\<lparr>ip_reass_pbufcount := ip_reass_pbufcount s + ucast (clen (Some p))\<rparr>"
  note hp = arrives_hdr [OF assms(10)]
  have new: "fr_start ?new = frag_offset h" "fr_end ?new = fr_start g" "fr_p ?new = p" using assms(17) by (simp_all add: frag_of_def)
  have "find_reass h a NULL s = Some (a, NULL)" using assms(2,3,5) by (subst find_reass.simps) simp
  then have "ip_reass p room s = add_fragment a NULL h p room s"
    using assms(15) frag_offset_zero [of h] by (intro ip_reass_found [OF hp(1) assms(11,13) _ assms(2,3)]) (auto simp: assms(1))
  moreover have ch: "chain_frag ?new None True [f, g] = Some (True, [f], [g])"
    using assms(9,14-16) new by (auto simp: not_less)
  moreover have "ip_reass_chain_frag_into_datagram_and_validate a p room ?s = Some (True, set_reass a (d\<lparr>rd_p := [f, ?new, g]\<rparr>) ?s)"
    using ch assms(3,4,6,9) new hp(1)
    by (simp add: ip_reass_chain_frag_into_datagram_and_validate_def flip: frag_of_def)
  ultimately have e: "ip_reass p room s = finish_datagram a NULL (set_reass a (d\<lparr>rd_p := [f, ?new, g]\<rparr>) ?s)"
    using assms(3,12) by (simp add: add_fragment_def)
  have "frag_ok ?new" using hp(3,4) by (simp add: frag_ok_def new)
  then have "concat (join_frags hh [f, ?new, g]) = ip_hdr_bytes hh @ payload_of [f, ?new, g]" for hh
    using join_frags_arrives(1) [of "[f, ?new, g]" hh] assms(7,8) by (simp add: arrives_def)
  moreover have "payload_of [f, ?new, g] = drop 20 (concat (fr_p f)) @ x @ drop 20 (concat (fr_p g))"
    using assms(10) by (simp add: payload_of_def new arrives_def)
  ultimately show ?thesis
    unfolding e using assms(1)
    by (intro exI conjI, simp add: finish_datagram_def ip_reass_dequeue_datagram_def set_reass_def IP_HLEN_def Let_def) auto
qed

text \<open>A datagram of 32 bytes of data of which the first 8, the last 8 and then the bytes from 16 to 24 arrive.\<close>

definition hole_hdr :: "u16 \<Rightarrow> ip_hdr" where
  "hole_hdr ofs = ip_sample_hdr\<lparr>iph_len := 28, iph_offset := ofs\<rparr>"

definition hole_frag :: "u16 \<Rightarrow> u16 \<Rightarrow> frag" where
  "hole_frag i ofs = \<lparr>fr_start = i, fr_end = i + 8, fr_p = [ip_hdr_bytes (hole_hdr ofs) @ replicate 8 1], fr_room = 14\<rparr>"

definition hole_data :: ip_reassdata where
  "hole_data = \<lparr>rd_next = NULL, rd_p = [hole_frag 0 0x2000, hole_frag 24 3], rd_iphdr = hole_hdr 0x2000, rd_datagram_len = 32,
     rd_flags = 1, rd_timer = 3\<rparr>"

definition hole_state :: ip where
  "hole_state = (ip_sample 1500)\<lparr>reassdatagrams := 1, reass_mem := [1 \<mapsto> hole_data], reass_avail := [2, 3, 4, 5], ip_reass_pbufcount := 2\<rparr>"

theorem ip_reass_accepts_hole_witness:
  "\<exists>r s' h'. ip_reass [ip_hdr_bytes (hole_hdr 0x2002) @ replicate 8 2] 14 hole_state = Some (Some (r, 14), s')
    \<and> iph_len h' = 52 \<and> concat r = ip_hdr_bytes h' @ replicate 8 1 @ replicate 8 2 @ replicate 8 1"
proof -
  let ?f = "hole_frag 0 0x2000" and ?g = "hole_frag 24 3" and ?p = "[ip_hdr_bytes (hole_hdr 0x2002) @ replicate 8 2]"
  have s: "reassdatagrams hole_state = 1" "(1 :: addr) \<noteq> NULL" "reass_mem hole_state 1 = Some hole_data" "rd_p hole_data = [?f, ?g]"
    "unat (ip_reass_pbufcount hole_state) + length ?p \<le> 10"
    by (simp_all add: hole_state_def hole_data_def)
  have fg: "fr_start ?f = 0" "fr_end ?f = 8" "fr_start ?g = 24" "fr_room ?f = 14" "frag_ok ?f" "frag_ok ?g"
    "drop 20 (concat (fr_p ?f)) = replicate 8 1" "drop 20 (concat (fr_p ?g)) = replicate 8 1"
    by (simp_all add: hole_frag_def frag_ok_def del: replicate.simps)
  have h: "IPH_HL (hole_hdr 0x2002) = 5" "iph_offset (hole_hdr 0x2002) AND IP_MF \<noteq> 0" "frag_offset (hole_hdr 0x2002) = 16"
    "frag_len (hole_hdr 0x2002) = 8" "rd_datagram_len hole_data = 32"
    by (simp_all add: hole_hdr_def ip_sample_hdr_def IPH_HL_def IP_MF_def IP_OFFMASK_def frag_offset_def frag_len_def hole_data_def)
  have m: "IP_ADDRESSES_AND_ID_MATCH (rd_iphdr hole_data) (hole_hdr 0x2002)" "has (rd_flags hole_data) IP_REASS_FLAG_LASTFRAG"
    by (simp_all add: hole_data_def hole_hdr_def IP_ADDRESSES_AND_ID_MATCH_def IP_REASS_FLAG_LASTFRAG_def)
  have p: "arrives (ip_hdr_bytes (hole_hdr 0x2002) @ replicate 8 2) ?p" by (simp add: arrives_def)
  show ?thesis
    using ip_reass_accepts_hole [OF s(1-4) m fg(5,6,1) p h(1,2) s(5), of 14] h(3-5) fg
    by (simp del: replicate.simps) blast
qed

subsection \<open>Removing the oldest datagram\<close>

text \<open>The search up to the oldest entry: the victim so far is not older.\<close>

lemma oldest_front:
  assumes "linked rd_next (reass_mem s) r (xs @ b # ys)"
    and "\<forall>x\<in>set xs. \<exists>d. reass_mem s x = Some d \<and> (IP_ADDRESSES_AND_ID_MATCH (rd_iphdr d) h \<or> t \<le> rd_timer d)"
    and "v = NULL \<or> (\<exists>e. reass_mem s v = Some e \<and> t \<le> rd_timer e)"
  shows "\<exists>v' q' k'. oldest_loop h r v q k s = oldest_loop h b v' q' k' s \<and> (v' = NULL \<or> (\<exists>e. reass_mem s v' = Some e \<and> t \<le> rd_timer e))"
  using assms
proof (induction xs arbitrary: r v q k)
  case Nil
  then show ?case by auto
next
  case (Cons x xs)
  from Cons.prems(1) obtain d where d: "r = x" "x \<noteq> NULL" "reass_mem s x = Some d" "linked rd_next (reass_mem s) (rd_next d) (xs @ b # ys)" by auto
  let ?q = "if rd_next d \<noteq> NULL then x else q"
  let ?m = "IP_ADDRESSES_AND_ID_MATCH (rd_iphdr d) h"
  have step: "oldest_loop h r v q k s = (if ?m then oldest_loop h (rd_next d) v ?q k s
      else oldest_loop h (rd_next d) (if v = NULL \<or> rd_timer d \<le> rd_timer (the (reass_mem s v)) then x else v) ?q (k + 1) s)"
    using d Cons.prems(3) by (subst oldest_loop.simps) auto
  have v: "\<not> ?m \<Longrightarrow> t \<le> rd_timer d" using Cons.prems(2) d(3) by auto
  show ?case
  proof (cases ?m)
    case True
    then show ?thesis using step Cons.IH [OF d(4) _ Cons.prems(3)] Cons.prems(2) by simp
  next
    case False
    let ?v = "if v = NULL \<or> rd_timer d \<le> rd_timer (the (reass_mem s v)) then x else v"
    have "?v = NULL \<or> (\<exists>e. reass_mem s ?v = Some e \<and> t \<le> rd_timer e)" using v [OF False] d(3) Cons.prems(3) by auto
    then show ?thesis using step False Cons.IH [OF d(4), of ?v ?q "k + 1"] Cons.prems(2) by simp
  qed
qed

text \<open>The search behind the oldest entry: it stays the victim, and the last entry with a successor is at or behind it.\<close>

lemma oldest_behind:
  assumes "linked rd_next (reass_mem s) r ys" "reass_mem s b = Some db" "b \<noteq> NULL"
    and "\<forall>x\<in>set ys. \<exists>d. reass_mem s x = Some d \<and> (IP_ADDRESSES_AND_ID_MATCH (rd_iphdr d) h \<or> rd_timer db < rd_timer d)"
  shows "\<exists>q' k'. oldest_loop h r b q k s = Some (b, q', k') \<and> (q' = q \<or> q' \<in> set ys)"
  using assms
proof (induction ys arbitrary: r q k)
  case Nil
  then show ?case by (subst oldest_loop.simps) simp
next
  case (Cons x ys)
  from Cons.prems(1) obtain d where d: "r = x" "x \<noteq> NULL" "reass_mem s x = Some d" "linked rd_next (reass_mem s) (rd_next d) ys" by auto
  have "\<exists>q1 k1. oldest_loop h r b q k s = oldest_loop h (rd_next d) b q1 k1 s \<and> (q1 = q \<or> q1 = x)"
    using d Cons.prems(2-4) by (subst oldest_loop.simps) auto
  then obtain q1 k1 where q1: "oldest_loop h r b q k s = oldest_loop h (rd_next d) b q1 k1 s" "q1 = q \<or> q1 = x" by blast
  have "\<exists>q' k'. oldest_loop h (rd_next d) b q1 k1 s = Some (b, q', k') \<and> (q' = q1 \<or> q' \<in> set ys)"
    using Cons.IH [OF d(4) Cons.prems(2,3)] Cons.prems(4) by simp
  then show ?case using q1 by auto
qed

lemma oldest_in_the_middle:
  assumes "linked rd_next (reass_mem s) r (xs @ b # ys)" "ys \<noteq> []" "reass_mem s b = Some db" "\<not> IP_ADDRESSES_AND_ID_MATCH (rd_iphdr db) h"
    and "\<forall>x\<in>set xs. \<exists>d. reass_mem s x = Some d \<and> (IP_ADDRESSES_AND_ID_MATCH (rd_iphdr d) h \<or> rd_timer db \<le> rd_timer d)"
    and "\<forall>x\<in>set ys. \<exists>d. reass_mem s x = Some d \<and> (IP_ADDRESSES_AND_ID_MATCH (rd_iphdr d) h \<or> rd_timer db < rd_timer d)"
  shows "\<exists>q k. oldest_loop h r NULL NULL 0 s = Some (b, q, k) \<and> q \<in> set (b # ys)"
proof -
  obtain v q k where v: "oldest_loop h r NULL NULL 0 s = oldest_loop h b v q k s" "v = NULL \<or> (\<exists>e. reass_mem s v = Some e \<and> rd_timer db \<le> rd_timer e)"
    using oldest_front [OF assms(1,5), of NULL NULL 0] by auto
  have l: "b \<noteq> NULL" "linked rd_next (reass_mem s) (rd_next db) ys" "rd_next db \<noteq> NULL"
    using linked_from [OF assms(1)] assms(2,3) by auto
  have "oldest_loop h b v q k s = oldest_loop h (rd_next db) b b (k + 1) s"
    using v(2) l assms(3,4) by (subst oldest_loop.simps) auto
  then show ?thesis using v(1) oldest_behind [OF l(2) assms(3) l(1) assms(6), of b "k + 1"] by auto
qed

lemma find_reass_dangles:
  assumes "linked rd_next (reass_mem s) r (xs @ b # ys)" "\<forall>x\<in>set xs. reass_mem s' x = reass_mem s x" "reass_mem s' b = None"
    and "\<forall>x\<in>set xs. \<forall>d. reass_mem s x = Some d \<longrightarrow> \<not> IP_ADDRESSES_AND_ID_MATCH (rd_iphdr d) h"
  shows "find_reass h r q s' = None"
  using assms
proof (induction xs arbitrary: r q)
  case Nil
  then show ?case by (subst find_reass.simps) auto
next
  case (Cons x xs)
  then obtain d where "r = x" "x \<noteq> NULL" "reass_mem s x = Some d" "linked rd_next (reass_mem s) (rd_next d) (xs @ b # ys)" by auto
  then show ?case using Cons.prems Cons.IH by (subst find_reass.simps) auto
qed

text \<open>
  Claim C34: \<^verbatim>\<open>ip_reass_remove_oldest_datagram\<close> takes for the predecessor of the oldest of the other datagrams the last
  entry that has a successor.  When the oldest is neither the first nor the last entry, and its first fragment has not arrived
  (so no message is sent about it), it is released but the entry in front of it still links to it: the entry that is unlinked
  from is the oldest itself or one behind it.  When moreover the fragment that made room necessary belongs to no entry in front
  of the oldest, and the buffers released are enough for it, \<^verbatim>\<open>ip_reass\<close> follows the link to the released entry.
\<close>

theorem ip_reass_evicts_dangling:
  assumes "linked rd_next (reass_mem s) (reassdatagrams s) (as @ a # b # bs)" "bs \<noteq> []"
    and "reass_mem s b = Some db" "\<not> IP_ADDRESSES_AND_ID_MATCH (rd_iphdr db) h"
    and "\<forall>x\<in>set (as @ [a]). \<exists>d. reass_mem s x = Some d \<and> (IP_ADDRESSES_AND_ID_MATCH (rd_iphdr d) h \<or> rd_timer db \<le> rd_timer d)"
    and "\<forall>x\<in>set bs. \<exists>d. reass_mem s x = Some d \<and> (IP_ADDRESSES_AND_ID_MATCH (rd_iphdr d) h \<or> rd_timer db < rd_timer d)"
    and "rd_p db = f # fs" "fr_start f \<noteq> 0" "freed = (\<Sum>g\<leftarrow>f # fs. pbuf_count (fr_p g))" "n \<le> freed"
  shows "\<exists>s' da. ip_reass_remove_oldest_datagram h n s = Some (freed, s') \<and> reassdatagrams s' = reassdatagrams s
    \<and> reass_mem s' a = Some da \<and> rd_next da = b \<and> reass_mem s' b = None
    \<and> (\<forall>p room. ip_hdr_of p = Some h \<and> IPH_HL h = 5 \<and> n = pbuf_count p \<and> 0 < n
        \<and> freed \<le> unat (ip_reass_pbufcount s) \<and> unat (ip_reass_pbufcount s) + n \<in> {11..freed + 10}
        \<and> (\<forall>x\<in>set (as @ [a]). \<forall>d. reass_mem s x = Some d \<longrightarrow> \<not> IP_ADDRESSES_AND_ID_MATCH (rd_iphdr d) h)
      \<longrightarrow> ip_reass p room s = None)"
proof -
  have l: "linked rd_next (reass_mem s) (reassdatagrams s) ((as @ [a]) @ b # bs)" using assms(1) by simp
  obtain q k where q: "oldest_loop h (reassdatagrams s) NULL NULL 0 s = Some (b, q, k)" "q \<in> set (b # bs)"
    using oldest_in_the_middle [OF l assms(2-6)] by blast
  have d: "distinct (as @ a # b # bs)" "b \<noteq> NULL" using linked_distinct [OF assms(1)] linked_in_store [OF assms(1)] by auto
  have hb: "reassdatagrams s \<noteq> b" using linked_hd [OF assms(1)] d(1) by (cases as) auto
  obtain e where e: "reass_mem s q = Some e" using linked_in_store [OF assms(1), of q] q(2) by auto
  obtain da where da: "reass_mem s a = Some da" "rd_next da = b" using linked_from [OF assms(1)] by auto
  define s' where "s' = s\<lparr>reass_mem := (reass_mem s)(q \<mapsto> e\<lparr>rd_next := rd_next db\<rparr>, b := None), reass_avail := b # reass_avail s,
    ip_reass_pbufcount := ip_reass_pbufcount s - word_of_nat freed\<rparr>"
  have s': "reassdatagrams s' = reassdatagrams s" "\<forall>x\<in>set (as @ [a]). reass_mem s' x = reass_mem s x" "reass_mem s' b = None"
    using d(1) q(2) by (auto simp: s'_def)
  have "ip_reass_free_complete_datagram b q s = Some (freed, s')"
    using assms(3,7-9) hb e
    by (auto simp: ip_reass_free_complete_datagram_def ip_reass_dequeue_datagram_def set_reass_def Let_def s'_def)
  then have r: "ip_reass_remove_oldest_datagram h n s = Some (freed, s')"
    using q(1) d(2) assms(10) by (simp add: ip_reass_remove_oldest_datagram_def remove_oldest_loop.simps)
  have "ip_reass p room s = None"
    if "ip_hdr_of p = Some h" "IPH_HL h = 5" "n = pbuf_count p" "0 < n" "freed \<le> unat (ip_reass_pbufcount s)"
      "unat (ip_reass_pbufcount s) + n \<in> {11..freed + 10}"
      "\<forall>x\<in>set (as @ [a]). \<forall>d. reass_mem s x = Some d \<longrightarrow> \<not> IP_ADDRESSES_AND_ID_MATCH (rd_iphdr d) h" for p room
  proof -
    have "unat (word_of_nat freed :: u16) = freed" using that(5) unat_half [of "ip_reass_pbufcount s"] by (intro unat_of_nat_small) simp
    then have "unat (ip_reass_pbufcount s') = unat (ip_reass_pbufcount s) - freed" using that(5) by (simp add: s'_def unat_sub word_le_nat_alt)
    then have "freed \<noteq> 0" "\<not> unat (ip_reass_pbufcount s') + n > 10" "unat (ip_reass_pbufcount s) + n > 10" using that(4-6) assms(10) by auto
    then show ?thesis using r find_reass_dangles [OF l s'(2,3) that(7)] s'(1) that(1-3) by (simp add: ip_reass_def IP_REASS_MAX_PBUFS_def Let_def)
  qed
  then show ?thesis using r s' da by auto
qed

text \<open>
  Ten buffers wait, one of them in the second of four datagrams, which is the oldest; a fragment of the third arrives, with a
  fourth datagram behind it.
\<close>

definition full_data :: "addr \<Rightarrow> u16 \<Rightarrow> u8 \<Rightarrow> ip_reassdata" where
  "full_data n i t = \<lparr>rd_next = n, rd_p = [hole_frag 8 0x2001], rd_iphdr = (hole_hdr 0x2001)\<lparr>iph_id := i\<rparr>, rd_datagram_len = 0,
     rd_flags = 0, rd_timer = t\<rparr>"

definition full_state :: ip where
  "full_state = (ip_sample 1500)\<lparr>reassdatagrams := 1,
     reass_mem := [1 \<mapsto> full_data 2 20 3, 2 \<mapsto> full_data 3 21 2, 3 \<mapsto> full_data 4 9 3, 4 \<mapsto> full_data NULL 22 3],
     reass_avail := [5], ip_reass_pbufcount := 10\<rparr>"

theorem ip_reass_evicts_dangling_witness:
  "(\<exists>s' da. ip_reass_remove_oldest_datagram (hole_hdr 0x2002) 1 full_state = Some (1, s') \<and> reassdatagrams s' = 1
      \<and> reass_mem s' 1 = Some da \<and> rd_next da = 2 \<and> reass_mem s' 2 = None)
    \<and> ip_reass [ip_hdr_bytes (hole_hdr 0x2002) @ replicate 8 2] 14 full_state = None"
proof -
  let ?p = "[ip_hdr_bytes (hole_hdr 0x2002) @ replicate 8 2]"
  have m: "IP_ADDRESSES_AND_ID_MATCH (rd_iphdr (full_data n i t)) (hole_hdr 0x2002) \<longleftrightarrow> i = 9" for n i t
    by (auto simp: full_data_def hole_hdr_def ip_sample_hdr_def IP_ADDRESSES_AND_ID_MATCH_def)
  have c: "length ?p < 256" "ip_hdr_of ?p = Some (hole_hdr 0x2002)" "IPH_HL (hole_hdr 0x2002) = 5" "pbuf_count ?p = 1"
    by (simp_all add: clen_def hole_hdr_def ip_sample_hdr_def IPH_HL_def del: replicate.simps)
  have f: "rd_next (full_data n i t) = n" "rd_timer (full_data n i t) = t" "rd_p (full_data n i t) = [hole_frag 8 0x2001]"
    "fr_start (hole_frag 8 0x2001) \<noteq> 0" "pbuf_count (fr_p (hole_frag 8 0x2001)) = 1" for n i t
    by (simp_all add: full_data_def hole_frag_def clen_def)
  have s: "reassdatagrams full_state = 1" "reass_mem full_state 1 = Some (full_data 2 20 3)" "reass_mem full_state 2 = Some (full_data 3 21 2)"
    "reass_mem full_state 3 = Some (full_data 4 9 3)" "reass_mem full_state 4 = Some (full_data NULL 22 3)" "ip_reass_pbufcount full_state = 10"
    by (simp_all add: full_state_def)
  let ?now = "\<lambda>s' da. ip_reass_remove_oldest_datagram (hole_hdr 0x2002) 1 full_state = Some (1, s') \<and> reassdatagrams s' = reassdatagrams full_state
      \<and> reass_mem s' 1 = Some da \<and> rd_next da = 2 \<and> reass_mem s' 2 = None"
  let ?then = "\<forall>p room. ip_hdr_of p = Some (hole_hdr 0x2002) \<and> IPH_HL (hole_hdr 0x2002) = 5 \<and> 1 = pbuf_count p \<and> 0 < (1::nat)
        \<and> 1 \<le> unat (ip_reass_pbufcount full_state) \<and> unat (ip_reass_pbufcount full_state) + 1 \<in> {11..1 + 10}
        \<and> (\<forall>x\<in>set ([] @ [1]). \<forall>d. reass_mem full_state x = Some d \<longrightarrow> \<not> IP_ADDRESSES_AND_ID_MATCH (rd_iphdr d) (hole_hdr 0x2002))
      \<longrightarrow> ip_reass p room full_state = None"
  have "\<exists>s' da. ip_reass_remove_oldest_datagram (hole_hdr 0x2002) 1 full_state = Some (1, s') \<and> reassdatagrams s' = reassdatagrams full_state
      \<and> reass_mem s' 1 = Some da \<and> rd_next da = 2 \<and> reass_mem s' 2 = None \<and> ?then"
    by (rule ip_reass_evicts_dangling [where bs = "[3, 4]" and db = "full_data 3 21 2" and f = "hole_frag 8 0x2001" and fs = "[]"])
      (simp_all add: s f m)
  then have r: "\<exists>s' da. ?now s' da" and n: ?then by blast+
  have "ip_reass ?p 14 full_state = None" using n [rule_format, of ?p 14] c(2-4) s m by (simp del: replicate.simps)
  then show ?thesis using r s(1) by simp
qed

subsection \<open>An unknown protocol\<close>

lemma chksum_message: "chksum (le_put16 2 (chksum ([ty, code, 0, 0] @ i)) ([ty, code, 0, 0] @ i)) = 0"
proof -
  let ?m = "[ty, code] @ le_bytes16 0 @ i" and ?c = "chksum ([ty, code, 0, 0] @ i)"
  have m: "[ty, code, 0, 0] @ i = ?m" by simp
  have p: "le_put16 2 ?c ([ty, code, 0, 0] @ i) = [ty, code] @ le_bytes16 ?c @ i" by (simp add: le_put16_def numeral_2_eq_2)
  have "le_sum ([ty, code] @ le_bytes16 ?c @ i) = le_sum ?m + unat ?c" unfolding le_sum_message by simp
  moreover have "unat ?c = 65535 - ones_complement (le_sum ?m)"
    using ones_complement_less [of "le_sum ?m"] unfolding m by (simp add: chksum_def rfc1071_def not_half unat_of_nat_small del: append.simps)
  ultimately have "chksum ([ty, code] @ le_bytes16 ?c @ i) = 0"
    using chksum_completes [of "le_sum ?m"] by (simp add: chksum_def rfc1071_def del: append.simps)
  then show ?thesis unfolding p .
qed

lemma route_allocs: "route_loop dest as (s\<lparr>ip_allocs := al\<rparr>) = route_loop dest as s"
  by (induction as) (simp_all cong: if_cong)

text \<open>
  A whole datagram for a protocol nobody takes is answered by a message with a correct checksum that holds its header
  and the 8 bytes behind it, if its first buffer holds 28 bytes.  The code does not look: when there is less, 
  \<^verbatim>\<open>icmp_dest_unreach\<close> reads beyond the end of the buffer.
\<close>

theorem icmp_proto_unreachable:
  assumes "arrives (ip_hdr_bytes h @ x) r" "iph_vhl h = 0x45" "chksum (ip_hdr_bytes h) = 0" "iph_offset h AND (IP_OFFMASK OR IP_MF) = 0"
    and "unat (iph_len h) = 20 + length x" "ip_accepts (iph_src h) (iph_dest h) inp t"
    and "iph_proto h \<notin> {IP_PROTO_UDP, IP_PROTO_TCP, IP_PROTO_ICMP, IP_PROTO_IGMP}" "raw_pcbs t = NULL"
    and "netifs t inp = Some inif" "\<not> ip_addr_isbroadcast (iph_dest h) inif" "\<not> ip_addr_ismulticast (iph_dest h)"
    and "ip_allocs t = Some fresh # al"
    and "ip_route_netif (iph_src h) t = Some n" "n \<noteq> NULL" "netifs t n = Some nif" "netif_mtu nif = 0 \<or> 56 \<le> unat (netif_mtu nif)"
  shows "if length (hd r) < 28 then ip_input app r room inp t = None
    else \<exists>s' h' m. ip_input app r room inp t = Some (Consumed, s') \<and> wire s' = wire t @ [(n, [ip_hdr_bytes h' @ m], iph_src h)]
      \<and> iph_dest h' = iph_src h \<and> iph_proto h' = IP_PROTO_ICMP \<and> chksum (ip_hdr_bytes h') = 0
      \<and> length m = 36 \<and> chksum m = 0 \<and> m ! 0 = ICMP_DUR \<and> m ! 1 = ICMP_DUR_PROTO \<and> drop 8 m = take 28 (hd r)"
proof -
  let ?fresh = "take 36 (fresh @ replicate 36 0)" and ?t = "t\<lparr>ip_allocs := al\<rparr>"
  let ?m = "icmp_message ICMP_DUR ICMP_DUR_PROTO ?fresh (hd r)"
  note hr = arrives_hdr [OF assms(1)]
  have a: "ip_alloc 36 t = (Some ?fresh, ?t)" by (simp add: ip_alloc_def assms(12))
  have raw: "raw_input (on_raw app) r t = Some (False, t)" using hr(1) assms(8) by (simp add: raw_input_def raw_input_loop.simps)
  have i: "ip_input app r room inp t = do { s \<leftarrow> icmp_dest_unreach r ICMP_DUR_PROTO t; Some (Consumed, s) }"
    using ip_input_whole [OF assms(1-6)] hr(1) raw assms(7,9-11) by (simp add: ip_dispatch_def)
  show ?thesis
  proof (cases "length (hd r) < 28")
    case True
    then show ?thesis unfolding i by (simp add: icmp_dest_unreach_def icmp_error_def a hr(1))
  next
    case False
    obtain ff where ff: "ff = take 4 (drop 4 ?fresh)" by blast
    let ?mi = "[ICMP_DUR, ICMP_DUR_PROTO, 0, 0] @ ff @ take 28 (hd r)"
    have m: "?m = le_put16 2 (chksum ?mi) ?mi" by (simp only: icmp_message_def Let_def ff)
    have fl: "length ff = 4" unfolding ff by simp
    have len: "length ?m = 36" using False fl unfolding m by (simp add: le_put16_def)
    have shape: "?m ! 0 = ICMP_DUR" "?m ! 1 = ICMP_DUR_PROTO" "drop 8 ?m = take 28 (hd r)"
      using fl unfolding m by (simp_all add: le_put16_def numeral_2_eq_2)
    let ?h = "build_ip_hdr (word_of_nat (20 + length (concat [?m]))) (ip_id ?t) 0 (iph_src h) ICMP_TTL 0 IP_PROTO_ICMP nif"
    let ?out = "netif_output n [ip_hdr_bytes ?h @ ?m] (iph_src h) (?t\<lparr>ip_id := ip_id ?t + 1\<rparr>)"
    have route: "ip_route_netif (iph_src h) ?t = Some n" using assms(13) by (simp add: ip_route_netif_def route_allocs)
    have nif: "netifs ?t n = Some nif" using assms(15) by simp
    have "tot_len [ip_hdr_bytes ?h @ ?m] = 56" using len by (simp add: tot_len_def)
    then have mtu: "\<not> (netif_mtu nif \<noteq> 0 \<and> tot_len [ip_hdr_bytes ?h @ ?m] > netif_mtu nif)"
      using assms(16) by (auto simp: word_less_nat_alt)
    have "ip_output_pbuf [?m] 34 0 (iph_src h) ICMP_TTL 0 IP_PROTO_ICMP ?t = Some ?out"
      by (subst ip_output_builds [OF route assms(14) nif]) (simp, rule if_not_P [OF mtu])
    then have "icmp_dest_unreach r ICMP_DUR_PROTO t = Some (snd ?out)"
      using False by (simp add: icmp_dest_unreach_def icmp_error_def a hr(1) split_def)
    then have "ip_input app r room inp t = Some (Consumed, snd ?out)" unfolding i by simp
    moreover have "wire (snd ?out) = wire t @ [(n, [ip_hdr_bytes ?h @ ?m], iph_src h)]" by (simp add: netif_output_def)
    moreover have "iph_dest ?h = iph_src h" "iph_proto ?h = IP_PROTO_ICMP" "chksum (ip_hdr_bytes ?h) = 0" by (simp_all only: build_ip_hdr_sel)
    moreover have "chksum ?m = 0" unfolding m by (rule chksum_message)
    ultimately show ?thesis unfolding if_not_P [OF False] using len shape by blast
  qed
qed

definition unknown_hdr :: "u16 \<Rightarrow> ip_hdr" where
  "unknown_hdr n = set_ip_chksum (ip_sample_hdr\<lparr>iph_proto := 99, iph_len := n\<rparr>)"

theorem icmp_proto_unreachable_witness:
  "ip_input idle_app [ip_hdr_bytes (unknown_hdr 25) @ replicate 5 7] 14 1 ip_receiver = None
    \<and> (\<exists>s h m. ip_input idle_app [ip_hdr_bytes (unknown_hdr 28) @ replicate 8 7] 14 1 ip_receiver = Some (Consumed, s)
      \<and> wire s = [(1, [ip_hdr_bytes h @ m], 0x0200000a)] \<and> chksum m = 0 \<and> m ! 0 = 3)"
proof -
  let ?n = "\<lparr>netif_ip_addr = 0x0100000a, netif_netmask = 0xffffff, netif_flags = 3, netif_mtu = 1500, netif_gw = 0, netif_name = (0, 0), netif_num = 0\<rparr>"
  let ?app = idle_app
  have h: "iph_vhl (unknown_hdr n) = 0x45" "iph_offset (unknown_hdr n) = 0" "iph_len (unknown_hdr n) = n" "iph_proto (unknown_hdr n) = 99"
    "iph_src (unknown_hdr n) = 0x0200000a" "iph_dest (unknown_hdr n) = 0x0100000a" "chksum (ip_hdr_bytes (unknown_hdr n)) = 0" for n
    by (simp_all add: unknown_hdr_def ip_sample_hdr_def)
  have o: "iph_offset (unknown_hdr n) AND (IP_OFFMASK OR IP_MF) = 0" for n by (simp add: h)
  have t: "raw_pcbs ip_receiver = NULL" "netifs ip_receiver 1 = Some ?n" "ip_allocs ip_receiver = Some [] # replicate 15 (Some [])" "wire ip_receiver = []"
    by (simp_all add: ip_receiver_def ip_sample_def numeral_eq_Suc)
  have acc: "ip_accepts (iph_src (unknown_hdr n)) (iph_dest (unknown_hdr n)) 1 ip_receiver" for n by (simp add: h ip_receiver_ready)
  have u: "\<not> ip_addr_isbroadcast (iph_dest (unknown_hdr n)) ?n" "\<not> ip_addr_ismulticast (iph_dest (unknown_hdr n))" for n
    by (simp_all add: h ip_addr_isbroadcast_def ip_addr_ismulticast_def NETIF_FLAG_BROADCAST_def ntohl_def htonl_def)
  have rt: "ip_route_netif (iph_src (unknown_hdr n)) ip_receiver = Some 1" for n
    unfolding h by (simp add: ip_route_netif_def ip_receiver_def ip_sample_def netif_is_up_def NETIF_FLAG_UP_def ip_addr_netcmp_def)
  have pr: "iph_proto (unknown_hdr n) \<notin> {IP_PROTO_UDP, IP_PROTO_TCP, IP_PROTO_ICMP, IP_PROTO_IGMP}" for n
    by (simp add: h IP_PROTO_UDP_def IP_PROTO_TCP_def IP_PROTO_ICMP_def IP_PROTO_IGMP_def)
  have a: "arrives (ip_hdr_bytes (unknown_hdr m) @ replicate n 7) [ip_hdr_bytes (unknown_hdr m) @ replicate n 7]" for m n
    by (simp add: arrives_def)
  note th = icmp_proto_unreachable [OF a h(1,7) o _ acc pr t(1,2) u t(3) rt _ t(2), of _ _ ?app 14]
  show ?thesis
    using th [of 25 5] th [of 28 8] by (simp add: h(3,5) t(4) ICMP_DUR_def del: replicate.simps) blast
qed

end
