(* ===== verification/Ip_Frame.thy ===== *)
theory Ip_Frame
  imports Icmp
begin

section \<open>IP: what output leaves alone\<close>

text \<open>
  Sending a packet, also an error message, touches only what output keeps: the state of the protocols above and of reassembly stays.
\<close>

text \<open>Output changes the allocations left, the static buffer, the identification and what the driver was given.\<close>

definition sends :: "ip \<Rightarrow> ip \<Rightarrow> bool" where
  "sends s s' \<longleftrightarrow> (\<exists>al fb i w. s' = s\<lparr>ip_allocs := al, frag_buf := fb, ip_id := i, wire := w\<rparr>)"

lemma sends_refl [simp, intro]: "sends s s"
  unfolding sends_def by (rule exI [of _ "ip_allocs s"], rule exI [of _ "frag_buf s"], rule exI [of _ "ip_id s"], rule exI [of _ "wire s"]) simp

lemma sends_trans: "sends s t \<Longrightarrow> sends t u \<Longrightarrow> sends s u"
  unfolding sends_def by fastforce

lemma sends_upd [simp, intro]: "sends s (s\<lparr>ip_allocs := al\<rparr>)" "sends s (s\<lparr>frag_buf := fb\<rparr>)" "sends s (s\<lparr>ip_id := i\<rparr>)" "sends s (s\<lparr>wire := w\<rparr>)"
  unfolding sends_def by (cases s; simp)+

lemma sends_sel:
  assumes "sends s s'"
  shows "udp_pcbs s' = udp_pcbs s" "udp_mem s' = udp_mem s" "udp_avail s' = udp_avail s" "netifs s' = netifs s"
    "raw_pcbs s' = raw_pcbs s" "raw_mem s' = raw_mem s" "raw_avail s' = raw_avail s"
    "reassdatagrams s' = reassdatagrams s" "reass_mem s' = reass_mem s" "reass_avail s' = reass_avail s"
    "ip_reass_pbufcount s' = ip_reass_pbufcount s"
    "igmp_group_list s' = igmp_group_list s" "igmp_mem s' = igmp_mem s" "igmp_avail s' = igmp_avail s"
  using assms by (auto simp: sends_def)

lemma netif_output_sends: "netif_output n p dest s = (e, s') \<Longrightarrow> sends s s'"
  by (auto simp: netif_output_def)

lemma ip_alloc_sends: "ip_alloc n s = (r, s') \<Longrightarrow> sends s s'"
  by (auto simp: ip_alloc_def split: list.splits option.splits)

lemma frag_loop_sends:
  assumes "frag_loop h mtu d left poff ofo omf n dest s = Some (e, s')"
  shows "sends s s'"
proof -
  define P where "P = (\<lambda>s (r :: err \<times> ip). sends s (snd r))"
  have "P s (e, s')"
  proof (rule frag_loop.raw_induct [OF _ assms], goal_cases)
    case (1 self h mtu d left poff ofo omf n dest s y)
    show ?case
    proof (cases "left = 0")
      case False
      let ?c = "take (unat (frag_cop mtu left)) (drop (unat poff) d)"
      let ?s = "s\<lparr>frag_buf := ip_hdr_bytes (frag_hdr h mtu left ofo omf) @ ?c @ drop (20 + length ?c) (frag_buf s)\<rparr>"
      obtain r t where a: "ip_alloc 0 ?s = (r, t)" by (cases "ip_alloc 0 ?s")
      have t: "sends s t" by (rule sends_trans [OF sends_upd(2) ip_alloc_sends [OF a]])
      show ?thesis
      proof (cases r)
        case None
        then show ?thesis using 1(2) False a t by (auto simp: P_def Let_def split: if_splits)
      next
        case (Some j)
        obtain e' t' b where o: "netif_output n [j, b] dest t = (e', t')" "self h mtu d (left - frag_cop mtu left) (poff + word_of_nat (length ?c)) (ofo + frag_nfb mtu) omf n dest t' = Some y"
          using 1(2) False a Some by (auto simp: Let_def split: if_splits prod.splits)
        then show ?thesis using 1(1) [OF o(2)] sends_trans [OF t sends_trans [OF netif_output_sends [OF o(1)]]] by (simp add: P_def)
      qed
    qed (use 1(2) in \<open>auto simp: P_def\<close>)
  qed
  then show ?thesis by (simp add: P_def)
qed

lemma ip_frag_sends_only:
  assumes "ip_frag p n dest s = Some (e, s')"
  shows "sends s s'"
proof -
  obtain r t where a: "ip_alloc 0 s = (r, t)" by (cases "ip_alloc 0 s")
  have "sends t s'"
    using assms a by (cases r) (auto simp: ip_frag_def Option.bind_eq_Some_conv dest: frag_loop_sends)
  then show ?thesis using ip_alloc_sends [OF a] sends_trans by blast
qed

lemma ip_output_if_sends:
  assumes "ip_output_if p room src dest life ts proto n s = Some (e, s')"
  shows "sends s s'"
proof -
  obtain nif where n: "netifs s n = Some nif" using assms by (auto simp: ip_output_if_def Option.bind_eq_Some_conv)
  let ?send = "\<lambda>p dest s. if netif_mtu nif \<noteq> 0 \<and> tot_len p > netif_mtu nif then ip_frag p n dest s else Some (netif_output n p dest s)"
  have send: "?send q d t = Some (e, s') \<Longrightarrow> sends t s'" for q d t
    by (auto dest: ip_frag_sends_only netif_output_sends split: if_splits)
  show ?thesis
  proof (cases dest)
    case None
    then have o: "ip_hdr_of p \<bind> (\<lambda>h. ?send p (iph_dest h) s) = Some (e, s')" using assms n by (simp add: ip_output_if_def)
    then obtain h where "ip_hdr_of p = Some h" by (cases "ip_hdr_of p") simp_all
    then have "?send p (iph_dest h) s = Some (e, s')" using o by simp
    then show ?thesis by (rule send)
  next
    case (Some d)
    show ?thesis
    proof (cases "room < 20")
      case True
      then show ?thesis using assms n Some by (simp add: ip_output_if_def)
    next
      case False
      then obtain b bs where p: "p = b # bs" using assms n Some by (cases p) (simp_all add: ip_output_if_def)
      have "?send ((ip_hdr_bytes (build_ip_hdr (tot_len p + IP_HLEN) (ip_id s) src d life ts proto nif) @ b) # bs) d (s\<lparr>ip_id := ip_id s + 1\<rparr>) = Some (e, s')"
        unfolding assms [symmetric] Some p ip_output_if_def n bind.bind_lunit Let_def option.case list.case by (rule if_not_P [OF False, symmetric])
      then have "sends (s\<lparr>ip_id := ip_id s + 1\<rparr>) s'" by (rule send)
      then show ?thesis by (rule sends_trans [OF sends_upd(3)])
    qed
  qed
qed

lemma ip_output_pbuf_sends: "ip_output_pbuf p room src dest life ts proto s = Some (e, s') \<Longrightarrow> sends s s'"
  by (auto simp: ip_output_pbuf_def Option.bind_eq_Some_conv split: if_splits dest: ip_output_if_sends)

lemma icmp_error_sends: "icmp_error ty code p s = Some s' \<Longrightarrow> sends s s'"
  by (auto simp: icmp_error_def Option.bind_eq_Some_conv split: prod.split_asm option.split_asm if_split_asm
      dest!: ip_alloc_sends ip_output_pbuf_sends intro: sends_trans)

end
