(* ===== verification/Udp_Lists.thy ===== *)
theory Udp_Lists
  imports Udp Ip_Frame
begin

section \<open>UDP: the list of control blocks\<close>

text \<open>
  The list \<^verbatim>\<open>udp_pcbs\<close> holds exactly the bound blocks, and the pool only free ones: an invariant of every function of \<^verbatim>\<open>udp.c\<close>.
  With it the walks over the list end, and the searches for a port and for the receiver of a datagram are what they
  are meant to be.
\<close>

definition udp_listed :: "ip \<Rightarrow> addr list \<Rightarrow> bool" where
  "udp_listed s xs \<longleftrightarrow> linked udp_next (udp_mem s) (udp_pcbs s) xs
     \<and> (\<forall>a. a \<in> set xs \<longleftrightarrow> (\<exists>c. udp_mem s a = Some c \<and> udp_local_port c \<noteq> 0))"

definition udp_ok :: "ip \<Rightarrow> bool" where
  "udp_ok s \<longleftrightarrow> (\<exists>xs. udp_listed s xs) \<and> distinct (udp_avail s) \<and> udp_mem s NULL = None
     \<and> (\<forall>a \<in> set (udp_avail s). a \<noteq> NULL \<and> udp_mem s a = None)"

lemma udp_okE:
  assumes "udp_ok s"
  obtains xs where "udp_listed s xs"
  using assms by (auto simp: udp_ok_def)

lemma udp_listed_linked: "udp_listed s xs \<Longrightarrow> linked udp_next (udp_mem s) (udp_pcbs s) xs"
  by (simp add: udp_listed_def)

lemma udp_ok_cong:
  assumes "udp_pcbs s' = udp_pcbs s" "udp_mem s' = udp_mem s" "udp_avail s' = udp_avail s"
  shows "udp_ok s' = udp_ok s" "udp_listed s' xs = udp_listed s xs"
  using assms by (simp_all add: udp_ok_def udp_listed_def)

lemma udp_ok_sends: "sends s s' \<Longrightarrow> udp_ok s' = udp_ok s"
  by (rule udp_ok_cong) (simp_all add: sends_sel)

text \<open>Changing fields of a block that the list does not depend on.\<close>

lemma udp_listed_upd:
  assumes "udp_listed s xs" "udp_mem s a = Some c" "udp_next c' = udp_next c" "udp_local_port c' = 0 \<longleftrightarrow> udp_local_port c = 0"
  shows "udp_listed (set_udp a c' s) xs"
proof -
  have "x \<in> set xs \<longleftrightarrow> (\<exists>d. ((udp_mem s)(a \<mapsto> c')) x = Some d \<and> udp_local_port d \<noteq> 0)" for x
    using assms(1,2,4) by (cases "x = a") (auto simp: udp_listed_def)
  moreover have "linked udp_next ((udp_mem s)(a \<mapsto> c')) (udp_pcbs s) xs"
    using assms linked_same_next [of "udp_mem s" a c udp_next c'] by (simp add: udp_listed_def)
  ultimately show ?thesis by (simp add: udp_listed_def set_udp_def)
qed

lemma udp_ok_live:
  assumes "udp_ok s" "udp_mem s a = Some c"
  shows "a \<noteq> NULL" "a \<notin> set (udp_avail s)"
  using assms by (auto simp: udp_ok_def)

lemma udp_ok_upd:
  assumes "udp_ok s" "udp_mem s a = Some c" "udp_next c' = udp_next c" "udp_local_port c' = 0 \<longleftrightarrow> udp_local_port c = 0"
  shows "udp_ok (set_udp a c' s)"
proof -
  obtain xs where "udp_listed s xs" by (rule udp_okE [OF assms(1)])
  then have "udp_listed (set_udp a c' s) xs" by (rule udp_listed_upd [OF _ assms(2-4)])
  then show ?thesis using assms(1) udp_ok_live [OF assms(1,2)] by (auto simp: udp_ok_def set_udp_def)
qed

text \<open>Putting a block that is not on the list in front of it.\<close>

lemma udp_ok_push:
  assumes "udp_ok s" "udp_listed s xs" "udp_mem s a = Some c" "a \<notin> set xs" "udp_next c' = udp_pcbs s" "udp_local_port c' \<noteq> 0"
  shows "udp_ok ((set_udp a c' s)\<lparr>udp_pcbs := a\<rparr>)" "udp_listed ((set_udp a c' s)\<lparr>udp_pcbs := a\<rparr>) (a # xs)"
proof -
  note a = udp_ok_live [OF assms(1,3)]
  have "linked udp_next ((udp_mem s)(a \<mapsto> c')) a (a # xs)"
    using assms(2,4,5) a(1) by (intro linked_push) (simp_all add: udp_listed_def)
  then show l: "udp_listed ((set_udp a c' s)\<lparr>udp_pcbs := a\<rparr>) (a # xs)"
    using assms(2,6) by (simp add: udp_listed_def set_udp_def)
  show "udp_ok ((set_udp a c' s)\<lparr>udp_pcbs := a\<rparr>)"
    unfolding udp_ok_def using l assms(1) a by (auto simp: udp_ok_def set_udp_def)
qed

subsection \<open>The search for a port\<close>

definition ports_of :: "(addr \<rightharpoonup> udp_pcb) \<Rightarrow> addr list \<Rightarrow> u16 set" where
  "ports_of m xs = {udp_local_port c |a c. a \<in> set xs \<and> m a = Some c}"

lemma ports_of_simps [simp]: "ports_of m [] = {}"
  "m a = Some c \<Longrightarrow> ports_of m (a # xs) = insert (udp_local_port c) (ports_of m xs)"
  "ports_of m (xs @ ys) = ports_of m xs \<union> ports_of m ys"
  by (auto simp: ports_of_def)

lemma udp_port_loop_finds:
  assumes "linked udp_next m front xs" "linked udp_next m ipcb ys" "xs = zs @ ys" "port \<notin> ports_of m zs" "port \<le> UDP_LOCAL_PORT_RANGE_END"
  shows "\<exists>p r. udp_port_loop port ipcb front m = Some (p, r) \<and> port \<le> p \<and> p \<le> UDP_LOCAL_PORT_RANGE_END \<and> {port..<p} \<subseteq> ports_of m xs
    \<and> (if p = UDP_LOCAL_PORT_RANGE_END \<and> port \<noteq> p then r \<noteq> NULL else r = NULL \<and> p \<notin> ports_of m xs \<or> r \<noteq> NULL \<and> p = UDP_LOCAL_PORT_RANGE_END)"
  using assms
proof (induction "(unat UDP_LOCAL_PORT_RANGE_END - unat port, length ys)" arbitrary: port ipcb ys zs rule: wf_induct_rule [OF wf_lex_prod [OF wf_less_than wf_less_than]])
  case 1
  let ?E = "UDP_LOCAL_PORT_RANGE_END"
  show ?case
  proof (cases "ipcb = NULL \<or> port = ?E")
    case True
    then show ?thesis using 1 by (subst udp_port_loop.simps) auto
  next
    case False
    obtain c ys' where c: "ys = ipcb # ys'" "m ipcb = Some c" "linked udp_next m (udp_next c) ys'"
      using linked_head [OF "1"(3)] False by auto
    show ?thesis
    proof (cases "udp_local_port c = port")
      case True
      have "port \<noteq> ?E" using False by blast
      then have "port < ?E" using "1"(6) by (rule order.not_eq_order_implies_strict)
      then have lt: "unat port < unat ?E" by (simp add: word_less_nat_alt)
      then have s: "unat (port + 1) = unat port + 1" using unat_half [of ?E] by (intro trans [OF unat_add_small]) simp_all
      then have le: "port + 1 \<le> ?E" using lt by (simp add: word_le_nat_alt)
      have "((unat ?E - unat (port + 1), length xs), unat ?E - unat port, length ys) \<in> less_than <*lex*> less_than"
        using lt s by auto
      from "1"(1) [OF this "1"(2,2) _ _ le, of "[]"] obtain p r where p: "udp_port_loop (port + 1) front front m = Some (p, r)"
        "port + 1 \<le> p" "p \<le> ?E" "{port + 1..<p} \<subseteq> ports_of m xs"
        "if p = ?E \<and> port + 1 \<noteq> p then r \<noteq> NULL else r = NULL \<and> p \<notin> ports_of m xs \<or> r \<noteq> NULL \<and> p = ?E" by auto
      have r: "p = ?E \<Longrightarrow> r \<noteq> NULL"
      proof -
        assume e: "p = ?E"
        have "front \<noteq> NULL" using "1"(2,4) c(1) by auto
        then show ?thesis using e p(1,5) by (cases "port + 1 = ?E") (auto simp: udp_port_loop.simps)
      qed
      have "{port..<p} \<subseteq> insert port {port + 1..<p}"
        using s by (auto simp: word_less_nat_alt word_le_nat_alt word_unat_eq_iff)
      moreover have "port \<in> ports_of m xs" using True c "1"(4) by auto
      moreover have "port \<le> p" "port \<noteq> p" using p(2) s by (auto simp: word_le_nat_alt)
      moreover have "udp_port_loop port ipcb front m = Some (p, r)"
        using False c(2) True p(1) by (subst udp_port_loop.simps) simp
      ultimately show ?thesis using p(3-5) r by (intro exI [of _ p] exI [of _ r]) auto
    next
      case ne: False
      have "((unat ?E - unat port, length ys'), unat ?E - unat port, length ys) \<in> less_than <*lex*> less_than"
        using c(1) by auto
      from "1"(1) [OF this "1"(2) c(3) _ _ "1"(6), of "zs @ [ipcb]"] show ?thesis
        using False ne c "1"(4,5) by (simp add: udp_port_loop.simps [of port ipcb])
    qed
  qed
qed

subsection \<open>Binding\<close>

definition udp_port_used :: "ip \<Rightarrow> u16 \<Rightarrow> bool" where
  "udp_port_used s q \<longleftrightarrow> (\<exists>b d. udp_mem s b = Some d \<and> udp_local_port d = q)"

lemma udp_port_used_alt: "udp_port_used s q \<longleftrightarrow> (\<exists>b. map_option udp_local_port (udp_mem s b) = Some q)"
  by (auto simp: udp_port_used_def)

definition udp_free_ports :: "ip \<Rightarrow> u16 set" where
  "udp_free_ports s = {q. UDP_LOCAL_PORT_RANGE_START \<le> q \<and> q < UDP_LOCAL_PORT_RANGE_END \<and> \<not> udp_port_used s q}"

lemma ports_of_listed: "udp_listed s xs \<Longrightarrow> q \<noteq> 0 \<Longrightarrow> q \<in> ports_of (udp_mem s) xs \<longleftrightarrow> udp_port_used s q"
  unfolding udp_listed_def ports_of_def udp_port_used_def by fastforce

lemma udp_port_loop_start:
  assumes "udp_listed s xs"
  shows "\<exists>p r. udp_port_loop UDP_LOCAL_PORT_RANGE_START (udp_pcbs s) (udp_pcbs s) (udp_mem s) = Some (p, r)
    \<and> (if udp_free_ports s = {} then r \<noteq> NULL else r = NULL \<and> p \<in> udp_free_ports s \<and> (\<forall>q \<in> udp_free_ports s. p \<le> q))"
proof -
  let ?S = UDP_LOCAL_PORT_RANGE_START and ?E = UDP_LOCAL_PORT_RANGE_END
  note l = udp_listed_linked [OF assms]
  have se: "?S \<le> ?E" "?S \<noteq> ?E" "?S > 0" by (simp_all add: UDP_LOCAL_PORT_RANGE_START_def UDP_LOCAL_PORT_RANGE_END_def)
  obtain p r where p: "udp_port_loop ?S (udp_pcbs s) (udp_pcbs s) (udp_mem s) = Some (p, r)" "?S \<le> p" "p \<le> ?E"
    "{?S..<p} \<subseteq> ports_of (udp_mem s) xs"
    "if p = ?E \<and> ?S \<noteq> p then r \<noteq> NULL else r = NULL \<and> p \<notin> ports_of (udp_mem s) xs \<or> r \<noteq> NULL \<and> p = ?E"
    using udp_port_loop_finds [OF l l, of "[]" ?S] se(1) by auto
  have nz: "q \<noteq> 0" if "?S \<le> q" for q using that se(3) by auto
  have taken: "q \<notin> udp_free_ports s" if "q < p" for q
    using that p(4) ports_of_listed [OF assms nz, of q] by (fastforce simp: udp_free_ports_def)
  show ?thesis
  proof (cases "p = ?E")
    case True
    then have "udp_free_ports s = {}" using taken by (auto simp: udp_free_ports_def)
    then show ?thesis using p(1,5) True se(2) by auto
  next
    case False
    then have r: "r = NULL" "p \<notin> ports_of (udp_mem s) xs" using p(5) by (auto split: if_splits)
    have "p < ?E" using p(3) False by simp
    then have "p \<in> udp_free_ports s" using r(2) p(2) ports_of_listed [OF assms nz [OF p(2)]] by (simp add: udp_free_ports_def)
    moreover have "\<forall>q \<in> udp_free_ports s. p \<le> q" using taken by (meson not_le)
    ultimately show ?thesis using p(1) r(1) by auto
  qed
qed

text \<open>
  \<^verbatim>\<open>udp_bind\<close> on a block in use always returns.  A port that is asked for is bound, whoever else has it.  For port 0
  the block gets the lowest port from 4096 on below \<^verbatim>\<open>UDP_LOCAL_PORT_RANGE_END\<close> that no block has; if there is none the answer is
  \<^verbatim>\<open>ERR_USE\<close>, and only the local address has changed.
\<close>

lemma udp_bind_spec:
  assumes "udp_ok s" "udp_mem s a = Some c"
  shows "\<exists>e s' c'. udp_bind a addr port s = Some (e, s') \<and> udp_ok s' \<and> udp_mem s' a = Some c' \<and> udp_local_ip c' = addr
    \<and> (\<forall>b. b \<noteq> a \<longrightarrow> udp_mem s' b = udp_mem s b) \<and> udp_avail s' = udp_avail s
    \<and> (if port \<noteq> 0 then e = ERR_OK \<and> udp_local_port c' = port
       else if udp_free_ports s = {} then e = ERR_USE \<and> udp_local_port c' = udp_local_port c
       else e = ERR_OK \<and> udp_local_port c' \<in> udp_free_ports s \<and> (\<forall>q \<in> udp_free_ports s. udp_local_port c' \<le> q))"
proof -
  obtain xs where xs: "udp_listed s xs" by (rule udp_okE [OF assms(1)])
  let ?c = "c\<lparr>udp_local_ip := addr\<rparr>"
  let ?s = "set_udp a ?c s"
  have ok: "udp_ok ?s" "udp_listed ?s xs" using udp_ok_upd [OF assms] udp_listed_upd [OF xs assms(2)] by simp_all
  have m: "udp_mem ?s a = Some ?c" by (simp add: set_udp_def)
  have "map_option udp_local_port (udp_mem ?s b) = map_option udp_local_port (udp_mem s b)" for b
    using assms(2) by (simp add: set_udp_def)
  then have used: "udp_port_used ?s = udp_port_used s" by (simp add: udp_port_used_alt fun_eq_iff)
  have on: "on_list udp_next a (udp_pcbs s) (udp_mem s) = Some (a \<in> set xs)"
    by (rule on_list_linked [OF udp_listed_linked [OF xs]])
  have bound: "a \<in> set xs \<longleftrightarrow> udp_local_port c \<noteq> 0" using xs assms(2) by (simp add: udp_listed_def)
  define fin where "fin = (\<lambda>p. if a \<in> set xs then set_udp a (?c\<lparr>udp_local_port := p\<rparr>) ?s
    else (set_udp a (set_udp_next (udp_pcbs ?s) (?c\<lparr>udp_local_port := p\<rparr>)) ?s)\<lparr>udp_pcbs := a\<rparr>)"
  have fin: "udp_ok (fin p)" "\<exists>c'. udp_mem (fin p) a = Some c' \<and> udp_local_ip c' = addr \<and> udp_local_port c' = p"
    "\<forall>b. b \<noteq> a \<longrightarrow> udp_mem (fin p) b = udp_mem s b" "udp_avail (fin p) = udp_avail s" if "p \<noteq> 0" for p
  proof -
    show "udp_ok (fin p)"
      using udp_ok_upd [OF ok(1) m, of "?c\<lparr>udp_local_port := p\<rparr>"] udp_ok_push(1) [OF ok m, of "set_udp_next (udp_pcbs ?s) (?c\<lparr>udp_local_port := p\<rparr>)"]
        bound that by (simp add: fin_def)
  qed (simp_all add: fin_def set_udp_def)
  have b: "udp_bind a addr port s = do {
      (p, r) \<leftarrow> (if port = 0 then udp_port_loop UDP_LOCAL_PORT_RANGE_START (udp_pcbs ?s) (udp_pcbs ?s) (udp_mem ?s) else Some (port, NULL));
      if r \<noteq> NULL then Some (ERR_USE, ?s) else Some (ERR_OK, fin p) }"
    using on assms(2) m by (simp add: udp_bind_def fin_def Let_def cong: if_cong)
  show ?thesis
  proof (cases "port = 0")
    case False
    then show ?thesis using b fin [OF False] by auto
  next
    case True
    have free: "udp_free_ports ?s = udp_free_ports s" by (simp add: udp_free_ports_def used)
    obtain p r where p: "udp_port_loop UDP_LOCAL_PORT_RANGE_START (udp_pcbs ?s) (udp_pcbs ?s) (udp_mem ?s) = Some (p, r)"
      "if udp_free_ports s = {} then r \<noteq> NULL else r = NULL \<and> p \<in> udp_free_ports s \<and> (\<forall>q \<in> udp_free_ports s. p \<le> q)"
      using udp_port_loop_start [OF ok(2)] unfolding free by blast
    show ?thesis
    proof (cases "udp_free_ports s = {}")
      case True
      then show ?thesis using b \<open>port = 0\<close> p ok(1) m by (auto simp: set_udp_def)
    next
      case False
      then have "p \<in> udp_free_ports s" using p(2) by simp
      then have "p \<noteq> 0" by (auto simp: udp_free_ports_def UDP_LOCAL_PORT_RANGE_START_def)
      then show ?thesis using b \<open>port = 0\<close> p False fin [of p] by auto
    qed
  qed
qed

subsection \<open>The receiver of a datagram\<close>

text \<open>
  The reference: the first block on the list that matches both ends, otherwise the first unconnected one that matches the
  local end.
\<close>

definition udp_full :: "ip_hdr \<Rightarrow> u16 \<Rightarrow> u16 \<Rightarrow> netif \<Rightarrow> (addr \<rightharpoonup> udp_pcb) \<Rightarrow> addr \<Rightarrow> bool" where
  "udp_full h src dest nif m a = (case m a of None \<Rightarrow> False | Some c \<Rightarrow> udp_local_match h dest nif c \<and> udp_remote_match h src c)"

definition udp_half :: "ip_hdr \<Rightarrow> u16 \<Rightarrow> netif \<Rightarrow> (addr \<rightharpoonup> udp_pcb) \<Rightarrow> addr \<Rightarrow> bool" where
  "udp_half h dest nif m a = (case m a of None \<Rightarrow> False | Some c \<Rightarrow> udp_local_match h dest nif c \<and> \<not> has (udp_flags c) UDP_FLAGS_CONNECTED)"

definition first_or :: "('a \<Rightarrow> bool) \<Rightarrow> 'a list \<Rightarrow> 'a \<Rightarrow> 'a" where
  "first_or P xs d = (case find P xs of Some x \<Rightarrow> x | None \<Rightarrow> d)"

lemma first_or_simps [simp]: "first_or P [] d = d" "first_or P (x # xs) d = (if P x then x else first_or P xs d)"
  by (simp_all add: first_or_def)

definition udp_receiver :: "ip_hdr \<Rightarrow> u16 \<Rightarrow> u16 \<Rightarrow> netif \<Rightarrow> (addr \<rightharpoonup> udp_pcb) \<Rightarrow> addr list \<Rightarrow> addr" where
  "udp_receiver h src dest nif m xs = first_or (udp_full h src dest nif m) xs (first_or (udp_half h dest nif m) xs NULL)"

lemma udp_find_step:
  assumes "m y = Some c" "y \<noteq> NULL" "\<not> udp_full h src dest nif m y"
  shows "udp_find h src dest nif y prev u m
    = udp_find h src dest nif (udp_next c) y (if u = NULL \<and> udp_half h dest nif m y then y else u) m"
  using assms by (subst udp_find.simps) (auto simp: udp_full_def udp_half_def Let_def)

lemma udp_find_none:
  assumes "linked udp_next m pcb ys" "\<forall>y \<in> set ys. \<not> udp_full h src dest nif m y"
  shows "\<exists>pv. udp_find h src dest nif pcb prev u m = Some (NULL, pv, if u = NULL then first_or (udp_half h dest nif m) ys NULL else u)"
  using assms
proof (induction ys arbitrary: pcb prev u)
  case (Cons y ys)
  then obtain c where c: "pcb = y" "m y = Some c" "y \<noteq> NULL" "linked udp_next m (udp_next c) ys" "\<not> udp_full h src dest nif m y" by auto
  show ?case
    using Cons.IH [OF c(4), of y "if u = NULL \<and> udp_half h dest nif m y then y else u"] Cons.prems(2) c(3)
    unfolding c(1) udp_find_step [OF c(2,3,5)] by (auto split: if_splits)
qed (simp add: udp_find.simps)

lemma udp_find_some:
  assumes "linked udp_next m pcb (as @ x # bs)" "\<forall>y \<in> set as. \<not> udp_full h src dest nif m y" "udp_full h src dest nif m x"
  shows "\<exists>u'. udp_find h src dest nif pcb prev u m = Some (x, last (prev # as), u')"
  using assms
proof (induction as arbitrary: pcb prev u)
  case Nil
  then show ?case by (subst udp_find.simps) (auto simp: udp_full_def Let_def split: option.splits)
next
  case (Cons y as)
  then obtain c where c: "pcb = y" "m y = Some c" "y \<noteq> NULL" "linked udp_next m (udp_next c) (as @ x # bs)" "\<not> udp_full h src dest nif m y" by auto
  show ?case
    using Cons.IH [OF c(4), of y "if u = NULL \<and> udp_half h dest nif m y then y else u"] Cons.prems(2,3)
    unfolding c(1) udp_find_step [OF c(2,3,5)] by simp
qed

lemma first_or_cases:
  obtains (none) "\<forall>x \<in> set xs. \<not> P x" "first_or P xs d = d"
  | (some) as x bs where "xs = as @ x # bs" "\<forall>y \<in> set as. \<not> P y" "P x" "first_or P xs d = x"
proof (cases "\<exists>x \<in> set xs. P x")
  case True
  then obtain as x bs where s: "xs = as @ x # bs" "P x" "\<forall>y \<in> set as. \<not> P y" using split_list_first_prop [OF True] by blast
  have "first_or P (as @ x # bs) d = x" using s(2,3) by (induction as) simp_all
  then show thesis using some [of as x bs] s by blast
next
  case False
  then have "first_or P xs d = d" by (induction xs) simp_all
  then show thesis using none False by blast
qed

text \<open>The blocks but for their links.\<close>

definition same_blocks :: "(addr \<rightharpoonup> udp_pcb) \<Rightarrow> (addr \<rightharpoonup> udp_pcb) \<Rightarrow> bool" where
  "same_blocks m m' \<longleftrightarrow> (\<forall>a. map_option (set_udp_next NULL) (m a) = map_option (set_udp_next NULL) (m' a))"

lemma same_blocksD:
  assumes "same_blocks m m'" "m a = Some c"
  obtains q where "m' a = Some (set_udp_next q c)"
proof -
  obtain c' where c': "m' a = Some c'" "set_udp_next NULL c = set_udp_next NULL c'"
    using assms(1) assms(2) spec [of "\<lambda>a. map_option (set_udp_next NULL) (m a) = map_option (set_udp_next NULL) (m' a)" a]
    by (cases "m' a") (auto simp: same_blocks_def)
  have "c' = set_udp_next (udp_next c') (set_udp_next NULL c')" by simp
  also have "\<dots> = set_udp_next (udp_next c') c" using c'(2) by (metis udp_pcb.update_convs(1) udp_pcb.cases)
  finally have "m' a = Some (set_udp_next (udp_next c') c)" using c'(1) by simp
  then show thesis by (rule that)
qed

lemma same_blocks_refl [simp]: "same_blocks m m"
  by (simp add: same_blocks_def)

lemma same_blocks_listed:
  assumes "same_blocks (udp_mem s) m" "udp_listed s xs" "linked udp_next m p ys" "set ys = set xs"
  shows "udp_listed (s\<lparr>udp_pcbs := p, udp_mem := m\<rparr>) ys"
proof -
  have eq: "map_option udp_local_port (udp_mem s a) = map_option udp_local_port (m a)" for a
  proof (cases "udp_mem s a")
    case None
    then show ?thesis using assms(1) by (cases "m a") (simp_all add: same_blocks_def, metis option.distinct(1) option.map(1) option.map(2))
  next
    case (Some c)
    show ?thesis by (rule same_blocksD [OF assms(1) Some]) (simp add: Some)
  qed
  have ex: "(\<exists>c. z = Some c \<and> udp_local_port c \<noteq> 0) \<longleftrightarrow> (\<exists>q. map_option udp_local_port z = Some q \<and> q \<noteq> 0)" for z
    by auto
  have "(\<exists>c. udp_mem s a = Some c \<and> udp_local_port c \<noteq> 0) \<longleftrightarrow> (\<exists>c. m a = Some c \<and> udp_local_port c \<noteq> 0)" for a
    unfolding ex eq ..
  then show ?thesis using assms(2-4) by (simp add: udp_listed_def)
qed

lemma same_blocks_ok:
  assumes "same_blocks (udp_mem s) m" "udp_ok s" "udp_listed (s\<lparr>udp_pcbs := p, udp_mem := m\<rparr>) ys"
  shows "udp_ok (s\<lparr>udp_pcbs := p, udp_mem := m\<rparr>)"
proof -
  have "m a = None" if "udp_mem s a = None" for a
    using assms(1) that spec [of "\<lambda>a. map_option (set_udp_next NULL) (udp_mem s a) = map_option (set_udp_next NULL) (m a)" a]
    by (simp add: same_blocks_def)
  then show ?thesis using assms(2,3) by (auto simp: udp_ok_def)
qed

text \<open>
  \<^verbatim>\<open>udp_input\<close> delivers a datagram to the first block on the list that matches both ends, and if there is none to the
  first unconnected block that matches the local end, exactly as the reference chooses.  A block that matches both ends is moved to
  the front; the list keeps its other blocks in their order, and nothing else of the blocks changes.
\<close>

lemma udp_demux_spec:
  assumes "udp_ok s" "udp_listed s xs"
  shows "\<exists>s'. udp_demux h src dest nif s = Some (udp_receiver h src dest nif (udp_mem s) xs, s') \<and> udp_ok s'
    \<and> same_blocks (udp_mem s) (udp_mem s') \<and> s' = s\<lparr>udp_pcbs := udp_pcbs s', udp_mem := udp_mem s'\<rparr>
    \<and> udp_listed s' (if \<exists>x \<in> set xs. udp_full h src dest nif (udp_mem s) x
        then udp_receiver h src dest nif (udp_mem s) xs # remove1 (udp_receiver h src dest nif (udp_mem s) xs) xs else xs)"
proof -
  let ?full = "udp_full h src dest nif (udp_mem s)" and ?half = "udp_half h dest nif (udp_mem s)" and ?m = "udp_mem s"
  note l = udp_listed_linked [OF assms(2)]
  show ?thesis
  proof (cases rule: first_or_cases [of xs ?full "first_or ?half xs NULL"])
    case none
    then have "udp_demux h src dest nif s = Some (first_or ?half xs NULL, s)"
      using udp_find_none [OF l, of h src dest nif NULL NULL] by (auto simp: udp_demux_def)
    then show ?thesis using none assms by (auto simp: udp_receiver_def)
  next
    case (some as x bs)
    have x: "x \<noteq> NULL" using linked_in_store [OF l, of x] some(1) by simp
    have d: "x \<notin> set as" using linked_distinct [OF l] some(1) by simp
    obtain u where f: "udp_find h src dest nif (udp_pcbs s) NULL NULL ?m = Some (x, last (NULL # as), u)"
      using udp_find_some [OF l [unfolded some(1)] some(2,3)] by blast
    have r: "udp_receiver h src dest nif ?m xs = x" using some(4) by (simp add: udp_receiver_def)
    show ?thesis
    proof (cases as rule: rev_cases)
      case Nil
      then have "udp_demux h src dest nif s = Some (x, s)"
        using f x l some(1) by (simp add: udp_demux_def to_front_def)
      then show ?thesis unfolding r using assms some(1,3) Nil by auto
    next
      case (snoc zs y)
      then have xs: "xs = zs @ y # x # bs" using some(1) by simp
      have y: "y \<noteq> NULL" using linked_in_store [OF l, of y] xs by simp
      obtain m where m: "to_front udp_next set_udp_next x y (udp_pcbs s) ?m = Some (x, m)" "linked udp_next m x (x # zs @ y # bs)"
        "\<forall>z. z \<notin> {x, y} \<longrightarrow> m z = ?m z" "\<exists>c. ?m x = Some c \<and> m x = Some (set_udp_next (udp_pcbs s) c)"
        "\<exists>c q. ?m y = Some c \<and> m y = Some (set_udp_next q c)"
        using udp_list.to_front_linked [OF l [unfolded xs]] by blast
      let ?s = "s\<lparr>udp_pcbs := x, udp_mem := m\<rparr>"
      have sb: "same_blocks ?m m" unfolding same_blocks_def
      proof
        fix a
        show "map_option (set_udp_next NULL) (?m a) = map_option (set_udp_next NULL) (m a)"
          using m(3-5) by (cases "a \<in> {x, y}") auto
      qed
      have li: "udp_listed ?s (x # zs @ y # bs)" by (rule same_blocks_listed [OF sb assms(2) m(2)]) (auto simp: xs)
      have "udp_demux h src dest nif s = Some (x, ?s)" using f m(1) x snoc by (simp add: udp_demux_def)
      moreover have "remove1 x xs = zs @ y # bs" using d snoc by (simp add: xs remove1_append)
      ultimately show ?thesis
        unfolding r using li sb same_blocks_ok [OF sb assms(1) li] some(1,3) by (intro exI [of _ ?s]) auto
    qed
  qed
qed

subsection \<open>The other operations\<close>

lemma udp_new_ok: "udp_ok s \<Longrightarrow> udp_ok (snd (udp_new s))"
proof (cases "udp_avail s")
  case (Cons a as)
  assume ok: "udp_ok s"
  then obtain xs where xs: "udp_listed s xs" by (rule udp_okE)
  have a: "udp_mem s a = None" "a \<noteq> NULL" "a \<notin> set as" using ok Cons by (auto simp: udp_ok_def)
  then have "a \<notin> set xs" using xs by (auto simp: udp_listed_def)
  then have "udp_listed (snd (udp_new s)) xs"
    using xs by (auto simp: udp_new_def Cons udp_listed_def set_udp_def)
  then show ?thesis using ok a by (auto simp: udp_ok_def udp_new_def Cons set_udp_def)
qed (simp add: udp_new_def)

lemma udp_bind_returns:
  assumes "udp_ok s" "udp_mem s a = Some c"
  shows "\<exists>e s' c'. udp_bind a addr port s = Some (e, s') \<and> udp_ok s' \<and> udp_mem s' a = Some c' \<and> (e = ERR_OK \<longrightarrow> udp_local_port c' \<noteq> 0)"
proof -
  obtain e s' c' where b: "udp_bind a addr port s = Some (e, s')" "udp_ok s'" "udp_mem s' a = Some c'"
    "if port \<noteq> 0 then e = ERR_OK \<and> udp_local_port c' = port
       else if udp_free_ports s = {} then e = ERR_USE \<and> udp_local_port c' = udp_local_port c
       else e = ERR_OK \<and> udp_local_port c' \<in> udp_free_ports s \<and> (\<forall>q \<in> udp_free_ports s. udp_local_port c' \<le> q)"
    using udp_bind_spec [OF assms, of addr port] by blast
  have "udp_local_port c' \<noteq> 0" if "udp_local_port c' \<in> udp_free_ports s"
    using that by (auto simp: udp_free_ports_def UDP_LOCAL_PORT_RANGE_START_def)
  then have "e = ERR_OK \<longrightarrow> udp_local_port c' \<noteq> 0" using b(4) by (auto split: if_splits)
  then show ?thesis using b(1-3) by blast
qed

text \<open>The block as it is used by sending and connecting: bound first, when it has no port.\<close>

lemma udp_bound_returns:
  assumes "udp_ok s" "udp_mem s a = Some c"
  shows "\<exists>e s' c'. (if udp_local_port c = 0 then udp_bind a (udp_local_ip c) 0 s else Some (ERR_OK, s)) = Some (e, s')
    \<and> udp_ok s' \<and> udp_mem s' a = Some c' \<and> (e = ERR_OK \<longrightarrow> udp_local_port c' \<noteq> 0)"
  using udp_bind_returns [OF assms, of "udp_local_ip c" 0] assms by (cases "udp_local_port c = 0") auto

lemma udp_connect_returns:
  assumes "udp_ok s" "udp_mem s a = Some c"
  shows "\<exists>e s'. udp_connect a addr port s = Some (e, s') \<and> udp_ok s'"
proof -
  obtain e t c' where b: "(if udp_local_port c = 0 then udp_bind a (udp_local_ip c) 0 s else Some (ERR_OK, s)) = Some (e, t)"
    "udp_ok t" "udp_mem t a = Some c'" "e = ERR_OK \<longrightarrow> udp_local_port c' \<noteq> 0"
    using udp_bound_returns [OF assms] by blast
  show ?thesis
  proof (cases "e = ERR_OK")
    case False
    then show ?thesis using assms(2) b by (auto simp: udp_connect_def)
  next
    case True
    let ?c = "c'\<lparr>udp_remote_ip := addr, udp_remote_port := port, udp_flags := udp_flags c' OR UDP_FLAGS_CONNECTED\<rparr>"
    obtain xs where "udp_listed t xs" by (rule udp_okE [OF b(2)])
    then have xs: "udp_listed (set_udp a ?c t) xs" and ok: "udp_ok (set_udp a ?c t)"
      using udp_listed_upd [OF _ b(3)] udp_ok_upd [OF b(2,3)] by simp_all
    have "a \<in> set xs" using xs b(4) True by (auto simp: udp_listed_def set_udp_def)
    then have "on_list udp_next a (udp_pcbs (set_udp a ?c t)) (udp_mem (set_udp a ?c t)) = Some True"
      using on_list_linked [OF udp_listed_linked [OF xs]] by simp
    then have "udp_connect a addr port s = Some (ERR_OK, set_udp a ?c t)"
      using assms(2) b(1,3) True by (simp add: udp_connect_def)
    then show ?thesis using ok by blast
  qed
qed

lemma udp_remove_returns:
  assumes "udp_ok s" "udp_mem s a = Some c"
  shows "\<exists>s'. udp_remove a s = Some s' \<and> udp_ok s'"
proof -
  obtain xs where xs: "udp_listed s xs" by (rule udp_okE [OF assms(1)])
  note l = udp_listed_linked [OF xs] and a = udp_ok_live [OF assms]
  have "\<exists>p m. udp_remove a s = Some (s\<lparr>udp_pcbs := p, udp_mem := m(a := None), udp_avail := a # udp_avail s\<rparr>)
    \<and> linked udp_next m p (remove1 a xs) \<and> same_blocks (udp_mem s) m"
  proof (cases "\<exists>ys. xs = a # ys")
    case True
    then obtain ys where ys: "xs = a # ys" by blast
    then have "udp_pcbs s = a" "linked udp_next (udp_mem s) (udp_next c) ys" using l assms(2) by auto
    then show ?thesis using assms(2) ys by (intro exI [of _ "udp_next c"] exI [of _ "udp_mem s"]) (simp add: udp_remove_def)
  next
    case False
    then have p: "udp_pcbs s \<noteq> a" using l a(1) by (cases xs) auto
    show ?thesis
    proof (cases "a \<in> set xs")
      case True
      then obtain as bs where ab: "xs = as @ a # bs" "a \<notin> set as" by (meson split_list_first)
      then obtain zs y where zs: "as = zs @ [y]" using False by (cases as rule: rev_cases) auto
      then have e: "xs = zs @ y # a # bs" using ab by simp
      obtain m where m: "unlink_next udp_next set_udp_next a (udp_pcbs s) (udp_mem s) = Some m" "linked udp_next m (udp_pcbs s) (zs @ y # bs)"
        "\<forall>z. z \<noteq> y \<longrightarrow> m z = udp_mem s z" "\<exists>c q. udp_mem s y = Some c \<and> m y = Some (set_udp_next q c)"
        using udp_list.unlink_next_linked [OF l [unfolded e]] by blast
      have "same_blocks (udp_mem s) m" unfolding same_blocks_def
      proof
        fix z show "map_option (set_udp_next NULL) (udp_mem s z) = map_option (set_udp_next NULL) (m z)"
          using m(3,4) by (cases "z = y") auto
      qed
      moreover have "remove1 a xs = zs @ y # bs" using ab(2) by (simp add: e zs remove1_append)
      ultimately show ?thesis using assms(2) p m(1,2)
        by (intro exI [of _ "udp_pcbs s"] exI [of _ m]) (simp add: udp_remove_def)
    next
      case no: False
      have "a \<notin> set (List.tl xs)" using no by (cases xs) auto
      then have "unlink_next udp_next set_udp_next a (udp_pcbs s) (udp_mem s) = Some (udp_mem s)"
        by (rule udp_list.unlink_next_absent [OF l])
      then show ?thesis using assms(2) p l no
        by (intro exI [of _ "udp_pcbs s"] exI [of _ "udp_mem s"]) (simp add: udp_remove_def remove1_idem)
    qed
  qed
  then obtain p m where r: "udp_remove a s = Some (s\<lparr>udp_pcbs := p, udp_mem := m(a := None), udp_avail := a # udp_avail s\<rparr>)"
    "linked udp_next m p (remove1 a xs)" "same_blocks (udp_mem s) m" by blast
  let ?s = "s\<lparr>udp_pcbs := p, udp_mem := m(a := None), udp_avail := a # udp_avail s\<rparr>"
  have n: "m b = None \<longleftrightarrow> udp_mem s b = None" for b
    using r(3) spec [of "\<lambda>a. map_option (set_udp_next NULL) (udp_mem s a) = map_option (set_udp_next NULL) (m a)" b]
    by (cases "m b"; cases "udp_mem s b") (simp_all add: same_blocks_def)
  have ex: "(\<exists>c. z = Some c \<and> udp_local_port c \<noteq> 0) \<longleftrightarrow> (\<exists>q. map_option udp_local_port z = Some q \<and> q \<noteq> 0)" for z
    by auto
  have "map_option udp_local_port (m b) = map_option udp_local_port (udp_mem s b)" for b
  proof (cases "udp_mem s b")
    case (Some d)
    show ?thesis by (rule same_blocksD [OF r(3) Some]) (simp add: Some)
  qed (use n in simp)
  then have b: "(\<exists>c. m b = Some c \<and> udp_local_port c \<noteq> 0) \<longleftrightarrow> b \<in> set xs" for b
    using xs unfolding ex udp_listed_def by simp
  have "distinct xs" by (rule linked_distinct [OF l])
  then have "udp_listed ?s (remove1 a xs)"
    using r(2) b linked_upd [of a "remove1 a xs" udp_next m None p] by (auto simp: udp_listed_def)
  then have "udp_ok ?s" using assms(1) n a by (auto simp: udp_ok_def)
  then show ?thesis using r(1) by blast
qed

lemma udp_sendto_ok:
  assumes "udp_ok s" "udp_sendto a p room ip port s = Some (e, s')"
  shows "udp_ok s'"
proof -
  obtain c n where c: "udp_mem s a = Some c" "n = NULL \<and> s' = s \<or> udp_sendto_if a p room ip port n s = Some (e, s')"
    using assms(2) by (auto simp: udp_sendto_def Option.bind_eq_Some_conv split: if_split_asm)
  obtain e1 t c' where b: "(if udp_local_port c = 0 then udp_bind a (udp_local_ip c) 0 s else Some (ERR_OK, s)) = Some (e1, t)"
    "udp_ok t" "udp_mem t a = Some c'" using udp_bound_returns [OF assms(1) c(1)] by blast
  have al: "ip_alloc UDP_HLEN t = (fst (ip_alloc UDP_HLEN t), snd (ip_alloc UDP_HLEN t))" by simp
  have "sends t s'" if "udp_sendto_if a p room ip port n s = Some (e, s')"
    using that ip_alloc_sends [OF al] c(1) b(1) unfolding udp_sendto_if_def
    by (auto simp: Let_def Option.bind_eq_Some_conv split: if_split_asm option.split_asm prod.split_asm
        dest: ip_output_if_sends intro: sends_trans)
  then show ?thesis using c(2) assms(1) udp_ok_sends b(2) by blast
qed

lemma udp_input_ok:
  assumes "udp_ok s" "udp_input (\<lambda>_ _ _ _ _ _ s. s) p inp s = Some s'"
  shows "udp_ok s'"
proof -
  have "udp_ok t'" if "udp_demux h src dest nif s = Some (r, t)" "sends t t'" for h src dest nif r t t'
    using that udp_demux_spec assms(1) by (metis option.inject prod.inject udp_okE udp_ok_sends)
  then show ?thesis
    using assms unfolding udp_input_def icmp_dest_unreach_def
    by (auto simp: Let_def Option.bind_eq_Some_conv split: if_split_asm dest: icmp_error_sends)
qed

end
