(* ===== verification/Udp_States.thy ===== *)
theory Udp_States
  imports Udp_Lists Ip_Cut
begin

section \<open>UDP: what holds in every reachable state\<close>

text \<open>
  The calls of an application, the datagrams that arrive and the traffic of the other protocols are the steps of UDP.
  \<^verbatim>\<open>udp_input\<close> ends with the callback of the application, so what the callback does are further steps.
\<close>

definition idle_udp :: udp_app where "idle_udp _ _ _ _ _ _ s = s"

lemma udp_input_callback:
  assumes "udp_input app p inp s = Some s'"
  shows "\<exists>t. udp_input idle_udp p inp s = Some t \<and> (s' = t \<or> (\<exists>cb arg a q addr port. s' = app cb arg a q addr port t))"
proof -
  define R where "R = (\<lambda>x y. x = Some s' \<longrightarrow> (\<exists>t. y = Some t \<and> (s' = t \<or> (\<exists>cb arg a q addr port. s' = app cb arg a q addr port t))))"
  have R: "R x x" "R (Some (app cb arg a q addr port t)) (Some (idle_udp cb arg a q addr port t))" for x cb arg a q addr port t
    unfolding R_def idle_udp_def by blast+
  have bind: "R (Option.bind x f) (Option.bind x g)" if "\<And>v. R (f v) (g v)" for x :: "'b option" and f g
    using that by (cases x) (simp_all add: R_def)
  have cond: "R (if b then x else y) (if b then x' else y')" if "R x x'" "R y y'" for b x y x' y' using that by simp
  have app: "R (Some (if b then app cb arg a q addr port t else t)) (Some (if b then idle_udp cb arg a q addr port t else t))"
    for b cb arg a q addr port t by (cases b) (simp_all add: R)
  have "R (udp_input app p inp s) (udp_input idle_udp p inp s)"
    unfolding udp_input_def Let_def split_def by (intro bind cond app R(1))
  then show ?thesis using assms unfolding R_def by blast
qed

lemma udp_idle_input_ok: "udp_ok s \<Longrightarrow> udp_input idle_udp p inp s = Some s' \<Longrightarrow> udp_ok s'"
  using udp_input_ok [of s p inp s'] by (simp add: idle_udp_def [abs_def])

lemma udp_disconnect_ok: "udp_ok s \<Longrightarrow> udp_disconnect a s = Some s' \<Longrightarrow> udp_ok s'"
  by (auto simp: udp_disconnect_def Option.bind_eq_Some_conv intro!: udp_ok_upd)

lemma udp_recv_ok: "udp_ok s \<Longrightarrow> udp_recv a cb arg s = Some s' \<Longrightarrow> udp_ok s'"
  by (auto simp: udp_recv_def Option.bind_eq_Some_conv intro!: udp_ok_upd)

inductive udp_step :: "ip \<Rightarrow> ip \<Rightarrow> bool" where
  new: "udp_new s = (a, s') \<Longrightarrow> udp_step s s'"
| bind: "udp_bind a addr port s = Some (e, s') \<Longrightarrow> udp_step s s'"
| connect: "udp_connect a addr port s = Some (e, s') \<Longrightarrow> udp_step s s'"
| disconnect: "udp_disconnect a s = Some s' \<Longrightarrow> udp_step s s'"
| recv: "udp_recv a cb arg s = Some s' \<Longrightarrow> udp_step s s'"
| remove: "udp_remove a s = Some s' \<Longrightarrow> udp_step s s'"
| sendto: "udp_sendto a p room addr port s = Some (e, s') \<Longrightarrow> udp_step s s'"
| input: "udp_input idle_udp p inp s = Some s' \<Longrightarrow> udp_step s s'"
| traffic: "sends s s' \<Longrightarrow> udp_step s s'"

definition udp_init :: "ip \<Rightarrow> bool" where
  "udp_init s \<longleftrightarrow> udp_pcbs s = NULL \<and> udp_mem s = Map.empty \<and> distinct (udp_avail s) \<and> NULL \<notin> set (udp_avail s)"

inductive udp_reachable :: "ip \<Rightarrow> bool" where
  init: "udp_init s \<Longrightarrow> udp_reachable s"
| step: "udp_reachable s \<Longrightarrow> udp_step s s' \<Longrightarrow> udp_reachable s'"

text \<open>A call on a block is one on a live block: the functions read it first.\<close>

lemma udp_calls_live:
  "udp_bind a addr port s = Some r \<Longrightarrow> \<exists>c. udp_mem s a = Some c"
  "udp_connect a addr port s = Some r \<Longrightarrow> \<exists>c. udp_mem s a = Some c"
  "udp_remove a s = Some s' \<Longrightarrow> \<exists>c. udp_mem s a = Some c"
  by (auto simp: udp_bind_def udp_connect_def udp_remove_def Option.bind_eq_Some_conv)

lemma udp_step_ok: "udp_step s s' \<Longrightarrow> udp_ok s \<Longrightarrow> udp_ok s'"
proof (induction rule: udp_step.induct)
  case (new s a s')
  then show ?case using udp_new_ok [of s] by simp
next
  case (bind a addr port s e s')
  obtain c where "udp_mem s a = Some c" using udp_calls_live(1) [OF bind(1)] by blast
  from udp_bind_returns [OF bind(2) this, of addr port] show ?case using bind(1) by auto
next
  case (connect a addr port s e s')
  obtain c where "udp_mem s a = Some c" using udp_calls_live(2) [OF connect(1)] by blast
  from udp_connect_returns [OF connect(2) this, of addr port] show ?case using connect(1) by auto
next
  case (remove a s s')
  obtain c where "udp_mem s a = Some c" using udp_calls_live(3) [OF remove(1)] by blast
  from udp_remove_returns [OF remove(2) this] show ?case using remove(1) by auto
next
  case (traffic s s')
  then show ?case using udp_ok_sends [of s s'] by simp
qed (rule udp_disconnect_ok udp_recv_ok udp_sendto_ok udp_idle_input_ok; assumption)+

lemma udp_init_ok: "udp_init s \<Longrightarrow> udp_ok s"
  unfolding udp_init_def udp_ok_def udp_listed_def by (auto intro!: exI [of _ "[]"])

lemma udp_reachable_ok: "udp_reachable s \<Longrightarrow> udp_ok s"
  by (induction rule: udp_reachable.induct) (blast intro: udp_init_ok udp_step_ok)+

definition udp_sample :: ip where
  "udp_sample = (ip_sample 1500)\<lparr>udp_avail := [2, 3], udp_mem := [1 \<mapsto> \<lparr>udp_next = NULL, udp_local_ip = 0, udp_remote_ip = 0, udp_tos = 0,
     udp_ttl = UDP_TTL, udp_flags = 0, udp_local_port = 0, udp_remote_port = 0, udp_multicast_ip = 0, udp_recv_cb = 0, udp_recv_arg = NULL\<rparr>]\<rparr>"

lemma udp_sample_reachable: "udp_reachable udp_sample"
proof -
  have "udp_init ((ip_sample 1500)\<lparr>udp_avail := [1, 2, 3]\<rparr>)" by (simp add: udp_init_def ip_sample_def)
  then have "udp_reachable ((ip_sample 1500)\<lparr>udp_avail := [1, 2, 3]\<rparr>)" by (rule udp_reachable.init)
  moreover have "udp_new ((ip_sample 1500)\<lparr>udp_avail := [1, 2, 3]\<rparr>) = (1, udp_sample)"
    by (simp add: udp_new_def udp_sample_def ip_sample_def set_udp_def)
  ultimately show ?thesis by (blast intro: udp_reachable.step udp_step.new)
qed

lemma udp_sample_live: "udp_mem udp_sample 1 \<noteq> None"
  by (simp add: udp_sample_def)

text \<open>
  Claim C16: whatever the application calls and whatever arrives, the list of UDP blocks is a proper list without a cycle: it
  holds each bound block once and no other, all its blocks are live, and the pool holds only blocks that are not in use.
\<close>

theorem udp_reachable_well_formed:
  assumes "udp_reachable s"
  shows "\<exists>xs. linked udp_next (udp_mem s) (udp_pcbs s) xs \<and> distinct xs
    \<and> (\<forall>a. a \<in> set xs \<longleftrightarrow> (\<exists>c. udp_mem s a = Some c \<and> udp_local_port c \<noteq> 0))
    \<and> distinct (udp_avail s) \<and> (\<forall>a. a = NULL \<or> a \<in> set (udp_avail s) \<longrightarrow> udp_mem s a = None)"
proof -
  note ok = udp_reachable_ok [OF assms]
  obtain xs where "udp_listed s xs" by (rule udp_okE [OF ok])
  moreover from this have "distinct xs" by (rule linked_distinct [OF udp_listed_linked])
  ultimately show ?thesis using ok by (intro exI [of _ xs]) (auto simp: udp_listed_def udp_ok_def)
qed

theorem udp_reachable_well_formed_witness:
  "\<exists>xs. linked udp_next (udp_mem udp_sample) (udp_pcbs udp_sample) xs \<and> distinct (udp_avail udp_sample)"
  using udp_reachable_well_formed [OF udp_sample_reachable] by blast

text \<open>
  Claim C22: in every reachable state a call with a block that is in use returns, and returns to a state that is reachable again;
  the search for the receiver of a datagram returns for every header.  So no loop over the list runs forever and none
  follows a pointer to a block that was released.
\<close>

theorem udp_calls_return:
  assumes "udp_reachable s" "udp_mem s a \<noteq> None"
  shows "(\<exists>e s'. udp_bind a addr port s = Some (e, s') \<and> udp_reachable s')
    \<and> (\<exists>e s'. udp_connect a addr port s = Some (e, s') \<and> udp_reachable s')
    \<and> (\<exists>s'. udp_disconnect a s = Some s' \<and> udp_reachable s')
    \<and> (\<exists>s'. udp_recv a cb arg s = Some s' \<and> udp_reachable s')
    \<and> (\<exists>s'. udp_remove a s = Some s' \<and> udp_reachable s')
    \<and> udp_demux h src dest nif s \<noteq> None"
proof (intro conjI)
  obtain c where c: "udp_mem s a = Some c" using assms(2) by blast
  note ok = udp_reachable_ok [OF assms(1)]
  show "\<exists>e s'. udp_bind a addr port s = Some (e, s') \<and> udp_reachable s'"
    using udp_bind_returns [OF ok c, of addr port] by (blast intro: udp_reachable.step [OF assms(1)] udp_step.bind)
  show "\<exists>e s'. udp_connect a addr port s = Some (e, s') \<and> udp_reachable s'"
    using udp_connect_returns [OF ok c, of addr port] by (blast intro: udp_reachable.step [OF assms(1)] udp_step.connect)
  show "\<exists>s'. udp_remove a s = Some s' \<and> udp_reachable s'"
    using udp_remove_returns [OF ok c] by (blast intro: udp_reachable.step [OF assms(1)] udp_step.remove)
  have "udp_disconnect a s \<noteq> None" "udp_recv a cb arg s \<noteq> None" using c by (simp_all add: udp_disconnect_def udp_recv_def)
  then show "\<exists>s'. udp_disconnect a s = Some s' \<and> udp_reachable s'" "\<exists>s'. udp_recv a cb arg s = Some s' \<and> udp_reachable s'"
    by (blast intro: udp_reachable.step [OF assms(1)] udp_step.disconnect udp_step.recv)+
  obtain xs where "udp_listed s xs" by (rule udp_okE [OF ok])
  then show "udp_demux h src dest nif s \<noteq> None" using udp_demux_spec [OF ok] by fastforce
qed

theorem udp_calls_return_witness:
  "\<exists>e s'. udp_bind 1 0 53 udp_sample = Some (e, s') \<and> udp_reachable s'"
  using udp_calls_return [OF udp_sample_reachable udp_sample_live] by blast

text \<open>
  Claim C17: \<^verbatim>\<open>udp_bind\<close> binds a block to the port that is asked for, whoever else has it.  For port 0 the block gets the lowest
  port from 4096 on below \<^verbatim>\<open>UDP_LOCAL_PORT_RANGE_END\<close> that no block has; if there is none the answer is \<^verbatim>\<open>ERR_USE\<close> and only the
  local address has changed.  No other block changes.
\<close>

theorem udp_bind_binds:
  assumes "udp_reachable s" "udp_mem s a = Some c"
  shows "\<exists>e s' c'. udp_bind a addr port s = Some (e, s') \<and> udp_mem s' a = Some c' \<and> udp_local_ip c' = addr
    \<and> (\<forall>b. b \<noteq> a \<longrightarrow> udp_mem s' b = udp_mem s b)
    \<and> (if port \<noteq> 0 then e = ERR_OK \<and> udp_local_port c' = port
       else if udp_free_ports s = {} then e = ERR_USE \<and> udp_local_port c' = udp_local_port c
       else e = ERR_OK \<and> udp_local_port c' \<in> udp_free_ports s \<and> (\<forall>q \<in> udp_free_ports s. udp_local_port c' \<le> q))"
  using udp_bind_spec [OF udp_reachable_ok [OF assms(1)] assms(2), of addr port] by blast

lemma udp_sample_free: "udp_free_ports udp_sample = {UDP_LOCAL_PORT_RANGE_START..<UDP_LOCAL_PORT_RANGE_END}"
  by (auto simp: udp_free_ports_def udp_port_used_def udp_sample_def UDP_LOCAL_PORT_RANGE_START_def)

theorem udp_bind_binds_witness:
  "\<exists>s' c'. udp_bind 1 7 0 udp_sample = Some (ERR_OK, s') \<and> udp_mem s' 1 = Some c' \<and> udp_local_ip c' = 7 \<and> udp_local_port c' = 4096"
proof -
  obtain c where c: "udp_mem udp_sample 1 = Some c" using udp_sample_live by blast
  have "UDP_LOCAL_PORT_RANGE_START \<in> udp_free_ports udp_sample"
    unfolding udp_sample_free by (simp add: UDP_LOCAL_PORT_RANGE_START_def UDP_LOCAL_PORT_RANGE_END_def)
  moreover obtain e s' c' where "udp_bind 1 7 0 udp_sample = Some (e, s')" "udp_mem s' 1 = Some c'" "udp_local_ip c' = 7"
    "if udp_free_ports udp_sample = {} then e = ERR_USE \<and> udp_local_port c' = udp_local_port c
       else e = ERR_OK \<and> udp_local_port c' \<in> udp_free_ports udp_sample \<and> (\<forall>q \<in> udp_free_ports udp_sample. udp_local_port c' \<le> q)"
    using udp_bind_binds [OF udp_sample_reachable c, of 7 0] by auto
  moreover from this have "udp_local_port c' \<le> UDP_LOCAL_PORT_RANGE_START" "UDP_LOCAL_PORT_RANGE_START \<le> udp_local_port c'" "e = ERR_OK"
    using calculation(1) by (auto simp: udp_sample_free split: if_splits)
  ultimately show ?thesis by (auto simp: UDP_LOCAL_PORT_RANGE_START_def)
qed

text \<open>
  Claim C15: the search of \<^verbatim>\<open>udp_input\<close> is the reference choice: the first block on the list that matches both ends, and if there
  is none the first unconnected block that matches the local end.  A block that matches both ends is moved to the front of the
  list; the other blocks keep their order, and nothing but the links changes.
\<close>

theorem udp_demux_chooses:
  assumes "udp_reachable s" "linked udp_next (udp_mem s) (udp_pcbs s) xs"
  shows "\<exists>s'. udp_demux h src dest nif s = Some (udp_receiver h src dest nif (udp_mem s) xs, s')
    \<and> same_blocks (udp_mem s) (udp_mem s') \<and> s' = s\<lparr>udp_pcbs := udp_pcbs s', udp_mem := udp_mem s'\<rparr>
    \<and> linked udp_next (udp_mem s') (udp_pcbs s') (if \<exists>x \<in> set xs. udp_full h src dest nif (udp_mem s) x
        then udp_receiver h src dest nif (udp_mem s) xs # remove1 (udp_receiver h src dest nif (udp_mem s) xs) xs else xs)"
proof -
  note ok = udp_reachable_ok [OF assms(1)]
  obtain ys where ys: "udp_listed s ys" by (rule udp_okE [OF ok])
  then have "ys = xs" by (rule linked_unique [OF udp_listed_linked assms(2)])
  then show ?thesis using udp_demux_spec [OF ok ys, of h src dest nif] udp_listed_linked by blast
qed

definition udp_bound :: ip where
  "udp_bound = udp_sample\<lparr>udp_pcbs := 1, udp_mem := [1 \<mapsto> \<lparr>udp_next = NULL, udp_local_ip = 0, udp_remote_ip = 0, udp_tos = 0,
     udp_ttl = UDP_TTL, udp_flags = 0, udp_local_port = 53, udp_remote_port = 0, udp_multicast_ip = 0, udp_recv_cb = 0, udp_recv_arg = NULL\<rparr>]\<rparr>"

lemma udp_bound_reachable: "udp_reachable udp_bound"
proof -
  have "udp_bind 1 0 53 udp_sample = Some (ERR_OK, udp_bound)"
    by (simp add: udp_bind_def udp_sample_def udp_bound_def set_udp_def ip_sample_def on_list.simps)
  then show ?thesis by (blast intro: udp_reachable.step [OF udp_sample_reachable] udp_step.bind)
qed

theorem udp_demux_chooses_witness:
  "\<exists>s'. udp_demux ip_sample_hdr 9 53 \<lparr>netif_ip_addr = 0x0200000a, netif_netmask = 0xffffff, netif_flags = 3, netif_mtu = 1500, netif_gw = 0, netif_name = (0, 0), netif_num = 0\<rparr> udp_bound = Some (1, s')"
proof -
  let ?nif = "\<lparr>netif_ip_addr = 0x0200000a, netif_netmask = 0xffffff, netif_flags = 3, netif_mtu = 1500, netif_gw = 0, netif_name = (0, 0), netif_num = 0\<rparr>"
  have "linked udp_next (udp_mem udp_bound) (udp_pcbs udp_bound) [1]" by (simp add: udp_bound_def)
  moreover have "udp_receiver ip_sample_hdr 9 53 ?nif (udp_mem udp_bound) [1] = 1"
    by (simp add: udp_receiver_def udp_full_def udp_half_def udp_local_match_def udp_remote_match_def udp_bound_def)
  ultimately show ?thesis using udp_demux_chooses [OF udp_bound_reachable, of "[1]" ip_sample_hdr 9 53 ?nif] by auto
qed

end
