(* ===== verification/Udp_Wire.thy ===== *)
theory Udp_Wire
  imports Udp_States Ip_Round
begin

section \<open>UDP on the wire\<close>

text \<open>
  A datagram from the sender's call to the receiver's callback: the header is read back, the checksum is accepted, and IP
  carries it whole or in fragments.
\<close>

lemma length_udp_hdr_bytes [simp]: "length (udp_hdr_bytes h) = 8"
  by (simp add: udp_hdr_bytes_def be_bytes16_def)

lemma get_udp_hdr:
  "get16 (udp_hdr_bytes h @ xs) 0 = Some (uh_src h)" "get16 (udp_hdr_bytes h @ xs) 2 = Some (uh_dest h)"
  "\<exists>k. get16 (udp_hdr_bytes h @ xs) 6 = Some k \<and> (k = 0 \<longleftrightarrow> uh_chksum h = 0)"
proof -
  show "get16 (udp_hdr_bytes h @ xs) 0 = Some (uh_src h)" "get16 (udp_hdr_bytes h @ xs) 2 = Some (uh_dest h)"
    by (simp_all add: get16_def elem_def udp_hdr_bytes_def be_bytes16_def join_bytes16)
  have "get16 (udp_hdr_bytes h @ xs) 6 = Some (push_bit 8 (ucast (ucast (uh_chksum h) :: u8)) OR ucast (ucast (drop_bit 8 (uh_chksum h)) :: u8))"
    (is "_ = Some ?k") by (simp add: get16_def elem_def udp_hdr_bytes_def be_bytes16_def)
  moreover have "?k = 0 \<longleftrightarrow> uh_chksum h = 0"
  proof
    assume "?k = 0"
    then have "htons ?k = 0" by (simp add: htons_bytes)
    then show "uh_chksum h = 0" by (simp only: join_chksum)
  qed simp
  ultimately show "\<exists>k. get16 (udp_hdr_bytes h @ xs) 6 = Some k \<and> (k = 0 \<longleftrightarrow> uh_chksum h = 0)" by blast
qed

lemma le_sum_udp_hdr: "le_sum (udp_hdr_bytes h @ xs) = le_sum (udp_hdr_bytes (h\<lparr>uh_chksum := 0\<rparr>) @ xs) + unat (uh_chksum h)"
proof -
  have "unat (ucast (uh_chksum h) :: u8) + 256 * unat (ucast (drop_bit 8 (uh_chksum h)) :: u8) = unat (uh_chksum h)"
    using unat_half [of "uh_chksum h"] by (simp add: unat_ucast_mod unat_drop_bit)
  then show ?thesis by (simp add: udp_hdr_bytes_def be_bytes16_def)
qed

lemma pseudo_sum_completes: "ones_complement (n + (if ones_complement n = 65535 then 65535 else 65535 - ones_complement n)) = 65535"
proof (cases "ones_complement n = 65535")
  case True
  then have "rep 65535 n" using rep_ones_complement [of n] by simp
  then have "rep 65535 (n + 65535)" by (simp add: rep_def)
  then show ?thesis using rep_less_eq [of 65535 "n + 65535"] True by simp
qed (simp add: chksum_completes)

lemma udp_header_sel [simp]: "uh_src (udp_header sp dp si di nc p) = sp" "uh_dest (udp_header sp dp si di nc p) = dp"
  "uh_len (udp_header sp dp si di nc p) = tot_len p + 8"
  by (simp_all add: udp_header_def Let_def UDP_HLEN_def)

text \<open>The receiver computes the checksum over the same bytes, however they are split into buffers.\<close>

lemma udp_chksum_accepted:
  assumes "concat q = udp_hdr_bytes (udp_header sp dp si di nc p) @ concat p"
  shows "uh_chksum (udp_header sp dp si di nc p) \<noteq> 0 \<longrightarrow> udp_chksum si di q = 0"
proof
  let ?h = "udp_header sp dp si di nc p"
  let ?z = "?h\<lparr>uh_chksum := 0\<rparr>"
  assume nz: "uh_chksum ?h \<noteq> 0"
  then have nc: "\<not> nc" by (auto simp: udp_header_def Let_def)
  let ?ph = "pseudo_header si di IP_PROTO_UDP (tot_len (udp_hdr_bytes ?z # p))"
  let ?n = "le_sum (?ph @ udp_hdr_bytes ?z @ concat p)"
  have even: "even (length ?ph)" by (simp add: pseudo_header_def le_bytes32_def)
  have l: "tot_len q = tot_len (udp_hdr_bytes ?z # p)" using assms by (simp add: tot_len_def)
  define h1 where "h1 = \<lparr>uh_src = sp, uh_dest = dp, uh_len = tot_len p + word_of_nat UDP_HLEN, uh_chksum = 0\<rparr>"
  have h0: "?z = h1" by (simp add: udp_header_def h1_def Let_def)
  have "uh_chksum ?h = (let ck = udp_chksum si di (udp_hdr_bytes h1 # p) in if ck = 0 then 0xffff else ck)"
    using nc by (simp add: udp_header_def h1_def Let_def)
  moreover have "udp_chksum si di (udp_hdr_bytes h1 # p) = NOT (word_of_nat (ones_complement ?n))"
    by (simp add: udp_chksum_def rfc1071_def h0)
  moreover have "unat (NOT (word_of_nat (ones_complement ?n)) :: u16) = 65535 - ones_complement ?n"
    using ones_complement_less [of ?n] by (simp add: not_half unat_of_nat_small)
  ultimately have "unat (uh_chksum ?h) = (if ones_complement ?n = 65535 then 65535 else 65535 - ones_complement ?n)"
    using ones_complement_less [of ?n] by (auto simp: Let_def word_unat_eq_iff)
  moreover have "le_sum (?ph @ concat q) = ?n + unat (uh_chksum ?h)"
    unfolding assms using le_sum_append [OF even] le_sum_udp_hdr [of ?h "concat p"] by simp
  ultimately have "ones_complement (le_sum (?ph @ concat q)) = 65535" using pseudo_sum_completes [of ?n] by simp
  then show "udp_chksum si di q = 0" by (simp add: udp_chksum_def rfc1071_def l)
qed

subsection \<open>Sending\<close>

text \<open>A bound block whose address fits the interface, and room for the header in the first buffer.\<close>

lemma udp_sendto_output:
  fixes b :: "u8 list" and bs :: bufs and port :: u16
  assumes "udp_mem u a = Some c" "udp_local_port c \<noteq> 0" "ip_route_netif dst u = Some n" "n \<noteq> NULL" "netifs u n = Some nif"
    and "\<not> ip_addr_ismulticast dst" "udp_local_ip c = 0 \<or> udp_local_ip c = netif_ip_addr nif" "8 \<le> room"
  defines "h \<equiv> udp_header (udp_local_port c) port (netif_ip_addr nif) dst (has (udp_flags c) UDP_FLAGS_NOCHKSUM) (b # bs)"
  shows "udp_sendto a (b # bs) room dst port u
    = ip_output_pbuf ((udp_hdr_bytes h @ b) # bs) (room - 8) (netif_ip_addr nif) dst (udp_ttl c) (udp_tos c) IP_PROTO_UDP u"
  using assms(1-8) by (auto simp: udp_sendto_def udp_sendto_if_def ip_output_pbuf_def UDP_HLEN_def h_def Let_def)

subsection \<open>Receiving\<close>

lemma udp_input_delivers:
  assumes "udp_ok t" "udp_listed t xs" "netifs t inp = Some rnif"
    and "ip_hdr_of ((x @ udp_hdr_bytes uh @ d) # ds) = Some h" "length x = 4 * IPH_HL h" "length (x @ udp_hdr_bytes uh @ d) + length (concat ds) < 65536"
    and "uh_chksum uh \<noteq> 0 \<longrightarrow> udp_chksum (iph_src h) (iph_dest h) ((udp_hdr_bytes uh @ d) # ds) = 0"
    and "udp_receiver h (uh_src uh) (uh_dest uh) rnif (udp_mem t) xs = r" "r \<noteq> NULL" "udp_mem t r = Some c" "udp_recv_cb c \<noteq> 0"
  shows "\<exists>t'. udp_demux h (uh_src uh) (uh_dest uh) rnif t = Some (r, t') \<and> same_blocks (udp_mem t) (udp_mem t')
    \<and> udp_input app ((x @ udp_hdr_bytes uh @ d) # ds) inp t = Some (app (udp_recv_cb c) (udp_recv_arg c) r (d # ds) (iph_src h) (uh_src uh) t')"
proof -
  obtain t' where t': "udp_demux h (uh_src uh) (uh_dest uh) rnif t = Some (r, t')" "same_blocks (udp_mem t) (udp_mem t')"
    using udp_demux_spec [OF assms(1,2)] assms(8) by blast
  obtain q where q: "udp_mem t' r = Some (set_udp_next q c)" by (rule same_blocksD [OF t'(2) assms(10)])
  obtain k where k: "get16 (udp_hdr_bytes uh @ d) 6 = Some k" "k = 0 \<longleftrightarrow> uh_chksum uh = 0" using get_udp_hdr(3) by blast
  have "unat (tot_len ((x @ udp_hdr_bytes uh @ d) # ds)) = length (x @ udp_hdr_bytes uh @ d) + length (concat ds)"
    using assms(6) by (simp add: unat_tot_len)
  then have len: "\<not> unat (tot_len ((x @ udp_hdr_bytes uh @ d) # ds)) < IPH_HL h * 4 + UDP_HLEN" using assms(5) by (simp add: UDP_HLEN_def)
  have dr: "drop (IPH_HL h * 4) (x @ udp_hdr_bytes uh @ d) = udp_hdr_bytes uh @ d" using assms(5) by (simp add: mult.commute)
  show ?thesis
    using t' q k assms(3-5,7,9,11) len get_udp_hdr(1,2)
    by (intro exI [of _ t']) (auto simp: udp_input_def dr UDP_HLEN_def Let_def)
qed

subsection \<open>From one host to another\<close>

lemma udp_match_cong:
  assumes "iph_src h = iph_src h'" "iph_dest h = iph_dest h'"
  shows "udp_local_match h = udp_local_match h'" "udp_remote_match h = udp_remote_match h'"
  using assms by (simp_all add: fun_eq_iff udp_local_match_def udp_remote_match_def)

lemma udp_receiver_cong:
  assumes "iph_src h = iph_src h'" "iph_dest h = iph_dest h'"
  shows "udp_receiver h src dest nif m xs = udp_receiver h' src dest nif m xs"
  unfolding udp_receiver_def udp_full_def [abs_def] udp_half_def [abs_def] udp_match_cong [OF assms] ..

lemma udp_find_cong:
  assumes "iph_src h = iph_src h'" "iph_dest h = iph_dest h'" "linked udp_next m p xs"
  shows "udp_find h src dest nif p v n m = udp_find h' src dest nif p v n m"
  using assms(3)
proof (induction xs arbitrary: p v n)
  case (Cons x xs)
  then obtain c where c: "p = x" "x \<noteq> NULL" "m x = Some c" "linked udp_next m (udp_next c) xs" by auto
  show ?case
    unfolding udp_find.simps [of h src dest nif p] udp_find.simps [of h' src dest nif p] udp_match_cong [OF assms(1,2)]
    using c(1-3) Cons.IH [OF c(4)] by (simp add: Let_def)
qed (simp add: udp_find.simps)

lemma udp_demux_cong:
  assumes "iph_src h = iph_src h'" "iph_dest h = iph_dest h'" "linked udp_next (udp_mem s) (udp_pcbs s) xs"
  shows "udp_demux h src dest nif s = udp_demux h' src dest nif s"
  unfolding udp_demux_def udp_find_cong [OF assms] ..

text \<open>The header of UDP in the first buffer, behind the header of IP.\<close>

lemma udp_header_in_front:
  assumes "arrives (ip_hdr_bytes h @ udp_hdr_bytes uh @ data) r" "28 \<le> length (hd r)"
  obtains d ds where "r = (ip_hdr_bytes h @ udp_hdr_bytes uh @ d) # ds" "concat (d # ds) = data"
proof -
  obtain b ds where r: "r = (ip_hdr_bytes h @ b) # ds" "b @ concat ds = udp_hdr_bytes uh @ data"
    using arrives_hdr(5) [OF assms(1)] by auto
  have "8 \<le> length b" using assms(2) r(1) by simp
  moreover have "take 8 (b @ concat ds) = udp_hdr_bytes uh" unfolding r(2) by simp
  ultimately have "take 8 b = udp_hdr_bytes uh" by simp
  then have b: "b = udp_hdr_bytes uh @ drop 8 b" by (metis append_take_drop_id)
  moreover from this r(2) have "drop 8 b @ concat ds = data" by (metis append.assoc same_append_eq)
  ultimately show thesis using that [of "drop 8 b" ds] r(1) by simp
qed

lemma udp_dispatch_delivers:
  assumes "arrives (ip_hdr_bytes ih @ udp_hdr_bytes uh @ data) r" "28 \<le> length (hd r)" "length data < 65508" "IPH_HL ih = 5" "iph_proto ih = IP_PROTO_UDP"
    and "udp_ok t" "linked udp_next (udp_mem t) (udp_pcbs t) xs" "netifs t inp = Some rnif" "raw_pcbs t = NULL"
    and "uh = udp_header sp dp (iph_src ih) (iph_dest ih) nc p" "concat p = data"
    and "udp_receiver ih sp dp rnif (udp_mem t) xs = x" "x \<noteq> NULL" "udp_mem t x = Some d" "udp_recv_cb d \<noteq> 0"
  shows "\<exists>ds t'. concat ds = data \<and> udp_demux ih sp dp rnif t = Some (x, t')
    \<and> ip_dispatch app r room inp t = Some (Consumed, on_udp app (udp_recv_cb d) (udp_recv_arg d) x ds (iph_src ih) sp t')"
proof -
  obtain b bs where r: "r = (ip_hdr_bytes ih @ udp_hdr_bytes uh @ b) # bs" "concat (b # bs) = data"
    by (rule udp_header_in_front [OF assms(1,2)])
  have ih: "ip_hdr_of r = Some ih" by (rule arrives_hdr(1) [OF assms(1)])
  obtain ys where ys: "udp_listed t ys" by (rule udp_okE [OF assms(6)])
  then have xs: "udp_listed t xs" using linked_unique [OF udp_listed_linked assms(7)] by blast
  have ck: "uh_chksum uh \<noteq> 0 \<longrightarrow> udp_chksum (iph_src ih) (iph_dest ih) ((udp_hdr_bytes uh @ b) # bs) = 0"
    using udp_chksum_accepted [of "(udp_hdr_bytes uh @ b) # bs" sp dp "iph_src ih" "iph_dest ih" nc p] r(2) assms(10,11) by simp
  have hl: "length (ip_hdr_bytes ih) = 4 * IPH_HL ih" using assms(4) by simp
  have len: "length (ip_hdr_bytes ih @ udp_hdr_bytes uh @ b) + length (concat bs) < 65536"
    using arg_cong [OF r(2), of length] assms(3) by simp
  have rc: "udp_receiver ih (uh_src uh) (uh_dest uh) rnif (udp_mem t) xs = x" using assms(10,12) by simp
  obtain t' where t': "udp_demux ih (uh_src uh) (uh_dest uh) rnif t = Some (x, t')"
    "udp_input (on_udp app) ((ip_hdr_bytes ih @ udp_hdr_bytes uh @ b) # bs) inp t
      = Some (on_udp app (udp_recv_cb d) (udp_recv_arg d) x (b # bs) (iph_src ih) (uh_src uh) t')"
    using udp_input_delivers [OF assms(6) xs assms(8) ih [unfolded r(1)] hl len ck rc assms(13-15)] by blast
  then have "ip_dispatch app r room inp t = Some (Consumed, on_udp app (udp_recv_cb d) (udp_recv_arg d) x (b # bs) (iph_src ih) sp t')"
    using ih assms(5,9,10) unfolding r(1) by (simp add: ip_dispatch_def raw_input_def raw_input_loop.simps)
  then show ?thesis using t'(1) r(2) assms(10) by (intro exI [of _ "b # bs"] exI [of _ t']) simp
qed

text \<open>
  Claim C3: a datagram sent with \<^verbatim>\<open>udp_sendto\<close> reaches the callback of the block the receiver's list chooses: \<^verbatim>\<open>udp_sendto\<close> hands
  packets to the driver, and \<^verbatim>\<open>ip_input\<close> of the receiver, given these packets in order and split into any buffers, ends with
  the call of the callback with the data, the sender's address and the sender's port.  The checksums are accepted, also
  when the sum is 0 and 0xffff is sent in its place, or when the sender computes none.
\<close>

theorem udp_datagram_over_ip:
  assumes "udp_mem u a = Some c" "udp_local_port c \<noteq> 0" "ip_route_netif dst u = Some n" "n \<noteq> NULL" "netifs u n = Some nif"
    and "\<not> ip_addr_ismulticast dst" "udp_local_ip c = 0 \<or> udp_local_ip c = netif_ip_addr nif" "netif_ip_addr nif \<noteq> 0"
    and "p \<noteq> []" "28 \<le> room" "length (concat p) < 65508"
    and "netif_mtu nif = 0 \<or> 35 \<le> unat (netif_mtu nif) \<and> unat (netif_mtu nif) \<le> 1500"
    and "ip_allocs u = map Some js @ as" "28 + length (concat p) < 8 * length js"
    and "udp_reachable t" "linked udp_next (udp_mem t) (udp_pcbs t) xs" "ip_accepts (netif_ip_addr nif) dst inp t" "netifs t inp = Some rnif"
    and "raw_pcbs t = NULL" "reassdatagrams t = NULL" "ip_reass_pbufcount t = 0" "reass_avail t = f # free" "f \<noteq> NULL" "reass_mem t f = None"
    and "iph_src h = netif_ip_addr nif" "iph_dest h = dst" "udp_receiver h (udp_local_port c) port rnif (udp_mem t) xs = x" "x \<noteq> NULL"
    and "udp_mem t x = Some d" "udp_recv_cb d \<noteq> 0"
  shows "\<exists>e u'. udp_sendto a p room dst port u = Some (e, u')
    \<and> (\<forall>qs. list_all2 arrives (sent_packets u u') (map fst qs) \<and> 28 \<le> length (hd (fst (hd qs))) \<and> (\<Sum>q\<leftarrow>qs. length (fst q)) \<le> 10 \<longrightarrow>
      (\<exists>ds t'. concat ds = concat p \<and> udp_demux h (udp_local_port c) port rnif t = Some (x, t')
        \<and> ip_receive app inp qs t = Some (replicate (length qs - 1) Consumed @ [Consumed],
            on_udp app (udp_recv_cb d) (udp_recv_arg d) x ds (netif_ip_addr nif) (udp_local_port c) t')))"
proof -
  obtain b bs where p: "p = b # bs" using assms(9) by (cases p) auto
  let ?src = "netif_ip_addr nif"
  let ?uh = "udp_header (udp_local_port c) port ?src dst (has (udp_flags c) UDP_FLAGS_NOCHKSUM) p"
  let ?p = "(udp_hdr_bytes ?uh @ b) # bs"
  let ?ih = "build_ip_hdr (word_of_nat (20 + length (concat ?p))) (ip_id u) ?src dst (udp_ttl c) (udp_tos c) IP_PROTO_UDP nif"
  have c: "concat ?p = udp_hdr_bytes ?uh @ concat p" by (simp add: p)
  have len: "length (concat ?p) < 65516" "20 + length (concat ?p) < 8 * length js" "20 \<le> room - 8" "8 \<le> room"
    using assms(10,11,14) unfolding c by simp_all
  obtain e u' where o: "ip_output_pbuf ?p (room - 8) ?src dst (udp_ttl c) (udp_tos c) IP_PROTO_UDP u = Some (e, u')"
    and r: "\<And>qs. list_all2 arrives (sent_packets u u') (map fst qs) \<Longrightarrow> ready_for ?ih (\<Sum>q\<leftarrow>qs. length (fst q)) t \<Longrightarrow>
      \<exists>r room. arrives (ip_hdr_bytes ?ih @ concat ?p) r
        \<and> (length (hd r) = length (hd (fst (hd qs))) \<or> netif_mtu nif \<noteq> 0 \<and> min (length (hd (fst (hd qs)))) (unat (netif_mtu nif) - 7) \<le> length (hd r))
        \<and> ip_receive app inp qs t = do { (u, t) \<leftarrow> ip_dispatch app r room inp t; Some (replicate (length qs - 1) Consumed @ [u], t) }"
    using ip_output_received [where app = app and life = "udp_ttl c" and ts = "udp_tos c" and proto = IP_PROTO_UDP,
      OF assms(3-5) len(3) _ len(1) assms(8) _ assms(13) len(2) assms(17)] assms(12)
    by fastforce
  have ss: "udp_sendto a p room dst port u = Some (e, u')"
    using udp_sendto_output [where port = port and b = b and bs = bs, OF assms(1-7) len(4)] o unfolding p by simp
  have "\<exists>ds t'. concat ds = concat p \<and> udp_demux h (udp_local_port c) port rnif t = Some (x, t')
        \<and> ip_receive app inp qs t = Some (replicate (length qs - 1) Consumed @ [Consumed],
            on_udp app (udp_recv_cb d) (udp_recv_arg d) x ds ?src (udp_local_port c) t')"
    if q: "list_all2 arrives (sent_packets u u') (map fst qs)" "28 \<le> length (hd (fst (hd qs)))" "(\<Sum>q\<leftarrow>qs. length (fst q)) \<le> 10" for qs
  proof -
    have "ready_for ?ih (\<Sum>q\<leftarrow>qs. length (fst q)) t" using q(3) assms(20-24) by (auto simp: ready_for_def find_reass.simps)
    from r [OF q(1) this] obtain r room where r: "arrives (ip_hdr_bytes ?ih @ concat ?p) r"
      "length (hd r) = length (hd (fst (hd qs))) \<or> netif_mtu nif \<noteq> 0 \<and> min (length (hd (fst (hd qs)))) (unat (netif_mtu nif) - 7) \<le> length (hd r)"
      "ip_receive app inp qs t = do { (u, t) \<leftarrow> ip_dispatch app r room inp t; Some (replicate (length qs - 1) Consumed @ [u], t) }"
      by blast
    have l: "28 \<le> length (hd r)" using q(2) r(2) assms(12) by auto
    have hs: "iph_src ?ih = iph_src h" "iph_dest ?ih = iph_dest h" using assms(8,25,26) by simp_all
    have rc: "udp_receiver ?ih (udp_local_port c) port rnif (udp_mem t) xs = x" using udp_receiver_cong [OF hs] assms(27) by simp
    have hl: "IPH_HL ?ih = 5" "iph_proto ?ih = IP_PROTO_UDP" by (simp_all add: IPH_HL_def)
    have uh: "?uh = udp_header (udp_local_port c) port (iph_src ?ih) (iph_dest ?ih) (has (udp_flags c) UDP_FLAGS_NOCHKSUM) p" using assms(8) by simp
    have ar: "arrives (ip_hdr_bytes ?ih @ udp_hdr_bytes ?uh @ concat p) r" using r(1) unfolding c .
    obtain ds t' where "concat ds = concat p" "udp_demux ?ih (udp_local_port c) port rnif t = Some (x, t')"
      "ip_dispatch app r room inp t = Some (Consumed, on_udp app (udp_recv_cb d) (udp_recv_arg d) x ds (iph_src ?ih) (udp_local_port c) t')"
      using udp_dispatch_delivers [OF ar l assms(11) hl udp_reachable_ok [OF assms(15)] assms(16,18,19) uh refl rc assms(28-30)] by blast
    then show ?thesis using r(3) udp_demux_cong [OF hs assms(16)] assms(8) by (intro exI [of _ ds] exI [of _ t']) simp
  qed
  then show ?thesis using ss by blast
qed

definition udp_nif :: netif where
  "udp_nif = \<lparr>netif_ip_addr = 0x0100000a, netif_netmask = 0xffffff, netif_flags = 3, netif_mtu = 1500, netif_gw = 0, netif_name = (0, 0), netif_num = 0\<rparr>"

definition udp_listener :: udp_pcb where
  "udp_listener = \<lparr>udp_next = NULL, udp_local_ip = 0, udp_remote_ip = 0, udp_tos = 0, udp_ttl = UDP_TTL, udp_flags = 0, udp_local_port = 53,
     udp_remote_port = 0, udp_multicast_ip = 0, udp_recv_cb = 1, udp_recv_arg = 77\<rparr>"

definition udp_server :: ip where
  "udp_server = udp_bound\<lparr>netifs := [1 \<mapsto> udp_nif], udp_mem := [1 \<mapsto> udp_listener]\<rparr>"

text \<open>A callback that leaves a trace of its arguments in the state.\<close>

definition trace_app :: ip_app where
  "trace_app = \<lparr>on_raw = (\<lambda>_ _ _ _ _ t. (0, t)), on_udp = (\<lambda>cb arg pcb p addr port t. t\<lparr>wire := [(arg, p, addr)]\<rparr>)\<rparr>"

lemma udp_server_reachable: "udp_reachable udp_server"
proof -
  let ?f = "(ip_sample 1500)\<lparr>netifs := [1 \<mapsto> udp_nif], udp_avail := [1, 2, 3]\<rparr>"
  let ?c = "\<lparr>udp_next = NULL, udp_local_ip = 0, udp_remote_ip = 0, udp_tos = 0, udp_ttl = UDP_TTL, udp_flags = 0, udp_local_port = 0,
     udp_remote_port = 0, udp_multicast_ip = 0, udp_recv_cb = 0, udp_recv_arg = NULL\<rparr>"
  let ?n = "?f\<lparr>udp_avail := [2, 3], udp_mem := [1 \<mapsto> ?c]\<rparr>"
  let ?r = "?n\<lparr>udp_mem := [1 \<mapsto> ?c\<lparr>udp_recv_cb := 1, udp_recv_arg := 77\<rparr>]\<rparr>"
  have "udp_init ?f" by (simp add: udp_init_def ip_sample_def)
  moreover have "udp_new ?f = (1, ?n)" by (simp add: udp_new_def ip_sample_def set_udp_def)
  moreover have "udp_recv 1 1 77 ?n = Some ?r" by (simp add: udp_recv_def set_udp_def)
  moreover have "udp_bind 1 0 53 ?r = Some (ERR_OK, udp_server)"
    by (simp add: udp_bind_def set_udp_def ip_sample_def on_list.simps udp_server_def udp_bound_def udp_sample_def udp_listener_def)
  ultimately show ?thesis
    using udp_reachable.init udp_reachable.step udp_step.new udp_step.recv udp_step.bind by meson
qed

definition udp_client :: ip where
  "udp_client = (ip_sample 1500)\<lparr>udp_mem := [3 \<mapsto> udp_listener\<lparr>udp_local_port := 4096\<rparr>], udp_pcbs := 3\<rparr>"

theorem udp_datagram_over_ip_witness:
  "\<exists>e u b t ds. udp_sendto 3 [[1, 2, 3], [4, 5]] 54 0x0100000a 53 udp_client = Some (e, u) \<and> sent_packets udp_client u = [b]
    \<and> ip_receive trace_app 1 [([b], 0)] udp_server = Some ([Consumed], t) \<and> wire t = [(77, ds, 0x0200000a)] \<and> concat ds = [1, 2, 3, 4, 5]"
proof -
  let ?c = "udp_listener\<lparr>udp_local_port := 4096\<rparr>" and ?dst = "0x0100000a" and ?p = "[[1, 2, 3], [4, 5]] :: bufs"
  let ?nif = "\<lparr>netif_ip_addr = 0x0200000a, netif_netmask = 0xffffff, netif_flags = 3, netif_mtu = 1500, netif_gw = 0, netif_name = (0, 0), netif_num = 0\<rparr>"
  let ?h = "ip_sample_hdr\<lparr>iph_src := 0x0200000a, iph_dest := ?dst\<rparr>"
  have c: "udp_mem udp_client 3 = Some ?c" "udp_local_port ?c \<noteq> 0" "ip_route_netif ?dst udp_client = Some 1" "(1 :: addr) \<noteq> NULL" "netifs udp_client 1 = Some ?nif"
    "\<not> ip_addr_ismulticast ?dst" "udp_local_ip ?c = 0 \<or> udp_local_ip ?c = netif_ip_addr ?nif" "netif_ip_addr ?nif \<noteq> 0"
    "wire udp_client = []"
    by (simp_all add: udp_client_def udp_listener_def ip_sample_def ip_route_netif_def netif_is_up_def NETIF_FLAG_UP_def ip_addr_netcmp_def
        ip_addr_ismulticast_def ntohl_def htonl_def)
  have al: "ip_allocs udp_client = map Some (replicate 16 []) @ []" by (simp add: udp_client_def ip_sample_def numeral_eq_Suc)
  have acc: "ip_accepts 0x0200000a 0x0100000a 1 udp_server"
    by (simp add: ip_accepts_def udp_server_def udp_bound_def udp_sample_def ip_sample_def match_netif_def accepts_def netif_is_up_def ip_addr_isbroadcast_def
        ip_addr_ismulticast_def ip_addr_netcmp_def NETIF_FLAG_UP_def NETIF_FLAG_BROADCAST_def ntohl_def htonl_def udp_nif_def)
  have t: "linked udp_next (udp_mem udp_server) (udp_pcbs udp_server) [1]" "netifs udp_server 1 = Some udp_nif" "raw_pcbs udp_server = NULL"
    "reassdatagrams udp_server = NULL" "ip_reass_pbufcount udp_server = 0" "reass_avail udp_server = 1 # [2, 3, 4, 5]" "reass_mem udp_server 1 = None"
    "udp_mem udp_server 1 = Some udp_listener" "udp_recv_cb udp_listener \<noteq> 0"
    by (simp_all add: udp_server_def udp_bound_def udp_sample_def ip_sample_def udp_listener_def)
  have r: "udp_receiver ?h (udp_local_port ?c) 53 udp_nif (udp_mem udp_server) [1] = 1"
    by (simp add: udp_receiver_def udp_full_def udp_half_def udp_local_match_def udp_remote_match_def udp_server_def udp_listener_def)
  have h: "iph_src ?h = netif_ip_addr ?nif" "iph_dest ?h = ?dst" by simp_all
  obtain e u where u: "udp_sendto 3 ?p 54 ?dst 53 udp_client = Some (e, u)"
    "\<And>qs. list_all2 arrives (sent_packets udp_client u) (map fst qs) \<Longrightarrow> 28 \<le> length (hd (fst (hd qs))) \<Longrightarrow> (\<Sum>q\<leftarrow>qs. length (fst q)) \<le> 10 \<Longrightarrow>
      \<exists>ds t'. concat ds = concat ?p \<and> ip_receive trace_app 1 qs udp_server = Some (replicate (length qs - 1) Consumed @ [Consumed],
            on_udp trace_app (udp_recv_cb udp_listener) (udp_recv_arg udp_listener) 1 ds (netif_ip_addr ?nif) (udp_local_port ?c) t')"
    using udp_datagram_over_ip [OF c(1-8) _ _ _ _ al _ udp_server_reachable t(1) _ t(2-6) _ t(7) h r _ t(8,9), of ?p 54 trace_app] acc
    by simp blast
  let ?uh = "udp_header 4096 53 0x0200000a ?dst (has (udp_flags ?c) UDP_FLAGS_NOCHKSUM) ?p"
  let ?q = "(udp_hdr_bytes ?uh @ [1, 2, 3]) # [[4, 5]]"
  let ?ih = "build_ip_hdr (word_of_nat (20 + length (concat ?q))) (ip_id udp_client) 0x0200000a ?dst (udp_ttl ?c) (udp_tos ?c) IP_PROTO_UDP ?nif"
  let ?b = "(ip_hdr_bytes ?ih @ udp_hdr_bytes ?uh @ [1, 2, 3]) # [[4, 5]]"
  have "tot_len ?b = 33" by (simp add: tot_len_def)
  then have "wire u = [(1, ?b, ?dst)]"
    using u(1) udp_sendto_output [where port = 53 and b = "[1, 2, 3]" and bs = "[[4, 5]]", OF c(1-7), of 54]
      ip_output_builds [OF c(3-5), of 46 "udp_hdr_bytes ?uh @ [1, 2, 3]" "[[4, 5]]" "0x0200000a"] c(9)
    by (auto simp: udp_listener_def netif_output_def)
  then have s: "sent_packets udp_client u = [concat ?b]" by (simp add: sent_packets_def c(9))
  obtain ds t' where "concat ds = concat ?p" "ip_receive trace_app 1 [([concat ?b], 0)] udp_server = Some ([Consumed],
      on_udp trace_app (udp_recv_cb udp_listener) (udp_recv_arg udp_listener) 1 ds (netif_ip_addr ?nif) (udp_local_port ?c) t')"
    using u(2) [of "[([concat ?b], 0)]"] unfolding s by (auto simp: arrives_def)
  then show ?thesis using u(1) s by (intro exI conjI) (assumption | simp add: trace_app_def udp_listener_def)+
qed

end
