(* ===== verification/Igmp_Lists.thy ===== *)
theory Igmp_Lists
  imports Igmp Ip_Frame Ip_Wire
begin

section \<open>IGMP: the list of groups and the timers\<close>

text \<open>
  All groups in use are on the list \<^verbatim>\<open>igmp_group_list\<close>, and an interface has at most one group of an address.  What the
  timer and a query do to each group, and which reports are sent.
\<close>

definition igmp_key :: "(addr \<rightharpoonup> igmp_group) \<Rightarrow> addr \<Rightarrow> (addr \<times> u32) option" where
  "igmp_key m g = map_option (\<lambda>c. (ig_interface c, ig_address c)) (m g)"

definition igmp_listed :: "ip \<Rightarrow> addr list \<Rightarrow> bool" where
  "igmp_listed s xs \<longleftrightarrow> linked ig_next (igmp_mem s) (igmp_group_list s) xs \<and> set xs = dom (igmp_mem s)
     \<and> inj_on (igmp_key (igmp_mem s)) (set xs)
     \<and> (\<forall>g c. igmp_mem s g = Some c \<longrightarrow> netifs s (ig_interface c) \<noteq> None)"

lemma igmp_listedD:
  assumes "igmp_listed s xs"
  shows "linked ig_next (igmp_mem s) (igmp_group_list s) xs" "set xs = dom (igmp_mem s)" "inj_on (igmp_key (igmp_mem s)) (set xs)"
    "igmp_mem s g = Some c \<Longrightarrow> \<exists>nif. netifs s (ig_interface c) = Some nif"
  using assms by (auto simp: igmp_listed_def)

text \<open>Only the timer, the state and the flags of groups change, and what output keeps.\<close>

definition igmp_frame :: "ip \<Rightarrow> ip \<Rightarrow> (addr \<times> bufs \<times> u32) list \<Rightarrow> nat \<Rightarrow> bool" where
  "igmp_frame s s' w k \<longleftrightarrow> s' = s\<lparr>ip_allocs := drop k (ip_allocs s), igmp_mem := igmp_mem s', igmp_ip_id := igmp_ip_id s', wire := wire s @ w\<rparr>"

lemma igmp_frame_refl [simp]: "igmp_frame s s [] 0"
  by (simp add: igmp_frame_def)

lemma igmp_frame_set [simp]: "igmp_frame s (set_group g c s) [] 0"
  by (simp add: igmp_frame_def set_group_def)

lemma igmp_frame_trans: "igmp_frame s t v j \<Longrightarrow> igmp_frame t u w k \<Longrightarrow> igmp_frame s u (v @ w) (j + k)"
  unfolding igmp_frame_def by (cases s, cases t, cases u) (simp add: add.commute)

lemma igmp_frame_sel:
  assumes "igmp_frame s s' w k"
  shows "netifs s' = netifs s" "igmp_group_list s' = igmp_group_list s" "igmp_avail s' = igmp_avail s" "wire s' = wire s @ w"
    "ip_allocs s' = drop k (ip_allocs s)"
  using assms unfolding igmp_frame_def by (cases s, cases s', simp)+

definition same_keys :: "ip \<Rightarrow> ip \<Rightarrow> bool" where
  "same_keys s s' \<longleftrightarrow> (\<forall>g. map_option (\<lambda>c. (ig_next c, ig_interface c, ig_address c)) (igmp_mem s' g)
     = map_option (\<lambda>c. (ig_next c, ig_interface c, ig_address c)) (igmp_mem s g))"

lemma igmp_listed_cong:
  assumes "igmp_listed s xs" "same_keys s s'" "igmp_group_list s' = igmp_group_list s" "netifs s' = netifs s"
  shows "igmp_listed s' xs"
proof -
  have e: "map_option (\<lambda>c. (ig_next c, ig_interface c, ig_address c)) (igmp_mem s' g) = map_option (\<lambda>c. (ig_next c, ig_interface c, ig_address c)) (igmp_mem s g)" for g
    using assms(2) by (simp add: same_keys_def)
  have n: "map_option ig_next (igmp_mem s' g) = map_option ig_next (igmp_mem s g)" for g
    using arg_cong [OF e [of g], of "map_option fst"] by (simp add: option.map_comp comp_def)
  have k: "igmp_key (igmp_mem s') = igmp_key (igmp_mem s)"
    using arg_cong [OF e, of "map_option snd"] by (simp add: igmp_key_def fun_eq_iff option.map_comp comp_def)
  have "linked ig_next (igmp_mem s') (igmp_group_list s') xs"
    using igmp_listedD(1) [OF assms(1)] n linked_cong [of xs ig_next "igmp_mem s" "igmp_mem s'"] assms(3) by simp
  moreover have "dom (igmp_mem s') = dom (igmp_mem s)"
  proof (rule set_eqI)
    fix g show "g \<in> dom (igmp_mem s') \<longleftrightarrow> g \<in> dom (igmp_mem s)" using e [of g] by (cases "igmp_mem s g"; cases "igmp_mem s' g") auto
  qed
  moreover have "netifs s' (ig_interface c) \<noteq> None" if "igmp_mem s' g = Some c" for g c
    using e [of g] that assms(1,4) by (cases "igmp_mem s g") (auto simp: igmp_listed_def)
  ultimately show ?thesis using assms(1) by (auto simp: igmp_listed_def k)
qed

subsection \<open>Reports\<close>

definition report_packet :: "netif \<Rightarrow> u16 \<Rightarrow> u32 \<Rightarrow> u8 list" where
  "report_packet nif i a = ip_hdr_bytes (igmp_ip_hdr 32 i (netif_ip_addr nif) a IGMP_TTL IP_PROTO_IGMP nif) @ router_alert @ igmp_msg IGMP_V2_MEMB_REPORT a"

lemma length_igmp_msg [simp]: "length (igmp_msg ty a) = 8"
  by (simp add: igmp_msg_def Let_def le_put16_def le_bytes32_def)

lemma igmp_output_msg:
  assumes "netifs s n = Some nif" "length m = 8"
  shows "igmp_ip_output_if [m] 54 src dest life proto n s = Some (netif_output n [ip_hdr_bytes (igmp_ip_hdr 32 (igmp_ip_id s) src dest life proto nif)
    @ router_alert @ m] dest (s\<lparr>igmp_ip_id := igmp_ip_id s + 1\<rparr>))"
  using assms by (simp add: igmp_ip_output_if_def tot_len_def ROUTER_ALERTLEN_def)

lemma igmp_send_report:
  assumes "igmp_mem s g = Some c" "netifs s (ig_interface c) = Some nif"
  shows "igmp_send g IGMP_V2_MEMB_REPORT s = Some (case ip_allocs s of [] \<Rightarrow> s | None # as \<Rightarrow> s\<lparr>ip_allocs := as\<rparr>
    | Some _ # as \<Rightarrow> (set_group g (c\<lparr>ig_last_reporter := 1\<rparr>) s)\<lparr>ip_allocs := as, igmp_ip_id := igmp_ip_id s + 1,
        wire := wire s @ [(ig_interface c, [report_packet nif (igmp_ip_id s) (ig_address c)], ig_address c)]\<rparr>)"
proof (cases "ip_allocs s")
  case (Cons a as)
  show ?thesis
  proof (cases a)
    case (Some j)
    let ?s = "set_group g (c\<lparr>ig_last_reporter := 1\<rparr>) (s\<lparr>ip_allocs := as\<rparr>)"
    have n: "netifs ?s (ig_interface c) = Some nif" using assms(2) by (simp add: set_group_def)
    have i: "igmp_ip_id ?s = igmp_ip_id s" by (simp add: set_group_def)
    show ?thesis using assms igmp_output_msg [OF n, of "igmp_msg IGMP_V2_MEMB_REPORT (ig_address c)"]
      unfolding i by (simp add: igmp_send_def ip_alloc_def Cons Some report_packet_def netif_output_def) (simp add: set_group_def)
  qed (simp add: igmp_send_def ip_alloc_def Cons)
qed (simp add: igmp_send_def ip_alloc_def)

text \<open>There is memory for the next \<^term>\<open>k\<close> packets.\<close>

definition memory_for :: "nat \<Rightarrow> ip \<Rightarrow> bool" where
  "memory_for k s \<longleftrightarrow> k \<le> length (ip_allocs s) \<and> None \<notin> set (take k (ip_allocs s))"

lemma memory_for_mono: "memory_for k s \<Longrightarrow> j \<le> k \<Longrightarrow> memory_for j s"
  using set_take_subset_set_take [of j k "ip_allocs s"] by (auto simp: memory_for_def)

lemma memory_for_drop:
  assumes "memory_for k s" "ip_allocs s' = drop i (ip_allocs s)" "i + j \<le> k"
  shows "memory_for j s'"
proof -
  have "memory_for (i + j) s" by (rule memory_for_mono [OF assms(1,3)])
  then have m: "i + j \<le> length (ip_allocs s)" "None \<notin> set (take (i + j) (ip_allocs s))" by (simp_all add: memory_for_def)
  have "set (take j (drop i (ip_allocs s))) \<subseteq> set (take (i + j) (ip_allocs s))"
    by (metis add.commute drop_take set_drop_subset add_diff_cancel_left')
  then show ?thesis using m assms(2) by (auto simp: memory_for_def)
qed

subsection \<open>The timer\<close>

definition due :: "igmp_group \<Rightarrow> bool" where
  "due c \<longleftrightarrow> ig_timer c = 1 \<and> ig_state c = IGMP_GROUP_DELAYING_MEMBER"

definition ticked :: "igmp_group \<Rightarrow> igmp_group" where
  "ticked c = (if ig_timer c = 0 then c else c\<lparr>ig_timer := ig_timer c - 1\<rparr>)"

lemma ticked_sel [simp]: "ig_next (ticked c) = ig_next c" "ig_interface (ticked c) = ig_interface c" "ig_address (ticked c) = ig_address c"
  "ig_state (ticked c) = ig_state c" "ig_use (ticked c) = ig_use c" "ig_timer (ticked c) = (if ig_timer c = 0 then 0 else ig_timer c - 1)"
  by (simp_all add: ticked_def)

definition tmr_group :: "addr \<Rightarrow> igmp_group \<Rightarrow> ip \<Rightarrow> ip option" where
  "tmr_group g c s = (if ig_timer c \<noteq> 0
     then do {
       let s = set_group g (c\<lparr>ig_timer := ig_timer c - 1\<rparr>) s;
       if ig_timer c - 1 = 0 then igmp_timeout g s else Some s
     }
     else Some s)"

lemma igmp_tmr_loop_step:
  "g \<noteq> NULL \<Longrightarrow> igmp_mem s g = Some c \<Longrightarrow> igmp_tmr_loop g s = do { s \<leftarrow> tmr_group g c s; c \<leftarrow> igmp_mem s g; igmp_tmr_loop (ig_next c) s }"
  by (subst igmp_tmr_loop.simps) (simp add: tmr_group_def)

text \<open>A group after the timer: a report sets the flag.\<close>

definition group_ran :: "ip \<Rightarrow> (addr \<times> bufs \<times> u32) list \<Rightarrow> bool \<Rightarrow> igmp_group \<Rightarrow> igmp_group option \<Rightarrow> bool" where
  "group_ran s w ok c r \<longleftrightarrow> (\<exists>f. r = Some ((ticked c)\<lparr>ig_last_reporter := f\<rparr>) \<and> (\<not> due c \<longrightarrow> f = ig_last_reporter c)
     \<and> (due c \<and> ok \<longrightarrow> f = 1 \<and> (\<exists>nif i. netifs s (ig_interface c) = Some nif
        \<and> (ig_interface c, [report_packet nif i (ig_address c)], ig_address c) \<in> set w)))"

lemma group_ran_mono: "group_ran s w ok c r \<Longrightarrow> set w \<subseteq> set w' \<Longrightarrow> ok' \<longrightarrow> ok \<Longrightarrow> netifs s' = netifs s \<Longrightarrow> group_ran s' w' ok' c r"
  unfolding group_ran_def by simp blast

lemma tmr_group_spec:
  assumes "igmp_mem s g = Some c" "netifs s (ig_interface c) = Some nif"
  shows "\<exists>s' w k. tmr_group g c s = Some s' \<and> igmp_frame s s' w k \<and> k \<le> 1 \<and> (\<forall>h. h \<noteq> g \<longrightarrow> igmp_mem s' h = igmp_mem s h)
    \<and> group_ran s w (memory_for 1 s) c (igmp_mem s' g) \<and> (\<forall>x \<in> set w. due c \<and> fst x = ig_interface c \<and> snd (snd x) = ig_address c)"
proof (cases "due c")
  case False
  define s' where "s' = (if ig_timer c = 0 then s else set_group g (c\<lparr>ig_timer := ig_timer c - 1\<rparr>) s)"
  have m: "igmp_mem s' g = Some (ticked c)" "\<forall>h. h \<noteq> g \<longrightarrow> igmp_mem s' h = igmp_mem s h"
    using assms(1) by (simp_all add: s'_def ticked_def set_group_def)
  have l: "(ticked c)\<lparr>ig_last_reporter := ig_last_reporter c\<rparr> = ticked c" by (simp add: ticked_def)
  have t: "ig_timer c - 1 = 0 \<longleftrightarrow> ig_timer c = 1" by simp
  have "tmr_group g c s = Some s'"
    using False unfolding tmr_group_def t by (auto simp: s'_def due_def igmp_timeout_def set_group_def Let_def)
  moreover have "igmp_frame s s' [] 0" by (simp add: s'_def)
  moreover have "group_ran s [] (memory_for 1 s) c (igmp_mem s' g)" using m(1) False l by (auto simp: group_ran_def)
  ultimately show ?thesis using m(2) by (intro exI [of _ s'] exI [of _ "[]"] exI [of _ 0]) simp
next
  case True
  let ?c = "c\<lparr>ig_timer := 0\<rparr>"
  let ?s = "set_group g ?c s"
  have t: "ig_timer c = 1" "ig_state c = IGMP_GROUP_DELAYING_MEMBER" using True by (simp_all add: due_def)
  have m: "igmp_mem ?s g = Some ?c" "netifs ?s (ig_interface ?c) = Some nif" using assms(2) by (simp_all add: set_group_def)
  have e: "tmr_group g c s = igmp_send g IGMP_V2_MEMB_REPORT ?s"
    using t m(1) by (simp add: tmr_group_def igmp_timeout_def)
  have al: "ip_allocs ?s = ip_allocs s" by (simp add: set_group_def)
  have l: "?c = (ticked c)\<lparr>ig_last_reporter := ig_last_reporter c\<rparr>" using t by (simp add: ticked_def)
  have un: "group_ran s [] (memory_for 1 s) c (Some ?c)" if "\<not> memory_for 1 s"
    unfolding group_ran_def using that l True by blast
  consider (none) "ip_allocs s = []" | (fail) as where "ip_allocs s = None # as" | (ok) j as where "ip_allocs s = Some j # as"
    by (metis list.exhaust option.exhaust)
  then show ?thesis
  proof cases
    case none
    then have "\<not> memory_for 1 s" by (simp add: memory_for_def)
    then show ?thesis using none e igmp_send_report [OF m] m(1) al un
      by (intro exI [of _ ?s] exI [of _ "[]"] exI [of _ 0]) (simp add: set_group_def igmp_frame_def)
  next
    case fail
    then have "\<not> memory_for 1 s" by (simp add: memory_for_def)
    then show ?thesis using fail e igmp_send_report [OF m] m(1) al un
      by (intro exI [of _ "?s\<lparr>ip_allocs := as\<rparr>"] exI [of _ "[]"] exI [of _ 1]) (simp add: set_group_def igmp_frame_def)
  next
    case ok
    let ?w = "[(ig_interface c, [report_packet nif (igmp_ip_id s) (ig_address c)], ig_address c)]"
    let ?t = "s\<lparr>ip_allocs := as, igmp_mem := (igmp_mem s)(g \<mapsto> ?c\<lparr>ig_last_reporter := 1\<rparr>), igmp_ip_id := igmp_ip_id s + 1, wire := wire s @ ?w\<rparr>"
    have "igmp_send g IGMP_V2_MEMB_REPORT ?s = Some ?t"
      using ok igmp_send_report [OF m] by (simp add: set_group_def)
    moreover have "igmp_frame s ?t ?w 1" using ok by (simp add: igmp_frame_def)
    moreover have "group_ran s ?w (memory_for 1 s) c (igmp_mem ?t g)"
      using assms(2) True t by (simp add: group_ran_def ticked_def) (intro exI [of _ 1], auto)
    ultimately show ?thesis using e True by (intro exI [of _ ?t] exI [of _ ?w] exI [of _ 1]) simp
  qed
qed

text \<open>The whole list: every group is handled once.\<close>

lemma tmr_loop_spec:
  assumes "linked ig_next (igmp_mem s) p xs" "\<forall>g c. igmp_mem s g = Some c \<longrightarrow> netifs s (ig_interface c) \<noteq> None"
  shows "\<exists>s' w k. igmp_tmr_loop p s = Some s' \<and> igmp_frame s s' w k \<and> k \<le> length xs \<and> (\<forall>h. h \<notin> set xs \<longrightarrow> igmp_mem s' h = igmp_mem s h)
    \<and> (\<forall>g \<in> set xs. \<forall>c. igmp_mem s g = Some c \<longrightarrow> group_ran s w (memory_for (length xs) s) c (igmp_mem s' g))
    \<and> (\<forall>x \<in> set w. \<exists>g \<in> set xs. \<exists>c. igmp_mem s g = Some c \<and> due c \<and> fst x = ig_interface c \<and> snd (snd x) = ig_address c)"
  using assms
proof (induction xs arbitrary: p s)
  case Nil
  then show ?case by (intro exI [of _ s] exI [of _ "[]"] exI [of _ 0]) (simp add: igmp_tmr_loop.simps)
next
  case (Cons g xs)
  have d: "g \<notin> set xs" using linked_distinct [OF Cons.prems(1)] by simp
  obtain c where c: "p = g" "g \<noteq> NULL" "igmp_mem s g = Some c" "linked ig_next (igmp_mem s) (ig_next c) xs" using Cons.prems(1) by auto
  obtain nif where nif: "netifs s (ig_interface c) = Some nif" using Cons.prems(2) c(3) by blast
  obtain t v j where t: "tmr_group g c s = Some t" "igmp_frame s t v j" "j \<le> 1" "\<forall>h. h \<noteq> g \<longrightarrow> igmp_mem t h = igmp_mem s h"
    "group_ran s v (memory_for 1 s) c (igmp_mem t g)" "\<forall>x \<in> set v. due c \<and> fst x = ig_interface c \<and> snd (snd x) = ig_address c"
    using tmr_group_spec [OF c(3) nif] by blast
  note f = igmp_frame_sel [OF t(2)]
  obtain c' where c': "igmp_mem t g = Some c'" "ig_next c' = ig_next c" "ig_interface c' = ig_interface c"
    using t(5) unfolding group_ran_def by (elim exE conjE) (rule that, assumption, simp_all)
  have "linked ig_next (igmp_mem t) (ig_next c') xs"
    using c(4) linked_cong [of xs ig_next "igmp_mem s" "igmp_mem t"] t(4) d unfolding c'(2) by metis
  moreover have "\<forall>h e. igmp_mem t h = Some e \<longrightarrow> netifs t (ig_interface e) \<noteq> None"
  proof (intro allI impI)
    fix h e assume h: "igmp_mem t h = Some e"
    show "netifs t (ig_interface e) \<noteq> None"
      using h t(4) c' nif Cons.prems(2) unfolding f(1) by (cases "h = g") auto
  qed
  ultimately obtain u w k where u: "igmp_tmr_loop (ig_next c') t = Some u" "igmp_frame t u w k" "k \<le> length xs"
    "\<forall>h. h \<notin> set xs \<longrightarrow> igmp_mem u h = igmp_mem t h"
    "\<forall>h \<in> set xs. \<forall>e. igmp_mem t h = Some e \<longrightarrow> group_ran t w (memory_for (length xs) t) e (igmp_mem u h)"
    "\<forall>x \<in> set w. \<exists>h \<in> set xs. \<exists>e. igmp_mem t h = Some e \<and> due e \<and> fst x = ig_interface e \<and> snd (snd x) = ig_address e"
    using Cons.IH by blast
  have mt: "memory_for (length (g # xs)) s \<longrightarrow> memory_for (length xs) t" "memory_for (length (g # xs)) s \<longrightarrow> memory_for 1 s"
    using memory_for_drop [of "length (g # xs)" s t j "length xs", OF _ f(5)] memory_for_mono t(3) by auto
  have "igmp_tmr_loop p s = Some u" using igmp_tmr_loop_step [OF c(2,3)] t(1) c'(1) u(1) c(1) by simp
  moreover have "igmp_frame s u (v @ w) (j + k)" by (rule igmp_frame_trans [OF t(2) u(2)])
  moreover have "j + k \<le> length (g # xs)" using t(3) u(3) by simp
  moreover have "\<forall>h. h \<notin> set (g # xs) \<longrightarrow> igmp_mem u h = igmp_mem s h" using u(4) t(4) by simp
  moreover have "\<forall>h \<in> set (g # xs). \<forall>e. igmp_mem s h = Some e \<longrightarrow> group_ran s (v @ w) (memory_for (length (g # xs)) s) e (igmp_mem u h)"
  proof (intro ballI allI impI)
    fix h e assume h: "h \<in> set (g # xs)" "igmp_mem s h = Some e"
    show "group_ran s (v @ w) (memory_for (length (g # xs)) s) e (igmp_mem u h)"
    proof (cases "h = g")
      case True
      then have "e = c" "igmp_mem u h = igmp_mem t g" using h(2) c(3) u(4) d by auto
      then show ?thesis using group_ran_mono [OF t(5) _ mt(2), of "v @ w" s] by simp
    next
      case False
      then have "group_ran t w (memory_for (length xs) t) e (igmp_mem u h)" using h u(5) t(4) by simp
      then show ?thesis by (rule group_ran_mono [OF _ _ mt(1)]) (simp_all add: f(1))
    qed
  qed
  moreover have "\<forall>x \<in> set (v @ w). \<exists>h \<in> set (g # xs). \<exists>e. igmp_mem s h = Some e \<and> due e \<and> fst x = ig_interface e \<and> snd (snd x) = ig_address e"
  proof
    fix x assume "x \<in> set (v @ w)"
    then consider "x \<in> set v" | "x \<in> set w" by auto
    then show "\<exists>h \<in> set (g # xs). \<exists>e. igmp_mem s h = Some e \<and> due e \<and> fst x = ig_interface e \<and> snd (snd x) = ig_address e"
    proof cases
      case 1
      then show ?thesis using t(6) c(3) by auto
    next
      case 2
      then obtain h e where "h \<in> set xs" "igmp_mem t h = Some e" "due e \<and> fst x = ig_interface e \<and> snd (snd x) = ig_address e" using u(6) by blast
      moreover from this have "igmp_mem s h = Some e" using t(4) d by auto
      ultimately show ?thesis by auto
    qed
  qed
  ultimately show ?case by blast
qed

lemma igmp_tmr_spec:
  assumes "igmp_listed s xs"
  shows "\<exists>s' w k. igmp_tmr s = Some s' \<and> igmp_listed s' xs \<and> igmp_frame s s' w k \<and> k \<le> length xs
    \<and> (\<forall>g c. igmp_mem s g = Some c \<longrightarrow> group_ran s w (memory_for (length xs) s) c (igmp_mem s' g))
    \<and> (\<forall>x \<in> set w. \<exists>g c. igmp_mem s g = Some c \<and> due c \<and> fst x = ig_interface c \<and> snd (snd x) = ig_address c)"
proof -
  note l = igmp_listedD [OF assms]
  have n: "\<forall>g c. igmp_mem s g = Some c \<longrightarrow> netifs s (ig_interface c) \<noteq> None" using l(4) by fastforce
  obtain s' w k where s': "igmp_tmr s = Some s'" "igmp_frame s s' w k" "k \<le> length xs" "\<forall>h. h \<notin> set xs \<longrightarrow> igmp_mem s' h = igmp_mem s h"
    "\<forall>g \<in> set xs. \<forall>c. igmp_mem s g = Some c \<longrightarrow> group_ran s w (memory_for (length xs) s) c (igmp_mem s' g)"
    "\<forall>x \<in> set w. \<exists>g \<in> set xs. \<exists>c. igmp_mem s g = Some c \<and> due c \<and> fst x = ig_interface c \<and> snd (snd x) = ig_address c"
    using tmr_loop_spec [OF l(1) n] unfolding igmp_tmr_def by blast
  have r: "group_ran s w (memory_for (length xs) s) c (igmp_mem s' g)" if "igmp_mem s g = Some c" for g c
    using s'(5) l(2) that by blast
  have "same_keys s s'" unfolding same_keys_def
  proof
    fix g
    show "map_option (\<lambda>c. (ig_next c, ig_interface c, ig_address c)) (igmp_mem s' g) = map_option (\<lambda>c. (ig_next c, ig_interface c, ig_address c)) (igmp_mem s g)"
    proof (cases "igmp_mem s g")
      case None
      then have "g \<notin> set xs" using l(2) by auto
      then show ?thesis using s'(4) by simp
    next
      case (Some c)
      then show ?thesis using r [OF Some] by (auto simp: group_ran_def)
    qed
  qed
  then have "igmp_listed s' xs" by (rule igmp_listed_cong [OF assms]) (simp_all add: igmp_frame_sel [OF s'(2)])
  then show ?thesis using s' r by blast
qed

subsection \<open>Many ticks\<close>

primrec igmp_ticks :: "nat \<Rightarrow> ip \<Rightarrow> ip option" where
  "igmp_ticks 0 s = Some s"
| "igmp_ticks (Suc n) s = do { s \<leftarrow> igmp_tmr s; igmp_ticks n s }"

lemma igmp_ticks_add: "igmp_ticks (m + n) s = Option.bind (igmp_ticks m s) (igmp_ticks n)"
  by (induction m arbitrary: s) (simp_all add: Option.bind_assoc)

text \<open>What was given to the driver, and packets to the address of a group on its interface.\<close>

definition sent :: "ip \<Rightarrow> ip \<Rightarrow> (addr \<times> bufs \<times> u32) list" where
  "sent s s' = drop (length (wire s)) (wire s')"

definition for_group :: "igmp_group \<Rightarrow> addr \<times> bufs \<times> u32 \<Rightarrow> bool" where
  "for_group c x \<longleftrightarrow> fst x = ig_interface c \<and> snd (snd x) = ig_address c"

definition silent :: "igmp_group \<Rightarrow> (addr \<times> bufs \<times> u32) list \<Rightarrow> bool" where
  "silent c w \<longleftrightarrow> (\<forall>x \<in> set w. \<not> for_group c x)"

lemma silent_simps [simp]: "silent c []" "silent c (v @ w) \<longleftrightarrow> silent c v \<and> silent c w" "silent (ticked c) w = silent c w"
  by (auto simp: silent_def for_group_def)

lemma sent_frame: "igmp_frame s s' w k \<Longrightarrow> sent s s' = w"
  by (simp add: sent_def igmp_frame_sel)

lemma igmp_tmr_group:
  assumes "igmp_listed s xs" "igmp_mem s g = Some c"
  shows "\<exists>s' w k f. igmp_tmr s = Some s' \<and> igmp_listed s' xs \<and> igmp_frame s s' w k \<and> k \<le> length xs
    \<and> igmp_mem s' g = Some ((ticked c)\<lparr>ig_last_reporter := f\<rparr>)
    \<and> (\<not> due c \<longrightarrow> silent c w \<and> f = ig_last_reporter c)
    \<and> (due c \<and> memory_for (length xs) s \<longrightarrow> f = 1 \<and> (\<exists>nif i. netifs s (ig_interface c) = Some nif
        \<and> (ig_interface c, [report_packet nif i (ig_address c)], ig_address c) \<in> set w))"
proof -
  obtain s' w k where s': "igmp_tmr s = Some s'" "igmp_listed s' xs" "igmp_frame s s' w k" "k \<le> length xs"
    "\<forall>g c. igmp_mem s g = Some c \<longrightarrow> group_ran s w (memory_for (length xs) s) c (igmp_mem s' g)"
    "\<forall>x \<in> set w. \<exists>g c. igmp_mem s g = Some c \<and> due c \<and> fst x = ig_interface c \<and> snd (snd x) = ig_address c"
    using igmp_tmr_spec [OF assms(1)] by blast
  have "silent c w" if "\<not> due c" unfolding silent_def
  proof
    fix x assume "x \<in> set w"
    then obtain h e where h: "igmp_mem s h = Some e" "due e" "fst x = ig_interface e" "snd (snd x) = ig_address e" using s'(6) by blast
    show "\<not> for_group c x"
    proof
      assume "for_group c x"
      then have "igmp_key (igmp_mem s) h = igmp_key (igmp_mem s) g" using h assms(2) by (simp add: for_group_def igmp_key_def)
      moreover have "h \<in> set xs" "g \<in> set xs" using igmp_listedD(2) [OF assms(1)] h(1) assms(2) by auto
      ultimately have "h = g" using igmp_listedD(3) [OF assms(1)] by (simp add: inj_on_def)
      then show False using h that assms(2) by simp
    qed
  qed
  moreover have "group_ran s w (memory_for (length xs) s) c (igmp_mem s' g)" using s'(5) assms(2) by blast
  ultimately show ?thesis using s'(1-4) unfolding group_ran_def by blast
qed

lemma ticked_unflag [simp]: "(ticked c)\<lparr>ig_last_reporter := ig_last_reporter c\<rparr> = ticked c"
  by (simp add: ticked_def)

lemma silent_ticked_pow [simp]: "silent ((ticked ^^ n) c) w = silent c w"
  by (induction n) simp_all

lemma igmp_ticks_silent:
  assumes "igmp_listed s xs" "igmp_mem s g = Some c" "\<forall>i < n. \<not> due ((ticked ^^ i) c)"
  shows "\<exists>s' w k. igmp_ticks n s = Some s' \<and> igmp_listed s' xs \<and> igmp_frame s s' w k \<and> k \<le> n * length xs
    \<and> igmp_mem s' g = Some ((ticked ^^ n) c) \<and> silent c w"
  using assms
proof (induction n arbitrary: s c)
  case 0
  then show ?case by (intro exI [of _ s] exI [of _ "[]"] exI [of _ 0]) simp
next
  case (Suc n)
  have "\<not> due c" using Suc.prems(3) by force
  then obtain t v j where t: "igmp_tmr s = Some t" "igmp_listed t xs" "igmp_frame s t v j" "j \<le> length xs" "igmp_mem t g = Some (ticked c)" "silent c v"
    using igmp_tmr_group [OF Suc.prems(1,2)] ticked_unflag by metis
  have "\<forall>i < n. \<not> due ((ticked ^^ i) (ticked c))" using Suc.prems(3) by (auto simp flip: funpow_Suc_right [THEN fun_cong, unfolded o_apply])
  then obtain u w k where u: "igmp_ticks n t = Some u" "igmp_listed u xs" "igmp_frame t u w k" "k \<le> n * length xs"
    "igmp_mem u g = Some ((ticked ^^ n) (ticked c))" "silent (ticked c) w"
    using Suc.IH [OF t(2,5)] by blast
  have "igmp_mem u g = Some ((ticked ^^ Suc n) c)" using u(5) by (simp add: funpow_swap1)
  then show ?case using t u igmp_frame_trans [OF t(3) u(3)]
    by (intro exI [of _ u] exI [of _ "v @ w"] exI [of _ "j + k"]) simp
qed

lemma ticked_pow_timer: "unat (ig_timer ((ticked ^^ n) c)) = unat (ig_timer c) - n"
proof (induction n)
  case (Suc n)
  have "unat (x - 1) = unat x - 1" if "x \<noteq> 0" for x :: u16
    using that by (simp add: unat_sub word_le_nat_alt unat_gt_0 Suc_leI)
  then show ?case using Suc by (auto simp: unat_eq_zero)
qed simp

lemma ticked_pow_sel [simp]: "ig_next ((ticked ^^ n) c) = ig_next c" "ig_interface ((ticked ^^ n) c) = ig_interface c"
  "ig_address ((ticked ^^ n) c) = ig_address c" "ig_state ((ticked ^^ n) c) = ig_state c"
  by (induction n) simp_all

lemma ticked_pow_zero: "ig_timer c = 0 \<Longrightarrow> (ticked ^^ n) c = c"
  by (induction n) (simp_all add: ticked_def)

lemma due_pow: "due ((ticked ^^ n) c) \<longleftrightarrow> unat (ig_timer c) = Suc n \<and> ig_state c = IGMP_GROUP_DELAYING_MEMBER"
proof -
  have "ig_timer ((ticked ^^ n) c) = 1 \<longleftrightarrow> unat (ig_timer ((ticked ^^ n) c)) = 1" by (simp add: word_unat_eq_iff)
  also have "\<dots> \<longleftrightarrow> unat (ig_timer c) = Suc n" unfolding ticked_pow_timer by auto
  finally show ?thesis by (simp add: due_def)
qed

subsection \<open>Queries\<close>

lemma lookfor_loop_linked:
  assumes "linked ig_next m p xs"
  shows "lookfor_loop n a p m = Some (case find (\<lambda>g. igmp_key m g = Some (n, a)) xs of None \<Rightarrow> NULL | Some g \<Rightarrow> g)"
  using assms
proof (induction xs arbitrary: p)
  case (Cons x xs)
  then obtain c where c: "p = x" "x \<noteq> NULL" "m x = Some c" "linked ig_next m (ig_next c) xs" by auto
  have "igmp_key m x = Some (n, a) \<longleftrightarrow> ig_interface c = n \<and> ig_address c = a" using c(3) by (simp add: igmp_key_def)
  then show ?case using Cons.IH [OF c(4)] c(1-3) by (subst lookfor_loop.simps) auto
qed (subst lookfor_loop.simps, simp)

lemma igmp_lookfor_found:
  assumes "igmp_listed s xs" "igmp_mem s g = Some c"
  shows "igmp_lookfor_group (ig_interface c) (ig_address c) s = Some g" "g \<noteq> NULL"
proof -
  let ?P = "\<lambda>g. igmp_key (igmp_mem s) g = Some (ig_interface c, ig_address c)"
  have g: "g \<in> set xs" "?P g" using igmp_listedD(2) [OF assms(1)] assms(2) by (auto simp: igmp_key_def)
  then have "find ?P xs \<noteq> None" unfolding find_None_iff by blast
  then obtain h where h: "find ?P xs = Some h" by blast
  then have "?P h" "h \<in> set xs" by (auto simp: find_Some_iff)
  then have "h = g" using g igmp_listedD(3) [OF assms(1)] by (simp add: inj_on_def)
  then show "igmp_lookfor_group (ig_interface c) (ig_address c) s = Some g"
    using h lookfor_loop_linked [OF igmp_listedD(1) [OF assms(1)]] by (simp add: igmp_lookfor_group_def)
  show "g \<noteq> NULL" using linked_in_store [OF igmp_listedD(1) [OF assms(1)] g(1)] by simp
qed

definition delays :: "addr \<Rightarrow> u32 \<Rightarrow> u8 \<Rightarrow> igmp_group \<Rightarrow> igmp_group" where
  "delays n except m c = (if ig_interface c = n \<and> (except = 0 \<or> ig_address c \<noteq> except) then delaying_member m c else c)"

lemma delaying_member_sel [simp]: "ig_next (delaying_member m c) = ig_next c" "ig_interface (delaying_member m c) = ig_interface c"
  "ig_address (delaying_member m c) = ig_address c"
  by (simp_all add: delaying_member_def igmp_start_timer_def)

lemma delays_sel [simp]: "ig_next (delays n e m c) = ig_next c" "ig_interface (delays n e m c) = ig_interface c" "ig_address (delays n e m c) = ig_address c"
  by (simp_all add: delays_def)

lemma delay_groups_spec:
  assumes "linked ig_next (igmp_mem s) p xs"
  shows "delay_groups n except m p s = Some (s\<lparr>igmp_mem := (\<lambda>g. if g \<in> set xs then map_option (delays n except m) (igmp_mem s g) else igmp_mem s g)\<rparr>)"
  using assms
proof (induction xs arbitrary: p s)
  case (Cons x xs)
  then obtain c where c: "p = x" "x \<noteq> NULL" "igmp_mem s x = Some c" "linked ig_next (igmp_mem s) (ig_next c) xs" by auto
  have d: "x \<notin> set xs" using linked_distinct [OF Cons.prems] by simp
  let ?s = "s\<lparr>igmp_mem := (igmp_mem s)(x \<mapsto> delays n except m c)\<rparr>"
  have "(igmp_mem s)(x \<mapsto> c) = igmp_mem s" by (rule map_upd_triv) (rule c(3))
  then have same: "s\<lparr>igmp_mem := (igmp_mem s)(x \<mapsto> c)\<rparr> = s" by simp
  have ms: "igmp_mem ?s = (igmp_mem s)(x \<mapsto> delays n except m c)" by simp
  have "delay_groups n except m p s = delay_groups n except m (ig_next c) ?s"
    using c(1-3) same by (subst delay_groups.simps) (auto simp: igmp_delaying_member_def set_group_def delays_def)
  also have "\<dots> = Some (?s\<lparr>igmp_mem := (\<lambda>g. if g \<in> set xs then map_option (delays n except m) (igmp_mem ?s g) else igmp_mem ?s g)\<rparr>)"
    by (rule Cons.IH) (unfold ms, simp only: linked_upd [OF d] c(4))
  also have "(\<lambda>g. if g \<in> set xs then map_option (delays n except m) (igmp_mem ?s g) else igmp_mem ?s g)
      = (\<lambda>g. if g \<in> set (x # xs) then map_option (delays n except m) (igmp_mem s g) else igmp_mem s g)"
    using d c(3) by (simp add: fun_eq_iff)
  finally show ?case by simp
qed (simp add: delay_groups.simps)

text \<open>A packet that holds an IGMP message of a type with a maximal response time and an address.\<close>

definition igmp_packet :: "bufs \<Rightarrow> u8 \<Rightarrow> u8 \<Rightarrow> u32 \<Rightarrow> bool" where
  "igmp_packet p ty m a \<longleftrightarrow> (\<exists>h d. ip_hdr_of p = Some h \<and> 4 * IPH_HL h \<le> length (hd p) \<and> d = drop (4 * IPH_HL h) (hd p)
     \<and> 8 \<le> length d \<and> chksum d = 0 \<and> d ! 0 = ty \<and> d ! 1 = m \<and> get_addr d 4 = Some a)"

lemma igmp_input_packet:
  assumes "igmp_packet p ty m a" "igmp_lookfor_group inp dest s = Some g" "g \<noteq> NULL"
  shows "igmp_input p inp dest s = (if ty = IGMP_MEMB_QUERY then igmp_query g m a inp dest s
    else if ty = IGMP_V2_MEMB_REPORT then do { c \<leftarrow> igmp_mem s g; Some (set_group g (igmp_report_heard c) s) } else Some s)"
  using assms by (auto simp: igmp_packet_def igmp_input_def IGMP_MINLEN_def elem_def Let_def)

text \<open>The groups after a general query.\<close>

definition queried :: "addr \<Rightarrow> u8 \<Rightarrow> ip \<Rightarrow> ip" where
  "queried inp m s = s\<lparr>igmp_mem := (\<lambda>g. map_option (delays inp allsystems (if m = 0 then IGMP_V1_DELAYING_MEMBER_TMR else m)) (igmp_mem s g))\<rparr>"

lemma igmp_general_query:
  assumes "igmp_listed s xs" "igmp_mem s r = Some rc" "ig_address rc = allsystems" "igmp_packet p IGMP_MEMB_QUERY m 0"
  shows "igmp_input p (ig_interface rc) allsystems s = Some (queried (ig_interface rc) m s)"
proof -
  note l = igmp_listedD [OF assms(1)]
  have "(\<lambda>g. if g \<in> set xs then map_option f (igmp_mem s g) else igmp_mem s g) = (\<lambda>g. map_option f (igmp_mem s g))" for f
    using l(2) by (auto simp: fun_eq_iff)
  then show ?thesis
    using igmp_input_packet [OF assms(4)] igmp_lookfor_found [OF assms(1,2)] delay_groups_spec [OF l(1)] assms(3)
    by (simp add: igmp_query_def queried_def)
qed

lemma queried_listed: "igmp_listed s xs \<Longrightarrow> igmp_listed (queried inp m s) xs"
  by (rule igmp_listed_cong) (simp_all add: queried_def same_keys_def option.map_comp comp_def)

lemma queried_frame: "igmp_frame s (queried inp m s) [] 0"
  by (simp add: queried_def igmp_frame_def)

end
