(* ===== verification/Igmp_States.thy ===== *)
theory Igmp_States
  imports Igmp_Lists Ip_Cut
begin

section \<open>IGMP: what holds in every reachable state\<close>

text \<open>
  The calls of an application, arriving messages, the timer and the traffic of the other protocols are the steps of IGMP.  In
  every reachable state the groups in use are on the list, each interface has at most one group of an address, and the pool
  holds only unused groups.
\<close>

definition igmp_ok :: "ip \<Rightarrow> bool" where
  "igmp_ok s \<longleftrightarrow> (\<exists>xs. igmp_listed s xs) \<and> distinct (igmp_avail s) \<and> (\<forall>a \<in> set (igmp_avail s). a \<noteq> NULL \<and> igmp_mem s a = None)
     \<and> (\<forall>n \<in> set (ip_netif_list s). netifs s n \<noteq> None)"

lemma igmp_okE:
  assumes "igmp_ok s"
  obtains xs where "igmp_listed s xs"
  using assms by (auto simp: igmp_ok_def)

lemma same_keys_refl [simp]: "same_keys s s"
  by (simp add: same_keys_def)

lemma same_keys_trans: "same_keys s t \<Longrightarrow> same_keys t u \<Longrightarrow> same_keys s u"
  by (simp add: same_keys_def)

lemma same_keys_none: "same_keys s s' \<Longrightarrow> igmp_mem s' g = None \<longleftrightarrow> igmp_mem s g = None"
  unfolding same_keys_def by (drule spec [of _ g]) (cases "igmp_mem s g"; cases "igmp_mem s' g"; simp)

lemma same_keys_some:
  assumes "same_keys s s'" "igmp_mem s g = Some c"
  obtains c' where "igmp_mem s' g = Some c'" "ig_next c' = ig_next c" "ig_interface c' = ig_interface c" "ig_address c' = ig_address c"
proof -
  have "map_option (\<lambda>c. (ig_next c, ig_interface c, ig_address c)) (igmp_mem s' g) = Some (ig_next c, ig_interface c, ig_address c)"
    using assms by (simp add: same_keys_def)
  then show thesis using that by auto
qed

lemma same_keys_set: "igmp_mem s g = Some c \<Longrightarrow> ig_next c' = ig_next c \<Longrightarrow> ig_interface c' = ig_interface c \<Longrightarrow> ig_address c' = ig_address c
    \<Longrightarrow> same_keys s (set_group g c' s)"
  by (simp add: same_keys_def set_group_def)

text \<open>A step that keeps the list, the keys and the pool.\<close>

definition keeps :: "ip \<Rightarrow> ip \<Rightarrow> bool" where
  "keeps s s' \<longleftrightarrow> same_keys s s' \<and> igmp_group_list s' = igmp_group_list s \<and> netifs s' = netifs s \<and> igmp_avail s' = igmp_avail s
     \<and> ip_netif_list s' = ip_netif_list s"

lemma keeps_refl [simp]: "keeps s s"
  by (simp add: keeps_def)

lemma keeps_trans: "keeps s t \<Longrightarrow> keeps t u \<Longrightarrow> keeps s u"
  by (auto simp: keeps_def intro: same_keys_trans)

lemma keeps_set: "igmp_mem s g = Some c \<Longrightarrow> ig_next c' = ig_next c \<Longrightarrow> ig_interface c' = ig_interface c \<Longrightarrow> ig_address c' = ig_address c
    \<Longrightarrow> keeps s (set_group g c' s)"
  using same_keys_set [of s g c c'] by (simp add: keeps_def) (simp add: set_group_def)

lemma keeps_fields [simp]: "keeps s (s\<lparr>ip_allocs := al\<rparr>)" "keeps s (s\<lparr>wire := w\<rparr>)" "keeps s (s\<lparr>igmp_ip_id := i\<rparr>)" "keeps s (s\<lparr>mac_filters := f\<rparr>)"
  "keeps s (s\<lparr>igmp_ip_id := i, wire := w\<rparr>)"
  by (simp_all add: keeps_def same_keys_def)

lemma keeps_sends: "sends s s' \<Longrightarrow> keeps s s'"
  by (auto simp: keeps_def same_keys_def sends_def)

lemma keeps_mac_filter [simp]: "keeps s (igmp_mac_filter n a f s)"
  by (simp add: igmp_mac_filter_def)

lemma keeps_ok: "keeps s s' \<Longrightarrow> igmp_ok s \<Longrightarrow> igmp_ok s'"
  using igmp_listed_cong [of s _ s'] same_keys_none [of s s'] unfolding keeps_def igmp_ok_def by metis

lemma keeps_listed: "keeps s s' \<Longrightarrow> igmp_listed s xs \<Longrightarrow> igmp_listed s' xs"
  using igmp_listed_cong [of s xs s'] by (simp add: keeps_def)

lemma keeps_igmp_output: "igmp_ip_output_if p room src dest life proto n s = Some (e, s') \<Longrightarrow> keeps s s'"
  by (auto simp: igmp_ip_output_if_def netif_output_def Option.bind_eq_Some_conv Let_def split: if_split_asm list.split_asm)

lemma keeps_igmp_send:
  assumes "igmp_send g ty s = Some s'"
  shows "keeps s s'"
proof (cases "ip_alloc IGMP_MINLEN s")
  case (Pair r t)
  have t: "keeps s t" by (rule keeps_sends [OF ip_alloc_sends [OF Pair]])
  show ?thesis
  proof (cases r)
    case None
    then show ?thesis using assms Pair t by (simp add: igmp_send_def)
  next
    case (Some j)
    then obtain c nif where c: "igmp_mem t g = Some c" "netifs t (ig_interface c) = Some nif"
      using assms Pair by (auto simp: igmp_send_def Option.bind_eq_Some_conv)
    have "keeps t s'"
    proof (cases "ty = IGMP_V2_MEMB_REPORT")
      case True
      have "keeps t (set_group g (c\<lparr>ig_last_reporter := 1\<rparr>) t)" by (rule keeps_set [OF c(1)]) simp_all
      then show ?thesis using assms Pair Some c True
        by (auto simp: igmp_send_def Option.bind_eq_Some_conv dest!: keeps_igmp_output intro: keeps_trans)
    next
      case False
      then show ?thesis using assms Pair Some c
        by (auto simp: igmp_send_def Option.bind_eq_Some_conv dest!: keeps_igmp_output split: if_split_asm)
    qed
    then show ?thesis using t by (rule keeps_trans [rotated])
  qed
qed

lemma keeps_delaying_member: "igmp_delaying_member g m s = Some s' \<Longrightarrow> keeps s s'"
  by (auto simp: igmp_delaying_member_def Option.bind_eq_Some_conv intro!: keeps_set)

lemma keeps_delay_groups:
  assumes "igmp_listed s xs" "delay_groups n except m (igmp_group_list s) s = Some s'"
  shows "keeps s s'"
proof -
  have "s' = s\<lparr>igmp_mem := (\<lambda>g. if g \<in> set xs then map_option (delays n except m) (igmp_mem s g) else igmp_mem s g)\<rparr>"
    using assms delay_groups_spec [OF igmp_listedD(1) [OF assms(1)]] by simp
  then show ?thesis by (simp add: keeps_def same_keys_def option.map_comp comp_def)
qed

lemma keeps_igmp_input:
  assumes "igmp_listed s xs" "igmp_input p inp dest s = Some s'"
  shows "keeps s s'"
proof -
  have q: "keeps s s'" if "igmp_query g m a inp dest s = Some s'" for g m a
    using that by (auto simp: igmp_query_def Option.bind_eq_Some_conv split: if_split_asm
      dest: keeps_delaying_member keeps_delay_groups [OF assms(1)])
  have r: "keeps s (set_group g (igmp_report_heard c) s)" if "igmp_mem s g = Some c" for g c
    by (rule keeps_set [OF that]) (simp_all add: igmp_report_heard_def)
  show ?thesis using assms(2) by (auto simp: igmp_input_def Option.bind_eq_Some_conv Let_def split: if_split_asm intro: q r)
qed

lemma keeps_igmp_tmr:
  assumes "igmp_listed s xs" "igmp_tmr s = Some s'"
  shows "keeps s s'"
proof -
  obtain w k where r: "igmp_frame s s' w k" "igmp_listed s' xs" "\<forall>g c. igmp_mem s g = Some c \<longrightarrow> group_ran s w (memory_for (length xs) s) c (igmp_mem s' g)"
    using igmp_tmr_spec [OF assms(1)] assms(2) by auto
  have "same_keys s s'" unfolding same_keys_def
  proof
    fix g
    show "map_option (\<lambda>c. (ig_next c, ig_interface c, ig_address c)) (igmp_mem s' g) = map_option (\<lambda>c. (ig_next c, ig_interface c, ig_address c)) (igmp_mem s g)"
    proof (cases "igmp_mem s g")
      case None
      then have "igmp_mem s' g = None" using igmp_listedD(2) [OF assms(1)] igmp_listedD(2) [OF r(2)] by auto
      then show ?thesis using None by simp
    next
      case (Some c)
      then obtain f where "igmp_mem s' g = Some ((ticked c)\<lparr>ig_last_reporter := f\<rparr>)" using r(3) unfolding group_ran_def by blast
      then show ?thesis using Some by simp
    qed
  qed
  moreover have "ip_netif_list s' = ip_netif_list s" using r(1) unfolding igmp_frame_def by (cases s, cases s') simp
  ultimately show ?thesis using igmp_frame_sel [OF r(1)] by (simp add: keeps_def)
qed

subsection \<open>Creating a group\<close>

lemma igmp_lookfor_result:
  assumes "igmp_listed s xs" "igmp_lookfor_group n a s = Some g"
  shows "if g = NULL then (\<forall>h c. igmp_mem s h = Some c \<longrightarrow> \<not> (ig_interface c = n \<and> ig_address c = a))
    else \<exists>c. igmp_mem s g = Some c \<and> ig_interface c = n \<and> ig_address c = a"
proof (cases "\<exists>h c. igmp_mem s h = Some c \<and> ig_interface c = n \<and> ig_address c = a")
  case True
  then obtain h c where h: "igmp_mem s h = Some c" "ig_interface c = n" "ig_address c = a" by blast
  then have "g = h" "h \<noteq> NULL" using igmp_lookfor_found [OF assms(1) h(1)] assms(2) by auto
  then show ?thesis using h by auto
next
  case False
  then have "find (\<lambda>g. igmp_key (igmp_mem s) g = Some (n, a)) xs = None"
    unfolding find_None_iff by (auto simp: igmp_key_def)
  then have "g = NULL" using assms(2) lookfor_loop_linked [OF igmp_listedD(1) [OF assms(1)]] by (simp add: igmp_lookfor_group_def)
  then show ?thesis using False by auto
qed

lemma igmp_lookup_ok:
  assumes "igmp_ok s" "netifs s n \<noteq> None" "igmp_lookup_group n a s = Some (g, s')"
  shows "igmp_ok s'" "netifs s' = netifs s" "g \<noteq> NULL \<Longrightarrow> \<exists>c. igmp_mem s' g = Some c \<and> ig_interface c = n \<and> ig_address c = a"
proof -
  obtain xs where xs: "igmp_listed s xs" by (rule igmp_okE [OF assms(1)])
  note l = igmp_listedD [OF xs]
  obtain h where h: "igmp_lookfor_group n a s = Some h" using assms(3) by (auto simp: igmp_lookup_group_def Option.bind_eq_Some_conv)
  note r = igmp_lookfor_result [OF xs h]
  have "igmp_ok s' \<and> netifs s' = netifs s \<and> (g \<noteq> NULL \<longrightarrow> (\<exists>c. igmp_mem s' g = Some c \<and> ig_interface c = n \<and> ig_address c = a))"
  proof (cases "h = NULL")
    case False
    then show ?thesis using assms h r by (simp add: igmp_lookup_group_def)
  next
    case True
    show ?thesis
    proof (cases "igmp_avail s")
      case Nil
      then show ?thesis using assms h True by (simp add: igmp_lookup_group_def)
    next
      case (Cons f fs)
      let ?c = "\<lparr>ig_next = igmp_group_list s, ig_interface = n, ig_address = a, ig_last_reporter = 0, ig_state = IGMP_GROUP_NON_MEMBER, ig_timer = 0, ig_use = 0\<rparr>"
      have e: "g = f" "s' = s\<lparr>igmp_avail := fs, igmp_group_list := f, igmp_mem := (igmp_mem s)(f \<mapsto> ?c)\<rparr>"
        using assms(3) h True Cons by (auto simp: igmp_lookup_group_def set_group_def)
      have f: "f \<noteq> NULL" "igmp_mem s f = None" "f \<notin> set fs" "\<forall>a \<in> set fs. a \<noteq> NULL \<and> igmp_mem s a = None" "distinct fs"
        using assms(1) Cons by (auto simp: igmp_ok_def)
      have fx: "f \<notin> set xs" using l(2) f(2) by auto
      have k: "igmp_key ((igmp_mem s)(f \<mapsto> ?c)) x = igmp_key (igmp_mem s) x" if "x \<noteq> f" for x using that by (simp add: igmp_key_def)
      have new: "igmp_key ((igmp_mem s)(f \<mapsto> ?c)) f = Some (n, a)" by (simp add: igmp_key_def)
      have old: "igmp_key (igmp_mem s) x \<noteq> Some (n, a)" for x using r True by (auto simp: igmp_key_def)
      have "inj_on (igmp_key ((igmp_mem s)(f \<mapsto> ?c))) (set (f # xs))"
        using l(3) fx k new old unfolding inj_on_def by (metis set_ConsD)
      moreover have "linked ig_next ((igmp_mem s)(f \<mapsto> ?c)) f (f # xs)" by (rule linked_push [OF l(1) fx f(1)]) simp
      moreover have "netifs s (ig_interface c) \<noteq> None" if "((igmp_mem s)(f \<mapsto> ?c)) x = Some c" for x c
        using that l(4) assms(2) by (cases "x = f") (fastforce)+
      ultimately have "igmp_listed s' (f # xs)" using l(2) unfolding igmp_listed_def e(2) by auto
      then have "igmp_ok s'" using f assms(1) unfolding igmp_ok_def e(2) by auto
      then show ?thesis using e by simp
    qed
  qed
  then show "igmp_ok s'" "netifs s' = netifs s" "g \<noteq> NULL \<Longrightarrow> \<exists>c. igmp_mem s' g = Some c \<and> ig_interface c = n \<and> ig_address c = a" by blast+
qed

subsection \<open>Releasing a group\<close>

text \<open>The state when the group behind \<^term>\<open>as\<close> is taken off the list and released.\<close>

definition without_group :: "addr list \<Rightarrow> addr \<Rightarrow> igmp_group \<Rightarrow> ip \<Rightarrow> ip" where
  "without_group as g c s = s\<lparr>igmp_group_list := (if as = [] then ig_next c else igmp_group_list s),
     igmp_mem := (if as = [] then igmp_mem s else case igmp_mem s (last as) of None \<Rightarrow> igmp_mem s | Some d \<Rightarrow> (igmp_mem s)(last as \<mapsto> set_ig_next (ig_next c) d))(g := None),
     igmp_avail := g # igmp_avail s\<rparr>"

lemma without_group_listed:
  assumes "igmp_listed s (as @ g # bs)" "igmp_mem s g = Some c"
  shows "igmp_listed (without_group as g c s) (as @ bs)"
proof -
  note l = igmp_listedD [OF assms(1)]
  have d: "distinct (as @ g # bs)" by (rule linked_distinct [OF l(1)])
  let ?s = "without_group as g c s"
  have mem: "map_option (\<lambda>c. (ig_interface c, ig_address c)) (igmp_mem ?s x) = (if x = g then None else map_option (\<lambda>c. (ig_interface c, ig_address c)) (igmp_mem s x))" for x
    by (auto simp: without_group_def split: option.splits)
  have key: "igmp_key (igmp_mem ?s) x = (if x = g then None else igmp_key (igmp_mem s) x)" for x using mem by (simp add: igmp_key_def)
  have dom: "dom (igmp_mem ?s) = dom (igmp_mem s) - {g}"
  proof (rule set_eqI)
    fix x show "x \<in> dom (igmp_mem ?s) \<longleftrightarrow> x \<in> dom (igmp_mem s) - {g}"
      using mem [of x] by (cases "igmp_mem ?s x"; cases "igmp_mem s x") (auto split: if_splits)
  qed
  have "linked ig_next (igmp_mem ?s) (igmp_group_list ?s) (as @ bs)"
  proof (cases as rule: rev_cases)
    case Nil
    then have "linked ig_next (igmp_mem s) (ig_next c) bs" "g \<notin> set bs" using l(1) assms(2) d by auto
    then show ?thesis using Nil linked_upd [of g bs ig_next "igmp_mem s" None] by (simp add: without_group_def)
  next
    case (snoc zs y)
    then obtain e where e: "igmp_mem s y = Some e" using l(2) by force
    have x: "linked ig_next (igmp_mem s) (igmp_group_list s) (zs @ y # g # bs)" using l(1) snoc by simp
    have "linked ig_next ((igmp_mem s)(y \<mapsto> set_ig_next (ig_next c) e)) (igmp_group_list s) (zs @ y # bs)"
      by (rule igmp_list.unlinked [OF x e assms(2)])
    moreover have "g \<notin> set (zs @ y # bs)" using d snoc by auto
    ultimately have "linked ig_next (((igmp_mem s)(y \<mapsto> set_ig_next (ig_next c) e))(g := None)) (igmp_group_list s) (zs @ y # bs)"
      by (rule linked_upd [THEN iffD2, rotated])
    then show ?thesis using snoc e by (simp add: without_group_def)
  qed
  moreover have "set (as @ bs) = dom (igmp_mem ?s)" using l(2) d unfolding dom by auto
  moreover have "inj_on (igmp_key (igmp_mem ?s)) (set (as @ bs))"
    using l(3) d unfolding key inj_on_def by auto
  moreover have "netifs ?s (ig_interface e) \<noteq> None" if m: "igmp_mem ?s x = Some e" for x e
  proof -
    obtain e' where "igmp_mem s x = Some e'" "ig_interface e' = ig_interface e"
      using mem [of x] unfolding m by (cases "igmp_mem s x"; cases "x = g") auto
    then show ?thesis using l(4) [of x e'] by (auto simp: without_group_def)
  qed
  ultimately show ?thesis unfolding igmp_listed_def by blast
qed

lemma without_group_ok:
  assumes "igmp_ok s" "igmp_listed s (as @ g # bs)" "igmp_mem s g = Some c"
  shows "igmp_ok (without_group as g c s)"
proof -
  have n: "g \<noteq> NULL" using linked_in_store [OF igmp_listedD(1) [OF assms(2)], of g] by simp
  have "g \<notin> set (igmp_avail s)" using assms(1,3) by (auto simp: igmp_ok_def)
  moreover have "igmp_mem (without_group as g c s) a = None" if "a = g \<or> igmp_mem s a = None" for a
    using that by (auto simp: without_group_def split: option.splits)
  ultimately show ?thesis
    using without_group_listed [OF assms(2,3)] assms(1) n unfolding igmp_ok_def by (auto simp: without_group_def)
qed

lemma remove_group_loop_linked:
  assumes "linked ig_next m p (zs @ y # g # bs)" "m y = Some d" "m g = Some c"
  shows "remove_group_loop g p m = Some (ERR_OK, m(y \<mapsto> set_ig_next (ig_next c) d))"
  using assms(1)
proof (induction zs arbitrary: p)
  case Nil
  then show ?case using assms(2,3) by (subst remove_group_loop.simps) auto
next
  case (Cons z zs)
  then obtain e where e: "p = z" "z \<noteq> NULL" "m z = Some e" "linked ig_next m (ig_next e) (zs @ y # g # bs)" by auto
  have "distinct (z # zs @ y # g # bs)" using linked_distinct [OF Cons.prems] by simp
  then have "ig_next e \<noteq> g" using linked_hd [OF e(4)] by (cases zs) auto
  then show ?case using e Cons.IH [OF e(4)] by (subst remove_group_loop.simps) (simp add: fun_upd_def)
qed

lemma igmp_remove_group_is:
  assumes "igmp_listed s (as @ g # bs)" "igmp_mem s g = Some c"
  shows "igmp_remove_group g s = Some (ERR_OK, without_group as g c s)"
proof -
  note l = igmp_listedD [OF assms(1)]
  have d: "distinct (as @ g # bs)" by (rule linked_distinct [OF l(1)])
  show ?thesis
  proof (cases as rule: rev_cases)
    case Nil
    then have "igmp_group_list s = g" using l(1) by simp
    then show ?thesis using assms(2) Nil by (simp add: igmp_remove_group_def without_group_def)
  next
    case (snoc zs y)
    then obtain e where e: "igmp_mem s y = Some e" using l(2) by force
    have x: "linked ig_next (igmp_mem s) (igmp_group_list s) (zs @ y # g # bs)" using l(1) snoc by simp
    have "igmp_group_list s \<noteq> g" using linked_hd [OF x] d snoc by (cases zs) auto
    then show ?thesis using remove_group_loop_linked [OF x e assms(2)] snoc e
      by (simp add: igmp_remove_group_def without_group_def)
  qed
qed

lemma igmp_remove_ok:
  assumes "igmp_ok s" "igmp_mem s g = Some c" "igmp_remove_group g s = Some (e, s')"
  shows "igmp_ok s'" "netifs s' = netifs s" "e = ERR_OK"
proof -
  obtain xs where xs: "igmp_listed s xs" by (rule igmp_okE [OF assms(1)])
  have "g \<in> set xs" using igmp_listedD(2) [OF xs] assms(2) by auto
  then obtain as bs where s: "xs = as @ g # bs" by (meson split_list)
  have "e = ERR_OK" "s' = without_group as g c s" using igmp_remove_group_is [OF xs [unfolded s] assms(2)] assms(3) by simp_all
  then show "igmp_ok s'" "netifs s' = netifs s" "e = ERR_OK"
    using without_group_ok [OF assms(1) xs [unfolded s] assms(2)] by (simp_all add: without_group_def)
qed

text \<open>\<^verbatim>\<open>igmp_stop\<close> takes every group of the interface off the list.\<close>

lemma keeps_same: "keeps s s' \<Longrightarrow> igmp_ok s \<Longrightarrow> igmp_listed s xs \<Longrightarrow> igmp_ok s' \<and> igmp_listed s' xs"
  using keeps_ok keeps_listed by blast

lemma igmp_stop_loop_spec:
  assumes "igmp_ok s" "igmp_listed s (as @ bs)" "p = (case bs of [] \<Rightarrow> NULL | b # _ \<Rightarrow> b)"
  shows "\<exists>s'. igmp_stop_loop n p (last (NULL # as)) s = Some s' \<and> igmp_ok s' \<and> netifs s' = netifs s
    \<and> igmp_listed s' (as @ filter (\<lambda>g. map_option ig_interface (igmp_mem s g) \<noteq> Some n) bs)"
  using assms
proof (induction bs arbitrary: s as p)
  case Nil
  then show ?case by (subst igmp_stop_loop.simps) simp
next
  case (Cons b bs)
  note l = igmp_listedD [OF Cons.prems(2)]
  have b: "p = b" "b \<noteq> NULL" using Cons.prems(3) linked_in_store [OF l(1), of b] by simp_all
  have d: "distinct (as @ b # bs)" by (rule linked_distinct [OF l(1)])
  obtain c where c: "igmp_mem s b = Some c" using l(2) by force
  have nx: "ig_next c = (case bs of [] \<Rightarrow> NULL | x # _ \<Rightarrow> x)"
    using linked_from [OF l(1)] c linked_hd [of ig_next "igmp_mem s" "ig_next c" bs] by auto
  show ?case
  proof (cases "ig_interface c = n")
    case False
    obtain s' where "igmp_stop_loop n (ig_next c) (last (NULL # as @ [b])) s = Some s'" "igmp_ok s'" "netifs s' = netifs s"
      "igmp_listed s' ((as @ [b]) @ filter (\<lambda>g. map_option ig_interface (igmp_mem s g) \<noteq> Some n) bs)"
      using Cons.IH [OF Cons.prems(1), of "as @ [b]"] Cons.prems(2) nx by auto
    moreover from this have "igmp_stop_loop n p (last (NULL # as)) s = Some s'"
      using b c False by (subst igmp_stop_loop.simps) simp
    ultimately show ?thesis using c False by (intro exI [of _ s']) simp
  next
    case True
    let ?t = "igmp_mac_filter n (ig_address c) IGMP_DEL_MAC_FILTER s"
    have t: "igmp_ok ?t" "igmp_listed ?t (as @ b # bs)" using keeps_same [OF keeps_mac_filter Cons.prems(1,2)] by auto
    have m: "igmp_mem ?t = igmp_mem s" "netifs ?t = netifs s" by (simp_all add: igmp_mac_filter_def)
    have tc: "igmp_mem ?t b = Some c" using c m by simp
    let ?u = "without_group as b c ?t"
    have u: "igmp_ok ?u" "igmp_listed ?u (as @ bs)" using without_group_ok [OF t tc] without_group_listed [OF t(2) tc] by auto
    have pr: "last (NULL # as) \<noteq> NULL \<longleftrightarrow> as \<noteq> []" using linked_in_store [OF l(1), of "last as"] by auto
    have hd: "b = igmp_group_list s \<longleftrightarrow> as = []" using linked_hd [OF l(1)] d by (cases as) auto
    have st: "igmp_stop_loop n p (last (NULL # as)) s = igmp_stop_loop n (ig_next c) (last (NULL # as)) ?u"
    proof (cases as rule: rev_cases)
      case Nil
      then show ?thesis using b c True hd
        by (subst igmp_stop_loop.simps) (cases s, simp add: without_group_def igmp_mac_filter_def)
    next
      case (snoc zs y)
      then obtain e where "igmp_mem s y = Some e" using l(2) by force
      then show ?thesis using b c True hd pr snoc
        by (subst igmp_stop_loop.simps) (simp add: without_group_def igmp_mac_filter_def set_group_def)
    qed
    obtain s' where s': "igmp_stop_loop n (ig_next c) (last (NULL # as)) ?u = Some s'" "igmp_ok s'" "netifs s' = netifs ?u"
      "igmp_listed s' (as @ filter (\<lambda>g. map_option ig_interface (igmp_mem ?u g) \<noteq> Some n) bs)"
      using Cons.IH [OF u nx] by blast
    have "map_option ig_interface (igmp_mem ?u g) = map_option ig_interface (igmp_mem s g)" if "g \<in> set bs" for g
      using that d m by (auto simp: without_group_def split: option.splits)
    then have "filter (\<lambda>g. map_option ig_interface (igmp_mem ?u g) \<noteq> Some n) bs = filter (\<lambda>g. map_option ig_interface (igmp_mem s g) \<noteq> Some n) bs"
      by (intro filter_cong) auto
    moreover have "netifs ?u = netifs s" using m by (simp add: without_group_def)
    ultimately show ?thesis using st s' c True by (intro exI [of _ s']) simp
  qed
qed

lemma igmp_stop_spec:
  assumes "igmp_ok s" "igmp_listed s xs"
  shows "\<exists>s'. igmp_stop n s = Some (ERR_OK, s') \<and> igmp_ok s' \<and> netifs s' = netifs s
    \<and> igmp_listed s' (filter (\<lambda>g. map_option ig_interface (igmp_mem s g) \<noteq> Some n) xs)"
  using igmp_stop_loop_spec [OF assms(1), of "[]" xs "igmp_group_list s" n] assms(2) linked_hd [OF igmp_listedD(1) [OF assms(2)]]
  by (auto simp: igmp_stop_def)

subsection \<open>Calls\<close>

lemma keeps_live: "keeps s t \<Longrightarrow> igmp_mem s g = Some c \<Longrightarrow> \<exists>c'. igmp_mem t g = Some c'"
  using same_keys_none [of s t g] by (auto simp: keeps_def)

lemma igmp_lookup_returns:
  assumes "igmp_ok s"
  shows "\<exists>g s'. igmp_lookup_group n a s = Some (g, s')"
proof -
  obtain xs where xs: "igmp_listed s xs" by (rule igmp_okE [OF assms])
  show ?thesis using lookfor_loop_linked [OF igmp_listedD(1) [OF xs]]
    by (simp add: igmp_lookup_group_def igmp_lookfor_group_def split: list.split)
qed

lemma igmp_send_returns:
  assumes "igmp_ok s" "igmp_mem s g = Some c"
  shows "\<exists>s'. igmp_send g ty s = Some s' \<and> keeps s s'"
proof -
  obtain xs where xs: "igmp_listed s xs" by (rule igmp_okE [OF assms(1)])
  obtain nif where nif: "netifs s (ig_interface c) = Some nif" using igmp_listedD(4) [OF xs assms(2)] by blast
  obtain r al where al: "ip_alloc IGMP_MINLEN s = (r, s\<lparr>ip_allocs := al\<rparr>)"
  proof (cases "ip_allocs s")
    case Nil
    then have "ip_alloc IGMP_MINLEN s = (None, s\<lparr>ip_allocs := []\<rparr>)" by (cases s) (simp add: ip_alloc_def)
    then show ?thesis by (rule that)
  next
    case (Cons x xs)
    then have "ip_alloc IGMP_MINLEN s = (fst (ip_alloc IGMP_MINLEN s), s\<lparr>ip_allocs := xs\<rparr>)" by (cases x) (simp_all add: ip_alloc_def)
    then show ?thesis by (rule that)
  qed
  have "igmp_send g ty s \<noteq> None"
    using nif assms(2) igmp_output_msg [where n = "ig_interface c" and nif = nif]
    by (simp add: igmp_send_def al set_group_def split_def split: option.split)
  then show ?thesis using keeps_igmp_send by blast
qed

lemma igmp_start_returns:
  assumes "igmp_ok s" "netifs s n \<noteq> None"
  shows "\<exists>e s'. igmp_start n s = Some (e, s') \<and> igmp_ok s'"
proof -
  obtain g t where l: "igmp_lookup_group n allsystems s = Some (g, t)" using igmp_lookup_returns [OF assms(1)] by blast
  note t = igmp_lookup_ok [OF assms l]
  show ?thesis
  proof (cases "g = NULL")
    case False
    then obtain c where c: "igmp_mem t g = Some c" using t(3) by blast
    let ?c = "c\<lparr>ig_state := IGMP_GROUP_IDLE_MEMBER, ig_use := ig_use c + 1\<rparr>"
    have "keeps t (igmp_mac_filter n allsystems IGMP_ADD_MAC_FILTER (set_group g ?c t))"
      by (rule keeps_trans [OF keeps_set [OF c] keeps_mac_filter]) simp_all
    then show ?thesis using l False c keeps_ok t(1) by (auto simp: igmp_start_def)
  qed (use l t(1) in \<open>simp add: igmp_start_def\<close>)
qed

lemma join_group_returns:
  assumes "igmp_ok s" "igmp_mem s g = Some c"
  shows "\<exists>s'. join_group n a g s = Some s' \<and> keeps s s'"
proof -
  have fin: "\<exists>s'. (do { c \<leftarrow> igmp_mem t g; Some (set_group g (c\<lparr>ig_use := ig_use c + 1\<rparr>) t) }) = Some s' \<and> keeps s s'"
    if k: "keeps s t" for t
  proof -
    obtain c' where c': "igmp_mem t g = Some c'" using keeps_live [OF k assms(2)] by blast
    have "keeps t (set_group g (c'\<lparr>ig_use := ig_use c' + 1\<rparr>) t)" by (rule keeps_set [OF c']) simp_all
    then show ?thesis using c' that keeps_trans by auto
  qed
  show ?thesis
  proof (cases "ig_state c = IGMP_GROUP_NON_MEMBER")
    case False
    then show ?thesis using fin [OF keeps_refl] assms(2) by (simp add: join_group_def)
  next
    case True
    let ?t = "if ig_use c = 0 then igmp_mac_filter n a IGMP_ADD_MAC_FILTER s else s"
    have t: "keeps s ?t" by simp
    have tc: "igmp_mem ?t g = Some c" using assms(2) by (simp add: igmp_mac_filter_def)
    obtain u where u: "igmp_send g IGMP_V2_MEMB_REPORT ?t = Some u" "keeps ?t u" using igmp_send_returns [OF keeps_ok [OF t assms(1)] tc] by blast
    then obtain d where d: "igmp_mem u g = Some d" using keeps_live [OF _ tc] by blast
    let ?d = "(igmp_start_timer IGMP_JOIN_DELAYING_MEMBER_TMR d)\<lparr>ig_state := IGMP_GROUP_DELAYING_MEMBER\<rparr>"
    have "keeps u (set_group g ?d u)" by (rule keeps_set [OF d]) (simp_all add: igmp_start_timer_def)
    then have "keeps s (set_group g ?d u)" using keeps_trans [OF t keeps_trans [OF u(2)]] by blast
    from fin [OF this] show ?thesis using assms(2) True u(1) d by (simp add: join_group_def)
  qed
qed

lemma joingroup_loop_returns:
  assumes "igmp_ok s" "\<forall>n \<in> set ns. netifs s n \<noteq> None"
  shows "\<exists>e' s'. joingroup_loop ifaddr a ns e s = Some (e', s') \<and> igmp_ok s'"
  using assms
proof (induction ns arbitrary: e s)
  case (Cons n ns)
  obtain nif where nif: "netifs s n = Some nif" using Cons.prems(2) by auto
  show ?case
  proof (cases "has (netif_flags nif) NETIF_FLAG_IGMP \<and> (ifaddr = 0 \<or> netif_ip_addr nif = ifaddr)")
    case False
    then show ?thesis using Cons.IH [OF Cons.prems(1)] Cons.prems(2) nif by auto
  next
    case True
    obtain g t where l: "igmp_lookup_group n a s = Some (g, t)" using igmp_lookup_returns [OF Cons.prems(1)] by blast
    have n: "netifs s n \<noteq> None" using nif by simp
    note t = igmp_lookup_ok [OF Cons.prems(1) n l]
    show ?thesis
    proof (cases "g = NULL")
      case False
      then obtain c where "igmp_mem t g = Some c" using t(3) by blast
      then obtain u where u: "join_group n a g t = Some u" "keeps t u" using join_group_returns [OF t(1)] by blast
      then have "igmp_ok u" "netifs u = netifs s" using keeps_ok [OF u(2) t(1)] t(2) by (simp_all add: keeps_def)
      then show ?thesis using Cons.IH [of u ERR_OK] Cons.prems(2) nif True l False u(1) by auto
    qed (use nif True l t(1) in auto)
  qed
qed simp

lemma leave_group_returns:
  assumes "igmp_ok s" "igmp_mem s g = Some c"
  shows "\<exists>s'. leave_group n a g s = Some s' \<and> igmp_ok s' \<and> netifs s' = netifs s"
proof (cases "ig_use c \<le> 1")
  case False
  have "keeps s (set_group g (c\<lparr>ig_use := ig_use c - 1\<rparr>) s)" by (rule keeps_set [OF assms(2)]) simp_all
  then show ?thesis using keeps_ok assms False by (auto simp: leave_group_def keeps_def)
next
  case True
  obtain t where t: "(if ig_last_reporter c \<noteq> 0 then igmp_send g IGMP_LEAVE_GROUP s else Some s) = Some t" "keeps s t"
    using igmp_send_returns [OF assms, of IGMP_LEAVE_GROUP] by (cases "ig_last_reporter c = 0") auto
  let ?u = "igmp_mac_filter n a IGMP_DEL_MAC_FILTER t"
  have u: "keeps s ?u" using t(2) keeps_mac_filter keeps_trans by blast
  then obtain d where d: "igmp_mem ?u g = Some d" using keeps_live [OF u assms(2)] by blast
  have ok: "igmp_ok ?u" by (rule keeps_ok [OF u assms(1)])
  obtain xs where xs: "igmp_listed ?u xs" by (rule igmp_okE [OF ok])
  then have "g \<in> set xs" using igmp_listedD(2) d by blast
  then obtain as bs where s: "xs = as @ g # bs" by (meson split_list)
  have r: "igmp_remove_group g ?u = Some (ERR_OK, without_group as g d ?u)" by (rule igmp_remove_group_is [OF xs [unfolded s] d])
  note v = igmp_remove_ok(1,2) [OF ok d r]
  have "leave_group n a g s = Some (without_group as g d ?u)" using True assms(2) t(1) r by (simp add: leave_group_def)
  then show ?thesis using v u by (auto simp: keeps_def)
qed

lemma leavegroup_loop_returns:
  assumes "igmp_ok s" "\<forall>n \<in> set ns. netifs s n \<noteq> None"
  shows "\<exists>e' s'. leavegroup_loop ifaddr a ns e s = Some (e', s') \<and> igmp_ok s'"
  using assms
proof (induction ns arbitrary: e s)
  case (Cons n ns)
  obtain nif where nif: "netifs s n = Some nif" using Cons.prems(2) by auto
  obtain xs where xs: "igmp_listed s xs" by (rule igmp_okE [OF Cons.prems(1)])
  obtain g where g: "igmp_lookfor_group n a s = Some g"
    using lookfor_loop_linked [OF igmp_listedD(1) [OF xs]] by (simp add: igmp_lookfor_group_def)
  note r = igmp_lookfor_result [OF xs g]
  show ?case
  proof (cases "has (netif_flags nif) NETIF_FLAG_IGMP \<and> (ifaddr = 0 \<or> netif_ip_addr nif = ifaddr) \<and> g \<noteq> NULL")
    case False
    then show ?thesis using Cons.IH [OF Cons.prems(1)] Cons.prems(2) nif g by auto
  next
    case True
    then obtain c where "igmp_mem s g = Some c" using r by auto
    then obtain t where "leave_group n a g s = Some t" "igmp_ok t" "netifs t = netifs s" using leave_group_returns [OF Cons.prems(1)] by blast
    then show ?thesis using Cons.IH [of t ERR_OK] Cons.prems(2) nif g True by auto
  qed
qed simp

subsection \<open>Steps\<close>

inductive igmp_step :: "ip \<Rightarrow> ip \<Rightarrow> bool" where
  start: "netifs s n \<noteq> None \<Longrightarrow> igmp_start n s = Some (e, s') \<Longrightarrow> igmp_step s s'"
| stop: "igmp_stop n s = Some (e, s') \<Longrightarrow> igmp_step s s'"
| join: "igmp_joingroup ifaddr a s = Some (e, s') \<Longrightarrow> igmp_step s s'"
| leave: "igmp_leavegroup ifaddr a s = Some (e, s') \<Longrightarrow> igmp_step s s'"
| report: "igmp_report_groups n s = Some s' \<Longrightarrow> igmp_step s s'"
| input: "igmp_input p n dest s = Some s' \<Longrightarrow> igmp_step s s'"
| tmr: "igmp_tmr s = Some s' \<Longrightarrow> igmp_step s s'"
| traffic: "sends s s' \<Longrightarrow> igmp_step s s'"

definition igmp_init :: "ip \<Rightarrow> bool" where
  "igmp_init s \<longleftrightarrow> igmp_group_list s = NULL \<and> igmp_mem s = Map.empty \<and> distinct (igmp_avail s) \<and> NULL \<notin> set (igmp_avail s)
     \<and> (\<forall>n \<in> set (ip_netif_list s). netifs s n \<noteq> None)"

inductive igmp_reachable :: "ip \<Rightarrow> bool" where
  init: "igmp_init s \<Longrightarrow> igmp_reachable s"
| step: "igmp_reachable s \<Longrightarrow> igmp_step s s' \<Longrightarrow> igmp_reachable s'"

lemma igmp_init_ok: "igmp_init s \<Longrightarrow> igmp_ok s"
  unfolding igmp_init_def igmp_ok_def igmp_listed_def by (auto intro!: exI [of _ "[]"])

lemma igmp_ok_netifs: "igmp_ok s \<Longrightarrow> \<forall>n \<in> set (ip_netif_list s). netifs s n \<noteq> None"
  by (simp add: igmp_ok_def)

lemma igmp_joingroup_returns: "igmp_ok s \<Longrightarrow> \<exists>e s'. igmp_joingroup ifaddr a s = Some (e, s') \<and> igmp_ok s'"
  using joingroup_loop_returns [OF _ igmp_ok_netifs, of s] by (simp add: igmp_joingroup_def)

lemma igmp_leavegroup_returns: "igmp_ok s \<Longrightarrow> \<exists>e s'. igmp_leavegroup ifaddr a s = Some (e, s') \<and> igmp_ok s'"
  using leavegroup_loop_returns [OF _ igmp_ok_netifs, of s] by (simp add: igmp_leavegroup_def)

lemma igmp_stop_returns: "igmp_ok s \<Longrightarrow> \<exists>e s'. igmp_stop n s = Some (e, s') \<and> igmp_ok s'"
  using igmp_stop_spec by (blast elim: igmp_okE)

lemma igmp_tmr_returns: "igmp_ok s \<Longrightarrow> \<exists>s'. igmp_tmr s = Some s' \<and> igmp_ok s'"
proof -
  assume ok: "igmp_ok s"
  then obtain xs where xs: "igmp_listed s xs" by (rule igmp_okE)
  then obtain s' where s': "igmp_tmr s = Some s'" using igmp_tmr_spec by blast
  then show ?thesis using keeps_ok [OF keeps_igmp_tmr [OF xs s'] ok] by blast
qed

lemma igmp_report_groups_returns: "igmp_ok s \<Longrightarrow> \<exists>s'. igmp_report_groups n s = Some s' \<and> igmp_ok s'"
proof -
  assume ok: "igmp_ok s"
  then obtain xs where xs: "igmp_listed s xs" by (rule igmp_okE)
  then obtain s' where s': "igmp_report_groups n s = Some s'"
    using delay_groups_spec [OF igmp_listedD(1) [OF xs]] by (simp add: igmp_report_groups_def)
  then show ?thesis using keeps_ok [OF keeps_delay_groups [OF xs] ok] by (auto simp: igmp_report_groups_def)
qed

lemma igmp_step_ok:
  assumes "igmp_step s s'" "igmp_ok s"
  shows "igmp_ok s'"
  using assms
proof cases
  case (start n e)
  then show ?thesis using igmp_start_returns [OF assms(2) start(1)] by auto
next
  case (stop n e)
  then show ?thesis using igmp_stop_returns [OF assms(2), of n] by auto
next
  case (join ifaddr a e)
  then show ?thesis using igmp_joingroup_returns [OF assms(2), of ifaddr a] by auto
next
  case (leave ifaddr a e)
  then show ?thesis using igmp_leavegroup_returns [OF assms(2), of ifaddr a] by auto
next
  case (report n)
  then show ?thesis using igmp_report_groups_returns [OF assms(2), of n] by auto
next
  case (input p n dest)
  obtain xs where "igmp_listed s xs" by (rule igmp_okE [OF assms(2)])
  then show ?thesis using keeps_ok [OF keeps_igmp_input assms(2)] input by blast
next
  case tmr
  then show ?thesis using igmp_tmr_returns [OF assms(2)] by auto
next
  case traffic
  then show ?thesis using keeps_ok [OF keeps_sends assms(2)] by blast
qed

lemma igmp_reachable_ok: "igmp_reachable s \<Longrightarrow> igmp_ok s"
  by (induction rule: igmp_reachable.induct) (blast intro: igmp_init_ok igmp_step_ok)+

end
