(* ===== verification/Igmp_Members.thy ===== *)
theory Igmp_Members
  imports Igmp_States Ip_Reply Ip_Round
begin

section \<open>IGMP: queries, reports and their timing\<close>

text \<open>
  What a member of a group owes to a router: an answer to a query, once, and none when another member has answered.
\<close>

subsection \<open>Messages\<close>

lemma le_bytes16_mod: "unat (ucast (w :: u16) :: u8) + 256 * unat (ucast (drop_bit 8 w) :: u8) = unat w"
  using unat_half [of w] by (simp add: unat_ucast_mod unat_drop_bit)

text \<open>A checksum stored at an even place makes the whole sum come out right.\<close>

lemma chksum_stored:
  assumes "even (length xs)" "c = chksum (xs @ [0, 0] @ ys)"
  shows "chksum (xs @ [ucast c, ucast (drop_bit 8 c)] @ ys) = 0"
proof -
  let ?n = "le_sum (xs @ [0, 0] @ ys)"
  have "unat c = 65535 - ones_complement ?n"
    unfolding assms(2) using ones_complement_less [of ?n] by (simp add: chksum_def rfc1071_def not_half unat_of_nat_small)
  moreover have "le_sum (xs @ [ucast c, ucast (drop_bit 8 c)] @ ys) = ?n + unat c"
    using le_bytes16_mod [of c] assms(1) by (simp add: le_sum_append)
  ultimately show ?thesis using chksum_completes [of ?n] by (simp add: chksum_def rfc1071_def)
qed

lemma igmp_msg_bytes: "\<exists>c. igmp_msg ty a = [ty, 0] @ [ucast c, ucast (drop_bit 8 c)] @ le_bytes32 a \<and> c = chksum ([ty, 0] @ [0, 0] @ le_bytes32 a)"
  by (simp add: igmp_msg_def Let_def le_put16_def)

lemma igmp_msg_fields: "chksum (igmp_msg ty a) = 0" "igmp_msg ty a ! 0 = ty" "igmp_msg ty a ! 1 = 0" "get_addr (igmp_msg ty a) 4 = Some a"
proof -
  obtain c where c: "igmp_msg ty a = [ty, 0] @ [ucast c, ucast (drop_bit 8 c)] @ le_bytes32 a" "c = chksum ([ty, 0] @ [0, 0] @ le_bytes32 a)"
    using igmp_msg_bytes by blast
  show "chksum (igmp_msg ty a) = 0" unfolding c(1) by (rule chksum_stored [OF _ c(2)]) simp
  show "igmp_msg ty a ! 0 = ty" "igmp_msg ty a ! 1 = 0" by (simp_all add: c(1))
  show "get_addr (igmp_msg ty a) 4 = Some a"
    using get_addr_bytes [of "[ty, 0, ucast c, ucast (drop_bit 8 c)]" a "[]"] by (simp add: c(1) numeral_eq_Suc)
qed

lemma igmp_ip_hdr_sel [simp]: "iph_vhl (igmp_ip_hdr len i src dest life proto nif) = 0x46" "iph_len (igmp_ip_hdr len i src dest life proto nif) = len"
  "iph_offset (igmp_ip_hdr len i src dest life proto nif) = 0" "iph_proto (igmp_ip_hdr len i src dest life proto nif) = proto"
  "iph_dest (igmp_ip_hdr len i src dest life proto nif) = dest"
  "iph_src (igmp_ip_hdr len i src dest life proto nif) = (if src = 0 then netif_ip_addr nif else src)"
  by (simp_all add: igmp_ip_hdr_def Let_def)

lemma igmp_ip_hdr_valid: "chksum (ip_hdr_bytes (igmp_ip_hdr len i src dest life proto nif) @ router_alert) = 0"
proof -
  let ?h = "(igmp_ip_hdr len i src dest life proto nif)\<lparr>iph_chksum := 0\<rparr>"
  let ?xs = "[iph_vhl ?h, iph_tos ?h] @ be_bytes16 (iph_len ?h) @ be_bytes16 (iph_id ?h) @ be_bytes16 (iph_offset ?h) @ [iph_ttl ?h, iph_proto ?h]"
  let ?ys = "le_bytes32 (iph_src ?h) @ le_bytes32 (iph_dest ?h) @ router_alert"
  have b: "ip_hdr_bytes (h\<lparr>iph_chksum := c\<rparr>) @ router_alert = ([iph_vhl h, iph_tos h] @ be_bytes16 (iph_len h) @ be_bytes16 (iph_id h) @ be_bytes16 (iph_offset h) @ [iph_ttl h, iph_proto h])
    @ [ucast c, ucast (drop_bit 8 c)] @ (le_bytes32 (iph_src h) @ le_bytes32 (iph_dest h) @ router_alert)" for h c
    by (simp add: ip_hdr_bytes_def)
  have c: "igmp_ip_hdr len i src dest life proto nif = ?h\<lparr>iph_chksum := chksum (ip_hdr_bytes ?h @ router_alert)\<rparr>"
    by (simp add: igmp_ip_hdr_def Let_def)
  have "chksum (?xs @ [ucast k, ucast (drop_bit 8 k)] @ ?ys) = 0" if "k = chksum (?xs @ [0, 0] @ ?ys)" for k
    by (rule chksum_stored [OF _ that]) (simp add: be_bytes16_def)
  moreover have "ip_hdr_bytes ?h @ router_alert = ?xs @ [0, 0] @ ?ys" by (simp add: ip_hdr_bytes_def)
  ultimately have "chksum (ip_hdr_bytes (?h\<lparr>iph_chksum := chksum (ip_hdr_bytes ?h @ router_alert)\<rparr>) @ router_alert) = 0"
    unfolding b by simp
  then show ?thesis using c by simp
qed

lemma length_router_alert [simp]: "length router_alert = 4"
  by (simp add: router_alert_def be_bytes16_def)

lemma report_packet_fields:
  defines "h \<equiv> \<lambda>nif i a. igmp_ip_hdr 32 i (netif_ip_addr nif) a IGMP_TTL IP_PROTO_IGMP nif"
  shows "ip_hdr_of [report_packet nif i a] = Some (h nif i a)" "length (report_packet nif i a) = 32"
    "chksum (take 24 (report_packet nif i a)) = 0" "drop 24 (report_packet nif i a) = igmp_msg IGMP_V2_MEMB_REPORT a"
    "IPH_V (h nif i a) = 4" "IPH_HL (h nif i a) = 6"
proof -
  show "ip_hdr_of [report_packet nif i a] = Some (h nif i a)" by (simp add: report_packet_def h_def)
  show "length (report_packet nif i a) = 32" by (simp add: report_packet_def)
  have "report_packet nif i a = (ip_hdr_bytes (h nif i a) @ router_alert) @ igmp_msg IGMP_V2_MEMB_REPORT a" by (simp add: report_packet_def h_def)
  moreover have "length (ip_hdr_bytes (h nif i a) @ router_alert) = 24" by simp
  ultimately have "take 24 (report_packet nif i a) = ip_hdr_bytes (h nif i a) @ router_alert"
    "drop 24 (report_packet nif i a) = igmp_msg IGMP_V2_MEMB_REPORT a" by simp_all
  then show "chksum (take 24 (report_packet nif i a)) = 0" "drop 24 (report_packet nif i a) = igmp_msg IGMP_V2_MEMB_REPORT a"
    using igmp_ip_hdr_valid by (simp_all add: h_def)
  show "IPH_V (h nif i a) = 4" "IPH_HL (h nif i a) = 6" by (simp_all add: h_def IPH_V_def IPH_HL_def)
qed

lemma report_packet_igmp: "igmp_packet [report_packet nif i a] IGMP_V2_MEMB_REPORT 0 a"
  unfolding igmp_packet_def using report_packet_fields [where nif = nif and i = i and a = a] igmp_msg_fields [of IGMP_V2_MEMB_REPORT a] by simp

subsection \<open>Groups after a query\<close>

lemma igmp_reachable_listed:
  assumes "igmp_reachable s"
  obtains xs where "igmp_listed s xs" "length xs = card (dom (igmp_mem s))"
proof -
  obtain xs where xs: "igmp_listed s xs" by (rule igmp_okE [OF igmp_reachable_ok [OF assms]])
  then have "length xs = card (dom (igmp_mem s))"
    using linked_distinct [OF igmp_listedD(1) [OF xs]] distinct_card igmp_listedD(2) [OF xs] by metis
  with xs show thesis by (rule that)
qed

text \<open>The member is idle, or its timer is below the response time.\<close>

definition restarts :: "u8 \<Rightarrow> igmp_group \<Rightarrow> bool" where
  "restarts m c \<longleftrightarrow> ig_state c = IGMP_GROUP_IDLE_MEMBER \<or> ig_state c = IGMP_GROUP_DELAYING_MEMBER \<and> ig_timer c < ucast m"

definition restarted :: "u8 \<Rightarrow> igmp_group \<Rightarrow> igmp_group" where
  "restarted m c = c\<lparr>ig_timer := ucast (m div 2), ig_state := IGMP_GROUP_DELAYING_MEMBER\<rparr>"

lemma delaying_member_restarts: "restarts m c \<Longrightarrow> delaying_member m c = restarted m c"
  by (auto simp: restarts_def restarted_def delaying_member_def igmp_start_timer_def)

lemma allsystems_nz: "allsystems \<noteq> 0"
  by (simp add: allsystems_def htonl_def)

lemma queried_group:
  assumes "igmp_mem s g = Some c" "ig_interface c = inp" "ig_address c \<noteq> allsystems" "m \<noteq> 0" "restarts m c"
  shows "igmp_mem (queried inp m s) g = Some (restarted m c)"
  using assms delaying_member_restarts by (simp add: queried_def delays_def)

lemma unat_half_time: "unat (ucast (m div 2 :: u8) :: u16) = unat m div 2"
proof -
  have "unat m div 2 < 65536" using unat_byte [of m] by linarith
  then show ?thesis by (simp add: unat_ucast_mod unat_div)
qed

lemma restarted_sel [simp]: "ig_interface (restarted m c) = ig_interface c" "ig_address (restarted m c) = ig_address c" "ig_next (restarted m c) = ig_next c"
  "ig_state (restarted m c) = IGMP_GROUP_DELAYING_MEMBER" "unat (ig_timer (restarted m c)) = unat m div 2"
  by (simp_all add: restarted_def unat_half_time)

lemma silent_restarted [simp]: "silent (restarted m c) w = silent c w"
  by (simp add: silent_def for_group_def)

text \<open>The timer of a member that has heard a query, and when it runs.\<close>

lemma delaying_member_timer:
  assumes "ig_state c = IGMP_GROUP_IDLE_MEMBER \<or> ig_state c = IGMP_GROUP_DELAYING_MEMBER"
  shows "ig_state (delaying_member m c) = IGMP_GROUP_DELAYING_MEMBER"
    "unat (ig_timer (delaying_member m c))
      = (if ig_state c = IGMP_GROUP_IDLE_MEMBER \<or> unat (ig_timer c) < unat m then unat m div 2 else unat (ig_timer c))"
    "silent (delaying_member m c) = silent c"
proof -
  have "unat (ucast m :: u16) = unat m" using unat_byte [of m] by (simp add: unat_ucast_mod)
  then have l: "ig_timer c < ucast m \<longleftrightarrow> unat (ig_timer c) < unat m" by (simp add: word_less_nat_alt)
  then have r: "delaying_member m c = (if ig_state c = IGMP_GROUP_IDLE_MEMBER \<or> unat (ig_timer c) < unat m then restarted m c else c)"
    using assms by (cases "ig_state c = IGMP_GROUP_IDLE_MEMBER"; cases "unat (ig_timer c) < unat m") (simp_all add: delaying_member_def igmp_start_timer_def restarted_def)
  show "ig_state (delaying_member m c) = IGMP_GROUP_DELAYING_MEMBER" unfolding r using assms by auto
  show "unat (ig_timer (delaying_member m c))
      = (if ig_state c = IGMP_GROUP_IDLE_MEMBER \<or> unat (ig_timer c) < unat m then unat m div 2 else unat (ig_timer c))"
    unfolding r by (simp split: if_split)
  show "silent (delaying_member m c) = silent c" by (auto simp: silent_def for_group_def)
qed

lemma answer_time_positive:
  fixes m :: u8
  assumes "\<not> (m = 1 \<and> (ig_state c = IGMP_GROUP_IDLE_MEMBER \<or> ig_timer c = 0))" "M = (if m = 0 then 10 else unat m)"
    and "T = (if ig_state c = IGMP_GROUP_IDLE_MEMBER \<or> unat (ig_timer c) < M then M div 2 else unat (ig_timer c))"
  shows "0 < T"
proof -
  have "unat m = 1 \<longleftrightarrow> m = 1" by (metis unat_1 word_unat_eq_iff)
  moreover have "unat m = 0 \<longleftrightarrow> m = 0" "unat (ig_timer c) = 0 \<longleftrightarrow> ig_timer c = 0" by (simp_all only: unat_eq_zero)
  ultimately show ?thesis using assms by (cases "m = 0") (auto split: if_splits)
qed

text \<open>A restarted timer runs silently until its last tick, which sends the report if there is memory.\<close>

lemma restarted_runs:
  assumes "igmp_listed t xs" "igmp_mem t g = Some c" "n < unat m div 2" "c = restarted m d"
  shows "\<exists>v w k. igmp_ticks n t = Some v \<and> igmp_listed v xs \<and> igmp_frame t v w k \<and> k \<le> n * length xs \<and> igmp_mem v g = Some ((ticked ^^ n) c) \<and> silent c w"
  using assms by (intro igmp_ticks_silent) (auto simp: due_pow)

subsection \<open>A host with two groups\<close>

text \<open>An interface that was started and has joined one group, before and after it heard the report of another host.\<close>

definition igmp_nif :: netif where
  "igmp_nif = \<lparr>netif_ip_addr = 0x0200000a, netif_netmask = 0xffffff, netif_flags = 0x43, netif_mtu = 1500, netif_gw = 0, netif_name = (0, 0), netif_num = 0\<rparr>"

definition igmp_sample_addr :: u32 where "igmp_sample_addr = 0x030201e0"

definition igmp_all :: igmp_group where
  "igmp_all = \<lparr>ig_next = NULL, ig_interface = 1, ig_address = allsystems, ig_last_reporter = 0, ig_state = IGMP_GROUP_IDLE_MEMBER, ig_timer = 0, ig_use = 1\<rparr>"

definition igmp_joined :: igmp_group where
  "igmp_joined = \<lparr>ig_next = 1, ig_interface = 1, ig_address = igmp_sample_addr, ig_last_reporter = 1, ig_state = IGMP_GROUP_DELAYING_MEMBER, ig_timer = 5, ig_use = 1\<rparr>"

definition igmp_fresh :: ip where
  "igmp_fresh = (ip_sample 1500)\<lparr>netifs := [1 \<mapsto> igmp_nif], ip_allocs := Some [] # replicate 300 (Some [])\<rparr>"

definition igmp_started :: ip where
  "igmp_started = igmp_fresh\<lparr>igmp_group_list := 1, igmp_mem := [1 \<mapsto> igmp_all], igmp_avail := [2, 3, 4, 5, 6, 7, 8]\<rparr>"

definition igmp_sample :: ip where
  "igmp_sample = igmp_fresh\<lparr>igmp_group_list := 2, igmp_mem := [1 \<mapsto> igmp_all, 2 \<mapsto> igmp_joined], igmp_avail := [3, 4, 5, 6, 7, 8],
     ip_allocs := replicate 300 (Some []), igmp_ip_id := 1, wire := [(1, [report_packet igmp_nif 0 igmp_sample_addr], igmp_sample_addr)]\<rparr>"

definition igmp_quieted :: ip where
  "igmp_quieted = set_group 2 (igmp_report_heard igmp_joined) igmp_sample"

lemma igmp_sample_addr_facts: "ip_addr_ismulticast igmp_sample_addr" "igmp_sample_addr \<noteq> allsystems"
  by (simp_all add: igmp_sample_addr_def ip_addr_ismulticast_def allsystems_def ntohl_def htonl_def)

lemma igmp_started_reachable: "igmp_reachable igmp_started"
proof -
  have "igmp_init igmp_fresh" by (simp add: igmp_init_def igmp_fresh_def ip_sample_def)
  moreover have "igmp_start 1 igmp_fresh = Some (ERR_OK, igmp_started)"
    by (simp add: igmp_start_def igmp_lookup_group_def igmp_lookfor_group_def lookfor_loop.simps igmp_fresh_def igmp_started_def ip_sample_def
        set_group_def igmp_mac_filter_def igmp_all_def)
  moreover have "netifs igmp_fresh 1 \<noteq> None" by (simp add: igmp_fresh_def)
  ultimately show ?thesis by (blast intro: igmp_reachable.intros igmp_step.start)
qed

lemma igmp_sample_reachable: "igmp_reachable igmp_sample"
proof -
  let ?c = "\<lparr>ig_next = 1, ig_interface = 1, ig_address = igmp_sample_addr, ig_last_reporter = 0, ig_state = IGMP_GROUP_NON_MEMBER, ig_timer = 0, ig_use = 0\<rparr>"
  let ?s = "igmp_started\<lparr>igmp_group_list := 2, igmp_mem := [1 \<mapsto> igmp_all, 2 \<mapsto> ?c], igmp_avail := [3, 4, 5, 6, 7, 8]\<rparr>"
  have lf: "lookfor_loop 1 igmp_sample_addr 1 [1 \<mapsto> igmp_all] = Some NULL"
    using igmp_sample_addr_facts(2) by (subst lookfor_loop.simps, simp add: igmp_all_def) (subst lookfor_loop.simps, simp)
  have "igmp_lookup_group 1 igmp_sample_addr igmp_started = Some (2, ?s)"
    using lf by (simp add: igmp_lookup_group_def igmp_lookfor_group_def igmp_started_def set_group_def igmp_fresh_def ip_sample_def)
  moreover have "join_group 1 igmp_sample_addr 2 ?s = Some igmp_sample"
    using igmp_send_report [of ?s 2 ?c igmp_nif]
    by (simp add: join_group_def igmp_mac_filter_def igmp_started_def igmp_sample_def igmp_fresh_def ip_sample_def set_group_def igmp_start_timer_def
        igmp_joined_def IGMP_JOIN_DELAYING_MEMBER_TMR_def)
  moreover have "netifs igmp_started 1 = Some igmp_nif" "ip_netif_list igmp_started = [1]" by (simp_all add: igmp_started_def igmp_fresh_def ip_sample_def)
  moreover have "has (netif_flags igmp_nif) NETIF_FLAG_IGMP" by (simp add: igmp_nif_def NETIF_FLAG_IGMP_def)
  ultimately have "igmp_joingroup 0 igmp_sample_addr igmp_started = Some (ERR_OK, igmp_sample)"
    using igmp_sample_addr_facts by (simp add: igmp_joingroup_def)
  then show ?thesis by (blast intro: igmp_reachable.step [OF igmp_started_reachable] igmp_step.join)
qed

lemma igmp_sample_groups: "igmp_mem igmp_sample 1 = Some igmp_all" "igmp_mem igmp_sample 2 = Some igmp_joined"
  "igmp_mem igmp_quieted 1 = Some igmp_all" "igmp_mem igmp_quieted 2 = Some (igmp_report_heard igmp_joined)"
  by (simp_all add: igmp_sample_def igmp_quieted_def set_group_def)

lemma igmp_quieted_reachable: "igmp_reachable igmp_quieted"
proof -
  obtain xs where xs: "igmp_listed igmp_sample xs" by (rule igmp_reachable_listed [OF igmp_sample_reachable])
  have "igmp_input [report_packet igmp_nif 0 igmp_sample_addr] 1 igmp_sample_addr igmp_sample = Some igmp_quieted"
    using igmp_input_packet [OF report_packet_igmp] igmp_lookfor_found [OF xs igmp_sample_groups(2)] igmp_sample_groups(2)
    by (simp add: igmp_quieted_def IGMP_V2_MEMB_REPORT_def IGMP_MEMB_QUERY_def igmp_joined_def)
  then show ?thesis by (blast intro: igmp_reachable.step [OF igmp_sample_reachable] igmp_step.input)
qed

definition query_packet :: "u8 \<Rightarrow> u32 \<Rightarrow> bufs" where
  "query_packet m a = (let k = chksum ([IGMP_MEMB_QUERY, m] @ [0, 0] @ le_bytes32 a)
     in [ip_hdr_bytes ip_sample_hdr @ [IGMP_MEMB_QUERY, m] @ [ucast k, ucast (drop_bit 8 k)] @ le_bytes32 a])"

lemma query_packet_igmp: "igmp_packet (query_packet m a) IGMP_MEMB_QUERY m a"
proof -
  let ?k = "chksum ([IGMP_MEMB_QUERY, m] @ [0, 0] @ le_bytes32 a)"
  let ?d = "[IGMP_MEMB_QUERY, m] @ [ucast ?k, ucast (drop_bit 8 ?k)] @ le_bytes32 a"
  have p: "query_packet m a = [ip_hdr_bytes ip_sample_hdr @ ?d]" by (simp add: query_packet_def Let_def)
  have h: "IPH_HL ip_sample_hdr = 5" by (simp add: ip_sample_hdr_def IPH_HL_def)
  have "chksum ?d = 0" by (rule chksum_stored) simp_all
  moreover have "get_addr ?d 4 = Some a" using get_addr_bytes [of "[IGMP_MEMB_QUERY, m, ucast ?k, ucast (drop_bit 8 ?k)]" a "[]"] by (simp add: numeral_eq_Suc)
  moreover have "ip_hdr_of (query_packet m a) = Some ip_sample_hdr" by (simp add: p)
  moreover have "8 \<le> length ?d" "?d ! 0 = IGMP_MEMB_QUERY" "?d ! 1 = m" by (simp_all add: le_bytes32_def)
  moreover have "drop (4 * IPH_HL ip_sample_hdr) (hd (query_packet m a)) = ?d" "4 * IPH_HL ip_sample_hdr \<le> length (hd (query_packet m a))"
    by (simp_all add: p h del: append.simps)
  ultimately show ?thesis unfolding igmp_packet_def by metis
qed

subsection \<open>Properties\<close>

text \<open>
  Claim C21: in every reachable state the list holds each group in use once and no interface has two groups of one address, and
  the timer, starting and stopping an interface, joining and leaving return (and lead to a reachable state again).
\<close>

theorem igmp_reachable_well_formed:
  assumes "igmp_reachable s"
  shows "(\<exists>xs. linked ig_next (igmp_mem s) (igmp_group_list s) xs \<and> distinct xs \<and> set xs = dom (igmp_mem s))
    \<and> (\<forall>g h c d. igmp_mem s g = Some c \<and> igmp_mem s h = Some d \<and> ig_interface c = ig_interface d \<and> ig_address c = ig_address d \<longrightarrow> g = h)
    \<and> (\<exists>s'. igmp_tmr s = Some s' \<and> igmp_reachable s') \<and> (\<exists>e s'. igmp_stop n s = Some (e, s') \<and> igmp_reachable s')
    \<and> (netifs s n \<noteq> None \<longrightarrow> (\<exists>e s'. igmp_start n s = Some (e, s') \<and> igmp_reachable s'))
    \<and> (\<exists>e s'. igmp_joingroup ifaddr a s = Some (e, s') \<and> igmp_reachable s')
    \<and> (\<exists>e s'. igmp_leavegroup ifaddr a s = Some (e, s') \<and> igmp_reachable s')"
proof -
  note ok = igmp_reachable_ok [OF assms] and st = igmp_reachable.step [OF assms]
  obtain xs where xs: "igmp_listed s xs" by (rule igmp_okE [OF ok])
  note l = igmp_listedD [OF xs]
  have "g = h" if "igmp_mem s g = Some c" "igmp_mem s h = Some d" "ig_interface c = ig_interface d" "ig_address c = ig_address d" for g h c d
    using inj_onD [OF l(3), of g h] that l(2) by (auto simp: igmp_key_def)
  moreover have "\<exists>s'. igmp_tmr s = Some s' \<and> igmp_reachable s'" using igmp_tmr_returns [OF ok] by (blast intro: st igmp_step.tmr)
  moreover have "\<exists>e s'. igmp_stop n s = Some (e, s') \<and> igmp_reachable s'" using igmp_stop_returns [OF ok, of n] by (blast intro: st igmp_step.stop)
  moreover have "\<exists>e s'. igmp_start n s = Some (e, s') \<and> igmp_reachable s'" if "netifs s n \<noteq> None"
    using igmp_start_returns [OF ok that] that by (blast intro: st igmp_step.start)
  moreover have "\<exists>e s'. igmp_joingroup ifaddr a s = Some (e, s') \<and> igmp_reachable s'"
    using igmp_joingroup_returns [OF ok, of ifaddr a] by (blast intro: st igmp_step.join)
  moreover have "\<exists>e s'. igmp_leavegroup ifaddr a s = Some (e, s') \<and> igmp_reachable s'"
    using igmp_leavegroup_returns [OF ok, of ifaddr a] by (blast intro: st igmp_step.leave)
  ultimately show ?thesis using l(1,2) linked_distinct [OF l(1)] by blast
qed

theorem igmp_reachable_well_formed_witness:
  "(\<exists>xs. linked ig_next (igmp_mem igmp_sample) (igmp_group_list igmp_sample) xs \<and> set xs = {1, 2}) \<and> (\<exists>s'. igmp_tmr igmp_sample = Some s')"
proof -
  have "dom (igmp_mem igmp_sample) = {1, 2}" by (auto simp: igmp_sample_def)
  then show ?thesis using igmp_reachable_well_formed [OF igmp_sample_reachable] by metis
qed

text \<open>
  Claim C18: a general query is answered by every member of a group on the interface that heard it, whether it is idle or
  already waiting, with two exceptions.  The response time of the query is the one it carries, or 10 when it carries 0.  An idle member, or one
  whose timer is below the response time, starts its timer with half the response time; one whose timer is not below it keeps
  the timer.  When only the timer runs after that, the report is given to the driver at exactly the last of these ticks and not before,
  provided that memory is left.  The exceptions are an idle member and one with a timer of 0 under a response time of 1: their timer
  is set to 0, which does not run.
\<close>

theorem igmp_query_answered:
  assumes "igmp_reachable s" "igmp_packet p IGMP_MEMB_QUERY m 0"
    and "igmp_mem s r = Some rc" "ig_address rc = allsystems"
    and "igmp_mem s g = Some c" "ig_interface c = ig_interface rc" "ig_address c \<noteq> allsystems"
    and "ig_state c = IGMP_GROUP_IDLE_MEMBER \<or> ig_state c = IGMP_GROUP_DELAYING_MEMBER"
    and "\<not> (m = 1 \<and> (ig_state c = IGMP_GROUP_IDLE_MEMBER \<or> ig_timer c = 0))"
    and "M = (if m = 0 then 10 else unat m)"
    and "T = (if ig_state c = IGMP_GROUP_IDLE_MEMBER \<or> unat (ig_timer c) < M then M div 2 else unat (ig_timer c))"
    and "memory_for (T * card (dom (igmp_mem s))) s"
  shows "\<exists>t u nif i. igmp_input p (ig_interface rc) allsystems s = Some t \<and> igmp_ticks T t = Some u
    \<and> netifs s (ig_interface c) = Some nif \<and> (ig_interface c, [report_packet nif i (ig_address c)], ig_address c) \<in> set (sent s u)
    \<and> map_option ig_last_reporter (igmp_mem u g) = Some 1
    \<and> (\<forall>n < T. \<exists>v. igmp_ticks n t = Some v \<and> silent c (sent s v))"
proof -
  obtain xs where xs: "igmp_listed s xs" "length xs = card (dom (igmp_mem s))" by (rule igmp_reachable_listed [OF assms(1)])
  let ?t = "queried (ig_interface rc) m s" and ?c = "delaying_member (if m = 0 then IGMP_V1_DELAYING_MEMBER_TMR else m) c"
  have i: "igmp_input p (ig_interface rc) allsystems s = Some ?t" by (rule igmp_general_query [OF xs(1) assms(3,4,2)])
  note t = queried_listed [OF xs(1), of "ig_interface rc" m] and f = queried_frame [of s "ig_interface rc" m]
  have g: "igmp_mem ?t g = Some ?c" using assms(5-7) by (simp add: queried_def delays_def)
  have c: "ig_state ?c = IGMP_GROUP_DELAYING_MEMBER" "unat (ig_timer ?c) = T" "silent ?c = silent c"
    using delaying_member_timer [OF assms(8)] assms(10,11) by (auto simp: IGMP_V1_DELAYING_MEMBER_TMR_def)
  obtain j where j: "T = Suc j" using answer_time_positive [OF assms(9-11)] by (cases T) auto
  have q: "\<exists>v w k. igmp_ticks n ?t = Some v \<and> igmp_listed v xs \<and> igmp_frame ?t v w k \<and> k \<le> n * length xs
      \<and> igmp_mem v g = Some ((ticked ^^ n) ?c) \<and> silent c w" if "n < T" for n
    using igmp_ticks_silent [OF t g, of n] that c by (auto simp: due_pow)
  obtain v w k where v: "igmp_ticks j ?t = Some v" "igmp_listed v xs" "igmp_frame ?t v w k" "k \<le> j * length xs" "igmp_mem v g = Some ((ticked ^^ j) ?c)"
    using q [of j] j by auto
  have "memory_for (length xs) v"
    by (rule memory_for_drop [OF assms(12) igmp_frame_sel(5) [OF igmp_frame_trans [OF f v(3)]]]) (use v(4) j xs(2) in simp)
  moreover have "due ((ticked ^^ j) ?c)" using j c by (simp add: due_pow)
  ultimately obtain u w' k' nif i where u: "igmp_tmr v = Some u" "igmp_frame v u w' k'"
    "igmp_mem u g = Some ((ticked ((ticked ^^ j) ?c))\<lparr>ig_last_reporter := 1\<rparr>)" "(ig_interface c, [report_packet nif i (ig_address c)], ig_address c) \<in> set w'"
    "netifs v (ig_interface c) = Some nif"
    using igmp_tmr_group [OF v(2,5)] by (simp, blast)
  have "netifs s (ig_interface c) = Some nif" using u(5) igmp_frame_sel(1) [OF igmp_frame_trans [OF f v(3)]] by simp
  moreover have "map_option ig_last_reporter (igmp_mem u g) = Some 1" using u(3) by simp
  moreover have "igmp_ticks T ?t = Some u" unfolding j using igmp_ticks_add [of j 1 ?t] v(1) u(1) by simp
  moreover have "sent s u = w @ w'" using sent_frame [OF igmp_frame_trans [OF f igmp_frame_trans [OF v(3) u(2)]]] by simp
  moreover have "\<exists>v. igmp_ticks n ?t = Some v \<and> silent c (sent s v)" if "n < T" for n
    using q [OF that] sent_frame [OF igmp_frame_trans [OF f]] by fastforce
  moreover have "(ig_interface c, [report_packet nif i (ig_address c)], ig_address c) \<in> set (w @ w')" using u(4) by simp
  ultimately show ?thesis using i by metis
qed

text \<open>An idle member under a query that carries 0, and a member with a timer of 5 that hears the response times 1 and 100.\<close>

theorem igmp_query_answered_witness:
  "(\<exists>t u i. igmp_input (query_packet 0 0) 1 allsystems igmp_quieted = Some t \<and> igmp_ticks 5 t = Some u
      \<and> (1, [report_packet igmp_nif i igmp_sample_addr], igmp_sample_addr) \<in> set (sent igmp_quieted u))
    \<and> (\<exists>t u i. igmp_input (query_packet 1 0) 1 allsystems igmp_sample = Some t \<and> igmp_ticks 5 t = Some u
      \<and> (1, [report_packet igmp_nif i igmp_sample_addr], igmp_sample_addr) \<in> set (sent igmp_sample u))
    \<and> (\<exists>t u i. igmp_input (query_packet 100 0) 1 allsystems igmp_sample = Some t \<and> igmp_ticks 50 t = Some u
      \<and> (1, [report_packet igmp_nif i igmp_sample_addr], igmp_sample_addr) \<in> set (sent igmp_sample u))"
proof -
  let ?c = "igmp_report_heard igmp_joined"
  have c: "ig_interface igmp_joined = ig_interface igmp_all" "ig_address igmp_joined \<noteq> allsystems" "ig_address igmp_all = allsystems"
    "ig_interface igmp_all = 1" "ig_address igmp_joined = igmp_sample_addr" "ig_state igmp_joined = IGMP_GROUP_DELAYING_MEMBER" "ig_timer igmp_joined = 5"
    "ig_interface ?c = ig_interface igmp_all" "ig_address ?c \<noteq> allsystems" "ig_address ?c = igmp_sample_addr" "ig_state ?c = IGMP_GROUP_IDLE_MEMBER"
    "ig_state igmp_joined \<noteq> IGMP_GROUP_IDLE_MEMBER"
    using igmp_sample_addr_facts(2)
    by (simp_all add: igmp_report_heard_def igmp_joined_def igmp_all_def IGMP_GROUP_IDLE_MEMBER_def IGMP_GROUP_DELAYING_MEMBER_def)
  have d: "dom (igmp_mem igmp_sample) = {1, 2}" "dom (igmp_mem igmp_quieted) = {1, 2}" by (auto simp: igmp_sample_def igmp_quieted_def set_group_def)
  have m: "memory_for (n * card (dom (igmp_mem igmp_sample))) igmp_sample" "memory_for (n * card (dom (igmp_mem igmp_quieted))) igmp_quieted"
    if "n \<le> 50" for n
    using that unfolding d by (auto simp: memory_for_def igmp_sample_def igmp_quieted_def set_group_def)
  have n: "netifs igmp_sample 1 = Some igmp_nif" "netifs igmp_quieted 1 = Some igmp_nif"
    by (simp_all add: igmp_sample_def igmp_quieted_def igmp_fresh_def set_group_def)
  have a: "\<exists>t u i. igmp_input (query_packet q 0) 1 allsystems igmp_sample = Some t \<and> igmp_ticks T t = Some u
      \<and> (1, [report_packet igmp_nif i igmp_sample_addr], igmp_sample_addr) \<in> set (sent igmp_sample u)"
    if hyp: "q \<noteq> 0" "T = (if 5 < unat q then unat q div 2 else 5)" "T \<le> 50" for q T
  proof -
    have "T = (if ig_state igmp_joined = IGMP_GROUP_IDLE_MEMBER \<or> unat (ig_timer igmp_joined) < (if q = 0 then 10 else unat q)
        then (if q = 0 then 10 else unat q) div 2 else unat (ig_timer igmp_joined))" using hyp(1,2) c(6,7,12) by simp
    moreover have "\<not> (q = 1 \<and> (ig_state igmp_joined = IGMP_GROUP_IDLE_MEMBER \<or> ig_timer igmp_joined = 0))" using c(7,12) by simp
    ultimately obtain t u nif i where u: "igmp_input (query_packet q 0) (ig_interface igmp_all) allsystems igmp_sample = Some t" "igmp_ticks T t = Some u"
      "netifs igmp_sample (ig_interface igmp_joined) = Some nif"
      "(ig_interface igmp_joined, [report_packet nif i (ig_address igmp_joined)], ig_address igmp_joined) \<in> set (sent igmp_sample u)"
      using igmp_query_answered [OF igmp_sample_reachable query_packet_igmp igmp_sample_groups(1) c(3) igmp_sample_groups(2) c(1,2) disjI2 [OF c(6)] _ refl _ m(1) [OF hyp(3)]]
      by blast
    moreover have "nif = igmp_nif" using u(3) n(1) unfolding c(1,4) by simp
    ultimately show ?thesis unfolding c(1,4,5) by blast
  qed
  have T: "(5 :: nat) = (if ig_state ?c = IGMP_GROUP_IDLE_MEMBER \<or> unat (ig_timer ?c) < (if (0 :: u8) = 0 then 10 else unat (0 :: u8))
      then (if (0 :: u8) = 0 then 10 else unat (0 :: u8)) div 2 else unat (ig_timer ?c))" using c(11) by simp
  have N: "\<not> ((0 :: u8) = 1 \<and> (ig_state ?c = IGMP_GROUP_IDLE_MEMBER \<or> ig_timer ?c = 0))" by simp
  have m5: "memory_for (5 * card (dom (igmp_mem igmp_quieted))) igmp_quieted" by (rule m(2)) simp
  obtain t u nif i where u: "igmp_input (query_packet 0 0) (ig_interface igmp_all) allsystems igmp_quieted = Some t" "igmp_ticks 5 t = Some u"
    "netifs igmp_quieted (ig_interface ?c) = Some nif" "(ig_interface ?c, [report_packet nif i (ig_address ?c)], ig_address ?c) \<in> set (sent igmp_quieted u)"
    using igmp_query_answered [OF igmp_quieted_reachable query_packet_igmp igmp_sample_groups(3) c(3) igmp_sample_groups(4) c(8,9) disjI1 [OF c(11)] N refl T m5]
    by blast
  note u(1,2,4)
  moreover have "nif = igmp_nif" using u(3) n(2) unfolding c(4,8) by simp
  ultimately have "\<exists>t u i. igmp_input (query_packet 0 0) 1 allsystems igmp_quieted = Some t \<and> igmp_ticks 5 t = Some u
      \<and> (1, [report_packet igmp_nif i igmp_sample_addr], igmp_sample_addr) \<in> set (sent igmp_quieted u)" unfolding c(4,8,10) by blast
  then show ?thesis using a [of 1 5] a [of 100 50] by simp
qed

lemma keeps_queried: "keeps s (queried inp m s)"
  by (simp add: queried_def keeps_def same_keys_def option.map_comp comp_def)

lemma keeps_igmp_ticks: "igmp_listed s xs \<Longrightarrow> igmp_ticks n s = Some v \<Longrightarrow> keeps s v"
proof (induction n arbitrary: s)
  case (Suc n)
  then obtain t where t: "igmp_tmr s = Some t" "igmp_ticks n t = Some v" by (auto simp: Option.bind_eq_Some_conv)
  note k = keeps_igmp_tmr [OF Suc.prems(1) t(1)]
  show ?case by (rule keeps_trans [OF k Suc.IH [OF keeps_listed [OF k Suc.prems(1)] t(2)]])
qed simp

text \<open>Queries, each followed by some ticks.\<close>

primrec igmp_rounds :: "bufs \<Rightarrow> addr \<Rightarrow> nat list \<Rightarrow> ip \<Rightarrow> ip option" where
  "igmp_rounds p inp [] s = Some s"
| "igmp_rounds p inp (k # ks) s = do { s \<leftarrow> igmp_input p inp allsystems s; s \<leftarrow> igmp_ticks k s; igmp_rounds p inp ks s }"

lemma igmp_rounds_silent:
  assumes "igmp_packet p IGMP_MEMB_QUERY m 0" "2 \<le> m" "\<forall>k \<in> set ks. k < unat m div 2"
    and "igmp_listed s xs" "igmp_mem s r = Some rc" "ig_address rc = allsystems"
    and "igmp_mem s g = Some c" "ig_interface c = ig_interface rc" "ig_address c \<noteq> allsystems" "restarts m c"
  shows "\<exists>s' w j. igmp_rounds p (ig_interface rc) ks s = Some s' \<and> igmp_frame s s' w j \<and> silent c w"
  using assms
proof (induction ks arbitrary: s rc c)
  case Nil
  then show ?case by (intro exI [of _ s] exI [of _ "[]"] exI [of _ 0]) simp
next
  case (Cons k ks)
  let ?t = "queried (ig_interface rc) m s" and ?c = "restarted m c"
  have m: "m \<noteq> 0" using Cons.prems(2) by auto
  have i: "igmp_input p (ig_interface rc) allsystems s = Some ?t" by (rule igmp_general_query [OF Cons.prems(4,5,6,1)])
  note t = queried_listed [OF Cons.prems(4), of "ig_interface rc" m]
  have g: "igmp_mem ?t g = Some ?c" by (rule queried_group [OF Cons.prems(7-9) m Cons.prems(10)])
  note f = queried_frame [of s "ig_interface rc" m]
  obtain v w j where v: "igmp_ticks k ?t = Some v" "igmp_listed v xs" "igmp_frame ?t v w j" "igmp_mem v g = Some ((ticked ^^ k) ?c)" "silent ?c w"
    using restarted_runs [OF t g _ refl, of k] Cons.prems(3) by auto
  let ?d = "(ticked ^^ k) ?c"
  have "keeps s v" using keeps_trans [OF keeps_queried keeps_igmp_ticks [OF t v(1)]] .
  then obtain rd where rd: "igmp_mem v r = Some rd" "ig_interface rd = ig_interface rc" "ig_address rd = ig_address rc"
    using same_keys_some [OF _ Cons.prems(5)] unfolding keeps_def by blast
  then have r: "ig_address rd = allsystems" "ig_interface rd = ig_interface rc" using Cons.prems(6) by simp_all
  have "restarts m ?d"
  proof -
    have "unat m div 2 - k < unat m" using Cons.prems(2) by (simp add: word_le_nat_alt)
    then show ?thesis using unat_byte [of m] unfolding restarts_def by (simp add: word_less_nat_alt ticked_pow_timer unat_ucast_mod)
  qed
  then obtain s' w' j' where "igmp_rounds p (ig_interface rd) ks v = Some s'" "igmp_frame v s' w' j'" "silent ?d w'"
    using Cons.IH [OF Cons.prems(1,2) _ v(2) rd(1) r(1) v(4)] Cons.prems(3,8,9) r(2) by auto
  then show ?case using i v(1,5) r(2) igmp_frame_trans [OF f igmp_frame_trans [OF v(3)]]
    by (intro exI [of _ s'] exI [of _ "w @ w'"] exI [of _ "j + j'"]) simp
qed

text \<open>
  Claim C20: general queries that come before the timer has run out postpone the report for ever.  Whatever the number of queries with
  one response time of 2 or more: when fewer ticks than half the response time pass between any two of them, a member that is idle or whose
  timer is below the response time does not report.  (The code restarts the timer when the response time is greater than
  what is left, where RFC 2236 asks for the opposite.)
\<close>

theorem igmp_queries_postpone:
  assumes "igmp_reachable s" "igmp_packet p IGMP_MEMB_QUERY m 0" "2 \<le> m"
    and "igmp_mem s r = Some rc" "ig_address rc = allsystems"
    and "igmp_mem s g = Some c" "ig_interface c = ig_interface rc" "ig_address c \<noteq> allsystems" "restarts m c"
  shows "\<forall>ks. (\<forall>k \<in> set ks. k < unat m div 2) \<longrightarrow>
    (\<exists>s'. igmp_rounds p (ig_interface rc) ks s = Some s' \<and> silent c (sent s s'))"
proof (intro allI impI)
  fix ks assume ks: "\<forall>k \<in> set ks. k < unat m div 2"
  obtain xs where xs: "igmp_listed s xs" by (rule igmp_reachable_listed [OF assms(1)])
  show "\<exists>s'. igmp_rounds p (ig_interface rc) ks s = Some s' \<and> silent c (sent s s')"
    using igmp_rounds_silent [OF assms(2,3) ks xs assms(4-9)] sent_frame by fastforce
qed

theorem igmp_queries_postpone_witness:
  "\<exists>s'. igmp_rounds (query_packet 10 0) 1 (replicate 1000 4) igmp_sample = Some s' \<and> silent igmp_joined (sent igmp_sample s')"
proof -
  have "restarts 10 igmp_joined" by (simp add: restarts_def igmp_joined_def)
  moreover have "\<forall>k \<in> set (replicate 1000 4). k < unat (10 :: u8) div 2" by simp
  ultimately show ?thesis
    using igmp_queries_postpone [OF igmp_sample_reachable query_packet_igmp _ igmp_sample_groups(1) _ igmp_sample_groups(2), of 10]
      igmp_sample_addr_facts(2) by (simp add: igmp_all_def igmp_joined_def)
qed

text \<open>
  A query with the shortest response time is never answered.  A general query with response time 1, or a query for
  the group with response time 0 or 1, leaves an idle member delaying with a timer of 0, and the timer of a group that is 0 is not running:
  however long one waits there is no report.
\<close>

theorem igmp_short_query_unanswered:
  assumes "igmp_reachable s" "igmp_packet p IGMP_MEMB_QUERY m a"
    and "igmp_mem s r = Some rc" "ig_address rc = allsystems"
    and "igmp_mem s g = Some c" "ig_interface c = ig_interface rc" "ig_address c \<noteq> allsystems" "ig_state c = IGMP_GROUP_IDLE_MEMBER"
    and "a = 0 \<and> m = 1 \<or> a = ig_address c \<and> a \<noteq> 0 \<and> m \<le> 1"
  shows "\<exists>t. igmp_input p (ig_interface rc) allsystems s = Some t
    \<and> (\<forall>n. \<exists>u. igmp_ticks n t = Some u \<and> silent c (sent s u)
        \<and> igmp_mem u g = Some (c\<lparr>ig_state := IGMP_GROUP_DELAYING_MEMBER, ig_timer := 0\<rparr>))"
proof -
  obtain xs where xs: "igmp_listed s xs" by (rule igmp_reachable_listed [OF assms(1)])
  let ?c = "c\<lparr>ig_state := IGMP_GROUP_DELAYING_MEMBER, ig_timer := 0\<rparr>"
  have m: "m div 2 = 0" if "m \<le> 1"
  proof -
    have "unat m \<le> 1" using that by (simp add: word_le_nat_alt)
    then show ?thesis by (simp add: word_unat_eq_iff unat_div)
  qed
  have d: "delaying_member m c = ?c" if "m \<le> 1" using m [OF that] assms(8) by (simp add: delaying_member_def igmp_start_timer_def)
  have "\<exists>t. igmp_input p (ig_interface rc) allsystems s = Some t \<and> keeps s t \<and> igmp_mem t g = Some ?c \<and> wire t = wire s"
    using assms(9)
  proof
    assume a: "a = 0 \<and> m = 1"
    have "igmp_mem (queried (ig_interface rc) m s) g = Some ?c"
      using assms(5-8) a d by (simp add: queried_def delays_def)
    moreover have "wire (queried (ig_interface rc) m s) = wire s" by (simp add: queried_def)
    ultimately show ?thesis using igmp_general_query [OF xs assms(3,4), of p m] assms(2) a keeps_queried by blast
  next
    assume a: "a = ig_address c \<and> a \<noteq> 0 \<and> m \<le> 1"
    let ?t = "set_group g ?c s"
    have nz: "ig_address c \<noteq> 0" "a = ig_address c" and dm: "delaying_member m c = ?c" using a d by auto
    have "igmp_query r m a (ig_interface rc) allsystems s = Some ?t"
      using igmp_lookfor_found [OF xs assms(5)] assms(3-6) nz(1) dm allsystems_nz
      unfolding nz(2) by (simp add: igmp_query_def igmp_delaying_member_def)
    then have "igmp_input p (ig_interface rc) allsystems s = Some ?t"
      using igmp_input_packet [OF assms(2)] igmp_lookfor_found [OF xs assms(3)] assms(4) by simp
    moreover have "keeps s ?t" by (rule keeps_set [OF assms(5)]) simp_all
    ultimately show ?thesis by (intro exI [of _ ?t]) (simp add: set_group_def)
  qed
  then obtain t where t: "igmp_input p (ig_interface rc) allsystems s = Some t" "keeps s t" "igmp_mem t g = Some ?c" "wire t = wire s" by blast
  have "\<exists>u. igmp_ticks n t = Some u \<and> silent c (sent s u) \<and> igmp_mem u g = Some ?c" for n
  proof -
    have z: "(ticked ^^ i) ?c = ?c" for i by (rule ticked_pow_zero) simp
    have "\<forall>i < n. \<not> due ((ticked ^^ i) ?c)" unfolding z by (simp add: due_def)
    then obtain u w k where "igmp_ticks n t = Some u" "igmp_frame t u w k" "igmp_mem u g = Some ?c" "silent ?c w"
      using igmp_ticks_silent [OF keeps_listed [OF t(2) xs] t(3), of n] unfolding z by blast
    moreover from this have "sent s u = w" using igmp_frame_sel(4) t(4) by (simp add: sent_def)
    ultimately show ?thesis by (intro exI [of _ u]) (simp add: silent_def for_group_def)
  qed
  then show ?thesis using t(1) by blast
qed

theorem igmp_short_query_unanswered_witness:
  "\<exists>t u. igmp_input (query_packet 1 0) 1 allsystems igmp_quieted = Some t \<and> igmp_ticks 100000 t = Some u
    \<and> silent (igmp_report_heard igmp_joined) (sent igmp_quieted u)"
proof -
  have c: "ig_interface (igmp_report_heard igmp_joined) = ig_interface igmp_all" "ig_address (igmp_report_heard igmp_joined) \<noteq> allsystems"
    "ig_state (igmp_report_heard igmp_joined) = IGMP_GROUP_IDLE_MEMBER" "ig_address igmp_all = allsystems" "ig_interface igmp_all = 1"
    using igmp_sample_addr_facts(2) by (simp_all add: igmp_report_heard_def igmp_joined_def igmp_all_def)
  show ?thesis
    using igmp_short_query_unanswered [OF igmp_quieted_reachable query_packet_igmp igmp_sample_groups(3) c(4) igmp_sample_groups(4) c(1-3), of 0 1]
    unfolding c(5) by blast
qed

text \<open>
  Claim C19: the report of one member silences the others.  A report that any host sends for the group is accepted by the IP layer of another
  member (its header with the router alert option and both its checksums are right), a waiting member goes idle, and
  however long one waits it does not report.
\<close>

theorem igmp_report_suppresses:
  assumes "igmp_reachable s" "igmp_mem s g = Some c" "ig_state c = IGMP_GROUP_DELAYING_MEMBER" "ip_addr_ismulticast (ig_address c)"
    and "netifs s (ig_interface c) = Some nif" "has (netif_flags nif) NETIF_FLAG_IGMP" "raw_pcbs s = NULL"
    and "\<not> ip_addr_isbroadcast (netif_ip_addr other) nif" "\<not> ip_addr_ismulticast (netif_ip_addr other)" "ig_interface c \<noteq> NULL"
  shows "\<exists>t. ip_input app [report_packet other i (ig_address c)] room (ig_interface c) s = Some (Consumed, t)
    \<and> igmp_mem t g = Some (c\<lparr>ig_timer := 0, ig_state := IGMP_GROUP_IDLE_MEMBER, ig_last_reporter := 0\<rparr>)
    \<and> (\<forall>n. \<exists>u. igmp_ticks n t = Some u \<and> silent c (sent s u))"
proof -
  obtain xs where xs: "igmp_listed s xs" by (rule igmp_reachable_listed [OF assms(1)])
  let ?c = "c\<lparr>ig_timer := 0, ig_state := IGMP_GROUP_IDLE_MEMBER, ig_last_reporter := 0\<rparr>"
  let ?p = "report_packet other i (ig_address c)" and ?t = "set_group g ?c s"
  note lf = igmp_lookfor_found [OF xs assms(2)]
  let ?h = "igmp_ip_hdr 32 i (netif_ip_addr other) (ig_address c) IGMP_TTL IP_PROTO_IGMP other"
  note f = report_packet_fields [where nif = other and i = i and a = "ig_address c"]
  have "igmp_input [?p] (ig_interface c) (ig_address c) s = Some ?t"
    using igmp_input_packet [OF report_packet_igmp lf] assms(2,3) by (simp add: igmp_report_heard_def IGMP_V2_MEMB_REPORT_def IGMP_MEMB_QUERY_def)
  then have "ip_dispatch app [?p] room (ig_interface c) s = Some (Consumed, ?t)"
    using assms(7) f(1) by (simp add: ip_dispatch_def raw_input_def raw_input_loop.simps IP_PROTO_IGMP_def IP_PROTO_UDP_def IP_PROTO_TCP_def IP_PROTO_ICMP_def)
  moreover have "match_netif (ig_address c) (ig_interface c) s = Some (ig_interface c)"
    using assms(4-6) lf by (simp add: match_netif_def)
  moreover have "shrink [?p] 32 = [?p]" using f(2) by (simp add: shrink_def)
  moreover have "tot_len [?p] = 32" using f(2) by (simp add: tot_len_def)
  ultimately have "ip_input app [?p] room (ig_interface c) s = Some (Consumed, ?t)"
    using f assms(5,8-10) by (simp add: ip_input_def)
  moreover have g: "igmp_mem ?t g = Some ?c" by (simp add: set_group_def)
  moreover have "\<exists>u. igmp_ticks n ?t = Some u \<and> silent c (sent s u)" for n
  proof -
    have k: "keeps s ?t" by (rule keeps_set [OF assms(2)]) simp_all
    have "\<forall>j < n. \<not> due ((ticked ^^ j) ?c)" unfolding due_pow by simp
    then obtain u w k where "igmp_ticks n ?t = Some u" "igmp_frame ?t u w k" "silent ?c w"
      using igmp_ticks_silent [OF keeps_listed [OF k xs] g, of n] by blast
    moreover have "igmp_frame s ?t [] 0" by simp
    ultimately have "sent s u = w" using sent_frame [OF igmp_frame_trans] by fastforce
    then show ?thesis using \<open>igmp_ticks n ?t = Some u\<close> \<open>silent ?c w\<close> by (simp add: silent_def for_group_def)
  qed
  ultimately show ?thesis by blast
qed

theorem igmp_report_suppresses_witness:
  "\<exists>t u. ip_input idle_app [report_packet (igmp_nif\<lparr>netif_ip_addr := 0x0300000a\<rparr>) 7 igmp_sample_addr] 0 1 igmp_sample = Some (Consumed, t)
    \<and> igmp_ticks 100000 t = Some u \<and> silent igmp_joined (sent igmp_sample u)"
proof -
  have c: "ig_interface igmp_joined = 1" "ig_address igmp_joined = igmp_sample_addr" "ig_state igmp_joined = IGMP_GROUP_DELAYING_MEMBER"
    by (simp_all add: igmp_joined_def)
  have n: "netifs igmp_sample 1 = Some igmp_nif" "has (netif_flags igmp_nif) NETIF_FLAG_IGMP" "raw_pcbs igmp_sample = NULL"
    "\<not> ip_addr_isbroadcast (netif_ip_addr (igmp_nif\<lparr>netif_ip_addr := 0x0300000a\<rparr>)) igmp_nif"
    "\<not> ip_addr_ismulticast (netif_ip_addr (igmp_nif\<lparr>netif_ip_addr := 0x0300000a\<rparr>))"
    by (simp_all add: igmp_sample_def igmp_fresh_def ip_sample_def igmp_nif_def NETIF_FLAG_IGMP_def ip_addr_isbroadcast_def ip_addr_ismulticast_def
        NETIF_FLAG_BROADCAST_def ntohl_def htonl_def ip_addr_netcmp_def)
  show ?thesis
    using igmp_report_suppresses [OF igmp_sample_reachable igmp_sample_groups(2) c(3) _ _ n(2,3,4,5), of idle_app 7 0]
      igmp_sample_addr_facts(1) n(1) unfolding c by simp blast
qed

end
