(* ===== verification/Netif.thy ===== *)
theory Netif
  imports Igmp Ip_In
begin

section \<open>Interfaces\<close>

text \<open>
  \<^verbatim>\<open>core/netif.c\<close>: adding, removing, finding and configuring interfaces.  The state of a host joins that of TCP, that of the
  protocols around IP, and the counter from which interfaces are numbered.  The list of interfaces and the default one are
  those of IP; TCP, which the functions call with the interfaces of that moment, sees their contents.  The driver, through its
  function \<^verbatim>\<open>init\<close>, and the application, through its callbacks, are parameters; fields that only drivers read (\<^verbatim>\<open>state\<close>,
  \<^verbatim>\<open>input\<close>, \<^verbatim>\<open>hwaddr\<close>) are left out.  \<^const>\<open>None\<close> is the use of memory that holds no interface, of
  \<^verbatim>\<open>NULL\<close> or of a freed control block, an index out of range, a list that has become circular, or a loop that does not end.
\<close>

record host =
  h_tcp :: tcp
  h_ip :: ip
  h_netifnum :: u8

subsection \<open>What TCP sees\<close>

definition default_netif :: "ip \<Rightarrow> netif option option" where
  "default_netif i = (if ip_netif_default i = NULL then Some None else map_option Some (netifs i (ip_netif_default i)))"

definition netif_view :: "ip \<Rightarrow> tcp \<Rightarrow> tcp option" where
  "netif_view i t = do {
     ns \<leftarrow> those (map (netifs i) (ip_netif_list i));
     d \<leftarrow> default_netif i;
     Some (t\<lparr>netif_list := ns, netif_default := d\<rparr>)
   }"

definition on_tcp :: "(tcp \<Rightarrow> tcp option) \<Rightarrow> host \<Rightarrow> host option" where
  "on_tcp f s = do { t \<leftarrow> netif_view (h_ip s) (h_tcp s); t \<leftarrow> f t; Some (s\<lparr>h_tcp := t\<rparr>) }"

definition set_netif :: "addr \<Rightarrow> (netif \<Rightarrow> netif) \<Rightarrow> host \<Rightarrow> host option" where
  "set_netif n f s = do {
     nif \<leftarrow> netifs (h_ip s) n;
     Some (s\<lparr>h_ip := (h_ip s)\<lparr>netifs := (netifs (h_ip s))(n \<mapsto> f nif)\<rparr>\<rparr>)
   }"

subsection \<open>Configuration\<close>

text \<open>The value \<^verbatim>\<open>ip_addr_set\<close> stores: 0 for \<^verbatim>\<open>NULL\<close>.\<close>

definition ip_addr_set :: "u32 option \<Rightarrow> u32" where
  "ip_addr_set a = (case a of None \<Rightarrow> 0 | Some a \<Rightarrow> a)"

text \<open>The loops of \<^verbatim>\<open>netif_set_ipaddr\<close>: connections from the old address are aborted, listeners on it are moved.\<close>

partial_function (option) abort_bound :: "app \<Rightarrow> u32 \<Rightarrow> addr \<Rightarrow> tcp \<Rightarrow> tcp option" where [code]:
  "abort_bound app old a s =
     (if a = NULL then Some s
      else do {
        pcb \<leftarrow> pcbs s a;
        if local_ip pcb = old
        then do {
          let nx = next_pcb (tcp_active_pcbs s) a;
          s \<leftarrow> tcp_abort app a s;
          abort_bound app old nx s
        }
        else abort_bound app old (next_pcb (tcp_active_pcbs s) a) s
      })"

fun move_listeners :: "u32 \<Rightarrow> u32 \<Rightarrow> addr list \<Rightarrow> tcp \<Rightarrow> tcp option" where
  "move_listeners old new [] s = Some s"
| "move_listeners old new (a # as) s = do {
     lpcb \<leftarrow> pcbs s a;
     if \<not> ip_addr_isany (Some (local_ip lpcb)) \<and> local_ip lpcb = old
     then move_listeners old new as (s\<lparr>pcbs := (pcbs s)(a \<mapsto> lpcb\<lparr>local_ip := new\<rparr>)\<rparr>)
     else move_listeners old new as s
   }"

definition change_address :: "app \<Rightarrow> u32 \<Rightarrow> u32 \<Rightarrow> tcp \<Rightarrow> tcp option" where
  "change_address app old new t = do {
     t \<leftarrow> abort_bound app old (case tcp_active_pcbs t of [] \<Rightarrow> NULL | a # _ \<Rightarrow> a) t;
     move_listeners old new (tcp_listen_pcbs t) t
   }"

definition netif_set_ipaddr :: "app \<Rightarrow> addr \<Rightarrow> u32 \<Rightarrow> host \<Rightarrow> host option" where
  "netif_set_ipaddr app n ipaddr s = do {
     nif \<leftarrow> netifs (h_ip s) n;
     s \<leftarrow> (if ipaddr = netif_ip_addr nif then Some s else on_tcp (change_address app (netif_ip_addr nif) ipaddr) s);
     set_netif n (\<lambda>nif. nif\<lparr>netif_ip_addr := ipaddr\<rparr>) s
   }"

definition netif_set_gw :: "addr \<Rightarrow> u32 option \<Rightarrow> host \<Rightarrow> host option" where
  "netif_set_gw n gw = set_netif n (\<lambda>nif. nif\<lparr>netif_gw := ip_addr_set gw\<rparr>)"

definition netif_set_netmask :: "addr \<Rightarrow> u32 option \<Rightarrow> host \<Rightarrow> host option" where
  "netif_set_netmask n netmask = set_netif n (\<lambda>nif. nif\<lparr>netif_netmask := ip_addr_set netmask\<rparr>)"

definition netif_set_addr :: "app \<Rightarrow> addr \<Rightarrow> u32 \<Rightarrow> u32 option \<Rightarrow> u32 option \<Rightarrow> host \<Rightarrow> host option" where
  "netif_set_addr app n ipaddr netmask gw s = do {
     s \<leftarrow> netif_set_ipaddr app n ipaddr s;
     s \<leftarrow> netif_set_netmask n netmask s;
     netif_set_gw n gw s
   }"

definition netif_set_default :: "addr \<Rightarrow> host \<Rightarrow> host" where
  "netif_set_default n s = s\<lparr>h_ip := (h_ip s)\<lparr>ip_netif_default := n\<rparr>\<rparr>"

definition netif_set_up :: "addr \<Rightarrow> host \<Rightarrow> host option" where
  "netif_set_up n = set_netif n (\<lambda>nif. if \<not> has (netif_flags nif) NETIF_FLAG_UP
     then nif\<lparr>netif_flags := netif_flags nif OR NETIF_FLAG_UP\<rparr> else nif)"

definition netif_set_down :: "addr \<Rightarrow> host \<Rightarrow> host option" where
  "netif_set_down n = set_netif n (\<lambda>nif. if has (netif_flags nif) NETIF_FLAG_UP
     then nif\<lparr>netif_flags := netif_flags nif AND NOT NETIF_FLAG_UP\<rparr> else nif)"

subsection \<open>Adding, removing and finding\<close>

text \<open>
  The fields that \<^verbatim>\<open>netif_add\<close> resets, among them the function \<^verbatim>\<open>igmp_mac_filter\<close>.  It has no answer when the interface is
  already on the list, which becomes circular.
\<close>

definition reset_netif :: "u8 \<Rightarrow> netif \<Rightarrow> netif" where
  "reset_netif k nif = nif\<lparr>netif_ip_addr := 0, netif_netmask := 0, netif_gw := 0, netif_flags := 0, netif_num := k\<rparr>"

definition netif_add :: "app \<Rightarrow> (addr \<Rightarrow> host \<Rightarrow> err \<times> host) \<Rightarrow> addr \<Rightarrow> u32 \<Rightarrow> u32 option \<Rightarrow> u32 option \<Rightarrow> host \<Rightarrow> (addr \<times> host) option" where
  "netif_add app init n ipaddr netmask gw s = do {
     s \<leftarrow> set_netif n (reset_netif (h_netifnum s)) s;
     let s = s\<lparr>h_ip := (h_ip s)\<lparr>mac_filtered := removeAll n (mac_filtered (h_ip s))\<rparr>, h_netifnum := h_netifnum s + 1\<rparr>;
     s \<leftarrow> netif_set_addr app n ipaddr netmask gw s;
     let (e, s) = init n s;
     if e \<noteq> ERR_OK then Some (NULL, s)
     else if n \<in> set (ip_netif_list (h_ip s)) then None
     else do {
       let i = (h_ip s)\<lparr>ip_netif_list := n # ip_netif_list (h_ip s)\<rparr>;
       nif \<leftarrow> netifs i n;
       i \<leftarrow> (if has (netif_flags nif) NETIF_FLAG_IGMP then map_option snd (igmp_start n i) else Some i);
       Some (n, s\<lparr>h_ip := i\<rparr>)
     }
   }"

definition netif_remove :: "addr \<Rightarrow> host \<Rightarrow> host option" where
  "netif_remove n s =
     (if n = NULL then Some s
      else do {
        nif \<leftarrow> netifs (h_ip s) n;
        i \<leftarrow> (if has (netif_flags nif) NETIF_FLAG_IGMP then map_option snd (igmp_stop n (h_ip s)) else Some (h_ip s));
        if n \<in> set (ip_netif_list i)
        then do {
          let s = s\<lparr>h_ip := i\<lparr>ip_netif_list := remove1 n (ip_netif_list i)\<rparr>\<rparr>;
          Some (if ip_netif_default (h_ip s) = n then netif_set_default NULL s else s)
        }
        else Some (s\<lparr>h_ip := i\<rparr>)
      })"

fun find_loop :: "u8 \<Rightarrow> u8 \<times> u8 \<Rightarrow> addr list \<Rightarrow> ip \<Rightarrow> addr option" where
  "find_loop num c [] i = Some NULL"
| "find_loop num c (n # ns) i = do {
     nif \<leftarrow> netifs i n;
     if num = netif_num nif \<and> fst c = fst (netif_name nif) \<and> snd c = snd (netif_name nif) then Some n
     else find_loop num c ns i
   }"

definition netif_find :: "u8 list option \<Rightarrow> host \<Rightarrow> addr option" where
  "netif_find name s = (case name of
     None \<Rightarrow> Some NULL
   | Some name \<Rightarrow> do {
       d \<leftarrow> elem name 2; c0 \<leftarrow> elem name 0; c1 \<leftarrow> elem name 1;
       find_loop (d - 48) (c0, c1) (ip_netif_list (h_ip s)) (h_ip s)
     })"

end
