(* ===== verification/Netif_Calls.thy ===== *)
theory Netif_Calls
  imports Netif Igmp_States Tcp_Frame
begin

section \<open>Interfaces: what the calls do\<close>

text \<open>
  The interfaces TCP sees, what a change of address does to connections and listeners, and what the calls of \<^verbatim>\<open>netif.c\<close> and
  of IGMP leave alone.
\<close>

subsection \<open>Well-formed lists\<close>

definition netif_ok :: "ip \<Rightarrow> bool" where
  "netif_ok i \<longleftrightarrow> distinct (ip_netif_list i) \<and> netifs i NULL = None \<and> (\<forall>n \<in> set (ip_netif_list i). netifs i n \<noteq> None)
     \<and> (ip_netif_default i \<noteq> NULL \<longrightarrow> netifs i (ip_netif_default i) \<noteq> None)"

definition same_netifs :: "ip \<Rightarrow> ip \<Rightarrow> bool" where
  "same_netifs i i' \<longleftrightarrow> netifs i' = netifs i \<and> ip_netif_list i' = ip_netif_list i \<and> ip_netif_default i' = ip_netif_default i"

lemma same_netifs_refl [simp]: "same_netifs i i"
  by (simp add: same_netifs_def)

lemma same_netifs_trans: "same_netifs i j \<Longrightarrow> same_netifs j k \<Longrightarrow> same_netifs i k"
  by (simp add: same_netifs_def)

lemma same_netifs_ok: "same_netifs i i' \<Longrightarrow> netif_ok i' = netif_ok i"
  by (simp add: same_netifs_def netif_ok_def)

lemma those_map_some:
  assumes "\<forall>x \<in> set xs. m x \<noteq> None"
  shows "those (map m xs) = Some (map (\<lambda>x. the (m x)) xs)"
  using assms by (induction xs) auto

lemma netif_view_is:
  assumes "netif_ok i"
  shows "netif_view i t = Some (t\<lparr>netif_list := map (\<lambda>n. the (netifs i n)) (ip_netif_list i),
    netif_default := (if ip_netif_default i = NULL then None else netifs i (ip_netif_default i))\<rparr>)"
  using assms those_map_some [of "ip_netif_list i" "netifs i"]
  by (auto simp: netif_view_def default_netif_def netif_ok_def)

subsection \<open>Routing\<close>

text \<open>TCP, which knows only the contents of the interfaces, takes the route that IP takes.\<close>

abbreviation routes_to :: "u32 \<Rightarrow> netif \<Rightarrow> bool" where
  "routes_to dest n \<equiv> netif_is_up n \<and> ip_addr_netcmp dest (netif_ip_addr n) (netif_netmask n)"

lemma find_map: "List.find P (map f xs) = map_option f (List.find (\<lambda>x. P (f x)) xs)"
  by (induction xs) auto

lemma route_loop_is:
  assumes "\<forall>n \<in> set ns. netifs i n \<noteq> None" "ip_netif_default i \<noteq> NULL \<longrightarrow> netifs i (ip_netif_default i) \<noteq> None"
  shows "route_loop dest ns i = Some (case List.find (\<lambda>a. routes_to dest (the (netifs i a))) ns of
      Some a \<Rightarrow> a
    | None \<Rightarrow> if ip_netif_default i \<noteq> NULL \<and> netif_is_up (the (netifs i (ip_netif_default i))) then ip_netif_default i else NULL)"
  using assms by (induction ns) auto

lemma ip_route_netif_is:
  assumes "netif_ok i"
  shows "ip_route_netif dest i = Some (case List.find (\<lambda>a. routes_to dest (the (netifs i a))) (ip_netif_list i) of
      Some a \<Rightarrow> a
    | None \<Rightarrow> if ip_netif_default i \<noteq> NULL \<and> netif_is_up (the (netifs i (ip_netif_default i))) then ip_netif_default i else NULL)"
  using assms unfolding ip_route_netif_def netif_ok_def by (intro route_loop_is) auto

lemma ip_route_view:
  assumes "netif_ok i" "netif_view i t = Some t'" "ip_route_netif dest i = Some a"
  shows "ip_route dest t' = (if a = NULL then None else netifs i a)"
proof -
  have m: "netifs i b = Some (the (netifs i b)) \<and> b \<noteq> NULL" if "b \<in> set (ip_netif_list i)" for b
    using assms(1) that unfolding netif_ok_def by fastforce
  have t': "netif_list t' = map (\<lambda>n. the (netifs i n)) (ip_netif_list i)"
    "netif_default t' = (if ip_netif_default i = NULL then None else netifs i (ip_netif_default i))"
    using assms(2) by (auto simp: netif_view_is [OF assms(1)])
  have a: "a = (case List.find (\<lambda>a. routes_to dest (the (netifs i a))) (ip_netif_list i) of
      Some a \<Rightarrow> a
    | None \<Rightarrow> if ip_netif_default i \<noteq> NULL \<and> netif_is_up (the (netifs i (ip_netif_default i))) then ip_netif_default i else NULL)"
    using assms(3) ip_route_netif_is [OF assms(1), of dest] by simp
  show ?thesis
  proof (cases "List.find (\<lambda>a. routes_to dest (the (netifs i a))) (ip_netif_list i)")
    case None
    then show ?thesis using a t' assms(1) by (auto simp: ip_route_def find_map netif_ok_def)
  next
    case (Some b)
    then have "b \<in> set (ip_netif_list i)" by (auto simp: find_Some_iff)
    from m [OF this] obtain n where "netifs i b = Some n" "b \<noteq> NULL" by blast
    then show ?thesis using Some a t' by (simp add: ip_route_def find_map)
  qed
qed

subsection \<open>A change of address\<close>

text \<open>The application's error callbacks do not call back into TCP.\<close>

definition passive_errors :: "app \<Rightarrow> bool" where
  "passive_errors app \<longleftrightarrow> (\<forall>k arg e t. app_err app k arg e t = t)"

definition tcp_listed :: "tcp \<Rightarrow> bool" where
  "tcp_listed t \<longleftrightarrow> distinct (tcp_active_pcbs t) \<and> NULL \<notin> set (tcp_active_pcbs t)
     \<and> (\<forall>a \<in> set (tcp_active_pcbs t). \<exists>p. pcbs t a = Some p \<and> pcb_addr p = a \<and> state p \<noteq> TIME_WAIT)
     \<and> (\<forall>a \<in> set (tcp_listen_pcbs t). pcbs t a \<noteq> None) \<and> set (tcp_listen_pcbs t) \<inter> set (tcp_active_pcbs t) = {}"

lemma tcp_abort_is:
  assumes "pcbs t a = Some p" "pcb_addr p = a" "state p \<noteq> TIME_WAIT" "passive_errors app"
  shows "\<exists>m d. tcp_abort app a t = Some (t\<lparr>tcp_active_pcbs := remove1 a (tcp_active_pcbs t), pcbs := (pcbs t)(a := None), mem := m, ip_out := d\<rparr>)"
proof -
  obtain p' u where r: "tcp_pcb_remove RMV_active p t = (p', u)" by force
  have "quiet (RMV_active a t) u"
    using r assms(2) tcp_output_snd_frame
    by (fastforce simp: tcp_pcb_remove_def Let_def split: prod.splits if_splits)
  then obtain m d where u: "u = (RMV_active a t)\<lparr>mem := m, ip_out := d\<rparr>" by (auto simp: quiet_def)
  have "quiet (free_pcb a u) (tcp_rst (snd_nxt p) (rcv_nxt p) (local_ip p) (remote_ip p) (local_port p) (remote_port p) (free_pcb a u))"
    by simp
  then obtain m d where "tcp_rst (snd_nxt p) (rcv_nxt p) (local_ip p) (remote_ip p) (local_port p) (remote_port p) (free_pcb a u) = (free_pcb a u)\<lparr>mem := m, ip_out := d\<rparr>"
    by (auto simp: quiet_def)
  then show ?thesis using assms r u
    by (auto simp: tcp_abort_def passive_errors_def tcp_event_err_def free_pcb_def RMV_active_def Let_def)
qed

abbreviation on_address :: "u32 \<Rightarrow> tcp \<Rightarrow> addr \<Rightarrow> bool" where
  "on_address old t a \<equiv> map_option local_ip (pcbs t a) = Some old"

lemma next_pcb_append: "distinct (as @ b # bs) \<Longrightarrow> next_pcb (as @ b # bs) b = (case bs of [] \<Rightarrow> NULL | y # _ \<Rightarrow> y)"
  by (induction as) auto

lemma abort_bound_is:
  assumes "passive_errors app" "distinct (as @ bs)" "NULL \<notin> set bs" "tcp_active_pcbs t = as @ bs"
    "\<forall>a \<in> set bs. \<exists>p. pcbs t a = Some p \<and> pcb_addr p = a \<and> state p \<noteq> TIME_WAIT"
  shows "\<exists>m d. abort_bound app old (case bs of [] \<Rightarrow> NULL | a # _ \<Rightarrow> a) t =
    Some (t\<lparr>tcp_active_pcbs := as @ filter (\<lambda>a. \<not> on_address old t a) bs,
      pcbs := (\<lambda>a. if a \<in> set bs \<and> on_address old t a then None else pcbs t a), mem := m, ip_out := d\<rparr>)"
  using assms(2-)
proof (induction bs arbitrary: as t)
  case Nil
  have "t = t\<lparr>tcp_active_pcbs := as, pcbs := pcbs t, mem := mem t, ip_out := ip_out t\<rparr>" using Nil(3) by (cases t) simp
  then have "\<exists>m d. t = t\<lparr>tcp_active_pcbs := as, pcbs := pcbs t, mem := m, ip_out := d\<rparr>" by blast
  then show ?case by (subst abort_bound.simps) simp
next
  case (Cons b bs)
  obtain p where p: "pcbs t b = Some p" "pcb_addr p = b" "state p \<noteq> TIME_WAIT" using Cons.prems(4) by auto
  have b: "b \<noteq> NULL" "b \<notin> set as" "b \<notin> set bs" "next_pcb (as @ b # bs) b = (case bs of [] \<Rightarrow> NULL | y # _ \<Rightarrow> y)"
    using Cons.prems(1,2) next_pcb_append by auto
  show ?case
  proof (cases "local_ip p = old")
    case True
    obtain m d where ab: "tcp_abort app b t = Some (t\<lparr>tcp_active_pcbs := remove1 b (tcp_active_pcbs t), pcbs := (pcbs t)(b := None), mem := m, ip_out := d\<rparr>)"
      (is "_ = Some ?u") using tcp_abort_is [OF p assms(1)] by blast
    have act: "tcp_active_pcbs ?u = as @ bs" using Cons.prems(3) b by (simp add: remove1_append)
    have pu: "pcbs ?u a = pcbs t a" if "a \<in> set bs" for a using that b by auto
    obtain m' d' where "abort_bound app old (case bs of [] \<Rightarrow> NULL | a # _ \<Rightarrow> a) ?u =
      Some (?u\<lparr>tcp_active_pcbs := as @ filter (\<lambda>a. \<not> on_address old ?u a) bs,
        pcbs := (\<lambda>a. if a \<in> set bs \<and> on_address old ?u a then None else pcbs ?u a), mem := m', ip_out := d'\<rparr>)"
      using Cons.IH [OF _ _ act] Cons.prems(1,2,4) pu by auto
    moreover have "filter (\<lambda>a. \<not> on_address old ?u a) bs = filter (\<lambda>a. \<not> on_address old t a) bs"
      using pu by (intro filter_cong) auto
    moreover have "(\<lambda>a. if a \<in> set bs \<and> on_address old ?u a then None else pcbs ?u a)
        = (\<lambda>a. if a \<in> set (b # bs) \<and> on_address old t a then None else pcbs t a)"
      using p True b by (auto simp: fun_eq_iff)
    ultimately show ?thesis using b p True ab Cons.prems(3) by (subst abort_bound.simps) auto
  next
    case False
    obtain m d where "abort_bound app old (case bs of [] \<Rightarrow> NULL | a # _ \<Rightarrow> a) t =
      Some (t\<lparr>tcp_active_pcbs := (as @ [b]) @ filter (\<lambda>a. \<not> on_address old t a) bs,
        pcbs := (\<lambda>a. if a \<in> set bs \<and> on_address old t a then None else pcbs t a), mem := m, ip_out := d\<rparr>)"
      using Cons.IH [of "as @ [b]" t] Cons.prems by auto
    moreover have "(\<lambda>a. if a \<in> set bs \<and> on_address old t a then None else pcbs t a)
        = (\<lambda>a. if a \<in> set (b # bs) \<and> on_address old t a then None else pcbs t a)"
      using p False by (auto simp: fun_eq_iff)
    ultimately show ?thesis using b p False Cons.prems(3) by (subst abort_bound.simps) auto
  qed
qed

text \<open>A block after its listeners were moved.\<close>

definition moved :: "u32 \<Rightarrow> u32 \<Rightarrow> tcp_pcb \<Rightarrow> tcp_pcb" where
  "moved old new p = (if local_ip p = old \<and> old \<noteq> 0 then p\<lparr>local_ip := new\<rparr> else p)"

lemma move_listeners_is:
  assumes "\<forall>a \<in> set ls. pcbs t a \<noteq> None"
  shows "move_listeners old new ls t = Some (t\<lparr>pcbs := (\<lambda>a. if a \<in> set ls then map_option (moved old new) (pcbs t a) else pcbs t a)\<rparr>)"
  using assms
proof (induction ls arbitrary: t)
  case (Cons l ls)
  obtain p where p: "pcbs t l = Some p" using Cons.prems(1) by auto
  let ?t = "t\<lparr>pcbs := (pcbs t)(l \<mapsto> moved old new p)\<rparr>"
  have idem: "moved old new (moved old new q) = moved old new q" for q by (simp add: moved_def)
  have "move_listeners old new (l # ls) t = move_listeners old new ls ?t"
    using p by (auto simp: moved_def ip_addr_isany_def fun_upd_idem)
  also have "\<dots> = Some (?t\<lparr>pcbs := (\<lambda>a. if a \<in> set ls then map_option (moved old new) (pcbs ?t a) else pcbs ?t a)\<rparr>)"
    using Cons.prems p by (intro Cons.IH) auto
  also have "(\<lambda>a. if a \<in> set ls then map_option (moved old new) (pcbs ?t a) else pcbs ?t a)
      = (\<lambda>a. if a \<in> set (l # ls) then map_option (moved old new) (pcbs t a) else pcbs t a)"
    using p idem by (auto simp: fun_eq_iff)
  finally show ?case by simp
qed simp

lemma change_address_is:
  assumes "passive_errors app" "tcp_listed t"
  shows "\<exists>m d. change_address app old new t = Some (t\<lparr>tcp_active_pcbs := filter (\<lambda>a. \<not> on_address old t a) (tcp_active_pcbs t),
    pcbs := (\<lambda>a. if a \<in> set (tcp_active_pcbs t) \<and> on_address old t a then None
      else if a \<in> set (tcp_listen_pcbs t) then map_option (moved old new) (pcbs t a) else pcbs t a), mem := m, ip_out := d\<rparr>)"
proof -
  note l = assms(2) [unfolded tcp_listed_def]
  obtain m d where ab: "abort_bound app old (case tcp_active_pcbs t of [] \<Rightarrow> NULL | a # _ \<Rightarrow> a) t =
    Some (t\<lparr>tcp_active_pcbs := filter (\<lambda>a. \<not> on_address old t a) (tcp_active_pcbs t),
      pcbs := (\<lambda>a. if a \<in> set (tcp_active_pcbs t) \<and> on_address old t a then None else pcbs t a), mem := m, ip_out := d\<rparr>)"
    (is "_ = Some ?u") using abort_bound_is [OF assms(1), of "[]" "tcp_active_pcbs t" t old] l by auto
  have pu: "pcbs ?u a = pcbs t a" if "a \<in> set (tcp_listen_pcbs t)" for a using that l by auto
  have ls: "\<forall>a \<in> set (tcp_listen_pcbs t). pcbs ?u a \<noteq> None" using l pu by simp
  let ?g = "\<lambda>a. if a \<in> set (tcp_active_pcbs t) \<and> on_address old t a then None
      else if a \<in> set (tcp_listen_pcbs t) then map_option (moved old new) (pcbs t a) else pcbs t a"
  have g: "(\<lambda>a. if a \<in> set (tcp_listen_pcbs t) then map_option (moved old new) (pcbs ?u a) else pcbs ?u a) = ?g"
    using l by (auto simp: fun_eq_iff)
  have "move_listeners old new (tcp_listen_pcbs t) ?u = Some (?u\<lparr>pcbs := ?g\<rparr>)"
    using move_listeners_is [of "tcp_listen_pcbs t" ?u old new, unfolded g] ls by blast
  then have "change_address app old new t = Some (?u\<lparr>pcbs := ?g\<rparr>)" using ab by (simp add: change_address_def)
  then show ?thesis by (intro exI [of _ m] exI [of _ d]) simp
qed

end
