(* ===== verification/Netif_States.thy ===== *)
theory Netif_States
  imports Netif_Calls
begin

section \<open>Interfaces: what holds in every reachable state\<close>

text \<open>
  The calls of \<^verbatim>\<open>netif.c\<close>, of TCP and of IGMP are the steps of a host.  In every reachable state the interfaces of the list are
  distinct and in use, the default interface exists, and the groups of IGMP are well formed.
\<close>

subsection \<open>IGMP leaves the interfaces alone\<close>

named_theorems netifs_kept

lemma set_group_netifs [simp]: "same_netifs s (set_group g c t) = same_netifs s t" "same_netifs (set_group g c s) t = same_netifs s t"
  by (simp_all add: same_netifs_def set_group_def)

lemma mac_filter_netifs [simp]: "same_netifs s (igmp_mac_filter n a f t) = same_netifs s t" "same_netifs (igmp_mac_filter n a f s) t = same_netifs s t"
  by (simp_all add: same_netifs_def igmp_mac_filter_def)

lemma sends_netifs [netifs_kept]: "sends s s' \<Longrightarrow> same_netifs s s'"
  by (auto simp: same_netifs_def sends_def)

lemma igmp_output_netifs [netifs_kept]: "igmp_ip_output_if p room src dest life proto n s = Some (e, s') \<Longrightarrow> same_netifs s s'"
  by (auto simp: igmp_ip_output_if_def same_netifs_def netif_output_def Let_def split: if_splits list.splits Option.bind_splits)

lemma igmp_send_netifs [netifs_kept]: "igmp_send g ty s = Some s' \<Longrightarrow> same_netifs s s'"
proof -
  assume a: "igmp_send g ty s = Some s'"
  obtain r t where t: "ip_alloc IGMP_MINLEN s = (r, t)" by force
  have st: "same_netifs s t" by (rule sends_netifs [OF ip_alloc_sends [OF t]])
  have "same_netifs t s'" using a
    by (cases r) (auto simp: igmp_send_def t split: if_splits Option.bind_splits dest!: igmp_output_netifs)
  then show ?thesis by (rule same_netifs_trans [OF st])
qed

lemma delaying_member_netifs [netifs_kept]: "igmp_delaying_member g m s = Some s' \<Longrightarrow> same_netifs s s'"
  by (auto simp: igmp_delaying_member_def split: Option.bind_splits)

lemma delay_groups_netifs [netifs_kept]:
  assumes "delay_groups n except m g s = Some s'"
  shows "same_netifs s s'"
proof (rule delay_groups.raw_induct [OF _ assms], goal_cases)
  case (1 self n except m g s y)
  then show ?case
    by (fastforce split: if_splits Option.bind_splits dest: delaying_member_netifs intro: same_netifs_trans)
qed

lemma igmp_input_netifs [netifs_kept]: "igmp_input p inp dest s = Some s' \<Longrightarrow> same_netifs s s'"
  by (auto simp: igmp_input_def igmp_query_def Let_def split: if_splits Option.bind_splits
    dest: delaying_member_netifs delay_groups_netifs)

lemma igmp_tmr_loop_netifs:
  assumes "igmp_tmr_loop g s = Some s'"
  shows "same_netifs s s'"
proof (rule igmp_tmr_loop.raw_induct [OF _ assms], goal_cases)
  case (1 self g s y)
  show ?case
  proof (cases "g = NULL")
    case False
    then obtain c t and d :: igmp_group where "igmp_mem s g = Some c" and t: "(if ig_timer c \<noteq> 0
          then let s = set_group g (c\<lparr>ig_timer := ig_timer c - 1\<rparr>) s in if ig_timer c - 1 = 0 then igmp_timeout g s else Some s
          else Some s) = Some t" and r: "self (ig_next d) t = Some y"
      using 1(2) by (auto simp: Option.bind_eq_Some_conv)
    have "same_netifs s t" using t
      by (auto simp: igmp_timeout_def Let_def split: if_splits Option.bind_splits dest!: igmp_send_netifs)
    then show ?thesis using 1(1) [OF r] by (rule same_netifs_trans)
  qed (use 1(2) in simp)
qed

lemma lookup_group_netifs [netifs_kept]: "igmp_lookup_group n a s = Some (g, s') \<Longrightarrow> same_netifs s s'"
  by (auto simp: igmp_lookup_group_def same_netifs_def set_group_def split: if_splits list.splits Option.bind_splits)

lemma igmp_start_netifs [netifs_kept]: "igmp_start n s = Some (e, s') \<Longrightarrow> same_netifs s s'"
  by (auto simp: igmp_start_def Let_def split: if_splits Option.bind_splits dest!: lookup_group_netifs)

lemma remove_group_netifs [netifs_kept]: "igmp_remove_group g s = Some (e, s') \<Longrightarrow> same_netifs s s'"
  by (auto simp: igmp_remove_group_def same_netifs_def split: if_splits Option.bind_splits)

lemma igmp_stop_loop_netifs:
  assumes "igmp_stop_loop n g prev s = Some s'"
  shows "same_netifs s s'"
proof (rule igmp_stop_loop.raw_induct [OF _ assms], goal_cases)
  case (1 self n g prev s y)
  then show ?case
    by (fastforce simp: Let_def same_netifs_def set_group_def igmp_mac_filter_def split: if_splits Option.bind_splits)
qed

lemma igmp_stop_netifs [netifs_kept]: "igmp_stop n s = Some (e, s') \<Longrightarrow> same_netifs s s'"
  by (auto simp: igmp_stop_def dest: igmp_stop_loop_netifs)

text \<open>\<^verbatim>\<open>igmp_stop\<close> moves no group to another interface.\<close>

lemma igmp_stop_loop_interfaces:
  assumes "igmp_stop_loop n g prev s = Some s'"
  shows "igmp_mem s' h = Some c \<Longrightarrow> map_option ig_interface (igmp_mem s h) = Some (ig_interface c)"
proof -
  have "\<forall>c. igmp_mem s' h = Some c \<longrightarrow> map_option ig_interface (igmp_mem s h) = Some (ig_interface c)"
  proof (rule igmp_stop_loop.raw_induct [OF _ assms], goal_cases)
    case (1 self n g prev s y)
    then show ?case
      by (fastforce simp: Let_def set_group_def igmp_mac_filter_def split: if_splits Option.bind_splits)
  qed
  then show "igmp_mem s' h = Some c \<Longrightarrow> map_option ig_interface (igmp_mem s h) = Some (ig_interface c)" by blast
qed

lemma igmp_stop_interfaces: "igmp_stop n s = Some (e, s') \<Longrightarrow> igmp_mem s' h = Some c \<Longrightarrow> map_option ig_interface (igmp_mem s h) = Some (ig_interface c)"
  by (auto simp: igmp_stop_def dest: igmp_stop_loop_interfaces)

lemma join_group_netifs: "join_group n a g s = Some s' \<Longrightarrow> same_netifs s s'"
proof -
  assume "join_group n a g s = Some s'"
  then obtain c t d where c: "igmp_mem s g = Some c" and t: "(if ig_state c \<noteq> IGMP_GROUP_NON_MEMBER then Some s
       else do {
         let s = (if ig_use c = 0 then igmp_mac_filter n a IGMP_ADD_MAC_FILTER s else s);
         s \<leftarrow> igmp_send g IGMP_V2_MEMB_REPORT s;
         c \<leftarrow> igmp_mem s g;
         Some (set_group g ((igmp_start_timer IGMP_JOIN_DELAYING_MEMBER_TMR c)\<lparr>ig_state := IGMP_GROUP_DELAYING_MEMBER\<rparr>) s)
       }) = Some t" and d: "s' = set_group g d t"
    by (auto simp: join_group_def Option.bind_eq_Some_conv)
  have "same_netifs s t" using t
    by (auto simp: Let_def split: if_splits Option.bind_splits dest!: igmp_send_netifs)
  then show ?thesis by (simp add: d)
qed

lemma joingroup_loop_netifs: "joingroup_loop ifaddr a ns e s = Some (e', s') \<Longrightarrow> same_netifs s s'"
  by (induction ns arbitrary: e s)
    (fastforce split: if_splits Option.bind_splits dest: lookup_group_netifs join_group_netifs intro: same_netifs_trans)+

lemma leave_group_netifs: "leave_group n a g s = Some s' \<Longrightarrow> same_netifs s s'"
  by (auto simp: leave_group_def split: if_splits Option.bind_splits dest!: igmp_send_netifs remove_group_netifs intro: same_netifs_trans)

lemma leavegroup_loop_netifs: "leavegroup_loop ifaddr a ns e s = Some (e', s') \<Longrightarrow> same_netifs s s'"
  by (induction ns arbitrary: e s)
    (fastforce split: if_splits Option.bind_splits dest: leave_group_netifs intro: same_netifs_trans)+

lemma igmp_step_netifs: "igmp_step i i' \<Longrightarrow> same_netifs i i'"
  by (induction rule: igmp_step.induct)
    (auto simp: igmp_joingroup_def igmp_leavegroup_def igmp_report_groups_def igmp_tmr_def split: if_splits
      intro: netifs_kept joingroup_loop_netifs leavegroup_loop_netifs igmp_tmr_loop_netifs)

subsection \<open>The calls\<close>

definition host_ok :: "host \<Rightarrow> bool" where
  "host_ok s \<longleftrightarrow> netif_ok (h_ip s) \<and> igmp_ok (h_ip s)"

text \<open>
  The function \<^verbatim>\<open>init\<close> of a driver fills in the flags, the transfer unit and the name of its interface, and may set its
  function \<^verbatim>\<open>igmp_mac_filter\<close>.
\<close>

definition driver :: "(addr \<Rightarrow> host \<Rightarrow> err \<times> host) \<Rightarrow> bool" where
  "driver init \<longleftrightarrow> (\<forall>n s nif. netifs (h_ip s) n = Some nif \<longrightarrow> (\<exists>e f m c mf. init n s = (e, s\<lparr>h_ip := (h_ip s)\<lparr>
     netifs := (netifs (h_ip s))(n \<mapsto> nif\<lparr>netif_flags := f, netif_mtu := m, netif_name := c\<rparr>), mac_filtered := mf\<rparr>\<rparr>)))"

lemma igmp_ok_configured:
  assumes "igmp_ok i" "netifs i n \<noteq> None"
  shows "igmp_ok (i\<lparr>netifs := (netifs i)(n \<mapsto> x), mac_filtered := mf\<rparr>)"
  using assms unfolding igmp_ok_def igmp_listed_def by auto

lemma host_ok_configured:
  assumes "host_ok s" "netifs (h_ip s) n \<noteq> None"
  shows "host_ok (s\<lparr>h_ip := (h_ip s)\<lparr>netifs := (netifs (h_ip s))(n \<mapsto> x), mac_filtered := mf\<rparr>\<rparr>)"
  using assms igmp_ok_configured [of "h_ip s" n mf x] by (auto simp: host_ok_def netif_ok_def)

lemma host_ok_fields [simp]: "host_ok (s\<lparr>h_tcp := t\<rparr>) = host_ok s" "host_ok (s\<lparr>h_netifnum := k\<rparr>) = host_ok s"
  by (simp_all add: host_ok_def)

lemma set_netif_is:
  assumes "netifs (h_ip s) n = Some nif"
  shows "set_netif n f s = Some (s\<lparr>h_ip := (h_ip s)\<lparr>netifs := (netifs (h_ip s))(n \<mapsto> f nif)\<rparr>\<rparr>)"
  using assms by (simp add: set_netif_def)

lemma set_netif_ok: "host_ok s \<Longrightarrow> set_netif n f s = Some s' \<Longrightarrow> host_ok s'"
  using host_ok_configured [of s n "mac_filtered (h_ip s)"] by (auto simp: set_netif_def Option.bind_eq_Some_conv)

lemma on_tcp_ok: "host_ok s \<Longrightarrow> on_tcp f s = Some s' \<Longrightarrow> host_ok s'"
  by (auto simp: on_tcp_def Option.bind_eq_Some_conv)

lemma netif_set_ipaddr_ok: "host_ok s \<Longrightarrow> netif_set_ipaddr app n a s = Some s' \<Longrightarrow> host_ok s'"
  by (auto simp: netif_set_ipaddr_def Option.bind_eq_Some_conv split: if_splits intro: set_netif_ok on_tcp_ok)

lemma netif_set_addr_ok: "host_ok s \<Longrightarrow> netif_set_addr app n a m g s = Some s' \<Longrightarrow> host_ok s'"
  by (simp add: netif_set_addr_def netif_set_netmask_def netif_set_gw_def Option.bind_eq_Some_conv)
    (metis netif_set_ipaddr_ok set_netif_ok)

lemma set_default_ok: "host_ok s \<Longrightarrow> n = NULL \<or> netifs (h_ip s) n \<noteq> None \<Longrightarrow> host_ok (netif_set_default n s)"
  by (auto simp: host_ok_def netif_set_default_def netif_ok_def igmp_ok_def igmp_listed_def)

lemma unlisted_ok:
  assumes "netif_ok i" "igmp_ok i"
  shows "host_ok (s\<lparr>h_ip := i\<lparr>ip_netif_list := remove1 n (ip_netif_list i)\<rparr>\<rparr>)"
  using assms unfolding host_ok_def netif_ok_def igmp_ok_def igmp_listed_def by (auto dest: in_set_remove1)

text \<open>\<^verbatim>\<open>netif_remove\<close> returns, and forgets an interface that is on the list.\<close>

lemma netif_remove_is:
  assumes "host_ok s" "netifs (h_ip s) n = Some nif" "n \<in> set (ip_netif_list (h_ip s))"
  shows "\<exists>s'. netif_remove n s = Some s' \<and> host_ok s' \<and> h_tcp s' = h_tcp s \<and> h_netifnum s' = h_netifnum s \<and> netifs (h_ip s') = netifs (h_ip s)
    \<and> ip_netif_list (h_ip s') = remove1 n (ip_netif_list (h_ip s)) \<and> ip_netif_default (h_ip s') = (if ip_netif_default (h_ip s) = n then NULL else ip_netif_default (h_ip s))
    \<and> (has (netif_flags nif) NETIF_FLAG_IGMP \<longrightarrow> (\<forall>g c. igmp_mem (h_ip s') g = Some c \<longrightarrow> ig_interface c \<noteq> n))"
proof -
  have n: "n \<noteq> NULL" using assms(1,2) unfolding host_ok_def netif_ok_def by auto
  obtain i where i: "(if has (netif_flags nif) NETIF_FLAG_IGMP then map_option snd (igmp_stop n (h_ip s)) else Some (h_ip s)) = Some i"
    "igmp_ok i" "same_netifs (h_ip s) i"
    and g: "has (netif_flags nif) NETIF_FLAG_IGMP \<Longrightarrow> igmp_mem i g = Some c \<Longrightarrow> ig_interface c \<noteq> n" for g c
  proof (cases "has (netif_flags nif) NETIF_FLAG_IGMP")
    case True
    obtain xs where xs: "igmp_listed (h_ip s) xs" using assms(1) by (auto simp: host_ok_def elim: igmp_okE)
    obtain i where i: "igmp_stop n (h_ip s) = Some (ERR_OK, i)" "igmp_ok i"
      "igmp_listed i (filter (\<lambda>g. map_option ig_interface (igmp_mem (h_ip s) g) \<noteq> Some n) xs)"
      using igmp_stop_spec [OF _ xs, of n] assms(1) by (auto simp: host_ok_def)
    have "ig_interface c \<noteq> n" if c: "igmp_mem i g = Some c" for g c
    proof -
      have "g \<in> set (filter (\<lambda>g. map_option ig_interface (igmp_mem (h_ip s) g) \<noteq> Some n) xs)"
        using igmp_listedD(2) [OF i(3)] c by blast
      then show ?thesis using igmp_stop_interfaces [OF i(1) c] by auto
    qed
    then show ?thesis using i True igmp_stop_netifs [OF i(1)] by (intro that [of i]) auto
  next
    case False
    show ?thesis using False assms(1) by (intro that [of "h_ip s"]) (auto simp: host_ok_def)
  qed
  have l: "ip_netif_list i = ip_netif_list (h_ip s)" "ip_netif_default i = ip_netif_default (h_ip s)" "netifs i = netifs (h_ip s)"
    using i(3) by (simp_all add: same_netifs_def)
  let ?u = "s\<lparr>h_ip := i\<lparr>ip_netif_list := remove1 n (ip_netif_list i)\<rparr>\<rparr>"
  have u: "host_ok ?u" using unlisted_ok i(2,3) assms(1) same_netifs_ok by (metis host_ok_def)
  then have "host_ok (if ip_netif_default (h_ip ?u) = n then netif_set_default NULL ?u else ?u)" using set_default_ok [OF u] by simp
  moreover have "netif_remove n s = Some (if ip_netif_default (h_ip ?u) = n then netif_set_default NULL ?u else ?u)"
    using n assms(2,3) i(1) l by (simp add: netif_remove_def)
  ultimately show ?thesis
    by (rule_tac exI [of _ "if ip_netif_default (h_ip ?u) = n then netif_set_default NULL ?u else ?u"])
      (simp add: l netif_set_default_def, use g in blast)
qed

text \<open>What a change of address does to TCP, apart from the memory left, the datagrams sent and the view of the interfaces.\<close>

definition readdressed :: "u32 \<Rightarrow> u32 \<Rightarrow> tcp \<Rightarrow> tcp \<Rightarrow> bool" where
  "readdressed old new t t' \<longleftrightarrow>
     tcp_active_pcbs t' = (if old = new then tcp_active_pcbs t else filter (\<lambda>a. \<not> on_address old t a) (tcp_active_pcbs t))
     \<and> (\<forall>a. pcbs t' a = (if old = new then pcbs t a
         else if a \<in> set (tcp_active_pcbs t) \<and> on_address old t a then None
         else if a \<in> set (tcp_listen_pcbs t) then map_option (moved old new) (pcbs t a) else pcbs t a))
     \<and> tcp_listen_pcbs t' = tcp_listen_pcbs t \<and> tcp_bound_pcbs t' = tcp_bound_pcbs t \<and> tcp_tw_pcbs t' = tcp_tw_pcbs t
     \<and> tcp_ticks t' = tcp_ticks t \<and> tcp_port t' = tcp_port t \<and> tcp_iss t' = tcp_iss t"

lemma tcp_listed_view [simp]: "tcp_listed (t\<lparr>netif_list := nl, netif_default := nd\<rparr>) = tcp_listed t"
  by (simp add: tcp_listed_def)

lemma netif_set_ipaddr_is:
  assumes "host_ok s" "passive_errors app" "tcp_listed (h_tcp s)" "netifs (h_ip s) n = Some nif"
  shows "\<exists>t. netif_set_ipaddr app n new s = Some (s\<lparr>h_tcp := t, h_ip := (h_ip s)\<lparr>netifs := (netifs (h_ip s))(n \<mapsto> nif\<lparr>netif_ip_addr := new\<rparr>)\<rparr>\<rparr>)
    \<and> readdressed (netif_ip_addr nif) new (h_tcp s) t"
proof (cases "new = netif_ip_addr nif")
  case True
  then show ?thesis using assms(4) set_netif_is [of s n nif]
    by (intro exI [of _ "h_tcp s"]) (simp add: netif_set_ipaddr_def readdressed_def)
next
  case False
  let ?o = "netif_ip_addr nif"
  obtain nl nd where v: "netif_view (h_ip s) (h_tcp s) = Some ((h_tcp s)\<lparr>netif_list := nl, netif_default := nd\<rparr>)" (is "_ = Some ?v")
    using netif_view_is assms(1) by (auto simp: host_ok_def)
  have "tcp_listed ?v" using assms(3) by simp
  then obtain m d where c: "change_address app ?o new ?v = Some (?v\<lparr>tcp_active_pcbs := filter (\<lambda>a. \<not> on_address ?o ?v a) (tcp_active_pcbs ?v),
    pcbs := (\<lambda>a. if a \<in> set (tcp_active_pcbs ?v) \<and> on_address ?o ?v a then None
      else if a \<in> set (tcp_listen_pcbs ?v) then map_option (moved ?o new) (pcbs ?v a) else pcbs ?v a), mem := m, ip_out := d\<rparr>)"
    (is "_ = Some ?t") using change_address_is [OF assms(2)] by blast
  have "readdressed ?o new (h_tcp s) ?t" using False unfolding readdressed_def by auto
  moreover have "netif_set_ipaddr app n new s = Some (s\<lparr>h_tcp := ?t, h_ip := (h_ip s)\<lparr>netifs := (netifs (h_ip s))(n \<mapsto> nif\<lparr>netif_ip_addr := new\<rparr>)\<rparr>\<rparr>)"
    using False assms(4) v c by (simp add: netif_set_ipaddr_def on_tcp_def set_netif_def)
  ultimately show ?thesis by blast
qed

lemma netif_set_addr_is:
  assumes "host_ok s" "passive_errors app" "tcp_listed (h_tcp s)" "netifs (h_ip s) n = Some nif"
  shows "\<exists>t. netif_set_addr app n new nm gw s = Some (s\<lparr>h_tcp := t, h_ip := (h_ip s)\<lparr>netifs := (netifs (h_ip s))(n \<mapsto>
      nif\<lparr>netif_ip_addr := new, netif_netmask := ip_addr_set nm, netif_gw := ip_addr_set gw\<rparr>)\<rparr>\<rparr>)
    \<and> readdressed (netif_ip_addr nif) new (h_tcp s) t"
proof -
  obtain t where "netif_set_ipaddr app n new s = Some (s\<lparr>h_tcp := t, h_ip := (h_ip s)\<lparr>netifs := (netifs (h_ip s))(n \<mapsto> nif\<lparr>netif_ip_addr := new\<rparr>)\<rparr>\<rparr>)"
    "readdressed (netif_ip_addr nif) new (h_tcp s) t"
    using netif_set_ipaddr_is [OF assms] by blast
  then show ?thesis
    by (intro exI [of _ t]) (simp add: netif_set_addr_def netif_set_netmask_def netif_set_gw_def set_netif_def)
qed

text \<open>Adding an interface that is not listed.\<close>

definition added :: "addr \<Rightarrow> u32 \<Rightarrow> u32 option \<Rightarrow> u32 option \<Rightarrow> host \<Rightarrow> host \<Rightarrow> bool" where
  "added n a nm gw s s' \<longleftrightarrow> host_ok s' \<and> readdressed 0 a (h_tcp s) (h_tcp s') \<and> h_netifnum s' = h_netifnum s + 1
     \<and> ip_netif_list (h_ip s') = n # ip_netif_list (h_ip s) \<and> ip_netif_default (h_ip s') = ip_netif_default (h_ip s)
     \<and> (\<exists>nif. netifs (h_ip s') = (netifs (h_ip s))(n \<mapsto> nif) \<and> netif_ip_addr nif = a \<and> netif_netmask nif = ip_addr_set nm
         \<and> netif_gw nif = ip_addr_set gw \<and> netif_num nif = h_netifnum s)"

lemma listed_ok:
  assumes "host_ok s" "netifs (h_ip s) n \<noteq> None" "n \<notin> set (ip_netif_list (h_ip s))"
  shows "host_ok (s\<lparr>h_ip := (h_ip s)\<lparr>ip_netif_list := n # ip_netif_list (h_ip s)\<rparr>\<rparr>)"
  using assms unfolding host_ok_def netif_ok_def igmp_ok_def igmp_listed_def by auto

lemma start_listed:
  assumes "host_ok s" "netifs (h_ip s) n = Some nif"
  shows "\<exists>i. (if has (netif_flags nif) NETIF_FLAG_IGMP then map_option snd (igmp_start n (h_ip s)) else Some (h_ip s)) = Some i
    \<and> same_netifs (h_ip s) i \<and> host_ok (s\<lparr>h_ip := i\<rparr>)"
proof (cases "has (netif_flags nif) NETIF_FLAG_IGMP")
  case True
  obtain e i where i: "igmp_start n (h_ip s) = Some (e, i)" "igmp_ok i"
    using igmp_start_returns [of "h_ip s" n] assms by (auto simp: host_ok_def)
  note k = igmp_start_netifs [OF i(1)]
  have "host_ok (s\<lparr>h_ip := i\<rparr>)" using assms(1) i(2) same_netifs_ok [OF k] by (simp add: host_ok_def)
  then show ?thesis using True i k by (intro exI [of _ i]) simp
qed (use assms(1) in \<open>auto simp: host_ok_def\<close>)

lemma netif_add_steps:
  assumes "set_netif n (reset_netif (h_netifnum s)) s = Some r"
    "netif_set_addr app n a nm gw (r\<lparr>h_ip := (h_ip r)\<lparr>mac_filtered := removeAll n (mac_filtered (h_ip r))\<rparr>, h_netifnum := h_netifnum r + 1\<rparr>) = Some v"
    "init n v = (ERR_OK, w)" "n \<notin> set (ip_netif_list (h_ip w))" "netifs (h_ip w) n = Some nif"
    "(if has (netif_flags nif) NETIF_FLAG_IGMP then map_option snd (igmp_start n ((h_ip w)\<lparr>ip_netif_list := n # ip_netif_list (h_ip w)\<rparr>))
      else Some ((h_ip w)\<lparr>ip_netif_list := n # ip_netif_list (h_ip w)\<rparr>)) = Some i"
  shows "netif_add app init n a nm gw s = Some (n, w\<lparr>h_ip := i\<rparr>)"
proof -
  have n: "netifs ((h_ip w)\<lparr>ip_netif_list := n # ip_netif_list (h_ip w)\<rparr>) n = Some nif" using assms(5) by simp
  show ?thesis unfolding netif_add_def assms(1) bind.bind_lunit Let_def assms(2) assms(3) prod.case n assms(6) using assms(4) by simp
qed

lemma netif_add_is:
  assumes "host_ok s" "passive_errors app" "tcp_listed (h_tcp s)" "netifs (h_ip s) n = Some nif" "n \<notin> set (ip_netif_list (h_ip s))"
    "driver init" "\<forall>h. fst (init n h) = ERR_OK"
  shows "\<exists>s'. netif_add app init n a nm gw s = Some (n, s') \<and> added n a nm gw s s'"
proof -
  let ?r = "reset_netif (h_netifnum s) nif"
  let ?u = "s\<lparr>h_ip := (h_ip s)\<lparr>netifs := (netifs (h_ip s))(n \<mapsto> ?r), mac_filtered := removeAll n (mac_filtered (h_ip s))\<rparr>, h_netifnum := h_netifnum s + 1\<rparr>"
  have u: "host_ok ?u" using host_ok_configured [OF assms(1), of n "removeAll n (mac_filtered (h_ip s))" ?r] assms(4)
    by (simp add: host_ok_def)
  have ul: "tcp_listed (h_tcp ?u)" "netifs (h_ip ?u) n = Some ?r" using assms(3) by simp_all
  have r0: "netif_ip_addr ?r = 0" by (simp add: reset_netif_def)
  let ?f = "?r\<lparr>netif_ip_addr := a, netif_netmask := ip_addr_set nm, netif_gw := ip_addr_set gw\<rparr>"
  obtain t where t: "netif_set_addr app n a nm gw ?u = Some (?u\<lparr>h_tcp := t, h_ip := (h_ip ?u)\<lparr>netifs := (netifs (h_ip ?u))(n \<mapsto> ?f)\<rparr>\<rparr>)" (is "_ = Some ?v")
    "readdressed 0 a (h_tcp ?u) t"
    using netif_set_addr_is [OF u assms(2) ul, of a nm gw, unfolded r0] by blast
  have v: "host_ok ?v" "netifs (h_ip ?v) n = Some ?f" using netif_set_addr_ok [OF u t(1)] by simp_all
  obtain e f m c mf where "init n ?v = (e, ?v\<lparr>h_ip := (h_ip ?v)\<lparr>netifs := (netifs (h_ip ?v))(n \<mapsto> ?f\<lparr>netif_flags := f, netif_mtu := m, netif_name := c\<rparr>), mac_filtered := mf\<rparr>\<rparr>)"
    using assms(6) v(2) unfolding driver_def by blast
  moreover have "e = ERR_OK" using assms(7) calculation by (metis fst_conv)
  ultimately have w: "init n ?v = (ERR_OK, ?v\<lparr>h_ip := (h_ip ?v)\<lparr>netifs := (netifs (h_ip ?v))(n \<mapsto> ?f\<lparr>netif_flags := f, netif_mtu := m, netif_name := c\<rparr>), mac_filtered := mf\<rparr>\<rparr>)"
    (is "_ = (_, ?w)") by simp
  have wo: "host_ok ?w" using host_ok_configured [OF v(1), of n mf] v(2) by simp
  let ?x = "?w\<lparr>h_ip := (h_ip ?w)\<lparr>ip_netif_list := n # ip_netif_list (h_ip ?w)\<rparr>\<rparr>"
  have x: "host_ok ?x" using listed_ok [OF wo, of n] assms(5) by simp
  let ?nif = "?f\<lparr>netif_flags := f, netif_mtu := m, netif_name := c\<rparr>"
  have xn: "netifs (h_ip ?x) n = Some ?nif" by simp
  obtain i where i: "(if has (netif_flags ?nif) NETIF_FLAG_IGMP then map_option snd (igmp_start n (h_ip ?x)) else Some (h_ip ?x)) = Some i"
    "same_netifs (h_ip ?x) i" "host_ok (?x\<lparr>h_ip := i\<rparr>)"
    using start_listed [OF x xn] by blast
  let ?q = "s\<lparr>h_ip := (h_ip s)\<lparr>netifs := (netifs (h_ip s))(n \<mapsto> ?r)\<rparr>\<rparr>"
  have q: "set_netif n (reset_netif (h_netifnum s)) s = Some ?q" by (rule set_netif_is [OF assms(4)])
  have qa: "netif_set_addr app n a nm gw (?q\<lparr>h_ip := (h_ip ?q)\<lparr>mac_filtered := removeAll n (mac_filtered (h_ip ?q))\<rparr>, h_netifnum := h_netifnum ?q + 1\<rparr>) = Some ?v"
    using t(1) by simp
  have wn: "n \<notin> set (ip_netif_list (h_ip ?w))" "netifs (h_ip ?w) n = Some ?nif" using assms(5) by simp_all
  have "netif_add app init n a nm gw s = Some (n, ?w\<lparr>h_ip := i\<rparr>)"
    by (rule netif_add_steps [of n s ?q app a nm gw ?v init ?w ?nif i, OF q qa w wn]) (use i(1) in \<open>auto split: if_splits\<close>)
  moreover have "added n a nm gw s (?w\<lparr>h_ip := i\<rparr>)"
    using i t(2) unfolding added_def same_netifs_def by (auto simp: reset_netif_def)
  ultimately show ?thesis by blast
qed

end
