(* ===== verification/Netif_Steps.thy ===== *)
theory Netif_Steps
  imports Netif_States Ip_Cut Tcp_Options
begin

section \<open>Interfaces: the steps of a host and the properties\<close>

text \<open>
  The invariants of a host by rule induction, and the theorems on adding, configuring and removing interfaces.
\<close>

subsection \<open>Steps\<close>

text \<open>
  The memory of an interface is the application's.  TCP and the application do not touch the interfaces: a step of theirs may
  leave any state of TCP.
\<close>

inductive host_step :: "app \<Rightarrow> host \<Rightarrow> host \<Rightarrow> bool" for app where
  allocate: "n \<noteq> NULL \<Longrightarrow> netifs (h_ip s) n = None \<Longrightarrow> host_step app s (s\<lparr>h_ip := (h_ip s)\<lparr>netifs := (netifs (h_ip s))(n \<mapsto> nif)\<rparr>\<rparr>)"
| add: "driver init \<Longrightarrow> netif_add app init n a nm gw s = Some (r, s') \<Longrightarrow> host_step app s s'"
| remove: "netif_remove n s = Some s' \<Longrightarrow> host_step app s s'"
| set_addr: "netif_set_addr app n a nm gw s = Some s' \<Longrightarrow> host_step app s s'"
| set_ipaddr: "netif_set_ipaddr app n a s = Some s' \<Longrightarrow> host_step app s s'"
| set_netmask: "netif_set_netmask n nm s = Some s' \<Longrightarrow> host_step app s s'"
| set_gw: "netif_set_gw n gw s = Some s' \<Longrightarrow> host_step app s s'"
| set_up: "netif_set_up n s = Some s' \<Longrightarrow> host_step app s s'"
| set_down: "netif_set_down n s = Some s' \<Longrightarrow> host_step app s s'"
| set_default: "n = NULL \<or> netifs (h_ip s) n \<noteq> None \<Longrightarrow> host_step app s (netif_set_default n s)"
| tcp: "host_step app s (s\<lparr>h_tcp := t\<rparr>)"
| igmp: "igmp_step (h_ip s) i \<Longrightarrow> host_step app s (s\<lparr>h_ip := i\<rparr>)"

definition host_init :: "host \<Rightarrow> bool" where
  "host_init s \<longleftrightarrow> ip_netif_list (h_ip s) = [] \<and> ip_netif_default (h_ip s) = NULL \<and> netifs (h_ip s) = Map.empty \<and> igmp_init (h_ip s)"

inductive host_reachable :: "app \<Rightarrow> host \<Rightarrow> bool" for app where
  init: "host_init s \<Longrightarrow> host_reachable app s"
| step: "host_reachable app s \<Longrightarrow> host_step app s s' \<Longrightarrow> host_reachable app s'"

lemma igmp_step_host_ok: "host_ok s \<Longrightarrow> igmp_step (h_ip s) i \<Longrightarrow> host_ok (s\<lparr>h_ip := i\<rparr>)"
  using igmp_step_ok igmp_step_netifs same_netifs_ok by (fastforce simp: host_ok_def)

lemma start_ok:
  assumes "host_ok (s\<lparr>h_ip := i\<rparr>)" "netifs i n \<noteq> None" "igmp_start n i = Some (e, j)"
  shows "host_ok (s\<lparr>h_ip := j\<rparr>)"
  using igmp_step_host_ok [OF assms(1), of j] igmp_step.start [of i n e j] assms(2,3) by simp

lemma driver_ok:
  assumes "driver init" "host_ok s" "netifs (h_ip s) n \<noteq> None"
  shows "host_ok (snd (init n s))"
proof -
  obtain nif where nif: "netifs (h_ip s) n = Some nif" using assms(3) by blast
  then obtain e f m c mf where "init n s = (e, s\<lparr>h_ip := (h_ip s)\<lparr>netifs := (netifs (h_ip s))(n \<mapsto> nif\<lparr>netif_flags := f, netif_mtu := m, netif_name := c\<rparr>), mac_filtered := mf\<rparr>\<rparr>)"
    using assms(1) unfolding driver_def by blast
  then show ?thesis using host_ok_configured [OF assms(2,3)] by simp
qed

lemma netif_set_addr_live:
  assumes "netif_set_addr app n a nm gw s = Some s'"
  shows "netifs (h_ip s') n \<noteq> None"
  using assms by (auto simp: netif_set_addr_def netif_set_gw_def set_netif_def Option.bind_eq_Some_conv)

lemma netif_add_ok:
  assumes "host_ok s" "driver init" "netif_add app init n a nm gw s = Some (r, s')"
  shows "host_ok s'"
proof -
  obtain q where q: "set_netif n (reset_netif (h_netifnum s)) s = Some q"
    using assms(3) by (auto simp: netif_add_def Option.bind_eq_Some_conv)
  obtain v where v: "netif_set_addr app n a nm gw (q\<lparr>h_ip := (h_ip q)\<lparr>mac_filtered := removeAll n (mac_filtered (h_ip q))\<rparr>, h_netifnum := h_netifnum q + 1\<rparr>) = Some v"
    using assms(3) unfolding netif_add_def q bind.bind_lunit Let_def by (auto simp only: Option.bind_eq_Some_conv)
  obtain e w where w: "init n v = (e, w)" by force
  have c: "(if e \<noteq> ERR_OK then Some (NULL, w)
      else if n \<in> set (ip_netif_list (h_ip w)) then None
      else do {
        nif \<leftarrow> netifs ((h_ip w)\<lparr>ip_netif_list := n # ip_netif_list (h_ip w)\<rparr>) n;
        i \<leftarrow> (if has (netif_flags nif) NETIF_FLAG_IGMP then map_option snd (igmp_start n ((h_ip w)\<lparr>ip_netif_list := n # ip_netif_list (h_ip w)\<rparr>))
          else Some ((h_ip w)\<lparr>ip_netif_list := n # ip_netif_list (h_ip w)\<rparr>));
        Some (n, w\<lparr>h_ip := i\<rparr>)
      }) = Some (r, s')"
    using assms(3) unfolding netif_add_def q bind.bind_lunit Let_def v w prod.case .
  have "host_ok q" by (rule set_netif_ok [OF assms(1) q])
  then have "host_ok (q\<lparr>h_ip := (h_ip q)\<lparr>mac_filtered := removeAll n (mac_filtered (h_ip q))\<rparr>, h_netifnum := h_netifnum q + 1\<rparr>)"
    by (auto simp: host_ok_def netif_ok_def igmp_ok_def igmp_listed_def)
  then have ok: "host_ok v" by (rule netif_set_addr_ok [OF _ v])
  note wo = driver_ok [OF assms(2) ok netif_set_addr_live [OF v], unfolded w snd_conv]
  show ?thesis
  proof (cases "e = ERR_OK")
    case False
    then show ?thesis using c wo by simp
  next
    case True
    let ?i = "(h_ip w)\<lparr>ip_netif_list := n # ip_netif_list (h_ip w)\<rparr>"
    have n: "n \<notin> set (ip_netif_list (h_ip w))" using c True by (auto split: if_splits)
    then obtain nif where nif: "netifs (h_ip w) n = Some nif" using c True by (auto simp: Option.bind_eq_Some_conv)
    then have "host_ok (w\<lparr>h_ip := ?i\<rparr>)" using listed_ok [OF wo _ n] by simp
    then show ?thesis using c True n nif start_ok [where s = w and i = ?i and n = n] by (auto simp: Option.bind_eq_Some_conv split: if_splits)
  qed
qed

lemma netif_remove_ok:
  assumes "host_ok s" "netif_remove n s = Some s'"
  shows "host_ok s'"
proof (cases "n = NULL \<or> n \<in> set (ip_netif_list (h_ip s))")
  case True
  then show ?thesis
  proof
    assume n: "n \<in> set (ip_netif_list (h_ip s))"
    then obtain nif where nif: "netifs (h_ip s) n = Some nif" using assms(1) unfolding host_ok_def netif_ok_def by blast
    from netif_remove_is [OF assms(1) nif n] assms(2) show ?thesis by auto
  qed (use assms in \<open>simp add: netif_remove_def\<close>)
next
  case False
  then obtain nif where nif: "netifs (h_ip s) n = Some nif" using assms(2) by (auto simp: netif_remove_def Option.bind_eq_Some_conv)
  obtain i where i: "(if has (netif_flags nif) NETIF_FLAG_IGMP then map_option snd (igmp_stop n (h_ip s)) else Some (h_ip s)) = Some i"
    using assms(2) False nif by (auto simp: netif_remove_def Option.bind_eq_Some_conv)
  have c: "n \<notin> set (ip_netif_list i) \<longrightarrow> s' = s\<lparr>h_ip := i\<rparr>"
    using assms(2) False unfolding netif_remove_def nif bind.bind_lunit i by auto
  have k: "host_ok (s\<lparr>h_ip := i\<rparr>)" "same_netifs (h_ip s) i"
    using i igmp_step_host_ok [OF assms(1) igmp_step.stop] assms(1) igmp_stop_netifs
    by (auto simp: host_ok_def split: if_splits)
  then show ?thesis using False c by (simp add: same_netifs_def)
qed

lemma host_step_ok: "host_step app s s' \<Longrightarrow> host_ok s \<Longrightarrow> host_ok s'"
proof (induction rule: host_step.induct)
  case (allocate n s nif)
  then show ?case unfolding host_ok_def netif_ok_def igmp_ok_def igmp_listed_def by (auto; metis)
next
  case (set_default n s)
  then show ?case by (intro set_default_ok)
next
  case (igmp s i)
  then show ?case by (intro igmp_step_host_ok)
qed (auto simp: netif_set_netmask_def netif_set_gw_def netif_set_up_def netif_set_down_def
  intro: netif_add_ok netif_remove_ok netif_set_addr_ok netif_set_ipaddr_ok set_netif_ok)

lemma host_reachable_ok: "host_reachable app s \<Longrightarrow> host_ok s"
  by (induction rule: host_reachable.induct)
    (auto simp: host_init_def host_ok_def netif_ok_def igmp_init_ok dest: host_step_ok)

subsection \<open>Finding an interface\<close>

lemma netif_find_first:
  assumes "ip_netif_list (h_ip s) = n # ns" "netifs (h_ip s) n = Some nif"
  shows "netif_find (Some [fst (netif_name nif), snd (netif_name nif), 48 + netif_num nif]) s = Some n"
  using assms by (simp add: netif_find_def elem_def)

subsection \<open>A host\<close>

text \<open>
  A host without interfaces, whose TCP has a connection that is still waiting for a route, a connection from one address and
  a listener on it; and a driver of an interface \<^verbatim>\<open>en\<close> with IGMP.
\<close>

definition sample_host :: host where
  "sample_host = \<lparr>h_tcp = sample_tcp\<lparr>tcp_active_pcbs := [16, 24], tcp_listen_pcbs := [32],
       pcbs := [16 \<mapsto> (zero_pcb 16)\<lparr>state := SYN_SENT, remote_ip := 5\<rparr>, 24 \<mapsto> (zero_pcb 24)\<lparr>state := ESTABLISHED, local_ip := 9\<rparr>,
         32 \<mapsto> (zero_pcb 32)\<lparr>state := LISTEN, local_ip := 9\<rparr>]\<rparr>,
     h_ip = (ip_sample 1500)\<lparr>netifs := Map.empty, ip_netif_list := [], ip_netif_default := NULL\<rparr>, h_netifnum = 0\<rparr>"

definition sample_nif :: "u32 \<Rightarrow> netif" where
  "sample_nif a = \<lparr>netif_ip_addr = a, netif_netmask = 255, netif_flags = 0, netif_mtu = 0, netif_gw = 0, netif_name = (0, 0), netif_num = 0\<rparr>"

definition with_nif :: "addr \<Rightarrow> u32 \<Rightarrow> host \<Rightarrow> host" where
  "with_nif n a s = s\<lparr>h_ip := (h_ip s)\<lparr>netifs := (netifs (h_ip s))(n \<mapsto> sample_nif a)\<rparr>\<rparr>"

definition sample_driver :: "addr \<Rightarrow> host \<Rightarrow> err \<times> host" where
  "sample_driver n s = (case netifs (h_ip s) n of
     None \<Rightarrow> (ERR_OK, s)
   | Some nif \<Rightarrow> (ERR_OK, s\<lparr>h_ip := (h_ip s)\<lparr>netifs := (netifs (h_ip s))(n \<mapsto>
       nif\<lparr>netif_flags := NETIF_FLAG_UP OR NETIF_FLAG_IGMP, netif_mtu := 1500, netif_name := (101, 110)\<rparr>), mac_filtered := mac_filtered (h_ip s)\<rparr>\<rparr>))"

lemma sample_driver_ok: "driver sample_driver" "\<forall>h. fst (sample_driver n h) = ERR_OK"
proof -
  show "driver sample_driver" unfolding driver_def
  proof (intro allI impI)
    fix n and s :: host and nif assume "netifs (h_ip s) n = Some nif"
    then show "\<exists>e f m c mf. sample_driver n s = (e, s\<lparr>h_ip := (h_ip s)\<lparr>netifs := (netifs (h_ip s))(n \<mapsto> nif\<lparr>netif_flags := f, netif_mtu := m, netif_name := c\<rparr>), mac_filtered := mf\<rparr>\<rparr>)"
      unfolding sample_driver_def by (simp only: option.case) blast
  qed
qed (simp add: sample_driver_def split: option.split)

lemma null_app_passive: "passive_errors null_app"
  by (simp add: passive_errors_def null_app_def)

lemma sample_host_reachable: "host_reachable null_app sample_host" "host_reachable null_app (with_nif 1 a sample_host)"
proof -
  show r: "host_reachable null_app sample_host"
    by (rule host_reachable.init) (simp add: host_init_def igmp_init_def sample_host_def ip_sample_def)
  show "host_reachable null_app (with_nif 1 a sample_host)"
    unfolding with_nif_def by (rule host_reachable.step [OF r host_step.allocate]) (simp_all add: sample_host_def)
qed

lemma sample_host_listed: "tcp_listed (h_tcp (with_nif 1 a sample_host))"
  by (simp add: tcp_listed_def with_nif_def sample_host_def sample_defs)

lemma sample_host_fields [simp]: "netifs (h_ip (with_nif 1 a sample_host)) 1 = Some (sample_nif a)"
  "ip_netif_list (h_ip (with_nif 1 a sample_host)) = []" "netif_ip_addr (sample_nif a) = a"
  "h_tcp (with_nif 1 a sample_host) = h_tcp sample_host" "h_netifnum (with_nif 1 a sample_host) = 0"
  by (simp_all add: with_nif_def sample_host_def sample_nif_def)

text \<open>The host after the interface was added.\<close>

lemma sample_host_adds:
  "\<exists>s. netif_add null_app sample_driver 1 9 (Some 255) None (with_nif 1 0 sample_host) = Some (1, s) \<and> added 1 9 (Some 255) None (with_nif 1 0 sample_host) s
    \<and> host_reachable null_app s"
proof -
  let ?s = "with_nif 1 0 sample_host"
  have n: "1 \<notin> set (ip_netif_list (h_ip ?s))" by simp
  obtain s where s: "netif_add null_app sample_driver 1 9 (Some 255) None ?s = Some (1, s)" "added 1 9 (Some 255) None ?s s"
    using netif_add_is [OF host_reachable_ok [OF sample_host_reachable(2)] null_app_passive sample_host_listed sample_host_fields(1) n sample_driver_ok] by blast
  from host_reachable.step [OF sample_host_reachable(2) host_step.add [OF sample_driver_ok(1) s(1)]] s show ?thesis by blast
qed

subsection \<open>Properties\<close>

text \<open>
  Claim C23: in every state a host reaches, the interfaces on the list are distinct and in use, so is the default interface
  when there is one, and every multicast group belongs to an interface that is in use; so routing always returns, and returns
  \<^verbatim>\<open>NULL\<close> or an interface that is up and is the default one or on the list with the destination in its network.
\<close>

theorem host_reachable_well_formed:
  assumes "host_reachable app s"
  shows "distinct (ip_netif_list (h_ip s)) \<and> (\<forall>n \<in> set (ip_netif_list (h_ip s)). n \<noteq> NULL \<and> netifs (h_ip s) n \<noteq> None)
    \<and> (ip_netif_default (h_ip s) = NULL \<or> netifs (h_ip s) (ip_netif_default (h_ip s)) \<noteq> None)
    \<and> (\<forall>g c. igmp_mem (h_ip s) g = Some c \<longrightarrow> netifs (h_ip s) (ig_interface c) \<noteq> None)
    \<and> (\<forall>dest. \<exists>a. ip_route_netif dest (h_ip s) = Some a \<and> (a = NULL \<or> (\<exists>nif. netifs (h_ip s) a = Some nif \<and> netif_is_up nif
        \<and> (a = ip_netif_default (h_ip s) \<or> a \<in> set (ip_netif_list (h_ip s)) \<and> ip_addr_netcmp dest (netif_ip_addr nif) (netif_netmask nif)))))"
proof -
  have ok: "netif_ok (h_ip s)" "igmp_ok (h_ip s)" using host_reachable_ok [OF assms] by (simp_all add: host_ok_def)
  have g: "netifs (h_ip s) (ig_interface c) \<noteq> None" if "igmp_mem (h_ip s) g = Some c" for g c
    using ok(2) that igmp_listedD(4) by (auto elim!: igmp_okE)
  have r: "\<exists>a. ip_route_netif dest (h_ip s) = Some a \<and> (a = NULL \<or> (\<exists>nif. netifs (h_ip s) a = Some nif \<and> netif_is_up nif
        \<and> (a = ip_netif_default (h_ip s) \<or> a \<in> set (ip_netif_list (h_ip s)) \<and> ip_addr_netcmp dest (netif_ip_addr nif) (netif_netmask nif))))" for dest
  proof (cases "List.find (\<lambda>a. routes_to dest (the (netifs (h_ip s) a))) (ip_netif_list (h_ip s))")
    case None
    then show ?thesis using ok(1) unfolding ip_route_netif_is [OF ok(1)] by (auto simp: netif_ok_def)
  next
    case (Some b)
    then have b: "b \<in> set (ip_netif_list (h_ip s))" "routes_to dest (the (netifs (h_ip s) b))" by (auto simp: find_Some_iff)
    then obtain nif where "netifs (h_ip s) b = Some nif" using ok(1) unfolding netif_ok_def by blast
    then show ?thesis using Some b unfolding ip_route_netif_is [OF ok(1)] by simp
  qed
  have "n \<noteq> NULL" if "n \<in> set (ip_netif_list (h_ip s))" for n using ok(1) that unfolding netif_ok_def by metis
  then show ?thesis using ok(1) g r unfolding netif_ok_def by blast
qed

theorem host_reachable_well_formed_witness:
  "\<exists>s. host_reachable null_app s \<and> ip_netif_list (h_ip s) = [1] \<and> netifs (h_ip s) 1 \<noteq> None
    \<and> (\<exists>a. ip_route_netif 5 (h_ip s) = Some a)"
proof -
  obtain s where "added 1 9 (Some 255) None (with_nif 1 0 sample_host) s" and r: "host_reachable null_app s" using sample_host_adds by blast
  then have "ip_netif_list (h_ip s) = [1]" by (simp add: added_def)
  then show ?thesis using host_reachable_well_formed [OF r] r by (intro exI [of _ s]) auto
qed

text \<open>
  TCP, which keeps only the contents of the interfaces, routes as IP does: in every state a host reaches TCP sees
  the list and the default interface, and for each destination finds the interface whose address IP finds, or none when IP
  finds none.
\<close>

theorem tcp_routes_as_ip:
  assumes "host_reachable app s"
  shows "\<exists>t a. netif_view (h_ip s) (h_tcp s) = Some t \<and> ip_route_netif dest (h_ip s) = Some a
    \<and> ip_route dest t = (if a = NULL then None else netifs (h_ip s) a) \<and> (a \<noteq> NULL \<longrightarrow> ip_route dest t \<noteq> None)"
proof -
  have ok: "netif_ok (h_ip s)" using host_reachable_ok [OF assms] by (simp add: host_ok_def)
  obtain t a where t: "netif_view (h_ip s) (h_tcp s) = Some t" and a: "ip_route_netif dest (h_ip s) = Some a"
    using netif_view_is [OF ok] ip_route_netif_is [OF ok] by blast
  note r = ip_route_view [OF ok t a]
  have "netifs (h_ip s) a \<noteq> None" if "a \<noteq> NULL"
    using that a ok unfolding ip_route_netif_is [OF ok] netif_ok_def by (auto simp: find_Some_iff split: option.splits if_splits)
  then show ?thesis using t a r by (intro exI [of _ t] exI [of _ a]) simp
qed

theorem tcp_routes_as_ip_witness:
  "\<exists>s t a. host_reachable null_app s \<and> ip_netif_list (h_ip s) = [1] \<and> netif_view (h_ip s) (h_tcp s) = Some t
    \<and> ip_route 5 t = (if a = NULL then None else netifs (h_ip s) a)"
proof -
  obtain s where "added 1 9 (Some 255) None (with_nif 1 0 sample_host) s" and r: "host_reachable null_app s" using sample_host_adds by blast
  then have "ip_netif_list (h_ip s) = [1]" by (simp add: added_def)
  then show ?thesis using tcp_routes_as_ip [OF r, of 5] r by blast
qed

text \<open>
  Claim C24: \<^verbatim>\<open>netif_set_ipaddr\<close> gives the interface its new address.  If that differs from the old one, the active
  connections bound to the old address, and only they, are aborted: taken off the list and freed.  The listeners bound to
  the old address, unless it is 0, are moved to the new one.  All other control blocks and lists, and all other interfaces,
  stay as they are.  The application's error callbacks are taken not to call TCP.
\<close>

theorem netif_set_ipaddr_moves:
  assumes "host_reachable app s" "passive_errors app" "tcp_listed (h_tcp s)" "netifs (h_ip s) n = Some nif" "netif_ip_addr nif \<noteq> new"
  shows "\<exists>t. netif_set_ipaddr app n new s = Some (s\<lparr>h_tcp := t, h_ip := (h_ip s)\<lparr>netifs := (netifs (h_ip s))(n \<mapsto> nif\<lparr>netif_ip_addr := new\<rparr>)\<rparr>\<rparr>)
    \<and> tcp_active_pcbs t = filter (\<lambda>a. map_option local_ip (pcbs (h_tcp s) a) \<noteq> Some (netif_ip_addr nif)) (tcp_active_pcbs (h_tcp s))
    \<and> (\<forall>a \<in> set (tcp_active_pcbs (h_tcp s)). pcbs t a = (if a \<in> set (tcp_active_pcbs t) then pcbs (h_tcp s) a else None))
    \<and> (\<forall>a \<in> set (tcp_listen_pcbs (h_tcp s)). \<exists>p. pcbs (h_tcp s) a = Some p \<and> pcbs t a
        = Some (if local_ip p = netif_ip_addr nif \<and> netif_ip_addr nif \<noteq> 0 then p\<lparr>local_ip := new\<rparr> else p))
    \<and> (\<forall>a. a \<notin> set (tcp_active_pcbs (h_tcp s)) \<union> set (tcp_listen_pcbs (h_tcp s)) \<longrightarrow> pcbs t a = pcbs (h_tcp s) a)
    \<and> tcp_listen_pcbs t = tcp_listen_pcbs (h_tcp s) \<and> tcp_bound_pcbs t = tcp_bound_pcbs (h_tcp s) \<and> tcp_tw_pcbs t = tcp_tw_pcbs (h_tcp s)"
proof -
  obtain t where t: "netif_set_ipaddr app n new s = Some (s\<lparr>h_tcp := t, h_ip := (h_ip s)\<lparr>netifs := (netifs (h_ip s))(n \<mapsto> nif\<lparr>netif_ip_addr := new\<rparr>)\<rparr>\<rparr>)"
    "readdressed (netif_ip_addr nif) new (h_tcp s) t"
    using netif_set_ipaddr_is [OF host_reachable_ok [OF assms(1)] assms(2-4)] by blast
  let ?o = "netif_ip_addr nif"
  have r: "tcp_active_pcbs t = filter (\<lambda>a. \<not> on_address ?o (h_tcp s) a) (tcp_active_pcbs (h_tcp s))"
    "pcbs t a = (if a \<in> set (tcp_active_pcbs (h_tcp s)) \<and> on_address ?o (h_tcp s) a then None
      else if a \<in> set (tcp_listen_pcbs (h_tcp s)) then map_option (moved ?o new) (pcbs (h_tcp s) a) else pcbs (h_tcp s) a)"
    "tcp_listen_pcbs t = tcp_listen_pcbs (h_tcp s)" "tcp_bound_pcbs t = tcp_bound_pcbs (h_tcp s)" "tcp_tw_pcbs t = tcp_tw_pcbs (h_tcp s)" for a
    using t(2) assms(5) by (simp_all add: readdressed_def)
  note l = assms(3) [unfolded tcp_listed_def]
  have d: "a \<notin> set (tcp_active_pcbs (h_tcp s))" "\<exists>p. pcbs (h_tcp s) a = Some p" if "a \<in> set (tcp_listen_pcbs (h_tcp s))" for a
    using l that by blast+
  have a: "pcbs t a = (if a \<in> set (tcp_active_pcbs t) then pcbs (h_tcp s) a else None)" if "a \<in> set (tcp_active_pcbs (h_tcp s))" for a
    using that d(1) [of a] unfolding r(1,2) by auto
  have b: "\<exists>p. pcbs (h_tcp s) a = Some p \<and> pcbs t a = Some (if local_ip p = ?o \<and> ?o \<noteq> 0 then p\<lparr>local_ip := new\<rparr> else p)"
    if "a \<in> set (tcp_listen_pcbs (h_tcp s))" for a
    using that d [OF that] unfolding r(2) by (auto simp: moved_def)
  have c: "pcbs t a = pcbs (h_tcp s) a" if "a \<notin> set (tcp_active_pcbs (h_tcp s)) \<union> set (tcp_listen_pcbs (h_tcp s))" for a
    using that unfolding r(2) by simp
  show ?thesis using t(1) a b c r(1,3-5) by (intro exI [of _ t]) blast
qed

theorem netif_set_ipaddr_moves_witness:
  "\<exists>s. netif_set_ipaddr null_app 1 7 (with_nif 1 9 sample_host) = Some s \<and> tcp_active_pcbs (h_tcp s) = [16] \<and> pcbs (h_tcp s) 24 = None
    \<and> map_option local_ip (pcbs (h_tcp s) 32) = Some 7 \<and> map_option netif_ip_addr (netifs (h_ip s) 1) = Some 7"
proof -
  let ?s = "with_nif 1 9 sample_host"
  have ne: "netif_ip_addr (sample_nif 9) \<noteq> 7" by simp
  have o: "tcp_active_pcbs (h_tcp sample_host) = [16, 24]" "tcp_listen_pcbs (h_tcp sample_host) = [32]"
    "pcbs (h_tcp sample_host) 16 = Some ((zero_pcb 16)\<lparr>state := SYN_SENT, remote_ip := 5\<rparr>)"
    "pcbs (h_tcp sample_host) 24 = Some ((zero_pcb 24)\<lparr>state := ESTABLISHED, local_ip := 9\<rparr>)"
    "pcbs (h_tcp sample_host) 32 = Some ((zero_pcb 32)\<lparr>state := LISTEN, local_ip := 9\<rparr>)"
    by (simp_all add: sample_host_def)
  show ?thesis
    using netif_set_ipaddr_moves [OF sample_host_reachable(2) null_app_passive sample_host_listed sample_host_fields(1) ne]
    by (auto simp: o zero_pcb_def)
qed

text \<open>
  Claim C27: \<^verbatim>\<open>netif_add\<close> aborts connections that have nothing to do with the interface.  The structure is reset, so its old
  address is 0, and giving it an address other than 0 aborts every active connection whose local address is still
  unspecified: one that was opened while there was no route, whose address \<^verbatim>\<open>tcp_output\<close> would have filled in once there was
  one.  Listeners on any address are spared by the test \<^verbatim>\<open>ip_addr_isany\<close>, which the loop over connections lacks.
\<close>

theorem netif_add_aborts_unbound:
  assumes "host_reachable app s" "passive_errors app" "tcp_listed (h_tcp s)" "netifs (h_ip s) n = Some nif" "n \<notin> set (ip_netif_list (h_ip s))"
    "driver init" "\<forall>h. fst (init n h) = ERR_OK" "ipaddr \<noteq> 0"
  shows "\<exists>s'. netif_add app init n ipaddr nm gw s = Some (n, s')
    \<and> (\<forall>a p. a \<in> set (tcp_active_pcbs (h_tcp s)) \<longrightarrow> pcbs (h_tcp s) a = Some p \<longrightarrow>
        (if local_ip p = 0 then a \<notin> set (tcp_active_pcbs (h_tcp s')) \<and> pcbs (h_tcp s') a = None
         else a \<in> set (tcp_active_pcbs (h_tcp s')) \<and> pcbs (h_tcp s') a = Some p))
    \<and> (\<forall>a \<in> set (tcp_listen_pcbs (h_tcp s)). pcbs (h_tcp s') a = pcbs (h_tcp s) a)"
proof -
  obtain s' where s': "netif_add app init n ipaddr nm gw s = Some (n, s')" "added n ipaddr nm gw s s'"
    using netif_add_is [OF host_reachable_ok [OF assms(1)] assms(2-7)] by blast
  have r: "readdressed 0 ipaddr (h_tcp s) (h_tcp s')" using s'(2) by (simp add: added_def)
  note l = assms(3) [unfolded tcp_listed_def]
  have "map_option (moved 0 ipaddr) x = x" for x by (cases x) (simp_all add: moved_def)
  then have "\<forall>a \<in> set (tcp_listen_pcbs (h_tcp s)). pcbs (h_tcp s') a = pcbs (h_tcp s) a"
    using r l assms(8) unfolding readdressed_def by auto
  moreover have "if local_ip p = 0 then a \<notin> set (tcp_active_pcbs (h_tcp s')) \<and> pcbs (h_tcp s') a = None
      else a \<in> set (tcp_active_pcbs (h_tcp s')) \<and> pcbs (h_tcp s') a = Some p"
    if "a \<in> set (tcp_active_pcbs (h_tcp s))" "pcbs (h_tcp s) a = Some p" for a p
    using r l that assms(8) unfolding readdressed_def by auto
  ultimately show ?thesis using s'(1) by (intro exI [of _ s']) blast
qed

theorem netif_add_aborts_unbound_witness:
  "\<exists>s'. netif_add null_app sample_driver 1 9 (Some 255) None (with_nif 1 0 sample_host) = Some (1, s')
    \<and> state ((zero_pcb 16)\<lparr>state := SYN_SENT, remote_ip := 5\<rparr>) = SYN_SENT \<and> pcbs (h_tcp sample_host) 16 \<noteq> None
    \<and> 16 \<notin> set (tcp_active_pcbs (h_tcp s')) \<and> pcbs (h_tcp s') 16 = None \<and> 24 \<in> set (tcp_active_pcbs (h_tcp s'))"
proof -
  let ?s = "with_nif 1 0 sample_host"
  have n: "1 \<notin> set (ip_netif_list (h_ip ?s))" by simp
  have o: "tcp_active_pcbs (h_tcp sample_host) = [16, 24]"
    "pcbs (h_tcp sample_host) 16 = Some ((zero_pcb 16)\<lparr>state := SYN_SENT, remote_ip := 5\<rparr>)"
    "pcbs (h_tcp sample_host) 24 = Some ((zero_pcb 24)\<lparr>state := ESTABLISHED, local_ip := 9\<rparr>)"
    by (simp_all add: sample_host_def)
  have p: "local_ip ((zero_pcb 16)\<lparr>state := SYN_SENT, remote_ip := 5\<rparr>) = 0" "local_ip ((zero_pcb 24)\<lparr>state := ESTABLISHED, local_ip := 9\<rparr>) = 9"
    by (simp_all add: zero_pcb_def)
  have nz: "(9 :: u32) \<noteq> 0" by simp
  obtain s' where s': "netif_add null_app sample_driver 1 9 (Some 255) None ?s = Some (1, s')"
    and q: "\<forall>a p. a \<in> set (tcp_active_pcbs (h_tcp ?s)) \<longrightarrow> pcbs (h_tcp ?s) a = Some p \<longrightarrow>
        (if local_ip p = 0 then a \<notin> set (tcp_active_pcbs (h_tcp s')) \<and> pcbs (h_tcp s') a = None
         else a \<in> set (tcp_active_pcbs (h_tcp s')) \<and> pcbs (h_tcp s') a = Some p)"
    using netif_add_aborts_unbound [OF sample_host_reachable(2) null_app_passive sample_host_listed sample_host_fields(1) n sample_driver_ok nz] by blast
  then show ?thesis using q [rule_format, of 16] q [rule_format, of 24] o p by (intro exI [of _ s']) simp
qed

text \<open>
  Claim C25: an interface that is added is found by its name and number, whatever other interfaces there are: \<^verbatim>\<open>netif_add\<close>
  puts it in front of the list with the addresses it is given and the next number, and \<^verbatim>\<open>netif_find\<close> of the two letters of its
  name and the character \<^verbatim>\<open>'0'\<close> plus its number returns it.  Removing it again leaves the list as it was.
\<close>

theorem netif_add_find_remove:
  assumes "host_reachable app s" "passive_errors app" "tcp_listed (h_tcp s)" "netifs (h_ip s) n = Some nif0" "n \<notin> set (ip_netif_list (h_ip s))"
    "driver init" "\<forall>h. fst (init n h) = ERR_OK"
  shows "\<exists>s' nif s''. netif_add app init n ipaddr nm gw s = Some (n, s') \<and> netifs (h_ip s') n = Some nif
    \<and> netif_ip_addr nif = ipaddr \<and> netif_netmask nif = ip_addr_set nm \<and> netif_gw nif = ip_addr_set gw \<and> netif_num nif = h_netifnum s
    \<and> ip_netif_list (h_ip s') = n # ip_netif_list (h_ip s)
    \<and> netif_find (Some [fst (netif_name nif), snd (netif_name nif), 48 + netif_num nif]) s' = Some n
    \<and> netif_remove n s' = Some s'' \<and> ip_netif_list (h_ip s'') = ip_netif_list (h_ip s) \<and> ip_netif_default (h_ip s'') \<noteq> n"
proof -
  obtain s' where s': "netif_add app init n ipaddr nm gw s = Some (n, s')" "added n ipaddr nm gw s s'"
    using netif_add_is [OF host_reachable_ok [OF assms(1)] assms(2-7)] by blast
  then obtain nif where nif: "netifs (h_ip s') n = Some nif" "netif_ip_addr nif = ipaddr" "netif_netmask nif = ip_addr_set nm"
    "netif_gw nif = ip_addr_set gw" "netif_num nif = h_netifnum s" and ok: "host_ok s'" and l: "ip_netif_list (h_ip s') = n # ip_netif_list (h_ip s)"
    by (auto simp: added_def)
  have "n \<noteq> NULL" using ok nif(1) unfolding host_ok_def netif_ok_def by auto
  moreover obtain s'' where "netif_remove n s' = Some s''" "ip_netif_list (h_ip s'') = remove1 n (ip_netif_list (h_ip s'))"
    "ip_netif_default (h_ip s'') = (if ip_netif_default (h_ip s') = n then NULL else ip_netif_default (h_ip s'))"
    using netif_remove_is [OF ok nif(1)] l by auto
  moreover have "netif_find (Some [fst (netif_name nif), snd (netif_name nif), 48 + netif_num nif]) s' = Some n"
    by (rule netif_find_first [OF l nif(1)])
  ultimately show ?thesis using s'(1) nif l by (intro exI [of _ s'] exI [of _ nif] exI [of _ s'']) simp
qed

theorem netif_add_find_remove_witness:
  "\<exists>s' (nif :: netif) s''. netif_add null_app sample_driver 1 9 (Some 255) None (with_nif 1 0 sample_host) = Some (1, s')
    \<and> netif_num nif = 0 \<and> netif_find (Some [fst (netif_name nif), snd (netif_name nif), 48]) s' = Some 1
    \<and> netif_remove 1 s' = Some s'' \<and> ip_netif_list (h_ip s'') = []"
proof -
  have n: "1 \<notin> set (ip_netif_list (h_ip (with_nif 1 0 sample_host)))" by simp
  obtain s' s'' and nif :: netif where "netif_add null_app sample_driver 1 9 (Some 255) None (with_nif 1 0 sample_host) = Some (1, s')"
    "netif_num nif = 0" "netif_find (Some [fst (netif_name nif), snd (netif_name nif), 48 + netif_num nif]) s' = Some 1"
    "netif_remove 1 s' = Some s''" "ip_netif_list (h_ip s'') = []"
    using netif_add_find_remove [OF sample_host_reachable(2) null_app_passive sample_host_listed sample_host_fields(1) n sample_driver_ok, of 9 "Some 255" None]
    unfolding sample_host_fields by blast
  then show ?thesis by (rule_tac exI [of _ s'], rule_tac exI [of _ nif], rule_tac exI [of _ s'']) simp
qed

text \<open>
  Claim C26: \<^verbatim>\<open>netif_remove\<close> of an interface on the list returns and forgets it: it is neither on the list nor the default
  interface, nothing is routed to it any more, and, when it has the flag \<^verbatim>\<open>NETIF_FLAG_IGMP\<close>, no multicast group is left on it.
  TCP is left alone: connections from its address stay.
\<close>

theorem netif_remove_forgets:
  assumes "host_reachable app s" "netifs (h_ip s) n = Some nif" "n \<in> set (ip_netif_list (h_ip s))"
  shows "\<exists>s'. netif_remove n s = Some s' \<and> n \<notin> set (ip_netif_list (h_ip s')) \<and> ip_netif_default (h_ip s') \<noteq> n
    \<and> set (ip_netif_list (h_ip s')) = set (ip_netif_list (h_ip s)) - {n} \<and> (\<forall>dest. ip_route_netif dest (h_ip s') \<noteq> Some n)
    \<and> (netif_flags nif AND NETIF_FLAG_IGMP \<noteq> 0 \<longrightarrow> (\<forall>g c. igmp_mem (h_ip s') g = Some c \<longrightarrow> ig_interface c \<noteq> n)) \<and> h_tcp s' = h_tcp s"
proof -
  note ok = host_reachable_ok [OF assms(1)]
  obtain s' where s': "netif_remove n s = Some s'" "host_ok s'" "h_tcp s' = h_tcp s" "ip_netif_list (h_ip s') = remove1 n (ip_netif_list (h_ip s))"
    "ip_netif_default (h_ip s') = (if ip_netif_default (h_ip s) = n then NULL else ip_netif_default (h_ip s))"
    and g: "has (netif_flags nif) NETIF_FLAG_IGMP \<longrightarrow> (\<forall>g c. igmp_mem (h_ip s') g = Some c \<longrightarrow> ig_interface c \<noteq> n)"
    using netif_remove_is [OF ok assms(2,3)] by blast
  have n: "n \<noteq> NULL" "distinct (ip_netif_list (h_ip s))" "netif_ok (h_ip s')" using ok assms(2) s'(2) unfolding host_ok_def netif_ok_def by auto
  then have l: "n \<notin> set (ip_netif_list (h_ip s'))" "ip_netif_default (h_ip s') \<noteq> n" "set (ip_netif_list (h_ip s')) = set (ip_netif_list (h_ip s)) - {n}"
    using s'(4,5) by simp_all
  have "ip_route_netif dest (h_ip s') \<noteq> Some n" for dest
    using l n unfolding ip_route_netif_is [OF n(3)] by (auto simp: find_Some_iff split: option.splits)
  then show ?thesis using s'(1,3) l g by (intro exI [of _ s']) simp
qed

theorem netif_remove_forgets_witness:
  "\<exists>s s'. host_reachable null_app s \<and> ip_netif_list (h_ip s) = [1] \<and> netif_remove 1 s = Some s' \<and> ip_netif_list (h_ip s') = []
    \<and> ip_route_netif 5 (h_ip s') \<noteq> Some 1"
proof -
  obtain s where s: "added 1 9 (Some 255) None (with_nif 1 0 sample_host) s" and r: "host_reachable null_app s" using sample_host_adds by blast
  then obtain nif where l: "ip_netif_list (h_ip s) = [1]" and nif: "netifs (h_ip s) 1 = Some nif" by (auto simp: added_def)
  have "1 \<in> set (ip_netif_list (h_ip s))" using l by simp
  from netif_remove_forgets [OF r nif this] show ?thesis using l r by auto
qed

end
