(* ===== verification/Spec2Isabelle.thy ===== *)
theory Spec2Isabelle
  imports Wideint64 Int64x64 Inet_Addr Pbuf_Chksum Tcp_Wire Tcp_Invariant Ip_Reply Ip_Limits Udp_Wire Igmp_Members Netif_Steps
begin

text \<open>
  \<^bold>\<open>Verification of the C core of the MobilityFirst simulator tree.\<close>

  The repository is an all-in-one distribution of the ns-3 network simulator (\<^verbatim>\<open>ns-3.11\<close>, C++, with the MobilityFirst
  protocol modules), its Network Simulation Cradle (\<^verbatim>\<open>nsc-0.5.2\<close>, C, which runs the network stacks of real systems inside the
  simulator) and a binding generator.  This development models the C code that carries a protocol or an algorithm of its own
  and is small enough to be translated as a whole: the stack lwIP 1.3.0 (\<^verbatim>\<open>nsc-0.5.2/lwip-1.3.0/src/core\<close>) in the
  configuration the cradle builds it with (\<^verbatim>\<open>NO_SYS\<close>, raw API, TCP, UDP, ICMP, IGMP, raw IP, reassembly and fragmentation,
  no forwarding), and the emulated wide integers behind the simulation time (\<^verbatim>\<open>ns-3.11/src/core/model/cairo-wideint.c\<close>).

  \<^bold>\<open>Parts and how they meet.\<close>  An application calls TCP, UDP or raw IP; these build segments and datagrams in packet
  buffers and call IP, which routes, adds a header, cuts what is longer than the MTU and calls the driver.  The driver calls
  \<^verbatim>\<open>ip_input\<close>, which checks the header, collects fragments and calls the protocols.  Timers are called from outside.

  \<^item> \<^verbatim>\<open>Prelude\<close>: words as pairs of halves, products, signed reading, division; \<^verbatim>\<open>Inet_Order\<close>: byte order and the byte memory.
  \<^item> \<^verbatim>\<open>Wideint_Div\<close>, \<^verbatim>\<open>Wideint64\<close>, \<^verbatim>\<open>Wideint128\<close> (\<^verbatim>\<open>cairo-wideint.c\<close>), \<^verbatim>\<open>Int64x64\<close> (\<^verbatim>\<open>int64x64-cairo.cc\<close>): every operation of the two-word
    integers implements the operation on words; the contract of the bit-at-a-time division is the locale \<^verbatim>\<open>shift_subtract\<close>,
    interpreted on both sizes; the fixed-point product is off by one unit for some operands.
  \<^item> \<^verbatim>\<open>Inet_Addr\<close> (\<^verbatim>\<open>inet.c\<close>): printing and parsing of addresses.  \<^verbatim>\<open>Inet_Chksum\<close>, \<^verbatim>\<open>Pbuf_Chksum\<close> (\<^verbatim>\<open>inet_chksum.c\<close>): the three
    implementations of the checksum and the checksums over packets against RFC 1071.
  \<^item> \<^verbatim>\<open>Pbuf\<close>, \<^verbatim>\<open>Pbuf_Chain\<close>, \<^verbatim>\<open>Pbuf_Refs\<close>, \<^verbatim>\<open>Pbuf_Ops\<close>, \<^verbatim>\<open>Pbuf_Copy\<close> (\<^verbatim>\<open>pbuf.c\<close>): packet buffers in a store; reference counts, contents
    and lengths after every operation.
  \<^item> \<^verbatim>\<open>Tcp\<close> (\<^verbatim>\<open>tcp.h\<close>), \<^verbatim>\<open>Tcp_Out\<close> (\<^verbatim>\<open>tcp_out.c\<close>), \<^verbatim>\<open>Tcp_Pcb\<close> (\<^verbatim>\<open>tcp.c\<close>), \<^verbatim>\<open>Tcp_In\<close> (\<^verbatim>\<open>tcp_in.c\<close>): the model of TCP.  \<^verbatim>\<open>Tcp_Seq\<close>: sequence
    numbers as distances; \<^verbatim>\<open>Tcp_Stream\<close>: reassembly of the byte stream; \<^verbatim>\<open>Tcp_Send\<close>: the send queue and the windows;
    \<^verbatim>\<open>Tcp_Options\<close>: options, segment size and ports; \<^verbatim>\<open>Tcp_Frame\<close>: what the output side leaves alone; \<^verbatim>\<open>Tcp_States\<close>: the state
    diagram of RFC 793 as a step relation; \<^verbatim>\<open>Tcp_Invariant\<close>: properties of all control blocks in all reachable states (the
    locale \<^verbatim>\<open>pcb_invariant\<close>, interpreted for the windows and for the segment size); \<^verbatim>\<open>Tcp_Wire\<close>: a segment on the wire.
  \<^item> \<^verbatim>\<open>Ip\<close> (\<^verbatim>\<open>ip.c\<close> output, \<^verbatim>\<open>ip_frag\<close>), \<^verbatim>\<open>Icmp\<close> (\<^verbatim>\<open>icmp.c\<close>), \<^verbatim>\<open>Raw\<close> (\<^verbatim>\<open>raw.c\<close>), \<^verbatim>\<open>Ip_Reass\<close> (\<^verbatim>\<open>ip_frag.c\<close> reassembly), \<^verbatim>\<open>Ip_In\<close>
    (\<^verbatim>\<open>ip_input\<close>, \<^verbatim>\<open>ip_forward\<close>): the model of IP.  \<^verbatim>\<open>Ip_Wire\<close>: headers in memory and their checksum; \<^verbatim>\<open>Ip_Cut\<close>: what
    \<^verbatim>\<open>ip_frag\<close> sends; \<^verbatim>\<open>Ip_Round\<close>: fragments received are the datagram received; \<^verbatim>\<open>Ip_Reply\<close>: forwarding and echo;
    \<^verbatim>\<open>Ip_Limits\<close>: where reassembly and the error messages go wrong.
  \<^item> \<^verbatim>\<open>Linked\<close>: lists linked through a field in a store, and the walks the protocols write out over them; their laws are the locale
    \<^verbatim>\<open>linked_list\<close>, interpreted on the blocks of raw IP and UDP and on the groups of IGMP.
  \<^item> \<^verbatim>\<open>Udp\<close> (\<^verbatim>\<open>udp.c\<close>), \<^verbatim>\<open>Igmp\<close> (\<^verbatim>\<open>igmp.c\<close>): the models of UDP and IGMP.  \<^verbatim>\<open>Ip_Frame\<close>: what sending leaves alone; \<^verbatim>\<open>Udp_Lists\<close>: the
    list of the blocks, the search for a port and for a receiver; \<^verbatim>\<open>Udp_States\<close>: UDP as a step relation and what holds in all
    its reachable states; \<^verbatim>\<open>Udp_Wire\<close>: a datagram from the sender's call to the receiver's callback.  \<^verbatim>\<open>Igmp_Lists\<close>: the list of groups,
    the timer and queries, group by group; \<^verbatim>\<open>Igmp_States\<close>: IGMP as a step relation; \<^verbatim>\<open>Igmp_Members\<close>: when a member reports, and
    when it never does.
  \<^item> \<^verbatim>\<open>Netif\<close> (\<^verbatim>\<open>netif.c\<close>): interfaces, on a host that joins the states of TCP and IP and shows TCP the interfaces of IP.
    \<^verbatim>\<open>Netif_Calls\<close>: routes, and what a change of address does to connections; \<^verbatim>\<open>Netif_States\<close>: what IGMP leaves alone, and
    the calls on well-formed hosts; \<^verbatim>\<open>Netif_Steps\<close>: a host as a step relation, and the theorems on adding, configuring and
    removing interfaces.
  \<^item> this theory: a TCP segment carried by IP from one stack to another.

  \<^bold>\<open>Conventions.\<close>  A structure is a record, a pointer the number of a cell in a store (\<^verbatim>\<open>NULL\<close> is 0), an integer a word of its
  width.  The theories on \<^verbatim>\<open>pbuf.c\<close> have buffers in memory; above them a packet is the list of the payloads of its
  buffers, together with the number of bytes (\<^verbatim>\<open>room\<close>) that \<^verbatim>\<open>pbuf_header\<close> can uncover in front of the first.
  An access outside a buffer, the use of \<^verbatim>\<open>NULL\<close> or of a freed cell, an index out of range, a division by zero and a loop
  that does not end are \<^const>\<open>None\<close>: loops that need not end are \<^theory_text>\<open>partial_function\<close>s, so that no bound or fuel is chosen
  anywhere, and that a function returns is proved.  What is outside the sources is data of the state or a parameter: the
  outcomes of allocations (and what fresh memory holds) are a list that is consumed, the driver's answers a function of what
  it is given, the packets given to it a trace, and the callbacks of an application a function of the arguments and the
  state.  \<^verbatim>\<open>LWIP_ASSERT\<close>, debug output, statistics and SNMP counters have no effect in this build and are left out.

  \<^bold>\<open>Findings.\<close>  Where the code does not do what it should, the theorem says what it does: see the theorems with
  \<^verbatim>\<open>loses_carry\<close>, \<^verbatim>\<open>hangs\<close>, \<^verbatim>\<open>divides_by_zero\<close>, \<^verbatim>\<open>keeps_fin\<close>, \<^verbatim>\<open>takes_any_fin\<close>, \<^verbatim>\<open>null_dereference\<close>, \<^verbatim>\<open>accepts_hole\<close>,
  \<^verbatim>\<open>evicts_dangling\<close>, \<^verbatim>\<open>mtu_limits\<close>, \<^verbatim>\<open>aborts_unbound\<close>, \<^verbatim>\<open>postpone\<close> and \<^verbatim>\<open>unanswered\<close> in their names.

  \<^bold>\<open>Not modelled.\<close>  Of lwIP: the memory managers \<^verbatim>\<open>mem.c\<close> and \<^verbatim>\<open>memp.c\<close> (the cradle builds with the allocator of the C library; their
  results are the consumed lists above), \<^verbatim>\<open>sys.c\<close> and \<^verbatim>\<open>api/\<close> (threads, not built with \<^verbatim>\<open>NO_SYS\<close>), DHCP, DNS, AutoIP, ARP, SNMP,
  PPP, SLIP and IPv6 (switched off), statistics.  Of the cradle: the stacks of Linux, FreeBSD, OpenBSD and the newer
  lwIP, each an operating system kernel of several 100,000 lines that is vendored unchanged, the globaliser, a source
  transformer generated by a parser generator, and the C++ glue.  Of ns-3: the simulator and its models, the MobilityFirst
  modules among them, which are C++ objects driven by callbacks, templates and smart pointers.
\<close>

lemma tcp_header_in_front:
  assumes "arrives (ip_hdr_bytes h @ hdr_bytes th @ data) r" "40 \<le> length (hd r)"
  obtains d ds where "r = (ip_hdr_bytes h @ hdr_bytes th @ d) # ds" "concat (d # ds) = data"
proof -
  obtain b ds where r: "r = (ip_hdr_bytes h @ b) # ds" "b @ concat ds = hdr_bytes th @ data"
    using arrives_hdr(5) [OF assms(1)] by auto
  have "20 \<le> length b" using assms(2) r(1) by simp
  moreover have "take 20 (b @ concat ds) = hdr_bytes th" unfolding r(2) by simp
  ultimately have "take 20 b = hdr_bytes th" by simp
  then have b: "b = hdr_bytes th @ drop 20 b" by (metis append_take_drop_id)
  moreover from this r(2) have "drop 20 b @ concat ds = data" by (metis append.assoc same_append_eq)
  ultimately show thesis using that [of "drop 20 b" ds] r(1) by simp
qed

lemma ip_header_for_built: "src \<noteq> 0 \<Longrightarrow> ip_header_for src dest (ip_hdr_bytes (build_ip_hdr len i src dest life ts proto nif))"
  by (simp add: ip_header_for_def) (simp add: ip_hdr_bytes_def be_bytes16_def le_bytes32_def)

lemma dispatch_tcp:
  assumes "ip_hdr_of r = Some h" "iph_proto h = IP_PROTO_TCP" "raw_pcbs t = NULL"
  shows "ip_dispatch app r room inp t = Some (To_tcp r, t)"
  using assms by (simp add: ip_dispatch_def raw_input_def raw_input_loop.simps IP_PROTO_TCP_def IP_PROTO_UDP_def)

text \<open>
  Claim C2: a segment that TCP sends reaches the TCP of the receiver through the whole stack, also when IP has to
  cut it into fragments: \<^verbatim>\<open>tcp_output_segment\<close> hands a datagram to IP, \<^verbatim>\<open>ip_output\<close> gives packets to the driver, and
  \<^verbatim>\<open>ip_input\<close> of the receiver, given these packets in order and split into any buffers, hands one packet to TCP, which
  \<^verbatim>\<open>tcp_input\<close> reads as the segment: its checksum is accepted, and it has the ports, sequence number, flags and data
  of the segment, the sender's \<^verbatim>\<open>rcv_nxt\<close> as acknowledgement and \<^verbatim>\<open>rcv_ann_wnd\<close> as window.
\<close>

theorem tcp_segment_over_ip:
  assumes "tcp_output_segment g pcb s = (g', pcb', s')" "ip_route (remote_ip pcb) s = Some m" "local_ip pcb \<noteq> 0"
    and "hdr_hdrlen (seg_hdr g) = 5" "seg_flags g AND TCP_FLAGS = seg_flags g" "concat (d # ds) = seg_data g" "length (seg_data g) < 65496"
    and "ip_route_netif (remote_ip pcb) u = Some n" "n \<noteq> NULL" "netifs u n = Some nif" "20 \<le> room"
    and "netif_mtu nif = 0 \<or> 47 \<le> unat (netif_mtu nif) \<and> unat (netif_mtu nif) \<le> 1500"
    and "ip_allocs u = map Some js @ as" "40 + length (seg_data g) < 8 * length js"
    and "ip_accepts (local_ip pcb) (remote_ip pcb) inp t" "netifs t inp = Some rnif"
    and "\<not> ip_addr_isbroadcast (remote_ip pcb) rnif" "\<not> ip_addr_ismulticast (remote_ip pcb)"
    and "raw_pcbs t = NULL" "reassdatagrams t = NULL" "ip_reass_pbufcount t = 0" "reass_avail t = a # free" "a \<noteq> NULL" "reass_mem t a = None"
  shows "\<exists>dg e u'. ip_out s' = ip_out s @ [dg]
    \<and> ip_output_pbuf ((hdr_bytes (d_hdr dg) @ d) # ds) room (local_ip pcb) (remote_ip pcb) (ttl pcb) (tos pcb) IP_PROTO_TCP u = Some (e, u')
    \<and> (\<forall>qs. list_all2 arrives (sent_packets u u') (map fst qs) \<and> 40 \<le> length (hd (fst (hd qs))) \<and> (\<Sum>q\<leftarrow>qs. length (fst q)) \<le> 10 \<longrightarrow>
      (\<exists>p r. ip_receive app inp qs t = Some (replicate (length qs - 1) Consumed @ [To_tcp p], t) \<and> parse_segment p rnif = Some (Some r)
        \<and> rx_src r = local_ip pcb \<and> rx_dest r = remote_ip pcb \<and> hdr_src (rx_hdr r) = hdr_src (seg_hdr g)
        \<and> hdr_dest (rx_hdr r) = hdr_dest (seg_hdr g) \<and> seqno r = seg_seqno g \<and> rx_flags r = seg_flags g
        \<and> ackno r = rcv_nxt pcb \<and> hdr_wnd (rx_hdr r) = rcv_ann_wnd pcb
        \<and> seg_data (inseg r) = seg_data g \<and> unat (seg_len (inseg r)) = length (seg_data g)))"
proof -
  let ?h = "emitted_hdr g pcb"
  let ?th = "with_chksum (local_ip pcb) (remote_ip pcb) (seg_data g) ?h"
  let ?p = "(hdr_bytes ?th @ d) # ds"
  let ?ih = "build_ip_hdr (word_of_nat (20 + length (concat ?p))) (ip_id u) (local_ip pcb) (remote_ip pcb) (ttl pcb) (tos pcb) IP_PROTO_TCP nif"
  have p: "concat ?p = hdr_bytes ?th @ seg_data g" using assms(6) by simp
  have len: "length (concat ?p) < 65516" "20 + length (concat ?p) < 8 * length js" using assms(7,14) unfolding p by simp_all
  obtain e u' where o: "ip_output_pbuf ?p room (local_ip pcb) (remote_ip pcb) (ttl pcb) (tos pcb) IP_PROTO_TCP u = Some (e, u')"
    and r: "\<And>qs. list_all2 arrives (sent_packets u u') (map fst qs) \<Longrightarrow> ready_for ?ih (\<Sum>q\<leftarrow>qs. length (fst q)) t \<Longrightarrow>
      \<exists>r room. arrives (ip_hdr_bytes ?ih @ concat ?p) r
        \<and> (length (hd r) = length (hd (fst (hd qs))) \<or> netif_mtu nif \<noteq> 0 \<and> min (length (hd (fst (hd qs)))) (unat (netif_mtu nif) - 7) \<le> length (hd r))
        \<and> ip_receive app inp qs t = do { (u, t) \<leftarrow> ip_dispatch app r room inp t; Some (replicate (length qs - 1) Consumed @ [u], t) }"
    using ip_output_received [where app = app and life = "ttl pcb" and ts = "tos pcb" and proto = IP_PROTO_TCP,
      OF assms(8-11) _ len(1) assms(3) _ assms(13) len(2) assms(15)] assms(12)
    by fastforce
  have dg: "ip_out s' = ip_out s @ [\<lparr>d_src = local_ip pcb, d_dest = remote_ip pcb, d_ttl = ttl pcb, d_tos = tos pcb, d_hdr = ?th, d_data = seg_data g\<rparr>]"
    using tcp_output_segment_emits [OF assms(1,2)] assms(3) by simp
  have "\<exists>p r. ip_receive app inp qs t = Some (replicate (length qs - 1) Consumed @ [To_tcp p], t) \<and> parse_segment p rnif = Some (Some r)
        \<and> rx_src r = local_ip pcb \<and> rx_dest r = remote_ip pcb \<and> hdr_src (rx_hdr r) = hdr_src (seg_hdr g)
        \<and> hdr_dest (rx_hdr r) = hdr_dest (seg_hdr g) \<and> seqno r = seg_seqno g \<and> rx_flags r = seg_flags g
        \<and> ackno r = rcv_nxt pcb \<and> hdr_wnd (rx_hdr r) = rcv_ann_wnd pcb
        \<and> seg_data (inseg r) = seg_data g \<and> unat (seg_len (inseg r)) = length (seg_data g)"
    if q: "list_all2 arrives (sent_packets u u') (map fst qs)" "40 \<le> length (hd (fst (hd qs)))" "(\<Sum>q\<leftarrow>qs. length (fst q)) \<le> 10" for qs
  proof -
    have "ready_for ?ih (\<Sum>q\<leftarrow>qs. length (fst q)) t"
      using q(3) assms(20-24) by (auto simp: ready_for_def find_reass.simps)
    from r [OF q(1) this] obtain r room where r: "arrives (ip_hdr_bytes ?ih @ concat ?p) r"
      "length (hd r) = length (hd (fst (hd qs))) \<or> netif_mtu nif \<noteq> 0 \<and> min (length (hd (fst (hd qs)))) (unat (netif_mtu nif) - 7) \<le> length (hd r)"
      "ip_receive app inp qs t = do { (u, t) \<leftarrow> ip_dispatch app r room inp t; Some (replicate (length qs - 1) Consumed @ [u], t) }"
      by blast
    have "40 \<le> length (hd r)" using q(2) r(2) assms(12) by auto
    then obtain d' ds' where d': "r = (ip_hdr_bytes ?ih @ hdr_bytes ?th @ d') # ds'" "concat (d' # ds') = seg_data g"
      using tcp_header_in_front r(1) unfolding p by blast
    have iph: "ip_header_for (local_ip pcb) (remote_ip pcb) (ip_hdr_bytes ?ih)" using assms(3) by (rule ip_header_for_built)
    have "ip_hdr_of r = Some ?ih" by (rule arrives_hdr(1) [OF r(1)])
    then have "ip_receive app inp qs t = Some (replicate (length qs - 1) Consumed @ [To_tcp r], t)"
      unfolding r(3) using assms(19) by (simp add: dispatch_tcp [where h = ?ih])
    then show ?thesis
      using tcp_segment_roundtrip [OF assms(1-3) iph d'(2) _ assms(4,5,17,18)] assms(7) unfolding dg d'(1)
      by (intro exI [of _ r]) (auto simp: d'(1))
  qed
  then show ?thesis using o dg by fastforce
qed

theorem tcp_segment_over_ip_witness:
  "\<exists>dg e u pkts p r. ip_out (snd (snd (tcp_output_segment (sample_seg 100 0x18 [replicate 30 7])
        (sample_pcb\<lparr>local_ip := 0x0200000a, remote_ip := 0x0100000a, ttl := 64\<rparr>) send_tcp))) = [dg]
    \<and> ip_output_pbuf [hdr_bytes (d_hdr dg), replicate 30 7] 20 0x0200000a 0x0100000a 64 0 IP_PROTO_TCP (ip_sample 60) = Some (e, u)
    \<and> sent_packets (ip_sample 60) u = pkts \<and> length pkts = 2
    \<and> ip_receive idle_app 1 (map (\<lambda>b. ([b], 0)) pkts) ip_receiver = Some ([Consumed, To_tcp p], ip_receiver)
    \<and> parse_segment p \<lparr>netif_ip_addr = 0x0100000a, netif_netmask = 0xffffff, netif_flags = 3, netif_mtu = 1500, netif_gw = 0, netif_name = (0, 0), netif_num = 0\<rparr> = Some (Some r)
    \<and> seqno r = 100 \<and> seg_data (inseg r) = replicate 30 7"
proof -
  let ?g = "sample_seg 100 0x18 [replicate 30 7]" and ?pcb = "sample_pcb\<lparr>local_ip := 0x0200000a, remote_ip := 0x0100000a, ttl := 64\<rparr>"
  let ?app = idle_app and ?u = "ip_sample 60"
  let ?nif = "\<lparr>netif_ip_addr = 0x0100000a, netif_netmask = 0xffffff, netif_flags = 3, netif_mtu = 1500, netif_gw = 0, netif_name = (0, 0), netif_num = 0\<rparr>"
  obtain g' p' s' where o: "tcp_output_segment ?g ?pcb send_tcp = (g', p', s')" by (metis prod_cases3)
  have t: "ip_route (remote_ip ?pcb) send_tcp = Some \<lparr>netif_ip_addr = 9, netif_netmask = 255, netif_flags = 1, netif_mtu = 1500, netif_gw = 0, netif_name = (0, 0), netif_num = 0\<rparr>"
    "ip_out send_tcp = []" "local_ip ?pcb \<noteq> 0" "hdr_hdrlen (seg_hdr ?g) = 5" "seg_flags ?g AND TCP_FLAGS = seg_flags ?g"
    "concat [[], replicate 30 7] = seg_data ?g" "length (seg_data ?g) < 65496" "ttl ?pcb = 64" "tos ?pcb = 0" "length (seg_data ?g) = 30"
    by (simp_all add: sample_defs send_tcp_def seg_data_def ip_route_def netif_is_up_def NETIF_FLAG_UP_def TCP_FLAGS_def)
  have u: "ip_route_netif (remote_ip ?pcb) ?u = Some 1"
    by (simp add: ip_route_netif_def ip_sample_def netif_is_up_def NETIF_FLAG_UP_def ip_addr_netcmp_def)
  have a: "ip_allocs ?u = map Some (replicate 16 []) @ []" by (simp add: ip_sample_def numeral_eq_Suc)
  have rcv: "ip_accepts (local_ip ?pcb) (remote_ip ?pcb) 1 ip_receiver" "netifs ip_receiver 1 = Some ?nif"
    "\<not> ip_addr_isbroadcast (remote_ip ?pcb) ?nif" "\<not> ip_addr_ismulticast (remote_ip ?pcb)" "raw_pcbs ip_receiver = NULL"
    "reassdatagrams ip_receiver = NULL" "ip_reass_pbufcount ip_receiver = 0" "reass_avail ip_receiver = 1 # [2, 3, 4, 5]" "reass_mem ip_receiver 1 = None"
    using ip_receiver_ready(1)
    by (simp_all add: ip_receiver_def ip_sample_def ip_addr_isbroadcast_def ip_addr_ismulticast_def NETIF_FLAG_BROADCAST_def ntohl_def htonl_def)
  obtain dg e u where d: "ip_out s' = [dg]" "ip_output_pbuf ((hdr_bytes (d_hdr dg) @ []) # [replicate 30 7]) 20 (local_ip ?pcb) (remote_ip ?pcb) (ttl ?pcb) (tos ?pcb)
      IP_PROTO_TCP ?u = Some (e, u)"
    "\<And>qs. list_all2 arrives (sent_packets ?u u) (map fst qs) \<Longrightarrow> 40 \<le> length (hd (fst (hd qs))) \<Longrightarrow> (\<Sum>q\<leftarrow>qs. length (fst q)) \<le> 10 \<Longrightarrow>
      \<exists>p r. ip_receive ?app 1 qs ip_receiver = Some (replicate (length qs - 1) Consumed @ [To_tcp p], ip_receiver) \<and> parse_segment p ?nif = Some (Some r)
        \<and> seqno r = seg_seqno ?g \<and> seg_data (inseg r) = seg_data ?g"
    using tcp_segment_over_ip [OF o t(1,3-5) t(6) t(7) u _ ip_sample_netif _ _ a _ rcv(1-8) _ rcv(9), of 20 ?app] by (simp add: t) blast
  let ?b = "hdr_bytes (d_hdr dg) @ []" and ?bs = "[replicate 30 7 :: u8 list]"
  let ?d = "hdr_bytes (d_hdr dg) @ replicate 30 7"
  let ?h = "build_ip_hdr (word_of_nat (20 + length (concat (?b # ?bs)))) (ip_id ?u) (local_ip ?pcb) (remote_ip ?pcb) (ttl ?pcb) (tos ?pcb) IP_PROTO_TCP
    \<lparr>netif_ip_addr = 0x0200000a, netif_netmask = 0xffffff, netif_flags = 3, netif_mtu = 60, netif_gw = 0, netif_name = (0, 0), netif_num = 0\<rparr>"
  let ?p = "(ip_hdr_bytes ?h @ ?b) # ?bs" and ?u1 = "?u\<lparr>ip_id := ip_id ?u + 1\<rparr>"
  have "tot_len ?p = 70" by (simp add: tot_len_def)
  then have f: "ip_frag ?p 1 (remote_ip ?pcb) ?u1 = Some (e, u)"
    using ip_output_builds [OF u _ ip_sample_netif, of 20 ?b ?bs] d(2) by simp
  have a1: "ip_allocs ?u1 = map Some (replicate 16 []) @ []" "netifs ?u1 1 = netifs ?u 1" "wire ?u1 = wire ?u" "wire ?u = []"
    using a by (simp_all add: ip_sample_def)
  obtain pkts where k: "list_all2 (frag_packet ?h 0 60) (cut_payload 40 0 ?d) pkts" "wire u = map (\<lambda>b. (1, [[], b], remote_ip ?pcb)) pkts"
    using ip_frag_sends [of ?p, OF ip_hdr_of_bytes a1(2) [THEN trans, OF ip_sample_netif] _ _ _ _ _ a1(1), of "remote_ip ?pcb"] f
    by (simp add: a1(4)) (auto simp: a1(4))
  have c: "cut_payload 40 0 ?d = [(0, True, take 40 ?d), (5, False, drop 40 ?d)]"
    by (subst cut_payload.simps, simp, subst cut_payload.simps, simp)
  obtain b1 b2 where b: "pkts = [b1, b2]" "frag_packet ?h 0 60 (0, True, take 40 ?d) b1" "frag_packet ?h 0 60 (5, False, drop 40 ?d) b2"
    using k(1) unfolding c by (auto simp: list_all2_Cons1)
  have sent: "sent_packets ?u u = pkts" using k(2) by (simp add: sent_packets_def a1(4) comp_def)
  have "40 \<le> length b1" using b(2) by (auto simp: frag_packet_def)
  then obtain p r where "ip_receive ?app 1 (map (\<lambda>b. ([b], 0)) pkts) ip_receiver = Some ([Consumed, To_tcp p], ip_receiver)"
    "parse_segment p ?nif = Some (Some r)" "seqno r = 100" "seg_data (inseg r) = replicate 30 7"
    using d(3) [of "map (\<lambda>b. ([b], 0)) pkts"] b frag_packet_arrives unfolding sent b(1)
    by (auto simp: sample_defs seg_data_def)
  then show ?thesis using o d(1,2) sent b(1) t(8,9) by simp
qed

end
